(* ===== verification/PdiPrelude.thy ===== *)
theory PdiPrelude
  imports Main "HOL-Library.Word"
begin

text \<open>
  Shared vocabulary of the development: the machine integer types of
  \<^verbatim>\<open>src/src/utility/pdi_types.h\<close>, the framework's error codes, the
  little-endian byte codecs the database engine and the message layers use, and
  the generic facts on lists, options and words on which the component theories rest.
\<close>

unbundle bit_operations_syntax

section \<open>Machine integers and bytes\<close>

type_synonym u8 = "8 word"
type_synonym u16 = "16 word"
type_synonym u32 = "32 word"
type_synonym u64 = "64 word"
type_synonym bytes = "u8 list"

named_theorems pdi_err_simps \<open>numeric values of the error codes\<close>
named_theorems splice_simps \<open>reading back a byte range after a ranged write\<close>

section \<open>Error codes\<close>

text \<open>
  \<open>pdi_err\<close> of \<^verbatim>\<open>pdi_types.h\<close>, restricted to the enumerators the modelled
  code returns; \<open>pdi_err_code\<close> gives the numeric value the C++ enumerator has.
\<close>

datatype pdi_err =
    PDI_OK
  | PDI_ERR_FAILURE
  | PDI_ERR_INVALID_ARG
  | PDI_ERR_NULL_PTR
  | PDI_ERR_NO_MEM
  | PDI_ERR_TIMEOUT
  | PDI_ERR_NOT_FOUND
  | PDI_ERR_NOT_SUPPORTED
  | PDI_ERR_NOT_IMPLEMENTED
  | PDI_ERR_NOT_INITIALIZED
  | PDI_ERR_BUSY
  | PDI_ERR_AGAIN
  | PDI_ERR_PERM
  | PDI_ERR_EXISTS
  | PDI_ERR_NO_SPACE
  | PDI_ERR_IO
  | PDI_ERR_OVERFLOW
  | PDI_ERR_UNDERFLOW
  | PDI_ERR_RANGE
  | PDI_ERR_STATE
  | PDI_ERR_CORRUPT
  | PDI_ERR_CRC
  | PDI_ERR_ABORTED
  | PDI_ERR_CLOSED
  | PDI_ERR_EOF
  | PDI_ERR_FULL
  | PDI_ERR_EMPTY
  | STORAGE_ERROR_BAD_PATH
  | STORAGE_ERROR_NAME_TOO_LONG
  | STORAGE_ERROR_NO_PARENT
  | STORAGE_ERROR_NOT_A_FILE
  | STORAGE_ERROR_NOT_A_DIRECTORY
  | STORAGE_ERROR_READ_ONLY
  | STORAGE_ERROR_NODE_LIMIT
  | STORAGE_ERROR_ATTR_NOT_FOUND
  | STORAGE_ERROR_NOT_MOUNTED
  | STORAGE_ERROR_BACKEND

definition PDI_ERR_BAND_SIZE :: int where "PDI_ERR_BAND_SIZE = 300"

definition PDI_ERRBASE_STORAGE :: int where "PDI_ERRBASE_STORAGE = -1800"

fun pdi_err_code :: "pdi_err \<Rightarrow> int" where
  "pdi_err_code PDI_OK = 0"
| "pdi_err_code PDI_ERR_FAILURE = -1"
| "pdi_err_code PDI_ERR_INVALID_ARG = -2"
| "pdi_err_code PDI_ERR_NULL_PTR = -3"
| "pdi_err_code PDI_ERR_NO_MEM = -4"
| "pdi_err_code PDI_ERR_TIMEOUT = -5"
| "pdi_err_code PDI_ERR_NOT_FOUND = -6"
| "pdi_err_code PDI_ERR_NOT_SUPPORTED = -7"
| "pdi_err_code PDI_ERR_NOT_IMPLEMENTED = -8"
| "pdi_err_code PDI_ERR_NOT_INITIALIZED = -9"
| "pdi_err_code PDI_ERR_BUSY = -10"
| "pdi_err_code PDI_ERR_AGAIN = -11"
| "pdi_err_code PDI_ERR_PERM = -12"
| "pdi_err_code PDI_ERR_EXISTS = -13"
| "pdi_err_code PDI_ERR_NO_SPACE = -14"
| "pdi_err_code PDI_ERR_IO = -15"
| "pdi_err_code PDI_ERR_OVERFLOW = -16"
| "pdi_err_code PDI_ERR_UNDERFLOW = -17"
| "pdi_err_code PDI_ERR_RANGE = -18"
| "pdi_err_code PDI_ERR_STATE = -19"
| "pdi_err_code PDI_ERR_CORRUPT = -20"
| "pdi_err_code PDI_ERR_CRC = -21"
| "pdi_err_code PDI_ERR_ABORTED = -22"
| "pdi_err_code PDI_ERR_CLOSED = -23"
| "pdi_err_code PDI_ERR_EOF = -24"
| "pdi_err_code PDI_ERR_FULL = -25"
| "pdi_err_code PDI_ERR_EMPTY = -26"
| "pdi_err_code STORAGE_ERROR_BAD_PATH = PDI_ERRBASE_STORAGE - 1"
| "pdi_err_code STORAGE_ERROR_NAME_TOO_LONG = PDI_ERRBASE_STORAGE - 2"
| "pdi_err_code STORAGE_ERROR_NO_PARENT = PDI_ERRBASE_STORAGE - 3"
| "pdi_err_code STORAGE_ERROR_NOT_A_FILE = PDI_ERRBASE_STORAGE - 4"
| "pdi_err_code STORAGE_ERROR_NOT_A_DIRECTORY = PDI_ERRBASE_STORAGE - 5"
| "pdi_err_code STORAGE_ERROR_READ_ONLY = PDI_ERRBASE_STORAGE - 6"
| "pdi_err_code STORAGE_ERROR_NODE_LIMIT = PDI_ERRBASE_STORAGE - 7"
| "pdi_err_code STORAGE_ERROR_ATTR_NOT_FOUND = PDI_ERRBASE_STORAGE - 8"
| "pdi_err_code STORAGE_ERROR_NOT_MOUNTED = PDI_ERRBASE_STORAGE - 9"
| "pdi_err_code STORAGE_ERROR_BACKEND = PDI_ERRBASE_STORAGE - 10"

lemmas pdi_err_base_simps [pdi_err_simps] = PDI_ERRBASE_STORAGE_def PDI_ERR_BAND_SIZE_def

lemma pdi_err_code_neg [simp]: "pdi_err_code e < 0 \<longleftrightarrow> e \<noteq> PDI_OK"
  by (cases e) (simp_all add: pdi_err_simps)

lemma pdi_err_code_zero [simp]: "pdi_err_code e = 0 \<longleftrightarrow> e = PDI_OK"
  by (cases e) (simp_all add: pdi_err_simps)

section \<open>Words\<close>

lemma word_xor_eq_0 [simp]: "a XOR b = 0 \<longleftrightarrow> a = b" for a b :: "'a::len word"
proof
  assume "a XOR b = 0"
  then have "(a XOR b) XOR b = 0 XOR b" by simp
  then show "a = b" by (simp add: xor.assoc)
qed simp

lemma word_xor_cancel [simp]: "(a XOR b) XOR b = a" for a b :: "'a::len word"
  by (simp add: xor.assoc)

lemma unat_ucast_up [simp]:
  "LENGTH('a) \<le> LENGTH('b) \<Longrightarrow> unat (ucast (w :: 'a::len word) :: 'b::len word) = unat w"
  by (metis nat_uint_eq uint_up_ucast is_up)

lemma word_less_inc:
  fixes a b :: "'a::len word"
  assumes "a < b"
  shows "unat (a + 1) = Suc (unat a)"
proof -
  have "unat a < unat b" using assms by (simp add: word_less_nat_alt)
  moreover have "unat b < 2 ^ LENGTH('a)" by (rule unsigned_less)
  ultimately have "Suc (unat a) < 2 ^ LENGTH('a)" by linarith
  moreover have "unat (a + 1) = (unat a + 1) mod 2 ^ LENGTH('a)"
    by (simp add: unat_word_ariths)
  ultimately show ?thesis by simp
qed

text \<open>Little-endian bytes put back together.\<close>

lemma le16_join: "(ucast (ucast w :: u8) OR push_bit 8 (ucast (ucast (drop_bit 8 w) :: u8))) = (w :: u16)"
  by (rule bit_word_eqI) (auto simp: bit_simps)

lemma le32_join:
  "(ucast (ucast w :: u8) OR push_bit 8 (ucast (ucast (drop_bit 8 w) :: u8))
     OR push_bit 16 (ucast (ucast (drop_bit 16 w) :: u8)) OR push_bit 24 (ucast (ucast (drop_bit 24 w) :: u8)))
   = (w :: u32)" (is "?l = w")
proof (rule bit_word_eqI)
  fix n
  assume "n < LENGTH(32)"
  then show "bit ?l n = bit w n"
    by (cases "24 \<le> n"; cases "16 \<le> n"; cases "8 \<le> n") (auto simp: bit_simps)
qed

section \<open>Ranges of a byte list\<close>

text \<open>
  \<open>slice_at\<close> is what a ranged read of a flat store returns and \<open>splice_at\<close> what a
  ranged write leaves behind. The facts below are the whole interface the database engine
  uses of them: reading the range just written, and reading a range that does not meet it.
\<close>

definition slice_at :: "nat \<Rightarrow> nat \<Rightarrow> 'a list \<Rightarrow> 'a list" where
  "slice_at off len xs = take len (drop off xs)"

definition splice_at :: "nat \<Rightarrow> 'a list \<Rightarrow> 'a list \<Rightarrow> 'a list" where
  "splice_at off ys xs = take off xs @ ys @ drop (off + length ys) xs"

lemma length_slice_at [simp]:
  "off + len \<le> length xs \<Longrightarrow> length (slice_at off len xs) = len"
  by (simp add: slice_at_def)

lemma length_splice_at [simp]:
  "off + length ys \<le> length xs \<Longrightarrow> length (splice_at off ys xs) = length xs"
  by (simp add: splice_at_def)

lemma slice_at_0 [simp]: "slice_at off 0 xs = []"
  by (simp add: slice_at_def)

lemma splice_at_Nil [simp]: "off \<le> length xs \<Longrightarrow> splice_at off [] xs = xs"
  by (simp add: splice_at_def)

lemma nth_splice_at:
  "\<lbrakk>off + length ys \<le> length xs; i < length xs\<rbrakk> \<Longrightarrow>
   splice_at off ys xs ! i = (if off \<le> i \<and> i < off + length ys then ys ! (i - off) else xs ! i)"
  by (auto simp: splice_at_def nth_append min_def)

lemma nth_slice_at: "i < len \<Longrightarrow> off + len \<le> length xs \<Longrightarrow> slice_at off len xs ! i = xs ! (off + i)"
  by (simp add: slice_at_def)

lemma slice_at_splice_same [splice_simps]:
  "off + length ys \<le> length xs \<Longrightarrow> slice_at off (length ys) (splice_at off ys xs) = ys"
  by (simp add: slice_at_def splice_at_def)

lemma slice_at_splice_disjoint [splice_simps]:
  assumes "off + length ys \<le> length xs" "off' + len \<le> length xs"
    and "off' + len \<le> off \<or> off + length ys \<le> off'"
  shows "slice_at off' len (splice_at off ys xs) = slice_at off' len xs"
  by (rule nth_equalityI) (use assms in \<open>auto simp: nth_slice_at nth_splice_at\<close>)

lemma slice_at_split:
  "off + (a + b) \<le> length xs \<Longrightarrow>
   slice_at off (a + b) xs = slice_at off a xs @ slice_at (off + a) b xs"
  by (simp add: slice_at_def take_add add.commute)

lemma splice_at_append:
  "off + length ys + length zs \<le> length xs \<Longrightarrow>
   splice_at (off + length ys) zs (splice_at off ys xs) = splice_at off (ys @ zs) xs"
  by (rule nth_equalityI) (auto simp: nth_splice_at nth_append)

lemma take_take_append: "take n (take n xs @ ys) = take n (xs @ ys)"
  by (cases "n \<le> length xs") simp_all

lemma list_all_take_drop: "list_all P xs \<Longrightarrow> list_all P (take n xs) \<and> list_all P (drop n xs)"
  by (meson in_set_dropD in_set_takeD list_all_iff)

lemma find_append: "List.find P (xs @ ys) = (case List.find P xs of None \<Rightarrow> List.find P ys | Some x \<Rightarrow> Some x)"
  by (induction xs) simp_all

lemma find_map_list: "List.find P (map f xs) = map_option f (List.find (P \<circ> f) xs)"
  by (induction xs) simp_all

end
