(* ===== verification/Checksum.thy ===== *)
theory Checksum
  imports PdiPrelude
begin

text \<open>
  CRC-16/CCITT-FALSE, \<^verbatim>\<open>src/src/utility/Checksum.cpp\<close>: the checksum every database
  superblock, record and key is guarded by.
\<close>

section \<open>The update loop\<close>

definition crc16_bit :: "u16 \<Rightarrow> u16" where
  "crc16_bit c = (if c AND 0x8000 \<noteq> 0 then (push_bit 1 c) XOR 0x1021 else push_bit 1 c)"

definition crc16_byte :: "u16 \<Rightarrow> u8 \<Rightarrow> u16" where
  "crc16_byte c b = (crc16_bit ^^ 8) (c XOR push_bit 8 (ucast b))"

fun crc16CcittUpdate :: "u16 \<Rightarrow> bytes \<Rightarrow> u16" where
  "crc16CcittUpdate c [] = c"
| "crc16CcittUpdate c (b # bs) = crc16CcittUpdate (crc16_byte c b) bs"

definition crc16Ccitt :: "bytes \<Rightarrow> u16" where
  "crc16Ccitt bs = crc16CcittUpdate 0xFFFF bs"

section \<open>Properties\<close>

text \<open>Feeding a buffer in two pieces is feeding it whole.\<close>

lemma crc16CcittUpdate_append [simp]:
  "crc16CcittUpdate c (xs @ ys) = crc16CcittUpdate (crc16CcittUpdate c xs) ys"
  by (induction xs arbitrary: c) simp_all

text \<open>
  One shift of the register, written as a linear map: the top bit decides whether the
  polynomial is added in. Linearity and injectivity are what make the checksum tell every
  pair of buffers apart whose difference is confined to one register's width.
\<close>

lemma crc16_top_bit: "(c AND 0x8000 \<noteq> 0) = bit c 15" for c :: u16
proof -
  have "c AND 0x8000 = (if bit c 15 then 0x8000 else 0)"
    by (rule bit_word_eqI)
      (auto simp: bit_simps bit_numeral_rec(1) less_Suc_eq numeral_eq_Suc)
  then show ?thesis by simp
qed

lemma crc16_bit_xor: "crc16_bit (a XOR b) = crc16_bit a XOR crc16_bit b"
proof -
  have "push_bit 1 (a XOR b) = push_bit 1 a XOR push_bit 1 b"
    by (simp add: push_bit_xor)
  then show ?thesis
    by (auto simp: crc16_bit_def crc16_top_bit bit_xor_iff ac_simps)
qed

lemma crc16_bit_eq_0: "crc16_bit c = 0 \<longleftrightarrow> c = 0"
proof
  assume z: "crc16_bit c = 0"
  have nt: "\<not> bit c 15"
  proof
    assume "bit c 15"
    then have "push_bit 1 c = 0x1021"
      using z unfolding crc16_bit_def crc16_top_bit by (simp only: if_True word_xor_eq_0)
    moreover have "\<not> bit (push_bit 1 c) 0" by (simp add: bit_0)
    moreover have "bit (0x1021 :: u16) 0" by simp
    ultimately show False by metis
  qed
  have p0: "push_bit 1 c = 0"
    using z nt by (simp add: crc16_bit_def crc16_top_bit)
  have "\<not> bit c n" if "n < 16" for n
  proof (cases "n = 15")
    case False
    then have "bit c n = bit (push_bit 1 c) (Suc n)"
      using that by (simp only: bit_push_bit_iff) simp
    then show ?thesis unfolding p0 by simp
  qed (use nt in simp)
  then show "c = 0"
    by (intro bit_word_eqI) simp
qed (simp add: crc16_bit_def)

lemma crc16_pow_xor: "(crc16_bit ^^ n) (a XOR b) = (crc16_bit ^^ n) a XOR (crc16_bit ^^ n) b"
  by (induction n) (simp_all add: crc16_bit_xor)

lemma crc16_pow_eq_0: "(crc16_bit ^^ n) c = 0 \<longleftrightarrow> c = 0"
  by (induction n) (simp_all add: crc16_bit_eq_0)

lemma crc16_byte_xor:
  "crc16_byte a x XOR crc16_byte b y = (crc16_bit ^^ 8) ((a XOR b) XOR push_bit 8 (ucast (x XOR y)))"
  by (simp add: crc16_byte_def flip: crc16_pow_xor)
    (simp add: push_bit_xor unsigned_xor_eq ac_simps)

lemma crc16CcittUpdate_inj:
  "crc16CcittUpdate a zs = crc16CcittUpdate b zs \<longleftrightarrow> a = b"
proof (induction zs arbitrary: a b)
  case (Cons z zs)
  have "crc16_byte a z XOR crc16_byte b z = (crc16_bit ^^ 8) (a XOR b)"
    by (simp only: crc16_byte_xor xor_self_eq unsigned_0 push_bit_of_0 xor.right_neutral)
  then have "crc16_byte a z XOR crc16_byte b z = 0 \<longleftrightarrow> a XOR b = 0"
    by (simp only: crc16_pow_eq_0)
  then have "crc16_byte a z = crc16_byte b z \<longleftrightarrow> a = b"
    by (simp only: word_xor_eq_0)
  then show ?case using Cons.IH by simp
qed simp

text \<open>
  Eight shifts of a register whose top half is clear only move the byte up: no polynomial is
  added on the way. So two registers that differ in the top byte only cannot be brought
  together by a second byte.
\<close>

lemma crc16_pow_low:
  assumes "n \<le> 8"
  shows "(crc16_bit ^^ n) (ucast (a :: u8)) = push_bit n (ucast a)"
  using assms
proof (induction n)
  case (Suc n)
  then have IH: "(crc16_bit ^^ n) (ucast a) = push_bit n (ucast a)" by simp
  have "\<not> bit (push_bit n (ucast a) :: u16) 15"
    using Suc.prems bit_imp_le_length [of a "15 - n"]
    by (auto simp: bit_push_bit_iff bit_ucast_iff)
  then have "crc16_bit (push_bit n (ucast a)) = push_bit 1 (push_bit n (ucast a))"
    by (simp only: crc16_bit_def crc16_top_bit if_False)
  then show ?case by (simp only: funpow.simps o_apply IH push_bit_push_bit plus_1_eq_Suc)
qed simp

lemma crc16_two_bytes:
  assumes "(crc16_bit ^^ 8) (push_bit 8 (ucast a)) = push_bit 8 (ucast b)"
  shows "a = (0 :: u8) \<and> b = (0 :: u8)"
proof -
  have "(crc16_bit ^^ 8) (push_bit 8 (ucast a)) = (crc16_bit ^^ 8) (ucast b)"
    using assms crc16_pow_low [of 8 b, symmetric] by (rule trans) simp
  then have "(crc16_bit ^^ 8) (push_bit 8 (ucast a) XOR ucast b) = 0"
    by (simp only: crc16_pow_xor word_xor_eq_0)
  then have e: "push_bit 8 (ucast a) = (ucast b :: u16)"
    by (simp only: crc16_pow_eq_0 word_xor_eq_0)
  have A: "\<not> bit a n" for n
  proof
    assume "bit a n"
    moreover from this have "n < 8" using bit_imp_le_length by fastforce
    ultimately have "bit (push_bit 8 (ucast a) :: u16) (n + 8)"
      by (simp add: bit_push_bit_iff bit_ucast_iff)
    then have "bit b (n + 8)" by (simp add: e bit_ucast_iff)
    then show False using bit_imp_le_length by fastforce
  qed
  then have "a = 0" by (intro bit_word_eqI) simp
  with e have "unat (ucast b :: u16) = 0" by simp
  then have "b = 0" by (simp add: unat_eq_0)
  with \<open>a = 0\<close> show ?thesis by simp
qed

text \<open>
  A difference confined to two adjacent bytes always changes the checksum (the sixteen-bit
  burst bound of a sixteen-bit CRC).
\<close>

lemma crc16_burst:
  assumes "x \<noteq> x' \<or> y \<noteq> y'"
  shows "crc16CcittUpdate c (x # y # zs) \<noteq> crc16CcittUpdate c (x' # y' # zs)"
proof
  let ?s = "crc16_byte (crc16_byte c x) y" and ?s' = "crc16_byte (crc16_byte c x') y'"
  assume "crc16CcittUpdate c (x # y # zs) = crc16CcittUpdate c (x' # y' # zs)"
  then have "?s XOR ?s' = 0"
    by (simp only: crc16CcittUpdate.simps crc16CcittUpdate_inj word_xor_eq_0)
  then have "crc16_byte c x XOR crc16_byte c x' = push_bit 8 (ucast (y XOR y'))"
    by (simp only: crc16_byte_xor [of "crc16_byte c x"] crc16_pow_eq_0 word_xor_eq_0)
  then have "(crc16_bit ^^ 8) (push_bit 8 (ucast (x XOR x'))) = push_bit 8 (ucast (y XOR y'))"
    by (simp only: crc16_byte_xor xor_self_eq xor.left_neutral)
  from crc16_two_bytes [OF this] show False
    using assms by simp
qed

text \<open>
  C37: the checksum tells apart any two buffers that differ in one byte or in two adjacent bytes
  only, at any place in the buffer, so a corrupted byte or 16-bit field of a stored record or
  superblock is always detected.
\<close>

theorem crc16Ccitt_detects_burst:
  assumes "x \<noteq> x' \<or> y \<noteq> y'"
  shows "crc16Ccitt (xs @ x # y # zs) \<noteq> crc16Ccitt (xs @ x' # y' # zs)"
  unfolding crc16Ccitt_def crc16CcittUpdate_append by (rule crc16_burst [OF assms])

lemma crc16Ccitt_detects_burst_witness:
  "crc16Ccitt ([1, 2] @ 3 # 4 # [5]) \<noteq> crc16Ccitt ([1, 2] @ 3 # 5 # [5 :: u8])"
  by (rule crc16Ccitt_detects_burst) simp

end
