(* ===== verification/Base64.thy ===== *)
theory Base64
  imports PdiPrelude
begin

text \<open>
  Base64, \<^verbatim>\<open>src/src/utility/Base64.cpp\<close>: the encoder, the decoder and the random key
  generator that shares their alphabet. The C characters are HOL characters; the encoder's
  \<open>int val\<close> never exceeds 24 bits and is kept as an unsigned 32-bit word.
\<close>

section \<open>Definitions\<close>

definition char_set :: string where
  "char_set = ''ABCDEFGHIJKLMNOPQRSTUVWXYZabcdefghijklmnopqrstuvwxyz0123456789+/''"

text \<open>The bytes of one chunk shifted together, and the six-bit groups taken off the top.\<close>

definition chunk_val :: "bytes \<Rightarrow> u32" where
  "chunk_val chunk = foldl (\<lambda>val b. push_bit 8 val OR ucast b) 0 chunk"

fun sextets :: "u32 \<Rightarrow> nat \<Rightarrow> u32 list" where
  "sextets val no_of_bits =
     (if no_of_bits = 0 then []
      else if no_of_bits \<ge> 6
      then (drop_bit (no_of_bits - 6) val AND 63) # sextets val (no_of_bits - 6)
      else [push_bit (6 - no_of_bits) val AND 63])"

declare sextets.simps [simp del]

function encode_loop :: "bytes \<Rightarrow> nat \<Rightarrow> string \<Rightarrow> string \<times> nat" where
  "encode_loop input padding res =
     (if input = [] then (res, padding)
      else let chunk = take 3 input;
               no_of_bits = length chunk * 8
           in encode_loop (drop 3 input) (no_of_bits mod 3)
                (res @ map (\<lambda>index. char_set ! unat index) (sextets (chunk_val chunk) no_of_bits)))"
  by pat_completeness auto
termination
  by (relation "measure (\<lambda>(input, _, _). length input)") auto

declare encode_loop.simps [simp del]

text \<open>\<open>None\<close> is the \<open>false\<close> returned for a null result buffer.\<close>

definition base64Encode :: "bytes \<Rightarrow> bool \<Rightarrow> string option" where
  "base64Encode input_str res_is_null =
     (if res_is_null then None
      else case encode_loop input_str 0 [] of
             (res, padding) \<Rightarrow> Some (res @ replicate padding (CHR ''='')))"

definition base64CharValue :: "char \<Rightarrow> int" where
  "base64CharValue c = (let v = of_char c :: int in
     if of_char (CHR ''A'') \<le> v \<and> v \<le> of_char (CHR ''Z'') then v - of_char (CHR ''A'')
     else if of_char (CHR ''a'') \<le> v \<and> v \<le> of_char (CHR ''z'') then v - of_char (CHR ''a'') + 26
     else if of_char (CHR ''0'') \<le> v \<and> v \<le> of_char (CHR ''9'') then v - of_char (CHR ''0'') + 52
     else if c = CHR ''+'' then 62
     else if c = CHR ''/'' then 63
     else -1)"

definition b64_space :: "char \<Rightarrow> bool" where
  "b64_space c \<longleftrightarrow> c = CHR 0x0A \<or> c = CHR 0x0D \<or> c = CHR '' '' \<or> c = CHR 0x09"

fun decode_loop :: "string \<Rightarrow> u32 \<Rightarrow> nat \<Rightarrow> bytes \<Rightarrow> bytes option" where
  "decode_loop [] val bits res = Some res"
| "decode_loop (c # cs) val bits res =
     (if c = CHR ''='' then Some res
      else if b64_space c then decode_loop cs val bits res
      else let decoded = base64CharValue c in
        if decoded < 0 then None
        else let val' = (push_bit 6 val OR word_of_int decoded) AND 0x3FFF;
                 bits' = bits + 6
             in if bits' \<ge> 8
                then decode_loop cs val' (bits' - 8)
                       (res @ [ucast (drop_bit (bits' - 8) val' AND 0xFF)])
                else decode_loop cs val' bits' res)"

text \<open>The result is the bytes stored, \<open>None\<close> the return value \<open>-1\<close>.\<close>

definition base64Decode :: "string option \<Rightarrow> bool \<Rightarrow> bytes option" where
  "base64Decode input_str res_is_null =
     (case input_str of None \<Rightarrow> None
      | Some s \<Rightarrow> if res_is_null then None else decode_loop s 0 0 [])"

text \<open>
  \<open>rand i\<close> is the value of the \<open>i\<close>-th call of \<open>rand()\<close>; \<open>sizeof(char_set)\<close>
  counts the terminating zero, so the modulus is 62.
\<close>

definition genUniqueKey :: "(nat \<Rightarrow> nat) \<Rightarrow> nat \<Rightarrow> string" where
  "genUniqueKey rand len = map (\<lambda>i. char_set ! (rand i mod (Suc (length char_set) - 3))) [0..<len]"

section \<open>The alphabet\<close>

lemma length_char_set [simp]: "length char_set = 64"
  by (simp add: char_set_def)

lemma char_set_all:
  "list_all (\<lambda>i. char_set ! i \<noteq> CHR ''='' \<and> \<not> b64_space (char_set ! i)
     \<and> base64CharValue (char_set ! i) = int i) [0..<64]"
  by code_simp

lemma char_set_decodes:
  assumes "i < 64"
  shows "char_set ! i \<noteq> CHR ''=''" "\<not> b64_space (char_set ! i)"
    "base64CharValue (char_set ! i) = int i"
  using char_set_all assms by (simp_all add: list_all_iff)

lemma and_63: "x AND 63 = take_bit 6 x" for x :: u32
  by (simp add: take_bit_eq_mask mask_eq_exp_minus_1)

lemma and_0x3FFF: "x AND 0x3FFF = take_bit 14 x" for x :: u32
  by (simp add: take_bit_eq_mask mask_eq_exp_minus_1)

lemma and_0xFF: "x AND 0xFF = take_bit 8 x" for x :: u32
  by (simp add: take_bit_eq_mask mask_eq_exp_minus_1)

lemma sextet_decode_step:
  "decode_loop (char_set ! unat (take_bit 6 s) # cs) val bits res =
     (let val' = take_bit 14 (push_bit 6 val OR take_bit 6 s) in
      if bits + 6 \<ge> 8
      then decode_loop cs val' (bits + 6 - 8) (res @ [ucast (take_bit 8 (drop_bit (bits + 6 - 8) val'))])
      else decode_loop cs val' (bits + 6) res)"
proof -
  have lt: "unat (take_bit 6 s) < 64"
    using unsigned_take_bit_eq [of 6 s, where ?'a = nat] by (simp add: take_bit_eq_mod)
  show ?thesis
    by (simp add: char_set_decodes [OF lt] and_0x3FFF and_0xFF Let_def)
qed

section \<open>One chunk, encoded and decoded\<close>

lemma sextets_24: "sextets v 24 = map (take_bit 6) [drop_bit 18 v, drop_bit 12 v, drop_bit 6 v, v]"
  by (simp add: sextets.simps and_63)

lemma sextets_16: "sextets v 16 = map (take_bit 6) [drop_bit 10 v, drop_bit 4 v, push_bit 2 v]"
  by (simp add: sextets.simps and_63)

lemma sextets_8: "sextets v 8 = map (take_bit 6) [drop_bit 2 v, push_bit 4 v]"
  by (simp add: sextets.simps and_63)

lemma bit_u8_lt: "bit (a :: u8) n \<Longrightarrow> n < 8"
  using bit_imp_le_length [of a n] by simp

text \<open>
  The three places where a decoded byte is put together from two neighbouring groups, with
  \<open>k\<close> bits of the byte still to come: bits above the pending ones never matter.
\<close>

lemma join_sextets:
  assumes k: "k = 2 \<or> k = 4 \<or> k = 6"
    and hi: "\<And>n. n + k < 8 \<Longrightarrow> bit s n = bit a (n + k)"
    and lo: "\<And>n. n < k \<Longrightarrow> bit t (6 - k + n) = bit a n"
  shows "ucast (take_bit 8 (drop_bit (6 - k) (take_bit 14
      (push_bit 6 s OR take_bit 6 (t :: u32))))) = (a :: u8)"
proof (rule bit_word_eqI)
  fix n assume "n < LENGTH(8)"
  then have n: "n < 8" by simp
  show "bit (ucast (take_bit 8 (drop_bit (6 - k) (take_bit 14
      (push_bit 6 s OR take_bit 6 t)))) :: u8) n = bit a n"
  proof (cases "n < k")
    case True
    then have "\<not> 6 \<le> 6 - k + n" "6 - k + n < 14" using k by auto
    then show ?thesis using lo [OF True] n by (auto simp: bit_simps)
  next
    case False
    then obtain m where m: "n = m + k" by (metis add.commute le_iff_add not_less)
    then have "6 - k + n = 6 + m" "6 + m < 14" using k n by auto
    then show ?thesis using hi [of m] m n by (auto simp: bit_simps)
  qed
qed

definition dec_val :: "u32 \<Rightarrow> u32 \<Rightarrow> u32" where
  "dec_val v s = take_bit 14 (push_bit 6 v OR take_bit 6 s)"

lemma bit_dec_val: "bit (dec_val v s) n \<longleftrightarrow> n < 14 \<and> (if n < 6 then bit s n else bit v (n - 6))"
  by (auto simp: dec_val_def bit_simps)

lemmas decode_sextet = sextet_decode_step [folded dec_val_def]

lemma join_dec_val:
  assumes "k = 2 \<or> k = 4 \<or> k = 6" "\<And>n. n + k < 8 \<Longrightarrow> bit s n = bit a (n + k)"
    "\<And>n. n < k \<Longrightarrow> bit t (6 - k + n) = bit a n"
  shows "ucast (take_bit 8 (drop_bit (6 - k) (dec_val s t))) = (a :: u8)"
  using join_sextets [OF assms] by (simp add: dec_val_def)

lemma chunk_decodes_3:
  "\<exists>v'. decode_loop (map (\<lambda>i. char_set ! unat i) (sextets (chunk_val [a, b, c]) 24) @ cs) v 0 res
     = decode_loop cs v' 0 (res @ [a, b, c])"
proof -
  let ?V = "chunk_val [a, b, c]"
  have V: "bit ?V n = (if n < 8 then bit c n else if n < 16 then bit b (n - 8) else bit a (n - 16))" for n
    by (auto simp: chunk_val_def bit_simps dest: bit_u8_lt)
  define v1 where "v1 = dec_val v (drop_bit 18 ?V)"
  define v2 where "v2 = dec_val v1 (drop_bit 12 ?V)"
  define v3 where "v3 = dec_val v2 (drop_bit 6 ?V)"
  define v4 where "v4 = dec_val v3 ?V"
  have "ucast (take_bit 8 (drop_bit 4 v2)) = a"
    unfolding v2_def by (rule join_dec_val [where k = 2, simplified]) (auto simp: v1_def bit_dec_val bit_drop_bit_eq V add.commute)
  moreover have "ucast (take_bit 8 (drop_bit 2 v3)) = b"
    unfolding v3_def by (rule join_dec_val [where k = 4, simplified]) (auto simp: v2_def bit_dec_val bit_drop_bit_eq V add.commute)
  moreover have "ucast (take_bit 8 v4) = c"
    unfolding v4_def by (rule join_dec_val [where k = 6, simplified]) (auto simp: v3_def bit_dec_val bit_drop_bit_eq V add.commute)
  ultimately have "decode_loop (map (\<lambda>i. char_set ! unat i) (sextets ?V 24) @ cs) v 0 res
      = decode_loop cs v4 0 (res @ [a, b, c])"
    by (simp add: sextets_24 decode_sextet Let_def v1_def v2_def v3_def v4_def del: decode_loop.simps)
  then show ?thesis ..
qed

lemma chunk_decodes_2:
  "\<exists>v'. decode_loop (map (\<lambda>i. char_set ! unat i) (sextets (chunk_val [a, b]) 16) @ cs) v 0 res
     = decode_loop cs v' 2 (res @ [a, b])"
proof -
  let ?V = "chunk_val [a, b]"
  have V: "bit ?V n = (if n < 8 then bit b n else bit a (n - 8))" for n
    by (auto simp: chunk_val_def bit_simps dest: bit_u8_lt)
  define v1 where "v1 = dec_val v (drop_bit 10 ?V)"
  define v2 where "v2 = dec_val v1 (drop_bit 4 ?V)"
  define v3 where "v3 = dec_val v2 (push_bit 2 ?V)"
  have "ucast (take_bit 8 (drop_bit 4 v2)) = a"
    unfolding v2_def by (rule join_dec_val [where k = 2, simplified]) (auto simp: v1_def bit_dec_val bit_drop_bit_eq V add.commute)
  moreover have "ucast (take_bit 8 (drop_bit 2 v3)) = b"
    unfolding v3_def by (rule join_dec_val [where k = 4, simplified])
      (auto simp: v2_def bit_dec_val bit_drop_bit_eq bit_push_bit_iff V add.commute)
  ultimately have "decode_loop (map (\<lambda>i. char_set ! unat i) (sextets ?V 16) @ cs) v 0 res
      = decode_loop cs v3 2 (res @ [a, b])"
    by (simp add: sextets_16 decode_sextet Let_def v1_def v2_def v3_def del: decode_loop.simps)
  then show ?thesis ..
qed

lemma chunk_decodes_1:
  "\<exists>v'. decode_loop (map (\<lambda>i. char_set ! unat i) (sextets (chunk_val [a]) 8) @ cs) v 0 res
     = decode_loop cs v' 4 (res @ [a])"
proof -
  let ?V = "chunk_val [a]"
  have V: "bit ?V n = bit a n" for n
    by (auto simp: chunk_val_def bit_simps dest: bit_u8_lt)
  define v1 where "v1 = dec_val v (drop_bit 2 ?V)"
  define v2 where "v2 = dec_val v1 (push_bit 4 ?V)"
  have "ucast (take_bit 8 (drop_bit 4 v2)) = a"
    unfolding v2_def by (rule join_dec_val [where k = 2, simplified])
      (auto simp: v1_def bit_dec_val bit_drop_bit_eq bit_push_bit_iff V add.commute)
  then have "decode_loop (map (\<lambda>i. char_set ! unat i) (sextets ?V 8) @ cs) v 0 res
      = decode_loop cs v2 4 (res @ [a])"
    by (simp add: sextets_8 decode_sextet Let_def v1_def v2_def del: decode_loop.simps)
  then show ?thesis ..
qed


section \<open>Encoding and decoding\<close>

lemma encode_loop_acc:
  "encode_loop input padding (r @ res) = apfst ((@) r) (encode_loop input padding res)"
proof (induction input padding res rule: encode_loop.induct)
  case (1 input padding res)
  then show ?case
    by (subst (1 2) encode_loop.simps) (auto simp: Let_def)
qed

lemma encode_loop_step:
  "encode_loop (a # b # c # bs) p [] =
     apfst ((@) (map (\<lambda>i. char_set ! unat i) (sextets (chunk_val [a, b, c]) 24))) (encode_loop bs 0 [])"
  "encode_loop [a, b] p [] = (map (\<lambda>i. char_set ! unat i) (sextets (chunk_val [a, b]) 16), 1)"
  "encode_loop [a] p [] = (map (\<lambda>i. char_set ! unat i) (sextets (chunk_val [a]) 8), 2)"
  "encode_loop [] p [] = ([], p)"
  using encode_loop_acc [of bs 0 "map (\<lambda>i. char_set ! unat i) (sextets (chunk_val [a, b, c]) 24)" "[]"]
  by (subst encode_loop.simps; simp add: Let_def encode_loop.simps [of "[]"])+

lemma triple_induct [case_names Nil One Two Three]:
  assumes "P []" "\<And>a. P [a]" "\<And>a b. P [a, b]" "\<And>a b c xs. P xs \<Longrightarrow> P (a # b # c # xs)"
  shows "P xs"
proof (induction xs rule: length_induct)
  case (1 xs)
  consider "xs = []" | a where "xs = [a]" | a b where "xs = [a, b]" | a b c ys where "xs = a # b # c # ys"
    by (metis list.exhaust)
  then show ?case
    using 1 assms by cases auto
qed

lemma decode_pad: "decode_loop (replicate n (CHR ''='')) v k res = Some res"
  by (cases n) simp_all

lemma decode_encode_loop:
  "decode_loop (fst (encode_loop bs p []) @ replicate (snd (encode_loop bs p [])) (CHR ''='')) v 0 res
     = Some (res @ bs)"
proof (induction bs arbitrary: p v res rule: triple_induct)
  case Nil
  then show ?case
    by (simp add: encode_loop_step decode_pad)
next
  case (One a)
  let ?t = "replicate 2 (CHR ''='')"
  obtain v' where "decode_loop (map (\<lambda>i. char_set ! unat i) (sextets (chunk_val [a]) 8) @ ?t) v 0 res
      = decode_loop ?t v' 4 (res @ [a])"
    using chunk_decodes_1 by blast
  then show ?case
    by (simp only: encode_loop_step fst_conv snd_conv decode_pad)
next
  case (Two a b)
  let ?t = "replicate 1 (CHR ''='')"
  obtain v' where "decode_loop (map (\<lambda>i. char_set ! unat i) (sextets (chunk_val [a, b]) 16) @ ?t) v 0 res
      = decode_loop ?t v' 2 (res @ [a, b])"
    using chunk_decodes_2 by blast
  then show ?case
    by (simp only: encode_loop_step fst_conv snd_conv decode_pad)
next
  case (Three a b c xs)
  let ?t = "fst (encode_loop xs 0 []) @ replicate (snd (encode_loop xs 0 [])) (CHR ''='')"
  obtain v' where "decode_loop (map (\<lambda>i. char_set ! unat i) (sextets (chunk_val [a, b, c]) 24) @ ?t) v 0 res
      = decode_loop ?t v' 0 (res @ [a, b, c])"
    using chunk_decodes_3 by blast
  then show ?case
    using Three.IH by (simp del: decode_loop.simps add: encode_loop_step)
qed

lemma length_encode_loop:
  "length (fst (encode_loop bs 0 [])) + snd (encode_loop bs 0 []) = 4 * ((length bs + 2) div 3)"
proof (induction bs rule: triple_induct)
  case (Three a b c xs)
  have "(length (a # b # c # xs) + 2) div 3 = (length xs + 2) div 3 + 1"
    by simp
  then show ?case
    using Three by (simp add: encode_loop_step sextets_24)
qed (simp_all add: encode_loop_step sextets_16 sextets_8)

lemma decode_loop_unspace: "decode_loop s v k res = decode_loop (filter (\<lambda>c. \<not> b64_space c) s) v k res"
  by (induction s v k res rule: decode_loop.induct) (auto simp: Let_def b64_space_def)

text \<open>
  The decoder never writes past three bytes for every four characters of its input, whatever the
  characters are: the caller may size the buffer from the length alone.
\<close>

lemma decode_loop_bound:
  "decode_loop s v k res = Some out \<Longrightarrow> k < 8 \<Longrightarrow> 8 * length out \<le> 8 * length res + k + 6 * length s"
proof (induction s arbitrary: v k res)
  case (Cons c cs)
  show ?case
    using Cons.prems by (auto simp: Let_def split: if_splits dest!: Cons.IH)
qed simp


section \<open>Properties\<close>

text \<open>
  C39: the encoder writes four characters for every three bytes begun, and the decoder reads the
  bytes back, also when the text was broken into lines or indented on the way.
\<close>

theorem base64_roundtrip:
  assumes "base64Encode bs False = Some s" and "filter (\<lambda>c. \<not> b64_space c) t = s"
  shows "length s = 4 * ((length bs + 2) div 3) \<and> base64Decode (Some t) False = Some bs"
proof -
  have s: "s = fst (encode_loop bs 0 []) @ replicate (snd (encode_loop bs 0 [])) (CHR ''='')"
    using assms(1) by (simp add: base64Encode_def split_beta)
  have "length s = 4 * ((length bs + 2) div 3)"
    using length_encode_loop [of bs] by (simp add: s)
  moreover have "decode_loop t 0 0 [] = Some bs"
    using decode_encode_loop [of bs 0 0 "[]"] decode_loop_unspace [of t 0 0 "[]"]
    by (simp only: assms(2) s append_Nil)
  ultimately show ?thesis
    by (simp add: base64Decode_def)
qed

lemma base64_roundtrip_witness:
  "length ''AQL/AA=='' = 4 * ((length [1, 2, 0xFF, 0 :: u8] + 2) div 3)
     \<and> base64Decode (Some ''AQ L/AA=='') False = Some [1, 2, 0xFF, 0]"
proof (rule base64_roundtrip)
  show "base64Encode [1, 2, 0xFF, 0] False = Some ''AQL/AA==''"
    by code_simp
qed (simp add: b64_space_def)

text \<open>
  On any input at all, the decoder either reports an error or stores at most three bytes for
  every four characters; a buffer of that size is never overrun.
\<close>

lemma base64Decode_bound:
  assumes "base64Decode (Some s) False = Some out"
  shows "4 * length out \<le> 3 * length s"
  using decode_loop_bound [of s 0 0 "[]" out] assms by (simp add: base64Decode_def)

end
