(* ===== verification/RingBuf.thy ===== *)
theory RingBuf
  imports PdiPrelude
begin

text \<open>
  The ring buffer of \<^verbatim>\<open>src/src/utility/queue/ringbuf.cpp\<close>, the byte FIFO below the
  framed message queue. The record keeps the C structure's fields; the two pointers are
  offsets from \<open>p_o\<close>, and the memory \<open>p_o\<close> points to is the list \<open>rb_mem\<close>.
  The interface the framing layer relies on is the locale \<open>byte_fifo\<close>; the interpretation
  \<open>ring\<close> discharges its laws for the code.
\<close>

section \<open>The structure and its operations\<close>

record RINGBUF =
  rb_mem :: bytes
  p_r :: nat
  p_w :: nat
  fill_cnt :: nat
  rb_size :: nat

definition RINGBUF_Init :: "RINGBUF \<Rightarrow> bytes option \<Rightarrow> nat \<Rightarrow> int \<times> RINGBUF" where
  "RINGBUF_Init r buf sz =
     (case buf of
        None \<Rightarrow> (-1, r)
      | Some mem \<Rightarrow>
          if sz < 2 then (-1, r)
          else (0, r\<lparr>rb_mem := mem, p_r := 0, p_w := 0, fill_cnt := 0, rb_size := sz\<rparr>))"

definition RINGBUF_Put :: "RINGBUF \<Rightarrow> u8 \<Rightarrow> int \<times> RINGBUF" where
  "RINGBUF_Put r c =
     (if fill_cnt r \<ge> rb_size r then (-1, r)
      else let w = p_w r + 1 in
        (0, r\<lparr>fill_cnt := fill_cnt r + 1,
              rb_mem := (rb_mem r)[p_w r := c],
              p_w := (if w \<ge> rb_size r then 0 else w)\<rparr>))"

definition RINGBUF_Get :: "RINGBUF \<Rightarrow> u8 option \<times> RINGBUF" where
  "RINGBUF_Get r =
     (if fill_cnt r \<le> 0 then (None, r)
      else let p = p_r r + 1 in
        (Some (rb_mem r ! p_r r),
         r\<lparr>fill_cnt := fill_cnt r - 1,
           p_r := (if p \<ge> rb_size r then 0 else p)\<rparr>))"

text \<open>The two fields \<open>PROTO_AddRb\<close> saves before it writes and puts back when it runs out of room.\<close>

definition rb_rollback :: "RINGBUF \<Rightarrow> RINGBUF \<Rightarrow> RINGBUF" where
  "rb_rollback saved r = r\<lparr>p_w := p_w saved, fill_cnt := fill_cnt saved\<rparr>"

section \<open>The interface: a bounded byte FIFO with rollback\<close>

text \<open>Writing a list of bytes, stopping at the first one that does not fit.\<close>

fun put_list :: "('q \<Rightarrow> 'a \<Rightarrow> int \<times> 'q) \<Rightarrow> 'q \<Rightarrow> 'a list \<Rightarrow> int \<times> 'q" where
  "put_list put q [] = (0, q)"
| "put_list put q (x # xs) =
     (case put q x of (rc, q') \<Rightarrow> if rc = -1 then (-1, q') else put_list put q' xs)"

locale byte_fifo =
  fixes put :: "'q \<Rightarrow> 'a \<Rightarrow> int \<times> 'q"
    and get :: "'q \<Rightarrow> 'a option \<times> 'q"
    and rollback :: "'q \<Rightarrow> 'q \<Rightarrow> 'q"
    and contents :: "'q \<Rightarrow> 'a list"
    and room :: "'q \<Rightarrow> nat"
    and grown :: "'q \<Rightarrow> 'q \<Rightarrow> bool"
    and invar :: "'q \<Rightarrow> bool"
  assumes put_ok: "invar q \<Longrightarrow> 0 < room q \<Longrightarrow>
      \<exists>q'. put q x = (0, q') \<and> contents q' = contents q @ [x] \<and> room q' = room q - 1
        \<and> invar q' \<and> grown q q'"
    and put_full: "invar q \<Longrightarrow> room q = 0 \<Longrightarrow> put q x = (-1, q)"
    and get_empty: "invar q \<Longrightarrow> contents q = [] \<Longrightarrow> get q = (None, q)"
    and get_cons: "invar q \<Longrightarrow> contents q = x # xs \<Longrightarrow>
      \<exists>q'. get q = (Some x, q') \<and> contents q' = xs \<and> invar q' \<and> room q' = Suc (room q)"
    and grown_refl: "invar q \<Longrightarrow> grown q q"
    and grown_trans: "grown p q \<Longrightarrow> grown q r \<Longrightarrow> grown p r"
    and rollback_grown: "invar q \<Longrightarrow> grown q q' \<Longrightarrow>
      contents (rollback q q') = contents q \<and> invar (rollback q q')
        \<and> room (rollback q q') = room q"
begin

lemma put_list_fits:
  "invar q \<Longrightarrow> length xs \<le> room q \<Longrightarrow>
   \<exists>q'. put_list put q xs = (0, q') \<and> contents q' = contents q @ xs
     \<and> room q' = room q - length xs \<and> invar q' \<and> grown q q'"
proof (induction xs arbitrary: q)
  case (Cons x xs)
  obtain q1 where q1: "put q x = (0, q1)" "contents q1 = contents q @ [x]"
      "room q1 = room q - 1" "invar q1" "grown q q1"
    using put_ok [of q x] Cons.prems by auto
  with Cons.IH [of q1] Cons.prems grown_trans [OF \<open>grown q q1\<close>] show ?case
    by force
qed (simp add: grown_refl)

lemma put_list_overflows:
  "invar q \<Longrightarrow> room q < length xs \<Longrightarrow> \<exists>q'. put_list put q xs = (-1, q') \<and> grown q q'"
proof (induction xs arbitrary: q)
  case (Cons x xs)
  show ?case
  proof (cases "room q = 0")
    case True
    then show ?thesis using put_full grown_refl Cons.prems by simp
  next
    case False
    then obtain q1 where q1: "put q x = (0, q1)" "room q1 = room q - 1" "invar q1" "grown q q1"
      using put_ok [of q x] Cons.prems by auto
    moreover have "room q1 < length xs" using q1 Cons.prems False by simp
    ultimately obtain q2 where "put_list put q1 xs = (-1, q2)" "grown q1 q2"
      using Cons.IH by blast
    then show ?thesis using q1 grown_trans by auto
  qed
qed simp

text \<open>All or nothing: a write that runs out of room and rolls back leaves the FIFO as it was.\<close>

lemma put_list_or_rollback:
  assumes "invar q"
  shows "(case put_list put q xs of (rc, q') \<Rightarrow> if rc = -1 then (-1, rollback q q') else (0, q')) = res
    \<Longrightarrow> (if length xs \<le> room q then fst res = 0 \<and> contents (snd res) = contents q @ xs
            \<and> room (snd res) = room q - length xs
         else fst res = -1 \<and> contents (snd res) = contents q \<and> room (snd res) = room q)
        \<and> invar (snd res)"
  using put_list_fits [OF assms, of xs] put_list_overflows [OF assms, of xs]
    rollback_grown [OF assms]
  by (auto split: if_splits)

end

section \<open>The ring buffer is one\<close>

definition rb_contents :: "RINGBUF \<Rightarrow> bytes" where
  "rb_contents r = map (\<lambda>i. rb_mem r ! ((p_r r + i) mod rb_size r)) [0..<fill_cnt r]"

definition rb_room :: "RINGBUF \<Rightarrow> nat" where
  "rb_room r = rb_size r - fill_cnt r"

definition rb_inv :: "RINGBUF \<Rightarrow> bool" where
  "rb_inv r \<longleftrightarrow> 0 < rb_size r \<and> length (rb_mem r) = rb_size r \<and> p_r r < rb_size r
     \<and> fill_cnt r \<le> rb_size r \<and> p_w r = (p_r r + fill_cnt r) mod rb_size r"

text \<open>\<open>rb_grown r s\<close>: \<open>s\<close> is \<open>r\<close> with bytes added behind its contents.\<close>

definition rb_grown :: "RINGBUF \<Rightarrow> RINGBUF \<Rightarrow> bool" where
  "rb_grown r s \<longleftrightarrow> p_r s = p_r r \<and> rb_size s = rb_size r \<and> length (rb_mem s) = length (rb_mem r)
     \<and> fill_cnt r \<le> fill_cnt s
     \<and> (\<forall>i < fill_cnt r. rb_mem s ! ((p_r r + i) mod rb_size r) = rb_mem r ! ((p_r r + i) mod rb_size r))"

lemma ring_slots_distinct:
  fixes n :: nat
  assumes "i < j" "j < n"
  shows "(p + i) mod n \<noteq> (p + j) mod n"
proof
  assume "(p + i) mod n = (p + j) mod n"
  then have "n dvd (p + j) - (p + i)"
    using assms by (metis add_le_cancel_left less_imp_le_nat mod_eq_dvd_iff_nat)
  then show False
    using assms by (auto dest: dvd_imp_le)
qed

lemma ring_next: "0 < n \<Longrightarrow> (if Suc (a mod n) \<ge> n then 0 else Suc (a mod n)) = Suc a mod (n :: nat)"
  by (metis Suc_leI le_antisym mod_Suc mod_less_divisor not_less_eq_eq)

lemma rb_put_slot_free:
  assumes "rb_inv r" "fill_cnt r < rb_size r" "i < fill_cnt r"
  shows "(p_r r + i) mod rb_size r \<noteq> p_w r"
  using assms ring_slots_distinct [of i "fill_cnt r" "rb_size r" "p_r r"] by (simp add: rb_inv_def)

lemma length_rb_contents [simp]: "length (rb_contents r) = fill_cnt r"
  by (simp add: rb_contents_def)

lemma rb_contents_empty: "rb_contents r = [] \<longleftrightarrow> fill_cnt r = 0"
  by (simp add: rb_contents_def)

lemma rb_put_ok:
  assumes "rb_inv r" "0 < rb_room r"
  shows "\<exists>s. RINGBUF_Put r c = (0, s) \<and> rb_contents s = rb_contents r @ [c]
    \<and> rb_room s = rb_room r - 1 \<and> rb_inv s \<and> rb_grown r s"
proof -
  let ?w = "p_w r + 1"
  let ?s = "r\<lparr>fill_cnt := fill_cnt r + 1, rb_mem := (rb_mem r)[p_w r := c],
              p_w := (if ?w \<ge> rb_size r then 0 else ?w)\<rparr>"
  have lt: "fill_cnt r < rb_size r" using assms(2) by (simp add: rb_room_def)
  have put: "RINGBUF_Put r c = (0, ?s)" using lt by (simp add: RINGBUF_Put_def Let_def)
  have pw: "p_w r = (p_r r + fill_cnt r) mod rb_size r" "p_w r < length (rb_mem r)"
    using assms(1) by (auto simp: rb_inv_def)
  have keep: "(rb_mem r)[p_w r := c] ! ((p_r r + i) mod rb_size r) = rb_mem r ! ((p_r r + i) mod rb_size r)"
    if "i < fill_cnt r" for i
    using rb_put_slot_free [OF assms(1) lt that] by simp
  have "rb_contents ?s = rb_contents r @ [c]"
    using keep pw(2) by (simp add: rb_contents_def pw(1))
  moreover have "rb_inv ?s"
    using assms(1) lt ring_next [of "rb_size r" "p_r r + fill_cnt r"]
    by (auto simp: rb_inv_def split: if_splits)
  moreover have "rb_grown r ?s"
    using keep by (simp add: rb_grown_def)
  ultimately show ?thesis using put by (auto simp: rb_room_def)
qed

lemma rb_get_cons:
  assumes "rb_inv r" "rb_contents r = x # xs"
  shows "\<exists>s. RINGBUF_Get r = (Some x, s) \<and> rb_contents s = xs \<and> rb_inv s
    \<and> rb_room s = Suc (rb_room r)"
proof -
  let ?p = "p_r r + 1"
  let ?s = "r\<lparr>fill_cnt := fill_cnt r - 1, p_r := (if ?p \<ge> rb_size r then 0 else ?p)\<rparr>"
  obtain n where n: "fill_cnt r = Suc n"
    using assms(2) by (metis length_rb_contents length_Cons)
  have inv: "0 < rb_size r" "p_r r < rb_size r" "Suc n \<le> rb_size r"
    using assms(1) n by (auto simp: rb_inv_def)
  have pr: "p_r ?s = Suc (p_r r) mod rb_size r"
    using ring_next [of "rb_size r" "p_r r"] inv by (auto split: if_splits)
  have upt: "[0..<Suc n] = 0 # map Suc [0..<n]" by (simp add: upt_conv_Cons map_Suc_upt)
  have hd: "x = rb_mem r ! p_r r" and tl: "xs = map (\<lambda>i. rb_mem r ! ((p_r r + Suc i) mod rb_size r)) [0..<n]"
    using assms(2) inv by (simp_all add: rb_contents_def n upt o_def del: upt_Suc)
  have "RINGBUF_Get r = (Some x, ?s)"
    using n hd by (simp add: RINGBUF_Get_def Let_def)
  moreover have "rb_contents ?s = xs"
    using n pr by (simp add: rb_contents_def tl mod_add_left_eq)
  moreover have "rb_inv ?s"
    using assms(1) n pr by (auto simp: rb_inv_def mod_add_left_eq)
  ultimately show ?thesis using n inv by (auto simp: rb_room_def Suc_diff_Suc)
qed

interpretation ring: byte_fifo RINGBUF_Put RINGBUF_Get rb_rollback rb_contents rb_room rb_grown rb_inv
proof unfold_locales
  show "\<exists>q'. RINGBUF_Put q x = (0, q') \<and> rb_contents q' = rb_contents q @ [x]
      \<and> rb_room q' = rb_room q - 1 \<and> rb_inv q' \<and> rb_grown q q'"
    if "rb_inv q" "0 < rb_room q" for q x
    using that by (rule rb_put_ok)
  show "RINGBUF_Put q x = (-1, q)" if "rb_inv q" "rb_room q = 0" for q x
    using that by (simp add: RINGBUF_Put_def rb_room_def)
  show "RINGBUF_Get q = (None, q)" if "rb_inv q" "rb_contents q = []" for q
    using that by (simp add: RINGBUF_Get_def rb_contents_empty)
  show "\<exists>q'. RINGBUF_Get q = (Some x, q') \<and> rb_contents q' = xs \<and> rb_inv q' \<and> rb_room q' = Suc (rb_room q)"
    if "rb_inv q" "rb_contents q = x # xs" for q x xs
    using that by (rule rb_get_cons)
  show "rb_grown q q" for q by (simp add: rb_grown_def)
  show "rb_grown p r" if "rb_grown p q" "rb_grown q r" for p q r
    using that by (auto simp: rb_grown_def)
  show "rb_contents (rb_rollback q q') = rb_contents q \<and> rb_inv (rb_rollback q q')
      \<and> rb_room (rb_rollback q q') = rb_room q"
    if "rb_inv q" "rb_grown q q'" for q q'
    using that by (auto simp: rb_grown_def rb_rollback_def rb_contents_def rb_inv_def rb_room_def)
qed

lemma RINGBUF_Init_ok:
  "2 \<le> sz \<Longrightarrow> length mem = sz \<Longrightarrow>
   \<exists>r'. RINGBUF_Init r (Some mem) sz = (0, r') \<and> rb_inv r' \<and> rb_contents r' = [] \<and> rb_room r' = sz"
  by (simp add: RINGBUF_Init_def rb_inv_def rb_contents_def rb_room_def)

end
