(* ===== verification/MsgQueue.thy ===== *)
theory MsgQueue
  imports RingBuf
begin

text \<open>
  Byte-stuffed framing over the ring buffer and the message queue built on it:
  \<^verbatim>\<open>src/src/utility/queue/proto.cpp\<close> and \<^verbatim>\<open>queue.cpp\<close>. A message is written
  as a start byte \<open>0x7E\<close>, its bytes with the three control bytes escaped, and an end byte
  \<open>0x7F\<close>; the parser is a state machine over single bytes. The main result is that the
  queue is a FIFO of whole messages.
\<close>

section \<open>The parser\<close>

text \<open>
  \<open>isEsc\<close> and \<open>isBegin\<close> are the C flags. The callback is a function with no argument
  and no result; what the model keeps of it is whether one is registered and how often it
  was invoked.
\<close>

record PROTO_PARSER =
  pp_buf :: bytes
  pp_bufSize :: u16
  pp_dataLen :: u16
  pp_isEsc :: bool
  pp_isBegin :: bool
  pp_callback :: bool
  pp_calls :: nat

definition PROTO_Init :: "PROTO_PARSER \<Rightarrow> bool \<Rightarrow> bytes \<Rightarrow> u16 \<Rightarrow> PROTO_PARSER" where
  "PROTO_Init p cb buf bufSize =
     p\<lparr>pp_buf := buf, pp_bufSize := bufSize, pp_dataLen := 0, pp_callback := cb, pp_isEsc := False\<rparr>"

definition PROTO_ParseByte :: "PROTO_PARSER \<Rightarrow> u8 \<Rightarrow> int \<times> PROTO_PARSER" where
  "PROTO_ParseByte p v =
     (if v = 0x7D then (-1, p\<lparr>pp_isEsc := True\<rparr>)
      else if v = 0x7E then (-1, p\<lparr>pp_dataLen := 0, pp_isEsc := False, pp_isBegin := True\<rparr>)
      else if v = 0x7F then
        (0, p\<lparr>pp_calls := (if pp_callback p then Suc (pp_calls p) else pp_calls p),
              pp_isBegin := False\<rparr>)
      else if \<not> pp_isBegin p then (-1, p)
      else
        let v' = (if pp_isEsc p then v XOR 0x20 else v);
            p' = p\<lparr>pp_isEsc := False\<rparr>
        in (-1, if pp_dataLen p' < pp_bufSize p'
                then p'\<lparr>pp_buf := (pp_buf p')[unat (pp_dataLen p') := v'],
                        pp_dataLen := pp_dataLen p' + 1\<rparr>
                else p'))"

fun PROTO_Parse :: "PROTO_PARSER \<Rightarrow> bytes \<Rightarrow> PROTO_PARSER" where
  "PROTO_Parse p [] = p"
| "PROTO_Parse p (v # vs) = PROTO_Parse (snd (PROTO_ParseByte p v)) vs"

text \<open>
  The read loop of \<open>PROTO_ParseRb\<close>. Every turn takes one byte out of the ring buffer, so
  the number of bytes in it bounds the turns.
\<close>

function parse_rb_loop :: "RINGBUF \<Rightarrow> PROTO_PARSER \<Rightarrow> int \<times> RINGBUF \<times> PROTO_PARSER" where
  "parse_rb_loop rb p =
     (case RINGBUF_Get rb of
        (None, rb') \<Rightarrow> (-1, rb', p)
      | (Some c, rb') \<Rightarrow>
          (case PROTO_ParseByte p c of (rc, p') \<Rightarrow>
             if rc = 0 then (0, rb', p') else parse_rb_loop rb' p'))"
  by pat_completeness auto
termination
  by (relation "measure (\<lambda>(rb, p). fill_cnt rb)")
    (auto simp: RINGBUF_Get_def Let_def split: if_splits)

declare parse_rb_loop.simps [simp del]

text \<open>
  \<open>PROTO_ParseRb\<close> declares its parser on the stack and \<open>PROTO_Init\<close> does not set
  \<open>isBegin\<close>: the uninitialised structure is the argument \<open>stack\<close>. The result is the
  return code, the ring buffer, the output buffer and, on success, the length stored
  through \<open>len\<close>.
\<close>

definition PROTO_ParseRb ::
    "PROTO_PARSER \<Rightarrow> RINGBUF \<Rightarrow> bytes \<Rightarrow> u16 \<Rightarrow> int \<times> RINGBUF \<times> bytes \<times> u16 option" where
  "PROTO_ParseRb stack rb bufOut maxBufLen =
     (case parse_rb_loop rb (PROTO_Init stack False bufOut maxBufLen) of
        (rc, rb', p) \<Rightarrow> (rc, rb', pp_buf p, if rc = 0 then Some (pp_dataLen p) else None))"

section \<open>The writer\<close>

definition proto_special :: "u8 \<Rightarrow> bool" where
  "proto_special b \<longleftrightarrow> b = 0x7D \<or> b = 0x7E \<or> b = 0x7F"

text \<open>
  The loop of \<open>PROTO_AddRb\<close> over the remaining packet bytes: \<open>Inl\<close> carries the ring
  buffer at the \<open>goto nospace\<close>, \<open>Inr\<close> the ring buffer and the counter \<open>i\<close>.
\<close>

fun add_rb_loop :: "RINGBUF \<Rightarrow> bytes \<Rightarrow> u16 \<Rightarrow> RINGBUF + RINGBUF \<times> u16" where
  "add_rb_loop rb [] i = Inr (rb, i)"
| "add_rb_loop rb (b # packet) i =
     (if proto_special b then
        (case RINGBUF_Put rb 0x7D of (rc, rb1) \<Rightarrow>
           if rc = -1 then Inl rb1
           else (case RINGBUF_Put rb1 (b XOR 0x20) of (rc2, rb2) \<Rightarrow>
                   if rc2 = -1 then Inl rb2 else add_rb_loop rb2 packet (i + 2)))
      else
        (case RINGBUF_Put rb b of (rc, rb1) \<Rightarrow>
           if rc = -1 then Inl rb1 else add_rb_loop rb1 packet (i + 1)))"

definition PROTO_AddRb :: "RINGBUF \<Rightarrow> bytes \<Rightarrow> int \<times> RINGBUF" where
  "PROTO_AddRb rb packet =
     (case RINGBUF_Put rb 0x7E of (rc, rb1) \<Rightarrow>
        if rc = -1 then (-1, rb_rollback rb rb1)
        else (case add_rb_loop rb1 packet 2 of
                Inl rb2 \<Rightarrow> (-1, rb_rollback rb rb2)
              | Inr (rb2, i) \<Rightarrow>
                  (case RINGBUF_Put rb2 0x7F of (rc3, rb3) \<Rightarrow>
                     if rc3 = -1 then (-1, rb_rollback rb rb3) else (uint i, rb3))))"

text \<open>
  \<open>PROTO_Add\<close> writes to a plain buffer of \<open>bufSize\<close> bytes. It takes the packet's
  length from the packet's own first two bytes and does not step past them, so the length
  field is the first thing it frames. The model returns the bytes stored and the return
  code; \<open>None\<close> is a read past the packet's end.
\<close>

fun add_buf_loop :: "nat \<Rightarrow> bytes \<Rightarrow> bytes \<Rightarrow> int \<Rightarrow> u16 \<Rightarrow> (int \<times> bytes) option" where
  "add_buf_loop 0 packet out room i =
     Some (if room < 1 then (-1, out) else (uint i, out @ [0x7F]))"
| "add_buf_loop (Suc n) [] out room i = None"
| "add_buf_loop (Suc n) (b # packet) out room i =
     (if proto_special b then
        if room < 2 then Some (-1, out)
        else add_buf_loop n packet (out @ [0x7D, b XOR 0x20]) (room - 2) (i + 2)
      else
        if room < 1 then Some (-1, out)
        else add_buf_loop n packet (out @ [b]) (room - 1) (i + 1))"

definition PROTO_Add :: "bytes \<Rightarrow> int \<Rightarrow> (int \<times> bytes) option" where
  "PROTO_Add packet bufSize =
     (case packet of
        b0 # b1 # _ \<Rightarrow>
          if bufSize < 1 then Some (-1, [])
          else add_buf_loop (unat b0 + 256 * unat b1) packet [0x7E] (bufSize - 1) 2
      | _ \<Rightarrow> None)"

section \<open>The queue\<close>

text \<open>
  \<open>q_buf\<close> says whether \<open>queue->buf\<close> is non-null; the memory it points to is the ring
  buffer's \<open>rb_mem\<close>. \<open>has_heap_for\<close> is the answer of the heap check
  \<open>pdiutil::safe_new_array\<close> makes; the array comes back zeroed.
\<close>

record QUEUE =
  q_buf :: bool
  q_rb :: RINGBUF

definition QUEUE_Init :: "(nat \<Rightarrow> bool) \<Rightarrow> QUEUE \<Rightarrow> nat \<Rightarrow> QUEUE" where
  "QUEUE_Init has_heap_for q bufferSize =
     (if bufferSize = 0 \<or> \<not> has_heap_for bufferSize then q\<lparr>q_buf := False\<rparr>
      else let mem = replicate bufferSize 0 in
        q\<lparr>q_buf := True, q_rb := snd (RINGBUF_Init (q_rb q) (Some mem) bufferSize)\<rparr>)"

definition QUEUE_Puts :: "QUEUE \<Rightarrow> bytes \<Rightarrow> int \<times> QUEUE" where
  "QUEUE_Puts q buffer = (case PROTO_AddRb (q_rb q) buffer of (rc, rb) \<Rightarrow> (rc, q\<lparr>q_rb := rb\<rparr>))"

definition QUEUE_Gets ::
    "PROTO_PARSER \<Rightarrow> QUEUE \<Rightarrow> bytes \<Rightarrow> u16 \<Rightarrow> int \<times> QUEUE \<times> bytes \<times> u16 option" where
  "QUEUE_Gets stack q buffer maxLen =
     (case PROTO_ParseRb stack (q_rb q) buffer maxLen of
        (rc, rb, out, len) \<Rightarrow> (rc, q\<lparr>q_rb := rb\<rparr>, out, len))"

definition QUEUE_IsEmpty :: "QUEUE \<Rightarrow> bool" where
  "QUEUE_IsEmpty q \<longleftrightarrow> fill_cnt (q_rb q) \<le> 0"

section \<open>Reference: what a message looks like on the wire\<close>

definition escape :: "u8 \<Rightarrow> bytes" where
  "escape b = (if proto_special b then [0x7D, b XOR 0x20] else [b])"

definition frame :: "bytes \<Rightarrow> bytes" where
  "frame m = 0x7E # concat (map escape m) @ [0x7F]"

section \<open>The writer writes frames, or nothing\<close>

lemma put_list_append:
  "put_list put q (xs @ ys) =
     (case put_list put q xs of (rc, q') \<Rightarrow> if rc = -1 then (-1, q') else put_list put q' ys)"
  by (induction xs arbitrary: q) (auto split: prod.split)

lemma add_rb_loop_frame:
  "add_rb_loop rb pk i =
     (case put_list RINGBUF_Put rb (concat (map escape pk)) of
        (rc, rb') \<Rightarrow> if rc = -1 then Inl rb'
                    else Inr (rb', i + of_nat (length (concat (map escape pk)))))"
proof (induction pk arbitrary: rb i)
  case (Cons b pk)
  then show ?case
    by (auto simp: escape_def put_list_append ac_simps split: prod.split)
qed simp

lemma PROTO_AddRb_frame:
  "PROTO_AddRb rb pk =
     (case put_list RINGBUF_Put rb (frame pk) of
        (rc, rb') \<Rightarrow> if rc = -1 then (-1, rb_rollback rb rb')
                    else (uint (of_nat (length (frame pk)) :: u16), rb'))"
  by (auto simp: PROTO_AddRb_def frame_def add_rb_loop_frame put_list_append ac_simps
      split: prod.split)

lemma PROTO_AddRb_ok:
  assumes "rb_inv rb" "length (frame pk) \<le> rb_room rb"
  obtains rb' where "PROTO_AddRb rb pk = (int (length (frame pk) mod 65536), rb')"
    "rb_inv rb'" "rb_contents rb' = rb_contents rb @ frame pk"
    "rb_room rb' = rb_room rb - length (frame pk)"
proof -
  obtain rb' where "put_list RINGBUF_Put rb (frame pk) = (0, rb')" "rb_inv rb'"
    "rb_contents rb' = rb_contents rb @ frame pk" "rb_room rb' = rb_room rb - length (frame pk)"
    using ring.put_list_fits [OF assms] by blast
  then show thesis
    using that by (simp add: PROTO_AddRb_frame uint_nat unat_of_nat)
qed

lemma PROTO_AddRb_nospace:
  assumes "rb_inv rb" "rb_room rb < length (frame pk)"
  obtains rb' where "PROTO_AddRb rb pk = (-1, rb')" "rb_inv rb'"
    "rb_contents rb' = rb_contents rb" "rb_room rb' = rb_room rb"
proof -
  obtain rb1 where "put_list RINGBUF_Put rb (frame pk) = (-1, rb1)" "rb_grown rb rb1"
    using ring.put_list_overflows [OF assms] by blast
  then show thesis
    using that ring.rollback_grown [OF assms(1)] by (simp add: PROTO_AddRb_frame)
qed

section \<open>The parser reads frames\<close>

text \<open>The read loop, over the bytes in the buffer instead of the buffer.\<close>

fun parse_list :: "PROTO_PARSER \<Rightarrow> bytes \<Rightarrow> int \<times> bytes \<times> PROTO_PARSER" where
  "parse_list p [] = (-1, [], p)"
| "parse_list p (c # cs) =
     (case PROTO_ParseByte p c of (rc, p') \<Rightarrow> if rc = 0 then (0, cs, p') else parse_list p' cs)"

lemma parse_rb_loop_list:
  assumes "rb_inv rb" "parse_list p (rb_contents rb) = (rc, cs, p')"
  shows "\<exists>rb'. parse_rb_loop rb p = (rc, rb', p') \<and> rb_inv rb' \<and> rb_contents rb' = cs"
  using assms
proof (induction "rb_contents rb" arbitrary: rb p)
  case Nil
  then show ?case using ring.get_empty [of rb] Nil.hyps [symmetric] by (simp add: parse_rb_loop.simps [of rb])
next
  case (Cons c xs)
  obtain rb1 where rb1: "RINGBUF_Get rb = (Some c, rb1)" "rb_contents rb1 = xs" "rb_inv rb1"
    using ring.get_cons Cons.prems(1) Cons.hyps(2) by metis
  obtain rc1 p1 where p1: "PROTO_ParseByte p c = (rc1, p1)" by fastforce
  show ?case
  proof (cases "rc1 = 0")
    case True
    then show ?thesis
      using rb1 p1 Cons.prems(2) Cons.hyps(2) [symmetric] by (auto simp: parse_rb_loop.simps [of rb])
  next
    case False
    then have "parse_list p1 (rb_contents rb1) = (rc, cs, p')"
      using rb1 p1 Cons.prems(2) Cons.hyps(2) [symmetric] by simp
    from Cons.hyps(1) [OF _ rb1(3) this] rb1 Cons.hyps(2) [symmetric] p1 False show ?thesis
      by (auto simp: parse_rb_loop.simps [of rb])
  qed
qed

text \<open>
  A parser inside a message, its output buffer large enough for \<open>bufSize\<close> bytes: the bytes
  of the message land behind what is already there, up to the buffer's size.
\<close>

definition pp_open :: "PROTO_PARSER \<Rightarrow> bool" where
  "pp_open p \<longleftrightarrow> pp_isBegin p \<and> \<not> pp_isEsc p \<and> pp_dataLen p \<le> pp_bufSize p
     \<and> unat (pp_bufSize p) \<le> length (pp_buf p)"

definition pp_data :: "PROTO_PARSER \<Rightarrow> bytes" where
  "pp_data p = take (unat (pp_dataLen p)) (pp_buf p)"

text \<open>One unescaped payload byte \<open>b\<close> taken by an open parser.\<close>

definition pp_take :: "PROTO_PARSER \<Rightarrow> u8 \<Rightarrow> PROTO_PARSER" where
  "pp_take p b =
     (if pp_dataLen p < pp_bufSize p
      then p\<lparr>pp_buf := (pp_buf p)[unat (pp_dataLen p) := b], pp_dataLen := pp_dataLen p + 1\<rparr>
      else p)"

lemma escape_parsed:
  assumes "pp_open p"
  shows "parse_list p (escape b @ cs) = parse_list (pp_take p b) cs"
proof (cases "proto_special b")
  case True
  then have b: "b = 0x7D \<or> b = 0x7E \<or> b = 0x7F" by (simp add: proto_special_def)
  have neq: "b XOR 0x20 \<noteq> 0x7D" "b XOR 0x20 \<noteq> 0x7E" "b XOR 0x20 \<noteq> 0x7F"
    using b by auto
  then show ?thesis
    using assms True
    by (cases p) (simp add: escape_def PROTO_ParseByte_def pp_open_def pp_take_def Let_def xor.assoc)
next
  case False
  then show ?thesis
    using assms
    by (cases p) (simp add: escape_def PROTO_ParseByte_def pp_open_def pp_take_def proto_special_def Let_def)
qed

lemma pp_take_open:
  assumes "pp_open p"
  shows "pp_open (pp_take p b)" "pp_bufSize (pp_take p b) = pp_bufSize p"
    "pp_data (pp_take p b) = take (unat (pp_bufSize p)) (pp_data p @ [b])"
proof -
  have len: "length (pp_data p) = unat (pp_dataLen p)"
    using assms by (simp add: pp_open_def pp_data_def word_le_nat_alt)
  show "pp_open (pp_take p b)" "pp_bufSize (pp_take p b) = pp_bufSize p"
    using assms word_less_inc [of "pp_dataLen p" "pp_bufSize p"]
    by (auto simp: pp_open_def pp_take_def word_le_nat_alt word_less_nat_alt)
  show "pp_data (pp_take p b) = take (unat (pp_bufSize p)) (pp_data p @ [b])"
    using assms word_less_inc [of "pp_dataLen p" "pp_bufSize p"] len
    by (auto simp: pp_open_def pp_take_def pp_data_def word_le_nat_alt word_less_nat_alt
        take_Suc_conv_app_nth)
qed

lemma body_parsed:
  assumes "pp_open p"
  shows "\<exists>p'. parse_list p (concat (map escape m) @ 0x7F # cs) = (0, cs, p')
    \<and> pp_data p' = take (unat (pp_bufSize p)) (pp_data p @ m)
    \<and> unat (pp_dataLen p') = length (pp_data p')"
  using assms
proof (induction m arbitrary: p)
  case Nil
  then have "length (pp_data p) = unat (pp_dataLen p)" "unat (pp_dataLen p) \<le> unat (pp_bufSize p)"
    by (simp_all add: pp_open_def pp_data_def word_le_nat_alt)
  then show ?case
    using Nil by (simp add: PROTO_ParseByte_def pp_data_def)
next
  case (Cons b m)
  have "pp_data (pp_take p b) @ m = take (unat (pp_bufSize p)) (pp_data p @ [b]) @ m"
    using pp_take_open(3) [OF Cons.prems] by simp
  then have "take (unat (pp_bufSize p)) (pp_data (pp_take p b) @ m)
      = take (unat (pp_bufSize p)) (pp_data p @ b # m)"
    by (simp only: take_take_append append_assoc append_Cons append_Nil)
  with Cons.IH [OF pp_take_open(1) [OF Cons.prems, of b]] show ?case
    using Cons.prems by (simp only: escape_parsed pp_take_open(2) list.map concat.simps append_assoc)
qed

lemma frame_parsed:
  assumes "unat maxLen \<le> length buf"
  shows "\<exists>p'. parse_list (PROTO_Init stack cb buf maxLen) (frame m @ cs) = (0, cs, p')
    \<and> take (unat (pp_dataLen p')) (pp_buf p') = take (unat maxLen) m
    \<and> unat (pp_dataLen p') = min (unat maxLen) (length m)"
proof -
  let ?p = "(PROTO_Init stack cb buf maxLen)\<lparr>pp_dataLen := 0, pp_isEsc := False, pp_isBegin := True\<rparr>"
  have "pp_open ?p" "pp_data ?p = []" "pp_bufSize ?p = maxLen"
    using assms by (simp_all add: pp_open_def pp_data_def PROTO_Init_def)
  then obtain p' where p': "parse_list ?p (concat (map escape m) @ 0x7F # cs) = (0, cs, p')"
    "pp_data p' = take (unat maxLen) m" "unat (pp_dataLen p') = length (pp_data p')"
    using body_parsed [of ?p m cs] by auto
  then have "unat (pp_dataLen p') = min (unat maxLen) (length m)" by simp
  then show ?thesis
    using p'(1,2) by (simp add: frame_def PROTO_ParseByte_def pp_data_def)
qed

section \<open>The queue is a FIFO of messages\<close>

definition queue_rep :: "QUEUE \<Rightarrow> bytes list \<Rightarrow> bool" where
  "queue_rep q ms \<longleftrightarrow> rb_inv (q_rb q) \<and> rb_contents (q_rb q) = concat (map frame ms)"

lemma queue_rep_Puts_ok:
  assumes "queue_rep q ms" "length (frame m) \<le> rb_room (q_rb q)"
  obtains q' where "QUEUE_Puts q m = (int (length (frame m) mod 65536), q')" "queue_rep q' (ms @ [m])"
proof -
  have "rb_inv (q_rb q)" using assms(1) by (simp add: queue_rep_def)
  from PROTO_AddRb_ok [OF this assms(2)] obtain rb' where
    "PROTO_AddRb (q_rb q) m = (int (length (frame m) mod 65536), rb')" "rb_inv rb'"
    "rb_contents rb' = rb_contents (q_rb q) @ frame m" by metis
  then show thesis using that assms(1) by (simp add: queue_rep_def QUEUE_Puts_def)
qed

lemma queue_rep_Puts_nospace:
  assumes "queue_rep q ms" "rb_room (q_rb q) < length (frame m)"
  obtains q' where "QUEUE_Puts q m = (-1, q')" "queue_rep q' ms"
proof -
  have "rb_inv (q_rb q)" using assms(1) by (simp add: queue_rep_def)
  from PROTO_AddRb_nospace [OF this assms(2)] obtain rb' where
    "PROTO_AddRb (q_rb q) m = (-1, rb')" "rb_inv rb'" "rb_contents rb' = rb_contents (q_rb q)"
    by metis
  then show thesis using that assms(1) by (simp add: queue_rep_def QUEUE_Puts_def)
qed

lemma queue_rep_Gets:
  assumes "queue_rep q (m # ms)" "unat maxLen \<le> length buffer"
  shows "\<exists>q' out len. QUEUE_Gets stack q buffer maxLen = (0, q', out, Some len)
    \<and> unat len = min (unat maxLen) (length m) \<and> take (unat len) out = take (unat maxLen) m
    \<and> queue_rep q' ms"
proof -
  obtain p' where p': "parse_list (PROTO_Init stack False buffer maxLen) (frame m @ concat (map frame ms))
      = (0, concat (map frame ms), p')"
    "take (unat (pp_dataLen p')) (pp_buf p') = take (unat maxLen) m"
    "unat (pp_dataLen p') = min (unat maxLen) (length m)"
    using frame_parsed [OF assms(2)] by blast
  obtain rb' where "parse_rb_loop (q_rb q) (PROTO_Init stack False buffer maxLen) = (0, rb', p')"
    "rb_inv rb'" "rb_contents rb' = concat (map frame ms)"
    using parse_rb_loop_list [of "q_rb q" "PROTO_Init stack False buffer maxLen" 0] assms(1) p'(1)
    by (auto simp: queue_rep_def)
  then show ?thesis
    using p' by (simp add: QUEUE_Gets_def PROTO_ParseRb_def queue_rep_def)
qed

lemma queue_rep_Gets_empty:
  assumes "queue_rep q []"
  obtains q' out where "QUEUE_Gets stack q buffer maxLen = (-1, q', out, None)" "queue_rep q' []"
proof -
  let ?p = "PROTO_Init stack False buffer maxLen"
  obtain rb' where "parse_rb_loop (q_rb q) ?p = (-1, rb', ?p)" "rb_inv rb'" "rb_contents rb' = []"
    using parse_rb_loop_list [of "q_rb q" ?p "-1" "[]" ?p] assms by (auto simp: queue_rep_def)
  then show thesis
    using that by (simp add: queue_rep_def QUEUE_Gets_def PROTO_ParseRb_def)
qed

lemma queue_rep_IsEmpty: "queue_rep q ms \<Longrightarrow> QUEUE_IsEmpty q \<longleftrightarrow> ms = []"
  by (cases ms) (auto simp: queue_rep_def QUEUE_IsEmpty_def frame_def simp flip: rb_contents_empty)

lemma queue_rep_Init:
  "2 \<le> n \<Longrightarrow> hh n \<Longrightarrow> queue_rep (QUEUE_Init hh q n) [] \<and> rb_room (q_rb (QUEUE_Init hh q n)) = n"
  by (auto simp: QUEUE_Init_def Let_def queue_rep_def RINGBUF_Init_def rb_inv_def rb_contents_def
      rb_room_def)

section \<open>Refinement of a bounded queue of messages\<close>

text \<open>
  The abstract queue: a list of messages in a store of \<open>n\<close> bytes. A message is accepted
  when its frame still fits beside the frames already held; a read takes the oldest message
  and hands back at most \<open>k\<close> bytes of it.
\<close>

datatype qcall = Puts bytes | Gets

datatype qres = PutRc int | Got "bytes option"

fun fifo_call :: "nat \<Rightarrow> nat \<Rightarrow> bytes list \<Rightarrow> qcall \<Rightarrow> qres \<times> bytes list" where
  "fifo_call n k ms (Puts m) =
     (if length (concat (map frame (ms @ [m]))) \<le> n
      then (PutRc (int (length (frame m) mod 65536)), ms @ [m]) else (PutRc (-1), ms))"
| "fifo_call n k [] Gets = (Got None, [])"
| "fifo_call n k (m # ms) Gets = (Got (Some (take k m)), ms)"

fun queue_call ::
    "PROTO_PARSER \<Rightarrow> bytes \<Rightarrow> u16 \<Rightarrow> QUEUE \<Rightarrow> qcall \<Rightarrow> qres \<times> QUEUE" where
  "queue_call stack buffer maxLen q (Puts m) =
     (case QUEUE_Puts q m of (rc, q') \<Rightarrow> (PutRc rc, q'))"
| "queue_call stack buffer maxLen q Gets =
     (case QUEUE_Gets stack q buffer maxLen of
        (rc, q', out, len) \<Rightarrow> (Got (map_option (\<lambda>l. take (unat l) out) len), q'))"

fun calls :: "('s \<Rightarrow> qcall \<Rightarrow> qres \<times> 's) \<Rightarrow> 's \<Rightarrow> qcall list \<Rightarrow> qres list" where
  "calls f s [] = []"
| "calls f s (c # cs) = (case f s c of (r, s') \<Rightarrow> r # calls f s' cs)"

lemma parse_rb_loop_size: "parse_rb_loop rb p = (rc, rb', p') \<Longrightarrow> rb_size rb' = rb_size rb"
proof (induction rb p rule: parse_rb_loop.induct)
  case (1 rb p)
  have get: "RINGBUF_Get rb = (x, rb1) \<Longrightarrow> rb_size rb1 = rb_size rb" for x rb1
    by (auto simp: RINGBUF_Get_def Let_def split: if_splits)
  show ?case
    using 1 get by (auto simp: parse_rb_loop.simps [of rb] split: prod.splits option.splits if_splits)
qed

lemma QUEUE_Gets_size:
  "QUEUE_Gets stack q buffer maxLen = (rc, q', out, len) \<Longrightarrow> rb_size (q_rb q') = rb_size (q_rb q)"
  by (auto simp: QUEUE_Gets_def PROTO_ParseRb_def dest: parse_rb_loop_size split: prod.splits)

lemma put_list_size: "put_list RINGBUF_Put rb xs = (rc, rb') \<Longrightarrow> rb_size rb' = rb_size rb"
proof (induction xs arbitrary: rb)
  case (Cons x xs)
  have "RINGBUF_Put rb x = (rc1, rb1) \<Longrightarrow> rb_size rb1 = rb_size rb" for rc1 rb1
    by (auto simp: RINGBUF_Put_def Let_def split: if_splits)
  then show ?case using Cons by (auto split: prod.splits if_splits)
qed simp

lemma QUEUE_Puts_size: "QUEUE_Puts q m = (rc, q') \<Longrightarrow> rb_size (q_rb q') = rb_size (q_rb q)"
  by (auto simp: QUEUE_Puts_def PROTO_AddRb_frame rb_rollback_def dest: put_list_size
      split: prod.splits if_splits)

definition queue_abs :: "nat \<Rightarrow> QUEUE \<Rightarrow> bytes list \<Rightarrow> bool" where
  "queue_abs n q ms \<longleftrightarrow> queue_rep q ms \<and> rb_size (q_rb q) = n"

lemma queue_abs_room: "queue_abs n q ms \<Longrightarrow> rb_room (q_rb q) = n - length (concat (map frame ms))"
  by (metis length_rb_contents queue_abs_def queue_rep_def rb_room_def)

lemma queue_abs_fill: "queue_abs n q ms \<Longrightarrow> length (concat (map frame ms)) \<le> n"
  by (metis length_rb_contents queue_abs_def queue_rep_def rb_inv_def)

lemma queue_call_sim:
  assumes "queue_abs n q ms" "unat maxLen \<le> length buffer"
  shows "\<exists>q'. queue_call stack buffer maxLen q c = (fst (fifo_call n (unat maxLen) ms c), q')
    \<and> queue_abs n q' (snd (fifo_call n (unat maxLen) ms c))"
proof (cases c)
  case (Puts m)
  have rep: "queue_rep q ms" using assms(1) by (simp add: queue_abs_def)
  have room: "length (frame m) \<le> rb_room (q_rb q) \<longleftrightarrow> length (concat (map frame (ms @ [m]))) \<le> n"
    using queue_abs_room [OF assms(1)] queue_abs_fill [OF assms(1)] by auto
  obtain rc q' where put: "QUEUE_Puts q m = (rc, q')" by fastforce
  have "rb_size (q_rb q') = n"
    using QUEUE_Puts_size [OF put] assms(1) by (simp add: queue_abs_def)
  then show ?thesis
    using Puts put queue_rep_Puts_ok [OF rep, of m] queue_rep_Puts_nospace [OF rep, of m] room
    by (cases "length (frame m) \<le> rb_room (q_rb q)") (auto simp: queue_abs_def)
next
  case Gets
  obtain rc q' out len where get: "QUEUE_Gets stack q buffer maxLen = (rc, q', out, len)"
    by (metis prod_cases4)
  have sz: "rb_size (q_rb q') = n"
    using QUEUE_Gets_size [OF get] assms(1) by (simp add: queue_abs_def)
  show ?thesis
  proof (cases ms)
    case Nil
    then have "queue_rep q []" using assms(1) by (simp add: queue_abs_def)
    then have "len = None \<and> queue_rep q' []"
      using queue_rep_Gets_empty [of q stack buffer maxLen] get by (metis prod.inject)
    then show ?thesis using Gets Nil get sz by (simp add: queue_abs_def)
  next
    case (Cons m ms')
    then have "queue_rep q (m # ms')" using assms(1) by (simp add: queue_abs_def)
    from queue_rep_Gets [OF this assms(2), of stack] get
    have "\<exists>l. len = Some l \<and> take (unat l) out = take (unat maxLen) m \<and> queue_rep q' ms'"
      by auto
    then show ?thesis using Gets Cons get sz by (auto simp: queue_abs_def)
  qed
qed

lemma queue_calls_sim:
  assumes "queue_abs n q ms" "unat maxLen \<le> length buffer"
  shows "calls (queue_call stack buffer maxLen) q cs = calls (fifo_call n (unat maxLen)) ms cs"
  using assms(1)
proof (induction cs arbitrary: q ms)
  case (Cons c cs)
  then show ?case
    using queue_call_sim [OF Cons.prems assms(2), of stack c] by (auto split: prod.split)
qed simp

section \<open>Properties\<close>

text \<open>
  C2: the message queue is a bounded FIFO of whole messages: started on a buffer of at least
  two bytes, any sequence of \<open>QUEUE_Puts\<close> and \<open>QUEUE_Gets\<close> calls returns exactly what
  the abstract list queue returns. In particular messages come out in order and unchanged
  (cut to the caller's buffer), a message that does not fit is refused with \<open>-1\<close> and
  leaves nothing behind, and escaping is invisible to the caller. The uninitialised parser
  flag on the reader's stack makes no difference.
\<close>

theorem queue_refines_fifo:
  assumes "2 \<le> n" "has_heap_for n" "unat maxLen \<le> length buffer"
  shows "calls (queue_call stack buffer maxLen) (QUEUE_Init has_heap_for q n) cs
    = calls (fifo_call n (unat maxLen)) [] cs"
proof (rule queue_calls_sim [OF _ assms(3)])
  have "rb_size (q_rb (QUEUE_Init has_heap_for q n)) = n"
    using assms(1,2) by (simp add: QUEUE_Init_def RINGBUF_Init_def Let_def)
  then show "queue_abs n (QUEUE_Init has_heap_for q n) []"
    using queue_rep_Init [of n has_heap_for q] assms(1,2) by (simp add: queue_abs_def)
qed

theorem queue_refines_fifo_witness:
  "calls (queue_call
      \<lparr>pp_buf = [], pp_bufSize = 0, pp_dataLen = 0, pp_isEsc = True, pp_isBegin = True,
       pp_callback = False, pp_calls = 0\<rparr> [0, 0, 0] 3)
     (QUEUE_Init (\<lambda>_. True) \<lparr>q_buf = False, q_rb =
        \<lparr>rb_mem = [], p_r = 0, p_w = 0, fill_cnt = 0, rb_size = 0\<rparr>\<rparr> 8)
     [Puts [0x7E, 1], Puts [1, 2], Gets, Puts [1, 2, 3, 4], Gets, Gets]
   = [PutRc 5, PutRc (-1), Got (Some [0x7E, 1]), PutRc 6, Got (Some [1, 2, 3]), Got None]"
  by (subst queue_refines_fifo) (simp_all add: frame_def escape_def proto_special_def)

end
