(* ===== verification/Sha256.thy ===== *)
theory Sha256
  imports PdiPrelude
begin

text \<open>
  SHA-256 (\<^verbatim>\<open>src/src/utility/crypto/hash/sha256.cpp\<close>) and HMAC-SHA256
  (\<^verbatim>\<open>src/src/utility/crypto/hmac/hmac_sha256.h\<close>), the tag of a sealed database
  record. The byte-at-a-time context is related to the padding and block iteration of FIPS 180-4,
  and the two-context MAC to the nested hash of RFC 2104.
\<close>

section \<open>Definitions\<close>

definition ROTRIGHT :: "u32 \<Rightarrow> nat \<Rightarrow> u32" where
  "ROTRIGHT a b = (drop_bit b a OR push_bit (32 - b) a)"

definition CH :: "u32 \<Rightarrow> u32 \<Rightarrow> u32 \<Rightarrow> u32" where
  "CH x y z = ((x AND y) XOR (NOT x AND z))"

definition MAJ :: "u32 \<Rightarrow> u32 \<Rightarrow> u32 \<Rightarrow> u32" where
  "MAJ x y z = ((x AND y) XOR (x AND z) XOR (y AND z))"

definition EP0 :: "u32 \<Rightarrow> u32" where
  "EP0 x = (ROTRIGHT x 2 XOR ROTRIGHT x 13 XOR ROTRIGHT x 22)"

definition EP1 :: "u32 \<Rightarrow> u32" where
  "EP1 x = (ROTRIGHT x 6 XOR ROTRIGHT x 11 XOR ROTRIGHT x 25)"

definition SIG0 :: "u32 \<Rightarrow> u32" where
  "SIG0 x = (ROTRIGHT x 7 XOR ROTRIGHT x 18 XOR drop_bit 3 x)"

definition SIG1 :: "u32 \<Rightarrow> u32" where
  "SIG1 x = (ROTRIGHT x 17 XOR ROTRIGHT x 19 XOR drop_bit 10 x)"

definition sha256_k :: "u32 list" where
  "sha256_k = concat [
    [0x428a2f98,0x71374491,0xb5c0fbcf,0xe9b5dba5,0x3956c25b,0x59f111f1,0x923f82a4,0xab1c5ed5],
    [0xd807aa98,0x12835b01,0x243185be,0x550c7dc3,0x72be5d74,0x80deb1fe,0x9bdc06a7,0xc19bf174],
    [0xe49b69c1,0xefbe4786,0x0fc19dc6,0x240ca1cc,0x2de92c6f,0x4a7484aa,0x5cb0a9dc,0x76f988da],
    [0x983e5152,0xa831c66d,0xb00327c8,0xbf597fc7,0xc6e00bf3,0xd5a79147,0x06ca6351,0x14292967],
    [0x27b70a85,0x2e1b2138,0x4d2c6dfc,0x53380d13,0x650a7354,0x766a0abb,0x81c2c92e,0x92722c85],
    [0xa2bfe8a1,0xa81a664b,0xc24b8b70,0xc76c51a3,0xd192e819,0xd6990624,0xf40e3585,0x106aa070],
    [0x19a4c116,0x1e376c08,0x2748774c,0x34b0bcb5,0x391c0cb3,0x4ed8aa4a,0x5b9cca4f,0x682e6ff3],
    [0x748f82ee,0x78a5636f,0x84c87814,0x8cc70208,0x90befffa,0xa4506ceb,0xbef9a3f7,0xc67178f2]]"

record sha256_context =
  sh_data :: bytes
  sh_datalen :: nat
  sh_bitlen :: u64
  sh_state :: "u32 list"

definition be_word :: "bytes \<Rightarrow> nat \<Rightarrow> u32" where
  "be_word dat j = (push_bit 24 (ucast (dat ! j)) OR push_bit 16 (ucast (dat ! (j + 1)))
     OR push_bit 8 (ucast (dat ! (j + 2))) OR ucast (dat ! (j + 3)))"

definition sched_step :: "u32 list \<Rightarrow> u32 list" where
  "sched_step m = (let i = length m in
     m @ [SIG1 (m ! (i - 2)) + m ! (i - 7) + SIG0 (m ! (i - 15)) + m ! (i - 16)])"

definition sha256_schedule :: "bytes \<Rightarrow> u32 list" where
  "sha256_schedule dat = (sched_step ^^ 48) (map (\<lambda>i. be_word dat (4 * i)) [0..<16])"

fun sha256_round :: "u32 list \<Rightarrow> u32 \<times> u32 \<Rightarrow> u32 list" where
  "sha256_round [a, b, c, d, e, f, g, h] (k, m) =
     (let t1 = h + EP1 e + CH e f g + k + m;
          t2 = EP0 a + MAJ a b c
      in [t1 + t2, a, b, c, d + t1, e, f, g])"
| "sha256_round v km = v"

definition sha256_compress :: "u32 list \<Rightarrow> bytes \<Rightarrow> u32 list" where
  "sha256_compress st dat = map2 (+) st (foldl sha256_round st (zip sha256_k (sha256_schedule dat)))"

definition sha256_transform :: "sha256_context \<Rightarrow> sha256_context" where
  "sha256_transform ctx = ctx\<lparr>sh_state := sha256_compress (sh_state ctx) (sh_data ctx)\<rparr>"

definition sha256_H0 :: "u32 list" where
  "sha256_H0 = [0x6a09e667, 0xbb67ae85, 0x3c6ef372, 0xa54ff53a,
     0x510e527f, 0x9b05688c, 0x1f83d9ab, 0x5be0cd19]"

definition sha256_init :: "sha256_context \<Rightarrow> sha256_context" where
  "sha256_init ctx = ctx\<lparr>sh_datalen := 0, sh_bitlen := 0, sh_state := sha256_H0\<rparr>"

definition sha256_update_byte :: "sha256_context \<Rightarrow> u8 \<Rightarrow> sha256_context" where
  "sha256_update_byte ctx b =
     (let ctx = ctx\<lparr>sh_data := (sh_data ctx)[sh_datalen ctx := b], sh_datalen := sh_datalen ctx + 1\<rparr>
      in if sh_datalen ctx = 64
         then (sha256_transform ctx)\<lparr>sh_bitlen := sh_bitlen ctx + 512, sh_datalen := 0\<rparr>
         else ctx)"

definition sha256_update :: "sha256_context \<Rightarrow> bytes \<Rightarrow> sha256_context" where
  "sha256_update ctx dat = foldl sha256_update_byte ctx dat"

fun fill_zero :: "bytes \<Rightarrow> nat \<Rightarrow> nat \<Rightarrow> bytes" where
  "fill_zero dat i 0 = dat"
| "fill_zero dat i (Suc n) = fill_zero (dat[i := 0]) (Suc i) n"

text \<open>The big-endian bytes of the bit count and of the eight state words.\<close>

definition be64 :: "u64 \<Rightarrow> bytes" where
  "be64 w = map (\<lambda>j. ucast (drop_bit (56 - 8 * j) w)) [0..<8]"

definition put_bitlen :: "bytes \<Rightarrow> u64 \<Rightarrow> bytes" where
  "put_bitlen dat w = foldl (\<lambda>d j. d[63 - j := ucast (drop_bit (8 * j) w)]) dat [0..<8]"

definition sha256_digest :: "u32 list \<Rightarrow> bytes" where
  "sha256_digest st = concat (map (\<lambda>w. map (\<lambda>i. ucast (drop_bit (24 - i * 8) w)) [0..<4]) st)"

definition sha256_final :: "sha256_context \<Rightarrow> bytes" where
  "sha256_final ctx =
     (let i = sh_datalen ctx;
          ctx1 = (if i < 56
             then ctx\<lparr>sh_data := fill_zero ((sh_data ctx)[i := 0x80]) (i + 1) (56 - (i + 1))\<rparr>
             else (let ctx' = sha256_transform
                     (ctx\<lparr>sh_data := fill_zero ((sh_data ctx)[i := 0x80]) (i + 1) (64 - (i + 1))\<rparr>)
                   in ctx'\<lparr>sh_data := fill_zero (sh_data ctx') 0 56\<rparr>));
          ctx2 = ctx1\<lparr>sh_bitlen := sh_bitlen ctx1 + of_nat (sh_datalen ctx1 * 8)\<rparr>;
          ctx3 = sha256_transform (ctx2\<lparr>sh_data := put_bitlen (sh_data ctx2) (sh_bitlen ctx2)\<rparr>)
      in sha256_digest (sh_state ctx3))"

text \<open>\<open>ctx\<close> is the uninitialised context on the stack of the one-shot calls.\<close>

definition sha256 :: "sha256_context \<Rightarrow> bytes \<Rightarrow> bytes" where
  "sha256 ctx message = sha256_final (sha256_update (sha256_init ctx) message)"

record hmac_sha256_context =
  m_inner :: sha256_context
  m_opad :: bytes

text \<open>\<open>stk\<close> stands for the uninitialised contexts the routines keep on their stack.\<close>

definition hmac_sha256_init ::
  "sha256_context \<Rightarrow> hmac_sha256_context \<Rightarrow> bytes \<Rightarrow> hmac_sha256_context" where
  "hmac_sha256_init stk ctx key =
     (let key = (if length key > 64 then sha256 stk key else key);
          padded = key @ replicate (64 - length key) 0
      in \<lparr>m_inner = sha256_update (sha256_init (m_inner ctx)) (map (\<lambda>b. b XOR 0x36) padded),
          m_opad = map (\<lambda>b. b XOR 0x5c) padded\<rparr>)"

definition hmac_sha256_update :: "hmac_sha256_context \<Rightarrow> bytes \<Rightarrow> hmac_sha256_context" where
  "hmac_sha256_update ctx dat = ctx\<lparr>m_inner := sha256_update (m_inner ctx) dat\<rparr>"

definition hmac_sha256_final :: "sha256_context \<Rightarrow> hmac_sha256_context \<Rightarrow> bytes" where
  "hmac_sha256_final stk ctx =
     (let temp = sha256_final (m_inner ctx)
      in sha256_final (sha256_update (sha256_update (sha256_init stk) (m_opad ctx)) temp))"

definition hmac_sha256 :: "sha256_context \<Rightarrow> hmac_sha256_context \<Rightarrow> bytes \<Rightarrow> bytes \<Rightarrow> bytes" where
  "hmac_sha256 stk ctx key dat =
     hmac_sha256_final stk (hmac_sha256_update (hmac_sha256_init stk ctx key) dat)"

section \<open>The published algorithms\<close>

text \<open>FIPS 180-4: pad to whole blocks, then fold the compression function over them.\<close>

fun sha_blocks :: "u32 list \<Rightarrow> bytes \<Rightarrow> u32 list" where
  "sha_blocks st xs =
     (if length xs < 64 then st else sha_blocks (sha256_compress st (take 64 xs)) (drop 64 xs))"

declare sha_blocks.simps [simp del]

definition sha_pad :: "bytes \<Rightarrow> bytes" where
  "sha_pad msg = msg @ [0x80] @ replicate ((119 - length msg mod 64) mod 64) 0
     @ be64 (of_nat (8 * length msg))"

definition SHA256_spec :: "bytes \<Rightarrow> bytes" where
  "SHA256_spec msg = sha256_digest (sha_blocks sha256_H0 (sha_pad msg))"

text \<open>RFC 2104 over that hash.\<close>

definition HMAC_spec :: "bytes \<Rightarrow> bytes \<Rightarrow> bytes" where
  "HMAC_spec key msg =
     (let k = (if length key > 64 then SHA256_spec key else key);
          k0 = k @ replicate (64 - length k) 0
      in SHA256_spec (map (\<lambda>b. b XOR 0x5c) k0 @ SHA256_spec (map (\<lambda>b. b XOR 0x36) k0 @ msg)))"

section \<open>Blocks\<close>

lemma sha_blocks_append:
  assumes "64 dvd length xs"
  shows "sha_blocks st (xs @ ys) = sha_blocks (sha_blocks st xs) ys"
  using assms
proof (induction st xs rule: sha_blocks.induct)
  case (1 st xs)
  show ?case
  proof (cases "xs = []")
    case False
    with "1.prems" have len: "64 \<le> length xs"
      by (auto dest: dvd_imp_le)
    with "1.prems" have "64 dvd length (drop 64 xs)"
      by (simp add: dvd_minus_self)
    then show ?thesis
      using 1 len by (simp add: sha_blocks.simps [of st "xs @ ys"] sha_blocks.simps [of st xs])
  qed (simp add: sha_blocks.simps [of st "[]"])
qed

lemma sha_blocks_one: "length xs = 64 \<Longrightarrow> sha_blocks st xs = sha256_compress st xs"
  by (simp add: sha_blocks.simps [of st xs] sha_blocks.simps [of _ "[]"])

lemma length_fill_zero [simp]: "length (fill_zero dat i n) = length dat"
  by (induction dat i n rule: fill_zero.induct) simp_all

lemma fill_zero_eq:
  "i + n \<le> length dat \<Longrightarrow> fill_zero dat i n = take i dat @ replicate n 0 @ drop (i + n) dat"
proof (induction dat i n rule: fill_zero.induct)
  case (2 dat i n)
  then have "take (Suc i) (dat[i := 0]) = take i dat @ [0]"
    by (simp add: take_Suc_conv_app_nth)
  with 2 show ?case
    by simp
qed simp

lemma put_bitlen_eq: "length dat = 64 \<Longrightarrow> put_bitlen dat w = take 56 dat @ be64 w"
  by (rule nth_equalityI)
    (auto simp: put_bitlen_def be64_def nth_append nth_list_update upt_rec [of _ 8] upt_rec [of _ 64]
      less_Suc_eq numeral_eq_Suc)

section \<open>The running context\<close>

text \<open>
  A context that has absorbed \<open>msg\<close> holds the whole blocks folded into the state and the
  rest at the front of its buffer; what lies behind the rest is left over from earlier blocks.
\<close>

definition sha_rep :: "sha256_context \<Rightarrow> bytes \<Rightarrow> bool" where
  "sha_rep ctx msg \<longleftrightarrow> length (sh_data ctx) = 64 \<and> sh_datalen ctx < 64 \<and>
     (\<exists>whole rest. msg = whole @ rest \<and> 64 dvd length whole \<and> length rest = sh_datalen ctx
        \<and> take (sh_datalen ctx) (sh_data ctx) = rest
        \<and> sh_bitlen ctx = of_nat (8 * length whole)
        \<and> sh_state ctx = sha_blocks sha256_H0 whole)"

lemma sha_rep_init: "length (sh_data ctx) = 64 \<Longrightarrow> sha_rep (sha256_init ctx) []"
  by (simp add: sha_rep_def sha256_init_def sha_blocks.simps [of _ "[]"])

lemma sha_rep_byte:
  assumes "sha_rep ctx msg"
  shows "sha_rep (sha256_update_byte ctx b) (msg @ [b])"
proof -
  let ?i = "sh_datalen ctx"
  from assms obtain whole rest where rep: "msg = whole @ rest" "64 dvd length whole" "length rest = ?i"
      "take ?i (sh_data ctx) = rest" "sh_bitlen ctx = of_nat (8 * length whole)"
      "sh_state ctx = sha_blocks sha256_H0 whole"
    and len: "length (sh_data ctx) = 64" "?i < 64"
    unfolding sha_rep_def by blast
  have data: "take (Suc ?i) ((sh_data ctx)[?i := b]) = rest @ [b]"
    using len rep(4) by (simp add: take_Suc_conv_app_nth)
  show ?thesis
  proof (cases "Suc ?i = 64")
    case True
    then have "(sh_data ctx)[63 := b] = rest @ [b]"
      using data len by simp
    then have "sha_blocks sha256_H0 (whole @ rest @ [b])
        = sha256_compress (sh_state ctx) ((sh_data ctx)[63 := b])"
      using rep True by (simp add: sha_blocks_append sha_blocks_one)
    moreover have "64 dvd length (whole @ rest @ [b])"
      using rep(2,3) True by simp
    ultimately show ?thesis
      using rep len True unfolding sha_rep_def
      by (intro conjI exI [of _ "whole @ rest @ [b]"] exI [of _ "[]"])
        (simp_all add: sha256_update_byte_def sha256_transform_def algebra_simps)
  next
    case False
    then show ?thesis
      using rep len data unfolding sha_rep_def
      by (intro conjI exI [of _ whole] exI [of _ "rest @ [b]"]) (simp_all add: sha256_update_byte_def)
  qed
qed

lemma sha_rep_update: "sha_rep ctx msg \<Longrightarrow> sha_rep (sha256_update ctx dat) (msg @ dat)"
proof (induction dat arbitrary: ctx msg)
  case (Cons b dat)
  then show ?case
    using Cons.IH [OF sha_rep_byte [OF Cons.prems]] by (simp add: sha256_update_def)
qed (simp add: sha256_update_def)

lemma sha256_update_append [simp]: "sha256_update ctx (xs @ ys) = sha256_update (sha256_update ctx xs) ys"
  by (simp add: sha256_update_def)

lemma sha256_update_Nil [simp]: "sha256_update ctx [] = ctx"
  by (simp add: sha256_update_def)

section \<open>Finishing\<close>

lemma sha_pad_short:
  assumes "64 dvd length whole" "length rest < 56"
  shows "sha_pad (whole @ rest) = whole @ (rest @ [0x80] @ replicate (55 - length rest) 0
    @ be64 (of_nat (8 * length whole) + of_nat (8 * length rest)))"
proof -
  from assms have "length (whole @ rest) mod 64 = length rest"
    by (auto elim!: dvdE)
  moreover have "(119 - length rest) mod 64 = 55 - length rest"
    using assms by (simp add: le_mod_geq)
  ultimately show ?thesis
    by (simp add: sha_pad_def algebra_simps)
qed

lemma sha_pad_long:
  assumes "64 dvd length whole" "56 \<le> length rest" "length rest < 64"
  shows "sha_pad (whole @ rest) = whole @ (rest @ [0x80] @ replicate (63 - length rest) 0)
    @ (replicate 56 0 @ be64 (of_nat (8 * length whole) + of_nat (8 * length rest)))"
proof -
  from assms have "length (whole @ rest) mod 64 = length rest"
    by (auto elim!: dvdE)
  moreover have "replicate ((119 - length rest) mod 64) (0 :: u8) = replicate (63 - length rest) 0 @ replicate 56 0"
    using assms by (simp flip: replicate_add)
  ultimately show ?thesis
    by (simp add: sha_pad_def algebra_simps)
qed

lemma length_be64 [simp]: "length (be64 w) = 8"
  by (simp add: be64_def)

lemma sha256_final_rep:
  assumes "sha_rep ctx msg"
  shows "sha256_final ctx = SHA256_spec msg"
proof -
  let ?i = "sh_datalen ctx"
  from assms obtain whole rest where rep: "msg = whole @ rest" "64 dvd length whole" "length rest = ?i"
      "take ?i (sh_data ctx) = rest" "sh_bitlen ctx = of_nat (8 * length whole)"
      "sh_state ctx = sha_blocks sha256_H0 whole"
    and len: "length (sh_data ctx) = 64" "?i < 64"
    unfolding sha_rep_def by blast
  let ?bits = "of_nat (8 * length whole) + of_nat (8 * length rest) :: u64"
  have data: "take (Suc ?i) ((sh_data ctx)[?i := 0x80]) = rest @ [0x80]"
    using len rep(4) by (simp add: take_Suc_conv_app_nth)
  show ?thesis
  proof (cases "?i < 56")
    case True
    have "take 56 (fill_zero ((sh_data ctx)[?i := 0x80]) (Suc ?i) (55 - ?i))
        = rest @ [0x80] @ replicate (55 - length rest) 0"
      using True len rep(3) by (simp add: fill_zero_eq data take_Cons')
    then show ?thesis
      using True len rep
      by (simp add: sha256_final_def Let_def SHA256_spec_def sha_pad_short sha_blocks_append sha_blocks_one
          sha256_transform_def put_bitlen_eq algebra_simps)
  next
    case False
    have "fill_zero ((sh_data ctx)[?i := 0x80]) (Suc ?i) (63 - ?i)
        = rest @ [0x80] @ replicate (63 - length rest) 0"
      using False len rep(3) by (simp add: fill_zero_eq data)
    moreover have "sha_blocks st (rest @ 0x80 # replicate (63 - ?i) 0 @ replicate 56 0 @ be64 w)
        = sha256_compress (sha256_compress st (rest @ 0x80 # replicate (63 - ?i) 0)) (replicate 56 0 @ be64 w)"
      for st w
      using sha_blocks_append [of "rest @ 0x80 # replicate (63 - ?i) 0" st "replicate 56 0 @ be64 w"] len rep(3)
      by (simp add: sha_blocks_one)
    ultimately show ?thesis
      using False len rep sha_pad_long [OF rep(2), of rest]
      by (simp add: sha256_final_def Let_def SHA256_spec_def sha_blocks_append sha_blocks_one
          sha256_transform_def put_bitlen_eq fill_zero_eq algebra_simps)
  qed
qed

lemma sha256_two_pieces:
  "length (sh_data ctx) = 64 \<Longrightarrow>
     sha256_final (sha256_update (sha256_update (sha256_init ctx) xs) ys) = SHA256_spec (xs @ ys)"
  using sha256_final_rep [OF sha_rep_update [OF sha_rep_init], of ctx "xs @ ys"] by simp

lemma sha256_spec: "length (sh_data ctx) = 64 \<Longrightarrow> sha256 ctx msg = SHA256_spec msg"
  using sha256_final_rep [OF sha_rep_update [OF sha_rep_init]] by (simp add: sha256_def)

lemma length_sha256_round [simp]: "length (sha256_round v km) = length v"
  by (cases "(v, km)" rule: sha256_round.cases) (simp_all add: Let_def)

lemma length_sha256_rounds [simp]: "length (foldl sha256_round v kms) = length v"
  by (induction kms arbitrary: v) simp_all

lemma length_sha_blocks [simp]: "length (sha_blocks st xs) = length st"
proof (induction st xs rule: sha_blocks.induct)
  case (1 st xs)
  then show ?case
    by (subst sha_blocks.simps) (simp add: sha256_compress_def)
qed

lemma length_digest: "length (sha256_digest st) = 4 * length st"
  by (induction st) (simp_all add: sha256_digest_def)

lemma length_SHA256 [simp]: "length (SHA256_spec msg) = 32"
  by (simp add: SHA256_spec_def length_digest sha256_H0_def)

section \<open>Properties\<close>



text \<open>The running MAC: what the sealed record engine relies on.\<close>

lemma hmac_sha256_update_append [simp]:
  "hmac_sha256_update ctx (xs @ ys) = hmac_sha256_update (hmac_sha256_update ctx xs) ys"
  by (simp add: hmac_sha256_update_def)

lemma hmac_sha256_update_Nil [simp]: "hmac_sha256_update ctx [] = ctx"
  by (simp add: hmac_sha256_update_def)

lemma hmac_sha256_streaming:
  assumes "length (sh_data stk) = 64" "length (sh_data (m_inner ctx)) = 64"
  shows "hmac_sha256_final stk (hmac_sha256_update (hmac_sha256_init stk ctx key) dat) = HMAC_spec key dat"
  using assms
  by (simp add: hmac_sha256_final_def hmac_sha256_update_def hmac_sha256_init_def HMAC_spec_def Let_def
      sha256_spec sha256_two_pieces del: sha256_update_append map_append)

lemma length_HMAC [simp]: "length (HMAC_spec key dat) = 32"
  by (simp add: HMAC_spec_def Let_def)

text \<open>
  C19: the one-shot and the streamed MAC are the nested hash of RFC 2104, keys longer than a block
  hashed first, whatever the contexts held before.
\<close>

theorem hmac_sha256_rfc2104:
  assumes "length (sh_data stk) = 64" "length (sh_data (m_inner ctx)) = 64"
  shows "hmac_sha256 stk ctx key (xs @ ys) = HMAC_spec key (xs @ ys) \<and>
    hmac_sha256_final stk (hmac_sha256_update (hmac_sha256_update (hmac_sha256_init stk ctx key) xs) ys)
      = HMAC_spec key (xs @ ys)"
  using hmac_sha256_streaming [OF assms, of key "xs @ ys"] by (simp add: hmac_sha256_def)

lemma hmac_sha256_rfc2104_witness:
  "\<exists>stk ctx. length (sh_data stk) = 64 \<and> length (sh_data (m_inner ctx)) = 64 \<and>
     hmac_sha256 stk ctx [1, 2] ([3] @ [4]) = HMAC_spec [1, 2] ([3] @ [4]) \<and>
     hmac_sha256_final stk (hmac_sha256_update (hmac_sha256_update (hmac_sha256_init stk ctx [1, 2]) [3]) [4])
       = HMAC_spec [1, 2] ([3] @ [4])"
proof -
  let ?c = "\<lparr>sh_data = replicate 64 0, sh_datalen = 1, sh_bitlen = 1, sh_state = []\<rparr>"
  let ?h = "\<lparr>m_inner = ?c, m_opad = []\<rparr>"
  have "length (sh_data ?c) = 64" "length (sh_data (m_inner ?h)) = 64"
    by simp_all
  with hmac_sha256_rfc2104 [OF this, of "[1, 2]" "[3]" "[4]"] show ?thesis
    by blast
qed

end
