(* ===== verification/Aes.thy ===== *)
theory Aes
  imports PdiPrelude
begin

text \<open>
  AES-128, \<^verbatim>\<open>src/src/utility/crypto/symmetric/aes/aes.cpp\<close>: key expansion, the cipher and
  its inverse, and the ECB, CBC and CTR modes. \<open>state_t\<close> is laid over the block buffer, so
  \<open>state[i][j]\<close> is byte \<open>4 * i + j\<close> of a 16-byte list.
\<close>

section \<open>Tables\<close>

definition sbox :: bytes where
  "sbox = [
    0x63, 0x7c, 0x77, 0x7b, 0xf2, 0x6b, 0x6f, 0xc5, 0x30, 0x01, 0x67, 0x2b, 0xfe, 0xd7, 0xab, 0x76,
    0xca, 0x82, 0xc9, 0x7d, 0xfa, 0x59, 0x47, 0xf0, 0xad, 0xd4, 0xa2, 0xaf, 0x9c, 0xa4, 0x72, 0xc0,
    0xb7, 0xfd, 0x93, 0x26, 0x36, 0x3f, 0xf7, 0xcc, 0x34, 0xa5, 0xe5, 0xf1, 0x71, 0xd8, 0x31, 0x15,
    0x04, 0xc7, 0x23, 0xc3, 0x18, 0x96, 0x05, 0x9a, 0x07, 0x12, 0x80, 0xe2, 0xeb, 0x27, 0xb2, 0x75,
    0x09, 0x83, 0x2c, 0x1a, 0x1b, 0x6e, 0x5a, 0xa0, 0x52, 0x3b, 0xd6, 0xb3, 0x29, 0xe3, 0x2f, 0x84,
    0x53, 0xd1, 0x00, 0xed, 0x20, 0xfc, 0xb1, 0x5b, 0x6a, 0xcb, 0xbe, 0x39, 0x4a, 0x4c, 0x58, 0xcf,
    0xd0, 0xef, 0xaa, 0xfb, 0x43, 0x4d, 0x33, 0x85, 0x45, 0xf9, 0x02, 0x7f, 0x50, 0x3c, 0x9f, 0xa8,
    0x51, 0xa3, 0x40, 0x8f, 0x92, 0x9d, 0x38, 0xf5, 0xbc, 0xb6, 0xda, 0x21, 0x10, 0xff, 0xf3, 0xd2,
    0xcd, 0x0c, 0x13, 0xec, 0x5f, 0x97, 0x44, 0x17, 0xc4, 0xa7, 0x7e, 0x3d, 0x64, 0x5d, 0x19, 0x73,
    0x60, 0x81, 0x4f, 0xdc, 0x22, 0x2a, 0x90, 0x88, 0x46, 0xee, 0xb8, 0x14, 0xde, 0x5e, 0x0b, 0xdb,
    0xe0, 0x32, 0x3a, 0x0a, 0x49, 0x06, 0x24, 0x5c, 0xc2, 0xd3, 0xac, 0x62, 0x91, 0x95, 0xe4, 0x79,
    0xe7, 0xc8, 0x37, 0x6d, 0x8d, 0xd5, 0x4e, 0xa9, 0x6c, 0x56, 0xf4, 0xea, 0x65, 0x7a, 0xae, 0x08,
    0xba, 0x78, 0x25, 0x2e, 0x1c, 0xa6, 0xb4, 0xc6, 0xe8, 0xdd, 0x74, 0x1f, 0x4b, 0xbd, 0x8b, 0x8a,
    0x70, 0x3e, 0xb5, 0x66, 0x48, 0x03, 0xf6, 0x0e, 0x61, 0x35, 0x57, 0xb9, 0x86, 0xc1, 0x1d, 0x9e,
    0xe1, 0xf8, 0x98, 0x11, 0x69, 0xd9, 0x8e, 0x94, 0x9b, 0x1e, 0x87, 0xe9, 0xce, 0x55, 0x28, 0xdf,
    0x8c, 0xa1, 0x89, 0x0d, 0xbf, 0xe6, 0x42, 0x68, 0x41, 0x99, 0x2d, 0x0f, 0xb0, 0x54, 0xbb, 0x16]"

definition rsbox :: bytes where
  "rsbox = [
    0x52, 0x09, 0x6a, 0xd5, 0x30, 0x36, 0xa5, 0x38, 0xbf, 0x40, 0xa3, 0x9e, 0x81, 0xf3, 0xd7, 0xfb,
    0x7c, 0xe3, 0x39, 0x82, 0x9b, 0x2f, 0xff, 0x87, 0x34, 0x8e, 0x43, 0x44, 0xc4, 0xde, 0xe9, 0xcb,
    0x54, 0x7b, 0x94, 0x32, 0xa6, 0xc2, 0x23, 0x3d, 0xee, 0x4c, 0x95, 0x0b, 0x42, 0xfa, 0xc3, 0x4e,
    0x08, 0x2e, 0xa1, 0x66, 0x28, 0xd9, 0x24, 0xb2, 0x76, 0x5b, 0xa2, 0x49, 0x6d, 0x8b, 0xd1, 0x25,
    0x72, 0xf8, 0xf6, 0x64, 0x86, 0x68, 0x98, 0x16, 0xd4, 0xa4, 0x5c, 0xcc, 0x5d, 0x65, 0xb6, 0x92,
    0x6c, 0x70, 0x48, 0x50, 0xfd, 0xed, 0xb9, 0xda, 0x5e, 0x15, 0x46, 0x57, 0xa7, 0x8d, 0x9d, 0x84,
    0x90, 0xd8, 0xab, 0x00, 0x8c, 0xbc, 0xd3, 0x0a, 0xf7, 0xe4, 0x58, 0x05, 0xb8, 0xb3, 0x45, 0x06,
    0xd0, 0x2c, 0x1e, 0x8f, 0xca, 0x3f, 0x0f, 0x02, 0xc1, 0xaf, 0xbd, 0x03, 0x01, 0x13, 0x8a, 0x6b,
    0x3a, 0x91, 0x11, 0x41, 0x4f, 0x67, 0xdc, 0xea, 0x97, 0xf2, 0xcf, 0xce, 0xf0, 0xb4, 0xe6, 0x73,
    0x96, 0xac, 0x74, 0x22, 0xe7, 0xad, 0x35, 0x85, 0xe2, 0xf9, 0x37, 0xe8, 0x1c, 0x75, 0xdf, 0x6e,
    0x47, 0xf1, 0x1a, 0x71, 0x1d, 0x29, 0xc5, 0x89, 0x6f, 0xb7, 0x62, 0x0e, 0xaa, 0x18, 0xbe, 0x1b,
    0xfc, 0x56, 0x3e, 0x4b, 0xc6, 0xd2, 0x79, 0x20, 0x9a, 0xdb, 0xc0, 0xfe, 0x78, 0xcd, 0x5a, 0xf4,
    0x1f, 0xdd, 0xa8, 0x33, 0x88, 0x07, 0xc7, 0x31, 0xb1, 0x12, 0x10, 0x59, 0x27, 0x80, 0xec, 0x5f,
    0x60, 0x51, 0x7f, 0xa9, 0x19, 0xb5, 0x4a, 0x0d, 0x2d, 0xe5, 0x7a, 0x9f, 0x93, 0xc9, 0x9c, 0xef,
    0xa0, 0xe0, 0x3b, 0x4d, 0xae, 0x2a, 0xf5, 0xb0, 0xc8, 0xeb, 0xbb, 0x3c, 0x83, 0x53, 0x99, 0x61,
    0x17, 0x2b, 0x04, 0x7e, 0xba, 0x77, 0xd6, 0x26, 0xe1, 0x69, 0x14, 0x63, 0x55, 0x21, 0x0c, 0x7d]"

definition Rcon :: bytes where
  "Rcon = [0x8d, 0x01, 0x02, 0x04, 0x08, 0x10, 0x20, 0x40, 0x80, 0x1b, 0x36]"

definition getSBoxValue :: "u8 \<Rightarrow> u8" where "getSBoxValue num = sbox ! unat num"

definition getSBoxInvert :: "u8 \<Rightarrow> u8" where "getSBoxInvert num = rsbox ! unat num"

section \<open>The block cipher\<close>

text \<open>\<open>RoundKey\<close> is filled from the front; the list is the part written so far.\<close>

definition key_word :: "bytes \<Rightarrow> nat \<Rightarrow> bytes" where
  "key_word RoundKey i =
     (let tempa = take 4 (drop ((i - 1) * 4) RoundKey);
          tempa = (if i mod 4 = 0
                   then (let tempa = map getSBoxValue (rotate1 tempa)
                         in tempa[0 := tempa ! 0 XOR Rcon ! (i div 4)])
                   else tempa)
      in RoundKey @ map2 (XOR) (take 4 (drop ((i - 4) * 4) RoundKey)) tempa)"

definition KeyExpansion :: "bytes \<Rightarrow> bytes" where
  "KeyExpansion Key = foldl key_word (take 16 Key) [4..<44]"

definition AddRoundKey :: "nat \<Rightarrow> bytes \<Rightarrow> bytes \<Rightarrow> bytes" where
  "AddRoundKey round state RoundKey = map2 (XOR) state (take 16 (drop (round * 16) RoundKey))"

definition SubBytes :: "bytes \<Rightarrow> bytes" where "SubBytes state = map getSBoxValue state"

definition InvSubBytes :: "bytes \<Rightarrow> bytes" where "InvSubBytes state = map getSBoxInvert state"

fun ShiftRows :: "bytes \<Rightarrow> bytes" where
  "ShiftRows [a0, a1, a2, a3, b0, b1, b2, b3, c0, c1, c2, c3, d0, d1, d2, d3] =
     [a0, b1, c2, d3, b0, c1, d2, a3, c0, d1, a2, b3, d0, a1, b2, c3]"
| "ShiftRows state = state"

fun InvShiftRows :: "bytes \<Rightarrow> bytes" where
  "InvShiftRows [a0, a1, a2, a3, b0, b1, b2, b3, c0, c1, c2, c3, d0, d1, d2, d3] =
     [a0, d1, c2, b3, b0, a1, d2, c3, c0, b1, a2, d3, d0, c1, b2, a3]"
| "InvShiftRows state = state"

definition xtime :: "u8 \<Rightarrow> u8" where
  "xtime x = (push_bit 1 x XOR ((drop_bit 7 x AND 1) * 0x1b))"

fun MixColumns :: "bytes \<Rightarrow> bytes" where
  "MixColumns (a # b # c # d # rest) =
     (let t = a; Tmp = a XOR b XOR c XOR d
      in (a XOR xtime (a XOR b) XOR Tmp) # (b XOR xtime (b XOR c) XOR Tmp)
       # (c XOR xtime (c XOR d) XOR Tmp) # (d XOR xtime (d XOR t) XOR Tmp) # MixColumns rest)"
| "MixColumns state = state"

definition Multiply :: "u8 \<Rightarrow> u8 \<Rightarrow> u8" where
  "Multiply x y = ((y AND 1) * x XOR (drop_bit 1 y AND 1) * xtime x
     XOR (drop_bit 2 y AND 1) * xtime (xtime x)
     XOR (drop_bit 3 y AND 1) * xtime (xtime (xtime x))
     XOR (drop_bit 4 y AND 1) * xtime (xtime (xtime (xtime x))))"

fun InvMixColumns :: "bytes \<Rightarrow> bytes" where
  "InvMixColumns (a # b # c # d # rest) =
     (Multiply a 0x0e XOR Multiply b 0x0b XOR Multiply c 0x0d XOR Multiply d 0x09)
     # (Multiply a 0x09 XOR Multiply b 0x0e XOR Multiply c 0x0b XOR Multiply d 0x0d)
     # (Multiply a 0x0d XOR Multiply b 0x09 XOR Multiply c 0x0e XOR Multiply d 0x0b)
     # (Multiply a 0x0b XOR Multiply b 0x0d XOR Multiply c 0x09 XOR Multiply d 0x0e)
     # InvMixColumns rest"
| "InvMixColumns state = state"

text \<open>The loop breaks in its tenth round, between the row shift and the column mix.\<close>

definition cipher_round :: "bytes \<Rightarrow> bytes \<Rightarrow> nat \<Rightarrow> bytes" where
  "cipher_round RoundKey state round =
     AddRoundKey round (MixColumns (ShiftRows (SubBytes state))) RoundKey"

definition Cipher :: "bytes \<Rightarrow> bytes \<Rightarrow> bytes" where
  "Cipher state RoundKey =
     (let state = foldl (cipher_round RoundKey) (AddRoundKey 0 state RoundKey) [1..<10]
      in AddRoundKey 10 (ShiftRows (SubBytes state)) RoundKey)"

definition inv_cipher_round :: "bytes \<Rightarrow> bytes \<Rightarrow> nat \<Rightarrow> bytes" where
  "inv_cipher_round RoundKey state round =
     InvMixColumns (AddRoundKey round (InvSubBytes (InvShiftRows state)) RoundKey)"

definition InvCipher :: "bytes \<Rightarrow> bytes \<Rightarrow> bytes" where
  "InvCipher state RoundKey =
     (let state = foldl (inv_cipher_round RoundKey) (AddRoundKey 10 state RoundKey) (rev [1..<10])
      in AddRoundKey 0 (InvSubBytes (InvShiftRows state)) RoundKey)"

section \<open>Contexts and modes\<close>

record AES_ctx =
  RoundKey :: bytes
  Iv :: bytes

definition AES_init_ctx :: "AES_ctx \<Rightarrow> bytes \<Rightarrow> AES_ctx" where
  "AES_init_ctx ctx key = ctx\<lparr>RoundKey := KeyExpansion key\<rparr>"

definition AES_init_ctx_iv :: "bytes \<Rightarrow> bytes \<Rightarrow> AES_ctx" where
  "AES_init_ctx_iv key iv = \<lparr>RoundKey = KeyExpansion key, Iv = take 16 iv\<rparr>"

definition AES_ctx_set_iv :: "AES_ctx \<Rightarrow> bytes \<Rightarrow> AES_ctx" where
  "AES_ctx_set_iv ctx iv = ctx\<lparr>Iv := take 16 iv\<rparr>"

definition AES_ECB_encrypt :: "AES_ctx \<Rightarrow> bytes \<Rightarrow> bytes" where
  "AES_ECB_encrypt ctx buf = Cipher buf (RoundKey ctx)"

definition AES_ECB_decrypt :: "AES_ctx \<Rightarrow> bytes \<Rightarrow> bytes" where
  "AES_ECB_decrypt ctx buf = InvCipher buf (RoundKey ctx)"

definition XorWithIv :: "bytes \<Rightarrow> bytes \<Rightarrow> bytes" where
  "XorWithIv buf iv = map2 (XOR) buf iv"

text \<open>
  The CBC loops step over whole blocks; a last partial block would be processed past the end of
  the buffer, so the length is a multiple of the block length wherever they are used.
\<close>

function cbc_encrypt_loop :: "bytes \<Rightarrow> bytes \<Rightarrow> bytes \<Rightarrow> bytes \<times> bytes" where
  "cbc_encrypt_loop rk iv buf =
     (if buf = [] then ([], iv)
      else let blk = Cipher (XorWithIv (take 16 buf) iv) rk;
               (out, iv') = cbc_encrypt_loop rk blk (drop 16 buf)
           in (blk @ out, iv'))"
  by pat_completeness auto
termination
  by (relation "measure (\<lambda>(_, _, buf). length buf)") auto

definition AES_CBC_encrypt_buffer :: "AES_ctx \<Rightarrow> bytes \<Rightarrow> AES_ctx \<times> bytes" where
  "AES_CBC_encrypt_buffer ctx buf =
     (case cbc_encrypt_loop (RoundKey ctx) (Iv ctx) buf of (out, iv) \<Rightarrow> (ctx\<lparr>Iv := iv\<rparr>, out))"

function cbc_decrypt_loop :: "bytes \<Rightarrow> bytes \<Rightarrow> bytes \<Rightarrow> bytes \<times> bytes" where
  "cbc_decrypt_loop rk iv buf =
     (if buf = [] then ([], iv)
      else let storeNextIv = take 16 buf;
               blk = XorWithIv (InvCipher (take 16 buf) rk) iv;
               (out, iv') = cbc_decrypt_loop rk storeNextIv (drop 16 buf)
           in (blk @ out, iv'))"
  by pat_completeness auto
termination
  by (relation "measure (\<lambda>(_, _, buf). length buf)") auto

definition AES_CBC_decrypt_buffer :: "AES_ctx \<Rightarrow> bytes \<Rightarrow> AES_ctx \<times> bytes" where
  "AES_CBC_decrypt_buffer ctx buf =
     (case cbc_decrypt_loop (RoundKey ctx) (Iv ctx) buf of (out, iv) \<Rightarrow> (ctx\<lparr>Iv := iv\<rparr>, out))"

declare cbc_encrypt_loop.simps [simp del] cbc_decrypt_loop.simps [simp del]

text \<open>The counter: from the last byte down, carrying over each 255.\<close>

fun incr_iv :: "bytes \<Rightarrow> nat \<Rightarrow> bytes" where
  "incr_iv iv 0 = iv"
| "incr_iv iv (Suc bi) =
     (if iv ! bi = 255 then incr_iv (iv[bi := 0]) bi else iv[bi := iv ! bi + 1])"

text \<open>
  The keystream loop: the counter, the current keystream block and the position in it. The block
  is renewed when the position has run off its end.
\<close>

fun ctr_loop :: "bytes \<Rightarrow> bytes \<Rightarrow> bytes \<Rightarrow> nat \<Rightarrow> bytes \<Rightarrow> bytes \<times> bytes \<times> bytes \<times> nat" where
  "ctr_loop rk iv buffer bi [] = ([], iv, buffer, bi)"
| "ctr_loop rk iv buffer bi (b # buf) =
     (let (buffer', iv', bi') =
            (if bi = 16 then (Cipher iv rk, incr_iv iv 16, 0) else (buffer, iv, bi));
          (out, r) = ctr_loop rk iv' buffer' (Suc bi') buf
      in ((b XOR buffer' ! bi') # out, r))"

definition AES_CTR_xcrypt_buffer :: "AES_ctx \<Rightarrow> bytes \<Rightarrow> AES_ctx \<times> bytes" where
  "AES_CTR_xcrypt_buffer ctx buf =
     (case ctr_loop (RoundKey ctx) (Iv ctx) [] 16 buf of (out, iv, _) \<Rightarrow> (ctx\<lparr>Iv := iv\<rparr>, out))"

text \<open>
  The overload with \<open>resetCtx\<close>: keystream block and position are static and survive the call.
\<close>

definition AES_CTR_xcrypt_buffer_static ::
  "AES_ctx \<Rightarrow> bytes \<times> nat \<Rightarrow> bytes \<Rightarrow> bool \<Rightarrow> AES_ctx \<times> (bytes \<times> nat) \<times> bytes" where
  "AES_CTR_xcrypt_buffer_static ctx stat buf resetCtx =
     (case ctr_loop (RoundKey ctx) (Iv ctx) (fst stat) (snd stat) buf of
        (out, iv, buffer, bi) \<Rightarrow>
          (ctx\<lparr>Iv := iv\<rparr>, (buffer, if resetCtx then 16 else bi), out))"

section \<open>The inverse cipher\<close>

lemma sbox_inverse: "map (\<lambda>s. rsbox ! unat s) sbox = map of_nat [0..<256]"
  by (simp add: sbox_def rsbox_def upt_rec)

lemma length_sbox [simp]: "length sbox = 256"
  by (simp add: sbox_def)

lemma SBox_inverse [simp]: "getSBoxInvert (getSBoxValue x) = x"
proof -
  have x: "unat x < 256"
    using unsigned_less [of x] by simp
  have "map (\<lambda>s. rsbox ! unat s) sbox ! unat x = (map of_nat [0..<256] :: bytes) ! unat x"
    by (simp only: sbox_inverse)
  with x show ?thesis
    by (simp add: getSBoxInvert_def getSBoxValue_def)
qed

lemma InvSubBytes_SubBytes [simp]: "InvSubBytes (SubBytes st) = st"
  by (simp add: InvSubBytes_def SubBytes_def comp_def)

lemma length_SubBytes [simp]: "length (SubBytes st) = length st"
  by (simp add: SubBytes_def)

lemma block_cases:
  assumes "length st = 16"
  obtains a0 a1 a2 a3 b0 b1 b2 b3 c0 c1 c2 c3 d0 d1 d2 d3
  where "st = [a0, a1, a2, a3, b0, b1, b2, b3, c0, c1, c2, c3, d0, d1, d2, d3]"
  using assms by (auto simp: numeral_eq_Suc length_Suc_conv)

lemma InvShiftRows_ShiftRows [simp]: "length st = 16 \<Longrightarrow> InvShiftRows (ShiftRows st) = st"
  by (erule block_cases) simp

lemma length_ShiftRows [simp]: "length st = 16 \<Longrightarrow> length (ShiftRows st) = 16"
  by (erule block_cases) simp

lemma xtime_alt: "xtime x = (push_bit 1 x XOR (if bit x 7 then 0x1b else 0))"
proof -
  have "drop_bit 7 x AND 1 = (if bit x 7 then 1 else 0)"
    by (rule bit_word_eqI) (auto simp: bit_simps intro!: gr0I)
  then show ?thesis
    by (simp add: xtime_def)
qed

lemma xtime_xor: "xtime (a XOR b) = xtime a XOR xtime b"
  unfolding xtime_alt push_bit_xor bit_xor_iff by (simp add: ac_simps)

lemma factor_bits:
  "(0x09 :: u8) AND 1 = 1" "drop_bit 1 (0x09 :: u8) AND 1 = 0" "drop_bit 2 (0x09 :: u8) AND 1 = 0" "drop_bit 3 (0x09 :: u8) AND 1 = 1" "drop_bit 4 (0x09 :: u8) AND 1 = 0"
  "(0x0b :: u8) AND 1 = 1" "drop_bit 1 (0x0b :: u8) AND 1 = 1" "drop_bit 2 (0x0b :: u8) AND 1 = 0" "drop_bit 3 (0x0b :: u8) AND 1 = 1" "drop_bit 4 (0x0b :: u8) AND 1 = 0"
  "(0x0d :: u8) AND 1 = 1" "drop_bit 1 (0x0d :: u8) AND 1 = 0" "drop_bit 2 (0x0d :: u8) AND 1 = 1" "drop_bit 3 (0x0d :: u8) AND 1 = 1" "drop_bit 4 (0x0d :: u8) AND 1 = 0"
  "(0x0e :: u8) AND 1 = 0" "drop_bit 1 (0x0e :: u8) AND 1 = 1" "drop_bit 2 (0x0e :: u8) AND 1 = 1" "drop_bit 3 (0x0e :: u8) AND 1 = 1" "drop_bit 4 (0x0e :: u8) AND 1 = 0"
  by code_simp+

lemma Multiply_simps:
  "Multiply x 0x09 = x XOR xtime (xtime (xtime x))"
  "Multiply x 0x0b = x XOR xtime x XOR xtime (xtime (xtime x))"
  "Multiply x 0x0d = x XOR xtime (xtime x) XOR xtime (xtime (xtime x))"
  "Multiply x 0x0e = xtime x XOR xtime (xtime x) XOR xtime (xtime (xtime x))"
  unfolding Multiply_def factor_bits by simp_all

lemma word_xor_left_self [simp]: "a XOR (a XOR b) = b" for a b :: "'a::len word"
  by (simp flip: xor.assoc)

lemma InvMixColumns_MixColumns [simp]: "InvMixColumns (MixColumns st) = st"
  by (induction st rule: MixColumns.induct)
    (simp_all add: Let_def Multiply_simps xtime_xor xor.assoc xor.commute xor.left_commute)

lemma length_MixColumns [simp]: "length (MixColumns st) = length st"
  by (induction st rule: MixColumns.induct) (simp_all add: Let_def)

lemma map2_xor_cancel [simp]:
  "length xs \<le> length ks \<Longrightarrow> map2 (XOR) (map2 (XOR) xs ks) ks = (xs :: bytes)"
  by (rule nth_equalityI) simp_all

lemma length_AddRoundKey [simp]:
  "length rk = 176 \<Longrightarrow> length st = 16 \<Longrightarrow> r \<le> 10 \<Longrightarrow> length (AddRoundKey r st rk) = 16"
  by (simp add: AddRoundKey_def)

lemma AddRoundKey_twice [simp]:
  "length rk = 176 \<Longrightarrow> length st = 16 \<Longrightarrow> r \<le> 10 \<Longrightarrow> AddRoundKey r (AddRoundKey r st rk) rk = st"
  by (simp add: AddRoundKey_def)

lemma length_key_word:
  "length rk = 4 * i \<Longrightarrow> 4 \<le> i \<Longrightarrow> length (key_word rk i) = 4 * Suc i"
  by (simp add: key_word_def Let_def)

lemma length_KeyExpansion:
  assumes "length key = 16"
  shows "length (KeyExpansion key) = 176"
proof -
  have "4 \<le> n \<Longrightarrow> length (foldl key_word (take 16 key) [4..<n]) = 4 * n" for n
  proof (induction n)
    case (Suc n)
    show ?case
    proof (cases "4 \<le> n")
      case True
      with Suc.IH show ?thesis
        by (simp add: length_key_word)
    next
      case False
      with Suc.prems have "n = 3" by simp
      with assms show ?thesis by simp
    qed
  qed simp
  from this [of 44] show ?thesis
    by (simp add: KeyExpansion_def)
qed

lemma cipher_rounds_length:
  "length rk = 176 \<Longrightarrow> length st = 16 \<Longrightarrow> \<forall>r\<in>set rs. r \<le> 10
     \<Longrightarrow> length (foldl (cipher_round rk) st rs) = 16"
  by (induction rs arbitrary: st) (simp_all add: cipher_round_def)

lemma cipher_round_inverse:
  "length rk = 176 \<Longrightarrow> length st = 16 \<Longrightarrow> r \<le> 10 \<Longrightarrow>
     inv_cipher_round rk (ShiftRows (SubBytes (cipher_round rk st r))) r = ShiftRows (SubBytes st)"
  by (simp add: cipher_round_def inv_cipher_round_def)

lemma cipher_rounds_inverse:
  assumes "length rk = 176" "length st = 16" "\<forall>r\<in>set rs. r \<le> 10"
  shows "foldl (inv_cipher_round rk) (ShiftRows (SubBytes (foldl (cipher_round rk) st rs))) (rev rs)
    = ShiftRows (SubBytes st)"
  using assms(3)
proof (induction rs rule: rev_induct)
  case (snoc r rs)
  have "length (foldl (cipher_round rk) st rs) = 16"
    using snoc.prems assms by (simp add: cipher_rounds_length)
  with snoc assms show ?case
    by (simp add: cipher_round_inverse)
qed simp

lemma length_Cipher [simp]: "length rk = 176 \<Longrightarrow> length st = 16 \<Longrightarrow> length (Cipher st rk) = 16"
  by (simp add: Cipher_def Let_def cipher_rounds_length del: upt_Suc)

lemma InvCipher_Cipher:
  assumes "length rk = 176" "length st = 16"
  shows "InvCipher (Cipher st rk) rk = st"
proof -
  have "length (foldl (cipher_round rk) (AddRoundKey 0 st rk) [1..<10]) = 16"
    using assms by (intro cipher_rounds_length) auto
  then show ?thesis
    using assms cipher_rounds_inverse [of rk "AddRoundKey 0 st rk" "[1..<10]"]
    by (simp add: InvCipher_def Cipher_def Let_def del: upt_Suc foldl_Cons rev.simps upt_rec_numeral)
qed

section \<open>CBC\<close>

lemma cbc_roundtrip:
  assumes "length rk = 176"
  shows "16 dvd length buf \<Longrightarrow> length iv = 16 \<Longrightarrow> cbc_encrypt_loop rk iv buf = (out, iv')
    \<Longrightarrow> cbc_decrypt_loop rk iv out = (buf, iv') \<and> length out = length buf"
proof (induction buf arbitrary: iv out rule: length_induct)
  case (1 buf)
  show ?case
  proof (cases "buf = []")
    case True
    with "1.prems"(3) show ?thesis
      by (simp add: cbc_encrypt_loop.simps [of _ _ "[]"] cbc_decrypt_loop.simps [of _ _ "[]"])
  next
    case False
    with "1.prems"(1) have len: "16 \<le> length buf" "16 dvd length (drop 16 buf)"
      by (auto dest: dvd_imp_le simp: dvd_minus_self)
    let ?blk = "Cipher (XorWithIv (take 16 buf) iv) rk"
    obtain out' where rec: "cbc_encrypt_loop rk ?blk (drop 16 buf) = (out', iv')" and out: "out = ?blk @ out'"
      using "1.prems"(3) False by (subst (asm) cbc_encrypt_loop.simps) (auto simp: Let_def split: prod.splits)
    have x: "length (XorWithIv (take 16 buf) iv) = 16"
      using len "1.prems"(2) by (simp add: XorWithIv_def)
    then have blk: "length ?blk = 16"
      using assms by simp
    have "cbc_decrypt_loop rk ?blk out' = (drop 16 buf, iv') \<and> length out' = length (drop 16 buf)"
    proof (rule "1.IH" [rule_format])
      show "length (drop 16 buf) < length buf"
        using False len by simp
    qed (fact len(2) blk rec)+
    moreover have "XorWithIv (InvCipher ?blk rk) iv = take 16 buf"
      using InvCipher_Cipher [OF assms x] len "1.prems"(2) by (simp add: XorWithIv_def)
    ultimately show ?thesis
      using blk out len by (subst cbc_decrypt_loop.simps) (auto simp: Let_def)
  qed
qed

section \<open>CTR\<close>

lemma length_incr_iv [simp]: "length (incr_iv iv n) = length iv"
  by (induction iv n rule: incr_iv.induct) simp_all

lemma ctr_loop_append:
  "ctr_loop rk iv buffer bi (xs @ ys) =
     (case ctr_loop rk iv buffer bi xs of (out, iv', buffer', bi') \<Rightarrow>
        (out @ fst (ctr_loop rk iv' buffer' bi' ys), snd (ctr_loop rk iv' buffer' bi' ys)))"
  by (induction xs arbitrary: iv buffer bi) (simp_all add: Let_def split_beta)

lemma ctr_loop_length [simp]: "length (fst (ctr_loop rk iv buffer bi xs)) = length xs"
  by (induction xs arbitrary: iv buffer bi) (simp_all add: Let_def split_beta)

text \<open>Running the output through from the same state restores the input and ends in the same state.\<close>

lemma ctr_loop_twice:
  "ctr_loop rk iv buffer bi (fst (ctr_loop rk iv buffer bi xs)) = (xs, snd (ctr_loop rk iv buffer bi xs))"
  by (induction xs arbitrary: iv buffer bi) (simp_all add: Let_def split_beta)

text \<open>At a block boundary the position has run off the keystream block, so the next byte renews it.\<close>

lemma ctr_loop_short:
  "bi + length xs \<le> 16 \<Longrightarrow>
     snd (ctr_loop rk iv buffer bi xs) = (iv, buffer, bi + length xs)"
  by (induction xs arbitrary: bi) (simp_all add: Let_def split_beta)

lemma ctr_loop_block:
  assumes "length xs = 16"
  shows "snd (ctr_loop rk iv buffer 16 xs) = (incr_iv iv 16, Cipher iv rk, 16)"
proof -
  from assms obtain x xs' where "xs = x # xs'" "length xs' = 15"
    by (cases xs) simp_all
  then show ?thesis
    using ctr_loop_short [of 1 xs'] by (simp add: Let_def split_beta)
qed

lemma ctr_loop_blocks:
  "16 dvd length xs \<Longrightarrow> snd (snd (snd (ctr_loop rk iv buffer 16 xs))) = 16"
proof (induction xs arbitrary: iv buffer rule: length_induct)
  case (1 xs)
  show ?case
  proof (cases "xs = []")
    case False
    with "1.prems" have len: "16 \<le> length xs" "16 dvd length (drop 16 xs)"
      by (auto dest: dvd_imp_le simp: dvd_minus_self)
    have "length (drop 16 xs) < length xs"
      using False len by simp
    from "1.IH" [rule_format, OF this len(2)]
    show ?thesis
      using ctr_loop_append [of rk iv buffer 16 "take 16 xs" "drop 16 xs"]
        ctr_loop_block [of "take 16 xs" rk iv buffer] len
      by (simp add: split_beta)
  qed simp
qed

lemma ctr_loop_fresh:
  "fst (ctr_loop rk iv buffer 16 xs) = fst (ctr_loop rk iv buffer' 16 xs)
   \<and> (xs \<noteq> [] \<longrightarrow> snd (ctr_loop rk iv buffer 16 xs) = snd (ctr_loop rk iv buffer' 16 xs))
   \<and> fst (snd (ctr_loop rk iv buffer 16 xs)) = fst (snd (ctr_loop rk iv buffer' 16 xs))"
  by (cases xs) (simp_all add: Let_def split_beta)

lemma xcrypt_twice:
  "AES_CTR_xcrypt_buffer ctx xs = (ctx', out) \<Longrightarrow> AES_CTR_xcrypt_buffer ctx out = (ctx', xs)"
  using ctr_loop_twice [of "RoundKey ctx" "Iv ctx" "[]" 16 xs]
  by (auto simp: AES_CTR_xcrypt_buffer_def split_beta)

lemma length_xcrypt: "AES_CTR_xcrypt_buffer ctx xs = (ctx', out) \<Longrightarrow> length out = length xs"
  by (auto simp: AES_CTR_xcrypt_buffer_def split_beta)

lemma xcrypt_append:
  assumes "16 dvd length xs"
    and "AES_CTR_xcrypt_buffer ctx xs = (ctx1, c1)" and "AES_CTR_xcrypt_buffer ctx1 ys = (ctx2, c2)"
  shows "AES_CTR_xcrypt_buffer ctx (xs @ ys) = (ctx2, c1 @ c2)"
proof -
  obtain out iv buffer bi where xs: "ctr_loop (RoundKey ctx) (Iv ctx) [] 16 xs = (out, iv, buffer, bi)"
    by (metis prod_cases4)
  have "bi = 16"
    using ctr_loop_blocks [OF assms(1), of "RoundKey ctx" "Iv ctx" "[]"] by (simp add: xs)
  moreover have "ctx1 = ctx\<lparr>Iv := iv\<rparr>" "c1 = out"
    using assms(2) xs by (simp_all add: AES_CTR_xcrypt_buffer_def)
  ultimately show ?thesis
    using assms(3) xs ctr_loop_fresh [of "RoundKey ctx" iv buffer ys "[]"]
    by (simp add: AES_CTR_xcrypt_buffer_def ctr_loop_append split_beta)
qed

text \<open>The counter as a number, most significant byte first.\<close>

definition be_nat :: "bytes \<Rightarrow> nat" where
  "be_nat bs = foldl (\<lambda>n b. n * 256 + unat b) 0 bs"

lemma be_nat_snoc [simp]: "be_nat (bs @ [b]) = be_nat bs * 256 + unat b"
  by (simp add: be_nat_def)

lemma be_nat_bound: "be_nat bs < 256 ^ length bs"
proof (induction bs rule: rev_induct)
  case (snoc b bs)
  have "unat b < 256"
    using unsigned_less [of b] by simp
  moreover from snoc have "be_nat bs * 256 + 256 \<le> 256 ^ Suc (length bs)"
    by simp
  ultimately show ?case
    by simp
qed (simp add: be_nat_def)

lemma incr_iv_prefix:
  assumes "n \<le> length iv"
  shows "be_nat (take n (incr_iv iv n)) = (be_nat (take n iv) + 1) mod 256 ^ n
    \<and> drop n (incr_iv iv n) = drop n iv"
  using assms
proof (induction iv n rule: incr_iv.induct)
  case (2 iv bi)
  have split: "take (Suc bi) ys = take bi ys @ [ys ! bi]" if "length ys = length iv" for ys :: bytes
    using 2(2) that by (simp add: take_Suc_conv_app_nth)
  show ?case
  proof (cases "iv ! bi = 255")
    case True
    let ?r = "incr_iv (iv[bi := 0]) bi"
    have "drop bi ?r = 0 # drop (Suc bi) iv"
      using 2 True by (simp add: drop_update_swap list_update_code(2) flip: Cons_nth_drop_Suc)
    then have "?r ! bi = 0" "drop (Suc bi) ?r = drop (Suc bi) iv"
      using 2(2) by (metis Cons_nth_drop_Suc Suc_le_lessD length_incr_iv length_list_update list.inject)+
    then show ?thesis
      using 2 True mult_mod_right [of 256 "Suc (be_nat (take bi iv))" "256 ^ bi"]
      by (simp add: split mult.commute [of _ "256 :: nat"])
  next
    case False
    have "unat (iv ! bi) \<noteq> unat (255 :: u8)"
      using False by (simp only: word_unat_eq_iff [symmetric] not_False_eq_True)
    then have "unat (iv ! bi) \<noteq> 255"
      by simp
    moreover have "unat (iv ! bi) < 256"
      using unsigned_less [of "iv ! bi"] by simp
    ultimately have x: "unat (iv ! bi + 1) = unat (iv ! bi) + 1" "unat (iv ! bi) + 1 < 256"
      by (simp_all add: unat_word_ariths)
    have "be_nat (take bi iv) < 256 ^ bi"
      using be_nat_bound [of "take bi iv"] 2(2) by simp
    then have "be_nat (take (Suc bi) iv) + 1 < 256 ^ Suc bi"
      using x(2) by (simp add: split)
    then show ?thesis
      using 2(2) False x(1) by (simp add: split)
  qed
qed (simp add: be_nat_def)

section \<open>Properties\<close>

text \<open>
  C16: decryption inverts encryption. For every key and block the ECB routines restore the
  block, and for every buffer of whole blocks the CBC routines restore the buffer and leave the
  context with the same chaining value, so that two ends of a stream stay in step.
\<close>

theorem AES_decrypts:
  assumes "length key = 16" "length iv = 16" "length blk = 16" "16 dvd length buf"
    and "AES_CBC_encrypt_buffer (AES_init_ctx_iv key iv) buf = (ctx', out)"
  shows "AES_ECB_decrypt (AES_init_ctx ctx key) (AES_ECB_encrypt (AES_init_ctx ctx key) blk) = blk
    \<and> AES_CBC_decrypt_buffer (AES_init_ctx_iv key iv) out = (ctx', buf)"
proof
  show "AES_ECB_decrypt (AES_init_ctx ctx key) (AES_ECB_encrypt (AES_init_ctx ctx key) blk) = blk"
    using assms(1,3) length_KeyExpansion InvCipher_Cipher
    by (simp add: AES_ECB_decrypt_def AES_ECB_encrypt_def AES_init_ctx_def)
  obtain iv' where "cbc_encrypt_loop (KeyExpansion key) iv buf = (out, iv')"
    using assms by (auto simp: AES_CBC_encrypt_buffer_def AES_init_ctx_iv_def split: prod.splits)
  then show "AES_CBC_decrypt_buffer (AES_init_ctx_iv key iv) out = (ctx', buf)"
    using cbc_roundtrip [OF length_KeyExpansion [OF assms(1)] assms(4,2)] assms
    by (auto simp: AES_CBC_decrypt_buffer_def AES_CBC_encrypt_buffer_def AES_init_ctx_iv_def)
qed

lemma AES_decrypts_witness:
  "\<exists>ctx' out. AES_CBC_encrypt_buffer (AES_init_ctx_iv (replicate 16 1) (replicate 16 2)) (replicate 32 7) = (ctx', out)
    \<and> AES_ECB_decrypt (AES_init_ctx ctx' (replicate 16 1))
         (AES_ECB_encrypt (AES_init_ctx ctx' (replicate 16 1)) (replicate 16 5)) = replicate 16 5
    \<and> AES_CBC_decrypt_buffer (AES_init_ctx_iv (replicate 16 1) (replicate 16 2)) out = (ctx', replicate 32 7)"
proof -
  obtain ctx' out where
    e: "AES_CBC_encrypt_buffer (AES_init_ctx_iv (replicate 16 1) (replicate 16 2)) (replicate 32 7) = (ctx', out)"
    by (metis surj_pair)
  with AES_decrypts [OF _ _ _ _ e, of "replicate 16 5" ctx'] show ?thesis
    by (metis dvd_triv_left length_replicate mult.commute numeral_Bit0_eq_double)
qed



text \<open>
  The counter block counts: read as a big-endian number, the increment adds one modulo
  \<open>2^128\<close>, so no keystream block repeats before the counter has gone all the way round.
\<close>

lemma incr_iv_counts:
  assumes "length iv = 16"
  shows "be_nat (incr_iv iv 16) = (be_nat iv + 1) mod 256 ^ 16"
  using incr_iv_prefix [of 16 iv] assms by simp

end
