(* ===== verification/DbStore.thy ===== *)
theory DbStore
  imports PdiPrelude
begin

text \<open>
  The byte devices the database is framed on. \<open>iDbStoreInterface\<close>
  (\<^verbatim>\<open>src/src/interface/pdi/modules/database/iDbStoreInterface.h\<close>) is a table of its virtual
  methods; the locale \<open>db_store\<close> states what the layout engine relies on of any
  implementation. It is interpreted on \<open>EepromDbStore\<close>
  (\<^verbatim>\<open>src/src/interface/pdi/impl/modules/database/EepromDbStore.cpp\<close>) over the POSIX port's
  \<open>DatabaseInterface\<close> (\<^verbatim>\<open>src/devices/posix/DatabaseInterface.cpp\<close>).
\<close>

section \<open>The interface\<close>

text \<open>
  \<open>st_read\<close> receives the destination buffer, whose length is \<open>len\<close>, and
  returns it as the call leaves it.
\<close>

record 's iDbStoreInterface =
  st_read :: "'s \<Rightarrow> u32 \<Rightarrow> bytes \<Rightarrow> bool \<times> bytes"
  st_write :: "'s \<Rightarrow> u32 \<Rightarrow> bytes \<Rightarrow> bool \<times> 's"
  st_flush :: "'s \<Rightarrow> bool \<times> 's"
  st_capacity :: "'s \<Rightarrow> u32"

text \<open>
  The contract: \<open>img\<close> is what reads see, \<open>media\<close> what survives a power
  cycle. A ranged access inside the capacity succeeds and moves exactly its range, one outside
  fails without effect, writes are staged, and a flush brings the medium up to date.
\<close>

locale db_store =
  fixes ops :: "'s iDbStoreInterface"
    and inv :: "'s \<Rightarrow> bool"
    and img :: "'s \<Rightarrow> bytes"
    and media :: "'s \<Rightarrow> bytes"
  assumes capacity: "inv s \<Longrightarrow> unat (st_capacity ops s) = length (img s)"
    and capacity_max: "inv s \<Longrightarrow> length (img s) < 2 ^ 16"
    and read_in: "inv s \<Longrightarrow> unat off + length buf \<le> length (img s) \<Longrightarrow>
      st_read ops s off buf = (True, slice_at (unat off) (length buf) (img s))"
    and read_out: "inv s \<Longrightarrow> length (img s) < unat off + length buf \<Longrightarrow> unat off + length buf < 2 ^ 32 \<Longrightarrow>
      st_read ops s off buf = (False, buf)"
    and write_in: "inv s \<Longrightarrow> unat off + length bs \<le> length (img s) \<Longrightarrow> st_write ops s off bs = (ok, s') \<Longrightarrow>
      ok \<and> inv s' \<and> img s' = splice_at (unat off) bs (img s) \<and> media s' = media s"
    and write_out: "inv s \<Longrightarrow> length (img s) < unat off + length bs \<Longrightarrow> unat off + length bs < 2 ^ 32 \<Longrightarrow>
      st_write ops s off bs = (False, s)"
    and flush: "inv s \<Longrightarrow> st_flush ops s = (ok, s') \<Longrightarrow>
      ok \<and> inv s' \<and> img s' = img s \<and> media s' = img s"
begin

text \<open>A range written is read back, and a disjoint range is not disturbed.\<close>

lemma read_after_write:
  assumes "inv s" "unat off + length bs \<le> length (img s)" "st_write ops s off bs = (ok, s')"
    and "length buf = length bs"
  shows "st_read ops s' off buf = (True, bs)"
proof -
  have "inv s'" "img s' = splice_at (unat off) bs (img s)"
    using write_in [OF assms(1,2,3)] by simp_all
  then show ?thesis
    using read_in [of s' off buf] assms by (simp add: slice_at_splice_same)
qed

lemma read_beside_write:
  assumes "inv s" "unat off + length bs \<le> length (img s)" "st_write ops s off bs = (ok, s')"
    and "unat off' + length buf \<le> length (img s)"
    and "unat off' + length buf \<le> unat off \<or> unat off + length bs \<le> unat off'"
  shows "st_read ops s' off' buf = st_read ops s off' buf"
proof -
  have "inv s'" "img s' = splice_at (unat off) bs (img s)"
    using write_in [OF assms(1,2,3)] by simp_all
  then show ?thesis
    using read_in [of s' off' buf] read_in [of s off' buf] assms by (simp add: slice_at_splice_disjoint)
qed

end

section \<open>The POSIX database interface\<close>

text \<open>
  The config store as a byte array with an optional backing file. The host's files and whether
  \<open>fopen\<close> may write a path are part of the state.
\<close>

definition DATABASE_MAX_SIZE :: nat where "DATABASE_MAX_SIZE = 4096"

record DatabaseInterface =
  di_store :: bytes
  di_size :: u32
  di_backingfile :: string
  di_files :: "string \<Rightarrow> bytes option"
  di_writable :: "string \<Rightarrow> bool"

definition readByte :: "DatabaseInterface \<Rightarrow> u32 \<Rightarrow> u8" where
  "readByte d address = (if unat address < DATABASE_MAX_SIZE then di_store d ! unat address else 0)"

definition writeByte :: "DatabaseInterface \<Rightarrow> u32 \<Rightarrow> u8 \<Rightarrow> DatabaseInterface" where
  "writeByte d address val =
     (if unat address < DATABASE_MAX_SIZE then d\<lparr>di_store := (di_store d)[unat address := val]\<rparr> else d)"

definition commitConfigs :: "DatabaseInterface \<Rightarrow> DatabaseInterface" where
  "commitConfigs d =
     (if di_backingfile d = [] then d
      else if \<not> di_writable d (di_backingfile d) then d
      else d\<lparr>di_files := (di_files d)(di_backingfile d \<mapsto> di_store d)\<rparr>)"

definition beginConfigs :: "DatabaseInterface \<Rightarrow> u32 \<Rightarrow> DatabaseInterface" where
  "beginConfigs d sz =
     d\<lparr>di_size := (if DATABASE_MAX_SIZE < unat sz then of_nat DATABASE_MAX_SIZE else sz)\<rparr>"

definition endConfigs :: "DatabaseInterface \<Rightarrow> DatabaseInterface" where
  "endConfigs d = commitConfigs d"

definition cleanAllConfigs :: "DatabaseInterface \<Rightarrow> DatabaseInterface" where
  "cleanAllConfigs d = commitConfigs (d\<lparr>di_store := replicate DATABASE_MAX_SIZE 0\<rparr>)"

definition getMaxDBSize :: "DatabaseInterface \<Rightarrow> u32" where
  "getMaxDBSize d = of_nat DATABASE_MAX_SIZE"

definition attachBackingFile :: "DatabaseInterface \<Rightarrow> string option \<Rightarrow> bool \<times> DatabaseInterface" where
  "attachBackingFile d path =
     (case path of None \<Rightarrow> (False, d)
      | Some p \<Rightarrow>
          let d = d\<lparr>di_backingfile := p\<rparr> in
          (case di_files d p of
             Some f \<Rightarrow> (True, d\<lparr>di_store := splice_at 0 (take DATABASE_MAX_SIZE f) (di_store d)\<rparr>)
           | None \<Rightarrow> (True, commitConfigs d)))"

definition detachBackingFile :: "DatabaseInterface \<Rightarrow> DatabaseInterface" where
  "detachBackingFile d = d\<lparr>di_backingfile := []\<rparr>"

section \<open>The eeprom store\<close>

text \<open>\<open>sealing\<close> is the build switch \<open>ENABLE_DB_SEALING\<close>.\<close>

definition DB_KEY_REGION_BYTES :: nat where "DB_KEY_REGION_BYTES = 32"

record EepromDbStore =
  ee_db :: DatabaseInterface
  m_dirty :: bool

definition eeprom_capacity :: "bool \<Rightarrow> EepromDbStore \<Rightarrow> u32" where
  "eeprom_capacity sealing s =
     (if sealing then getMaxDBSize (ee_db s) - of_nat DB_KEY_REGION_BYTES else getMaxDBSize (ee_db s))"

definition eeprom_init :: "EepromDbStore \<Rightarrow> EepromDbStore" where
  "eeprom_init s = s\<lparr>ee_db := beginConfigs (ee_db s) (getMaxDBSize (ee_db s))\<rparr>"

definition eeprom_deinit :: "EepromDbStore \<Rightarrow> EepromDbStore" where
  "eeprom_deinit s = s\<lparr>ee_db := endConfigs (ee_db s), m_dirty := False\<rparr>"

definition eeprom_read :: "bool \<Rightarrow> EepromDbStore \<Rightarrow> u32 \<Rightarrow> bytes \<Rightarrow> bool \<times> bytes" where
  "eeprom_read sealing s offset buf =
     (if eeprom_capacity sealing s < offset + of_nat (length buf) then (False, buf)
      else (True, map (\<lambda>i. readByte (ee_db s) (offset + of_nat i)) [0..<length buf]))"

fun eeprom_write_loop :: "EepromDbStore \<Rightarrow> u32 \<Rightarrow> bytes \<Rightarrow> EepromDbStore" where
  "eeprom_write_loop s offset [] = s"
| "eeprom_write_loop s offset (b # bs) =
     eeprom_write_loop
       (if readByte (ee_db s) offset \<noteq> b
        then s\<lparr>ee_db := writeByte (ee_db s) offset b, m_dirty := True\<rparr> else s)
       (offset + 1) bs"

definition eeprom_write :: "bool \<Rightarrow> EepromDbStore \<Rightarrow> u32 \<Rightarrow> bytes \<Rightarrow> bool \<times> EepromDbStore" where
  "eeprom_write sealing s offset buf =
     (if eeprom_capacity sealing s < offset + of_nat (length buf) then (False, s)
      else (True, eeprom_write_loop s offset buf))"

definition eeprom_flush :: "EepromDbStore \<Rightarrow> bool \<times> EepromDbStore" where
  "eeprom_flush s =
     (if m_dirty s then (True, s\<lparr>ee_db := commitConfigs (ee_db s), m_dirty := False\<rparr>) else (True, s))"

definition eeprom_ops :: "bool \<Rightarrow> EepromDbStore iDbStoreInterface" where
  "eeprom_ops sealing = \<lparr>st_read = eeprom_read sealing, st_write = eeprom_write sealing,
     st_flush = eeprom_flush, st_capacity = eeprom_capacity sealing\<rparr>"

text \<open>Starting up again over the same files: the constructors, then the backing file attached.\<close>

definition DatabaseInterface_new :: "(string \<Rightarrow> bytes option) \<Rightarrow> (string \<Rightarrow> bool) \<Rightarrow> DatabaseInterface" where
  "DatabaseInterface_new files writable = \<lparr>di_store = replicate DATABASE_MAX_SIZE 0,
     di_size = of_nat DATABASE_MAX_SIZE, di_backingfile = [], di_files = files, di_writable = writable\<rparr>"

definition eeprom_reboot :: "EepromDbStore \<Rightarrow> EepromDbStore" where
  "eeprom_reboot s =
     (let d = ee_db s
      in \<lparr>ee_db = snd (attachBackingFile (DatabaseInterface_new (di_files d) (di_writable d)) (Some (di_backingfile d))),
          m_dirty = False\<rparr>)"

section \<open>The eeprom store keeps the contract\<close>

text \<open>
  A store in use has a writable backing file, which agrees with the array unless bytes are staged.
\<close>

definition eeprom_size :: "bool \<Rightarrow> nat" where
  "eeprom_size sealing = (if sealing then DATABASE_MAX_SIZE - DB_KEY_REGION_BYTES else DATABASE_MAX_SIZE)"

definition eeprom_file :: "EepromDbStore \<Rightarrow> bytes" where
  "eeprom_file s = (case di_files (ee_db s) (di_backingfile (ee_db s)) of Some f \<Rightarrow> f | None \<Rightarrow> [])"

definition eeprom_inv :: "EepromDbStore \<Rightarrow> bool" where
  "eeprom_inv s \<longleftrightarrow> length (di_store (ee_db s)) = DATABASE_MAX_SIZE \<and> di_backingfile (ee_db s) \<noteq> []
     \<and> di_writable (ee_db s) (di_backingfile (ee_db s)) \<and> length (eeprom_file s) = DATABASE_MAX_SIZE
     \<and> (\<not> m_dirty s \<longrightarrow> eeprom_file s = di_store (ee_db s))"

definition eeprom_img :: "bool \<Rightarrow> EepromDbStore \<Rightarrow> bytes" where
  "eeprom_img sealing s = take (eeprom_size sealing) (di_store (ee_db s))"

definition eeprom_media :: "bool \<Rightarrow> EepromDbStore \<Rightarrow> bytes" where
  "eeprom_media sealing s = take (eeprom_size sealing) (eeprom_file s)"

lemma eeprom_capacity_size: "unat (eeprom_capacity sealing s) = eeprom_size sealing"
  by (simp add: eeprom_capacity_def eeprom_size_def getMaxDBSize_def DATABASE_MAX_SIZE_def DB_KEY_REGION_BYTES_def)

lemma eeprom_size_le: "eeprom_size sealing \<le> DATABASE_MAX_SIZE"
  by (simp add: eeprom_size_def)

lemma unat_add_small: "unat a + n < 2 ^ 32 \<Longrightarrow> unat (a + of_nat n) = unat a + n" for a :: u32
  by (simp add: unat_word_ariths unat_of_nat)

lemma eeprom_write_loop_eq:
  assumes "length (di_store (ee_db s)) = DATABASE_MAX_SIZE" "unat off + length bs \<le> DATABASE_MAX_SIZE"
  shows "ee_db (eeprom_write_loop s off bs) = (ee_db s)\<lparr>di_store := splice_at (unat off) bs (di_store (ee_db s))\<rparr>
    \<and> (\<not> m_dirty (eeprom_write_loop s off bs) \<longrightarrow> eeprom_write_loop s off bs = s)"
  using assms
proof (induction s off bs rule: eeprom_write_loop.induct)
  case (2 s off b bs)
  define t where "t = (if readByte (ee_db s) off \<noteq> b
    then s\<lparr>ee_db := writeByte (ee_db s) off b, m_dirty := True\<rparr> else s)"
  have off: "unat off < DATABASE_MAX_SIZE" "unat (off + 1) = Suc (unat off)"
    using "2.prems"(2) unat_add_small [of off 1] by (simp_all add: DATABASE_MAX_SIZE_def)
  have upd: "ee_db t = (ee_db s)\<lparr>di_store := (di_store (ee_db s))[unat off := b]\<rparr>"
    using off "2.prems"(1)
    by (cases s; cases "ee_db s") (auto simp: t_def readByte_def writeByte_def list_update_id)
  have "splice_at (Suc (unat off)) bs ((di_store (ee_db s))[unat off := b])
      = splice_at (unat off) (b # bs) (di_store (ee_db s))"
    using off "2.prems" by (simp add: splice_at_def take_Suc_conv_app_nth upd_conv_take_nth_drop add.commute)
  moreover have IH: "ee_db (eeprom_write_loop t (off + 1) bs)
      = (ee_db t)\<lparr>di_store := splice_at (unat (off + 1)) bs (di_store (ee_db t))\<rparr>"
    "\<not> m_dirty (eeprom_write_loop t (off + 1) bs) \<Longrightarrow> eeprom_write_loop t (off + 1) bs = t"
    using "2.IH" [folded t_def] "2.prems" upd off by simp_all
  moreover have "\<not> m_dirty t \<Longrightarrow> t = s"
    by (auto simp: t_def split: if_splits)
  moreover have "eeprom_write_loop s off (b # bs) = eeprom_write_loop t (off + 1) bs"
    by (simp add: t_def)
  ultimately show ?case
    using upd off by (metis (no_types, lifting) DatabaseInterface.fold_congs(1) DatabaseInterface.select_convs(1)
        DatabaseInterface.surjective DatabaseInterface.update_convs(1))
qed (simp_all add: splice_at_def)

lemma eeprom_in_range:
  "unat off + n < 2 ^ 32 \<Longrightarrow> (eeprom_capacity sealing s < off + of_nat n) = (eeprom_size sealing < unat off + n)"
  by (simp add: word_less_nat_alt eeprom_capacity_size unat_add_small)

lemma eeprom_read_in:
  assumes "eeprom_inv s" "unat off + length buf \<le> length (eeprom_img sealing s)"
  shows "eeprom_read sealing s off buf = (True, slice_at (unat off) (length buf) (eeprom_img sealing s))"
proof -
  have len: "unat off + length buf \<le> eeprom_size sealing" "eeprom_size sealing \<le> 4096"
      "length (di_store (ee_db s)) = 4096"
    using assms by (simp_all add: eeprom_inv_def eeprom_img_def eeprom_size_def DATABASE_MAX_SIZE_def)
  have "map (\<lambda>i. readByte (ee_db s) (off + of_nat i)) [0..<length buf]
      = slice_at (unat off) (length buf) (eeprom_img sealing s)"
    using len by (intro nth_equalityI)
      (auto simp: nth_slice_at eeprom_img_def readByte_def unat_add_small DATABASE_MAX_SIZE_def)
  then show ?thesis
    using len by (simp add: eeprom_read_def eeprom_in_range)
qed

lemma eeprom_write_in:
  assumes "eeprom_inv s" "unat off + length bs \<le> length (eeprom_img sealing s)"
    and "eeprom_write sealing s off bs = (ok, s')"
  shows "ok \<and> eeprom_inv s' \<and> eeprom_img sealing s' = splice_at (unat off) bs (eeprom_img sealing s)
    \<and> eeprom_media sealing s' = eeprom_media sealing s
    \<and> drop (eeprom_size sealing) (di_store (ee_db s')) = drop (eeprom_size sealing) (di_store (ee_db s))"
proof -
  have len: "unat off + length bs \<le> eeprom_size sealing" "eeprom_size sealing \<le> DATABASE_MAX_SIZE"
      "length (di_store (ee_db s)) = DATABASE_MAX_SIZE"
    using assms by (simp_all add: eeprom_inv_def eeprom_img_def eeprom_size_def)
  then have s': "ok" "s' = eeprom_write_loop s off bs"
    using assms(3) by (simp_all add: eeprom_write_def eeprom_in_range DATABASE_MAX_SIZE_def split: if_splits)
  note loop = eeprom_write_loop_eq [OF len(3), of off bs]
  then have db: "ee_db s' = (ee_db s)\<lparr>di_store := splice_at (unat off) bs (di_store (ee_db s))\<rparr>"
    and clean: "\<not> m_dirty s' \<Longrightarrow> s' = s"
    using len s' by simp_all
  have "eeprom_inv s'"
  proof (cases "m_dirty s'")
    case True
    then show ?thesis
      using assms(1) db len by (simp add: eeprom_inv_def eeprom_file_def)
  next
    case False
    from clean [OF this] assms(1) show ?thesis
      by simp
  qed
  moreover have "take (eeprom_size sealing) (splice_at (unat off) bs (di_store (ee_db s)))
      = splice_at (unat off) bs (take (eeprom_size sealing) (di_store (ee_db s)))"
    using len by (intro nth_equalityI) (auto simp: nth_splice_at)
  moreover have "drop (eeprom_size sealing) (splice_at (unat off) bs (di_store (ee_db s)))
      = drop (eeprom_size sealing) (di_store (ee_db s))"
    using len by (intro nth_equalityI) (auto simp: nth_splice_at)
  ultimately show ?thesis
    using s' db by (simp add: eeprom_img_def eeprom_media_def eeprom_file_def)
qed

interpretation eeprom: db_store "eeprom_ops sealing" eeprom_inv "eeprom_img sealing" "eeprom_media sealing"
  for sealing
proof
  show "unat (st_capacity (eeprom_ops sealing) s) = length (eeprom_img sealing s)" if "eeprom_inv s" for s
    using that by (simp add: eeprom_ops_def eeprom_capacity_size eeprom_img_def eeprom_inv_def eeprom_size_def)
  show "length (eeprom_img sealing s) < 2 ^ 16" if "eeprom_inv s" for s
    using that by (simp add: eeprom_img_def eeprom_inv_def DATABASE_MAX_SIZE_def)
  show "st_read (eeprom_ops sealing) s off buf = (True, slice_at (unat off) (length buf) (eeprom_img sealing s))"
    if "eeprom_inv s" "unat off + length buf \<le> length (eeprom_img sealing s)" for s off buf
    using that by (simp add: eeprom_ops_def eeprom_read_in)
  show "st_read (eeprom_ops sealing) s off buf = (False, buf)"
    if "eeprom_inv s" "length (eeprom_img sealing s) < unat off + length buf" "unat off + length buf < 2 ^ 32"
    for s off buf
    using that by (simp add: eeprom_ops_def eeprom_read_def eeprom_in_range eeprom_img_def eeprom_inv_def eeprom_size_def)
  show "ok \<and> eeprom_inv s' \<and> eeprom_img sealing s' = splice_at (unat off) bs (eeprom_img sealing s)
      \<and> eeprom_media sealing s' = eeprom_media sealing s"
    if "eeprom_inv s" "unat off + length bs \<le> length (eeprom_img sealing s)"
      "st_write (eeprom_ops sealing) s off bs = (ok, s')" for s off bs ok s'
    using eeprom_write_in [of s off bs sealing ok s'] that by (simp add: eeprom_ops_def)
  show "st_write (eeprom_ops sealing) s off bs = (False, s)"
    if "eeprom_inv s" "length (eeprom_img sealing s) < unat off + length bs" "unat off + length bs < 2 ^ 32"
    for s off bs
    using that by (simp add: eeprom_ops_def eeprom_write_def eeprom_in_range eeprom_img_def eeprom_inv_def eeprom_size_def)
  show "ok \<and> eeprom_inv s' \<and> eeprom_img sealing s' = eeprom_img sealing s \<and> eeprom_media sealing s' = eeprom_img sealing s"
    if "eeprom_inv s" "st_flush (eeprom_ops sealing) s = (ok, s')" for s ok s'
    using that by (auto simp: eeprom_ops_def eeprom_flush_def eeprom_inv_def eeprom_img_def eeprom_media_def
        eeprom_file_def commitConfigs_def split: if_splits)
qed

section \<open>Power cycles and the key region\<close>

lemma eeprom_reboot_media:
  assumes "eeprom_inv s"
  shows "eeprom_inv (eeprom_reboot s) \<and> di_store (ee_db (eeprom_reboot s)) = eeprom_file s
    \<and> eeprom_img sealing (eeprom_reboot s) = eeprom_media sealing s"
proof -
  from assms obtain f where f: "di_files (ee_db s) (di_backingfile (ee_db s)) = Some f"
    "eeprom_file s = f" "length f = DATABASE_MAX_SIZE"
    by (auto simp: eeprom_inv_def eeprom_file_def DATABASE_MAX_SIZE_def split: option.splits)
  have "di_store (ee_db (eeprom_reboot s)) = f"
    using f by (simp add: eeprom_reboot_def Let_def attachBackingFile_def DatabaseInterface_new_def splice_at_def)
  then show ?thesis
    using assms f
    by (auto simp: eeprom_inv_def eeprom_img_def eeprom_media_def eeprom_file_def eeprom_reboot_def
        attachBackingFile_def DatabaseInterface_new_def Let_def splice_at_def)
qed

lemma eeprom_write_loop_outside:
  assumes "length bs < 2 ^ 31" "n < DATABASE_MAX_SIZE"
    and "\<And>i. i < length bs \<Longrightarrow> unat (off + of_nat i) \<noteq> n"
  shows "di_store (ee_db (eeprom_write_loop s off bs)) ! n = di_store (ee_db s) ! n"
  using assms
proof (induction s off bs rule: eeprom_write_loop.induct)
  case (2 s off b bs)
  have "unat (off + 1 + of_nat i) \<noteq> n" if "i < length bs" for i
    using "2.prems"(3) [of "Suc i"] that by (simp add: ac_simps)
  moreover have "unat off \<noteq> n"
    using "2.prems"(3) [of 0] by simp
  ultimately show ?case
    using 2 by (auto simp: writeByte_def)
qed simp

text \<open>
  Even an access whose end wraps around 32 bits stays clear of the key: what passes the capacity
  check lies below the capacity or above the whole array.
\<close>

lemma eeprom_write_keeps_top:
  assumes "length bs < 2 ^ 31" "eeprom_write sealing s off bs = (ok, s')"
    and "eeprom_size sealing \<le> n" "n < DATABASE_MAX_SIZE"
  shows "di_store (ee_db s') ! n = di_store (ee_db s) ! n"
proof (cases "eeprom_capacity sealing s < off + of_nat (length bs)")
  case False
  have "unat (off + of_nat i) \<noteq> n" if i: "i < length bs" for i
  proof (cases "unat off + length bs < 2 ^ 32")
    case True
    then show ?thesis
      using False i assms(3) by (simp add: eeprom_in_range unat_add_small)
  next
    case wrap: False
    have o: "unat off < 2 ^ 32"
      using unsigned_less [of off] by simp
    have "unat (off + of_nat i) = (unat off + i) mod 2 ^ 32"
      using i assms(1) by (simp add: unat_word_ariths unat_of_nat)
    moreover have "unat (off + of_nat (length bs)) = unat off + length bs - 2 ^ 32"
      using wrap assms(1) o
      by (simp add: unat_word_ariths unat_of_nat mod_if [of "unat off + length bs"])
    ultimately show ?thesis
      using False i wrap assms o
      by (auto simp: word_less_nat_alt eeprom_capacity_size DATABASE_MAX_SIZE_def mod_if [of "unat off + i"])
  qed
  then show ?thesis
    using assms False by (auto simp: eeprom_write_def eeprom_write_loop_outside)
qed (use assms in \<open>auto simp: eeprom_write_def\<close>)

section \<open>Properties\<close>

text \<open>
  C29: bytes written to the eeprom store and flushed are the bytes read after a power cycle, and
  the key region above the store's capacity comes back as it was.
\<close>

theorem eeprom_durable:
  assumes "eeprom_inv s" "unat off + length bs \<le> eeprom_size sealing" "length buf = length bs"
    and "eeprom_write sealing s off bs = (ok1, s1)" "eeprom_flush s1 = (ok2, s2)"
  shows "ok1 \<and> ok2 \<and> eeprom_read sealing (eeprom_reboot s2) off buf = (True, bs)
    \<and> drop (eeprom_size sealing) (di_store (ee_db (eeprom_reboot s2)))
      = drop (eeprom_size sealing) (di_store (ee_db s))"
proof -
  have len: "unat off + length bs \<le> length (eeprom_img sealing s)"
    using assms(1,2) by (simp add: eeprom_inv_def eeprom_img_def eeprom_size_def)
  note w = eeprom_write_in [OF assms(1) len assms(4)]
  have f: "ok2 \<and> eeprom_inv s2 \<and> eeprom_img sealing s2 = eeprom_img sealing s1
      \<and> eeprom_media sealing s2 = eeprom_img sealing s1"
    using eeprom.flush [of s1 sealing ok2 s2] w assms(5) by (simp add: eeprom_ops_def)
  have fl: "eeprom_file s2 = di_store (ee_db s1)"
    using assms(5) w by (auto simp: eeprom_flush_def eeprom_inv_def eeprom_file_def commitConfigs_def split: if_splits)
  have "eeprom_img sealing (eeprom_reboot s2) = splice_at (unat off) bs (eeprom_img sealing s)"
    using eeprom_reboot_media [of s2 sealing] f w by simp
  then have "eeprom_read sealing (eeprom_reboot s2) off buf = (True, bs)"
    using eeprom_read_in [of "eeprom_reboot s2" off buf sealing] eeprom_reboot_media [of s2 sealing] f len assms(3)
    by (simp add: slice_at_splice_same)
  then show ?thesis
    using w f fl eeprom_reboot_media [of s2 sealing] by simp
qed

lemma eeprom_durable_witness:
  "\<exists>s s1 s2. eeprom_inv s \<and> eeprom_write True s 5 [1, 2] = (True, s1) \<and> eeprom_flush s1 = (True, s2)
     \<and> eeprom_read True (eeprom_reboot s2) 5 [0, 0] = (True, [1, 2])"
proof -
  let ?d = "DatabaseInterface_new [''f'' \<mapsto> replicate DATABASE_MAX_SIZE 0] (\<lambda>_. True)"
  let ?s = "\<lparr>ee_db = ?d\<lparr>di_backingfile := ''f''\<rparr>, m_dirty = False\<rparr>"
  obtain ok1 s1 ok2 s2 where e: "eeprom_write True ?s 5 [1, 2] = (ok1, s1)" "eeprom_flush s1 = (ok2, s2)"
    by (metis surj_pair)
  have inv: "eeprom_inv ?s"
    by (simp add: eeprom_inv_def eeprom_file_def DatabaseInterface_new_def)
  have "unat (5 :: u32) + length [1, 2 :: u8] \<le> eeprom_size True" "length [0, 0 :: u8] = length [1, 2 :: u8]"
    by (simp_all add: eeprom_size_def DATABASE_MAX_SIZE_def DB_KEY_REGION_BYTES_def)
  from eeprom_durable [OF inv this e] inv e show ?thesis
    by auto
qed

end
