(* ===== verification/DbKey.thy ===== *)
theory DbKey
  imports Checksum DbStore
begin

text \<open>
  The sealing key, \<^verbatim>\<open>src/src/database/core/DbKey.cpp\<close>: kept with a magic and a
  checksum in the top bytes of the eeprom, above what the store hands out, read into RAM at boot
  and created when none verifies.
\<close>

section \<open>Definitions\<close>

definition DB_KEY_BYTES :: nat where "DB_KEY_BYTES = 16"

definition DB_KEY_MAGIC :: bytes where "DB_KEY_MAGIC = [0x50, 0x4B]"

record DbKey =
  m_key :: bytes
  m_ready :: bool

definition db_key_region_start :: "DatabaseInterface \<Rightarrow> u32" where
  "db_key_region_start d = getMaxDBSize d - of_nat DB_KEY_REGION_BYTES"

text \<open>\<open>rnd i\<close> is what the \<open>i\<close>-th call of \<open>random_now()\<close> returns; four calls fill 16 bytes.\<close>

definition random_block :: "(nat \<Rightarrow> u32) \<Rightarrow> bytes" where
  "random_block rnd = concat (map (\<lambda>k. map (\<lambda>b. ucast (drop_bit (b * 8) (rnd k))) [0..<4]) [0..<4])"

text \<open>Consecutive calls of \<open>writeByte\<close>.\<close>

fun write_bytes :: "DatabaseInterface \<Rightarrow> u32 \<Rightarrow> bytes \<Rightarrow> DatabaseInterface" where
  "write_bytes d at [] = d"
| "write_bytes d at (b # bs) = write_bytes (writeByte d at b) (at + 1) bs"

definition DbKey_create :: "(nat \<Rightarrow> u32) \<Rightarrow> DatabaseInterface \<Rightarrow> DbKey \<Rightarrow> pdi_err \<times> DatabaseInterface \<times> DbKey" where
  "DbKey_create rnd d k =
     (let key = random_block rnd;
          crc = crc16Ccitt key;
          d = write_bytes d (db_key_region_start d) (DB_KEY_MAGIC @ key @ [ucast crc, ucast (drop_bit 8 crc)])
      in (PDI_OK, commitConfigs d, \<lparr>m_key = key, m_ready = True\<rparr>))"

definition DbKey_load :: "(nat \<Rightarrow> u32) \<Rightarrow> DatabaseInterface \<Rightarrow> DbKey \<Rightarrow> pdi_err \<times> DatabaseInterface \<times> DbKey" where
  "DbKey_load rnd d k =
     (let stored = map (\<lambda>i. readByte d (db_key_region_start d + of_nat i)) [0..<2 + DB_KEY_BYTES + 2];
          valid = (stored ! 0 = DB_KEY_MAGIC ! 0 \<and> stored ! 1 = DB_KEY_MAGIC ! 1 \<and>
            (ucast (stored ! (2 + DB_KEY_BYTES)) OR push_bit 8 (ucast (stored ! (3 + DB_KEY_BYTES))))
              = crc16Ccitt (take DB_KEY_BYTES (drop 2 stored)))
      in if \<not> valid then DbKey_create rnd d k
         else (PDI_OK, d, \<lparr>m_key = take DB_KEY_BYTES (drop 2 stored), m_ready = True\<rparr>))"

definition DbKey_unload :: "DbKey \<Rightarrow> DbKey" where
  "DbKey_unload k = \<lparr>m_key = replicate DB_KEY_BYTES 0, m_ready = False\<rparr>"

section \<open>The key on the medium\<close>

lemma length_random_block [simp]: "length (random_block rnd) = DB_KEY_BYTES"
  by (simp add: random_block_def length_concat comp_def sum_list_triv DB_KEY_BYTES_def)

definition key_image :: "bytes \<Rightarrow> bytes" where
  "key_image key = DB_KEY_MAGIC @ key @ [ucast (crc16Ccitt key), ucast (drop_bit 8 (crc16Ccitt key))]"

lemma write_bytes_store:
  assumes "length (di_store d) = DATABASE_MAX_SIZE" "unat at + length bs \<le> DATABASE_MAX_SIZE"
  shows "di_store (write_bytes d at bs) = splice_at (unat at) bs (di_store d)"
  using assms
proof (induction d at bs rule: write_bytes.induct)
  case (2 d at b bs)
  have "unat at < DATABASE_MAX_SIZE" "unat (at + 1) = Suc (unat at)"
    using "2.prems"(2) unat_add_small [of at 1] by (simp_all add: DATABASE_MAX_SIZE_def)
  with 2 show ?case
    by (simp add: writeByte_def splice_at_def take_Suc_conv_app_nth upd_conv_take_nth_drop add.commute)
qed simp

lemma key_region: "unat (db_key_region_start d) = 4064"
  by (simp add: db_key_region_start_def getMaxDBSize_def DATABASE_MAX_SIZE_def DB_KEY_REGION_BYTES_def)

lemma commitConfigs_store [simp]: "di_store (commitConfigs d) = di_store d"
  by (simp add: commitConfigs_def)

lemma create_image:
  assumes "length (di_store d) = DATABASE_MAX_SIZE" "DbKey_create rnd d k = (e, d', k')"
  shows "m_ready k' \<and> e = PDI_OK \<and> length (m_key k') = DB_KEY_BYTES
    \<and> length (di_store d') = DATABASE_MAX_SIZE \<and> slice_at 4064 20 (di_store d') = key_image (m_key k')"
proof -
  let ?img = "key_image (random_block rnd)"
  have len: "length ?img = 20"
    by (simp add: key_image_def DB_KEY_MAGIC_def DB_KEY_BYTES_def)
  have "di_store d' = splice_at 4064 ?img (di_store d)" "m_key k' = random_block rnd"
    using assms write_bytes_store [OF assms(1), of "db_key_region_start d" ?img] len
    by (auto simp: DbKey_create_def Let_def key_image_def key_region DATABASE_MAX_SIZE_def)
  then show ?thesis
    using assms len slice_at_splice_same [of 4064 ?img "di_store d"]
    by (auto simp: DbKey_create_def Let_def DATABASE_MAX_SIZE_def)
qed

lemma load_image:
  assumes "length (di_store d) = DATABASE_MAX_SIZE" "slice_at 4064 20 (di_store d) = key_image key"
    and "length key = DB_KEY_BYTES"
  shows "DbKey_load rnd d k = (PDI_OK, d, \<lparr>m_key = key, m_ready = True\<rparr>)"
proof -
  have "map (\<lambda>i. readByte d (db_key_region_start d + of_nat i)) [0..<20] = slice_at 4064 20 (di_store d)"
    using assms(1) by (intro nth_equalityI)
      (auto simp: nth_slice_at readByte_def unat_add_small key_region DATABASE_MAX_SIZE_def)
  then show ?thesis
    using assms(2,3)
    by (simp add: DbKey_load_def Let_def key_image_def DB_KEY_BYTES_def DB_KEY_MAGIC_def nth_append le16_join)
qed

section \<open>Properties\<close>

text \<open>Any run of writes through the store, at whatever offsets the callers ask for.\<close>

definition eeprom_writes :: "EepromDbStore \<Rightarrow> (u32 \<times> bytes) list \<Rightarrow> EepromDbStore" where
  "eeprom_writes s ws = foldl (\<lambda>s (off, bs). snd (eeprom_write True s off bs)) s ws"

lemma eeprom_write_loop_length [simp]:
  "length (di_store (ee_db (eeprom_write_loop s off bs))) = length (di_store (ee_db s))"
  by (induction s off bs rule: eeprom_write_loop.induct) (simp_all add: writeByte_def)

lemma eeprom_writes_top:
  assumes "\<forall>(off, bs)\<in>set ws. length bs < 2 ^ 31"
  shows "length (di_store (ee_db (eeprom_writes s ws))) = length (di_store (ee_db s)) \<and>
    (\<forall>n. 4064 \<le> n \<longrightarrow> n < DATABASE_MAX_SIZE \<longrightarrow>
       di_store (ee_db (eeprom_writes s ws)) ! n = di_store (ee_db s) ! n)"
  using assms
proof (induction ws arbitrary: s)
  case (Cons w ws)
  obtain off bs where w: "w = (off, bs)"
    by (cases w)
  obtain ok s1 where e: "eeprom_write True s off bs = (ok, s1)"
    by (cases "eeprom_write True s off bs")
  have "length (di_store (ee_db s1)) = length (di_store (ee_db s))"
    using e by (auto simp: eeprom_write_def split: if_splits)
  moreover have "di_store (ee_db s1) ! n = di_store (ee_db s) ! n"
    if "4064 \<le> n" "n < DATABASE_MAX_SIZE" for n
    using eeprom_write_keeps_top [OF _ e] Cons.prems that w
    by (simp add: eeprom_size_def DATABASE_MAX_SIZE_def DB_KEY_REGION_BYTES_def)
  ultimately show ?case
    using Cons.IH [of s1] Cons.prems w e by (simp add: eeprom_writes_def)
qed (simp add: eeprom_writes_def)

text \<open>
  C32: a created key outlives all store traffic: after any writes through the eeprom store, at any
  offsets, loading finds exactly the key that was created, draws no random value and leaves the
  medium alone.
\<close>

theorem key_survives_store_writes:
  assumes "length (di_store d) = DATABASE_MAX_SIZE" "DbKey_create rnd d k = (e, d', k')" "ee_db s = d'"
    and "\<forall>(off, bs)\<in>set ws. length bs < 2 ^ 31"
  shows "DbKey_load rnd' (ee_db (eeprom_writes s ws)) k'' = (PDI_OK, ee_db (eeprom_writes s ws), k')"
proof -
  note img = create_image [OF assms(1,2)]
  note top = eeprom_writes_top [OF assms(4), of s]
  have "slice_at 4064 20 (di_store (ee_db (eeprom_writes s ws))) = slice_at 4064 20 (di_store d')"
  proof -
    have len: "length (di_store d') = DATABASE_MAX_SIZE" "length (di_store (ee_db (eeprom_writes s ws))) = DATABASE_MAX_SIZE"
      using img top assms(3) by simp_all
    show ?thesis
      by (rule nth_equalityI) (use top assms(3) len in \<open>simp_all add: nth_slice_at DATABASE_MAX_SIZE_def\<close>)
  qed
  then have "DbKey_load rnd' (ee_db (eeprom_writes s ws)) k''
      = (PDI_OK, ee_db (eeprom_writes s ws), \<lparr>m_key = m_key k', m_ready = True\<rparr>)"
    using img top assms(3) by (intro load_image) simp_all
  then show ?thesis
    using img by (cases k') simp
qed

lemma key_survives_store_writes_witness:
  "\<exists>d d' k'. DbKey_create (\<lambda>i. of_nat i) d k' = (PDI_OK, d', k') \<and>
     DbKey_load (\<lambda>_. 9) (ee_db (eeprom_writes \<lparr>ee_db = d', m_dirty = False\<rparr> [(0xFFFFFFFF, [1, 2]), (4063, [3, 4])])) k'
       = (PDI_OK, ee_db (eeprom_writes \<lparr>ee_db = d', m_dirty = False\<rparr> [(0xFFFFFFFF, [1, 2]), (4063, [3, 4])]), k')"
proof -
  let ?d = "DatabaseInterface_new (\<lambda>_. None) (\<lambda>_. True)"
  let ?k = "\<lparr>m_key = random_block (\<lambda>i. of_nat i), m_ready = True\<rparr>"
  obtain e d' k' where c: "DbKey_create (\<lambda>i. of_nat i) ?d ?k = (e, d', k')"
    by (metis prod_cases3)
  then have "k' = ?k" "e = PDI_OK"
    by (auto simp: DbKey_create_def Let_def)
  moreover have "length (di_store ?d) = DATABASE_MAX_SIZE"
    by (simp add: DatabaseInterface_new_def)
  ultimately show ?thesis
    using key_survives_store_writes [OF _ c, of "\<lparr>ee_db = d', m_dirty = False\<rparr>"
        "[(0xFFFFFFFF, [1, 2]), (4063, [3, 4])]" "\<lambda>_. 9" ?k] c by auto
qed

end
