(* ===== verification/DbLayout.thy ===== *)
theory DbLayout
  imports DbKey Sha256 Aes
begin

text \<open>
  The database layout engine, \<^verbatim>\<open>src/src/database/core/DbLayout.cpp\<close>: a superblock, a
  directory and packed records framed on a flat byte store. The store's methods are the table
  \<open>ops\<close> of \<open>DbStore\<close>; the store object, which the engine reaches through a
  pointer, is carried in the layout's state. Buffers have the length the call passes with them.
  This theory holds the definitions, \<open>DbLayoutFacts\<close> and \<open>DbRecords\<close> the lemmas.
\<close>

section \<open>Constants and types\<close>

definition DB_REGION_START :: nat where "DB_REGION_START = 5"
definition DB_SUPERBLOCK_BYTES :: nat where "DB_SUPERBLOCK_BYTES = 12"
definition DB_DIR_ENTRY_BYTES :: nat where "DB_DIR_ENTRY_BYTES = 13"
definition DB_CRC_WINDOW_BYTES :: nat where "DB_CRC_WINDOW_BYTES = 32"
definition DB_DIR_START :: nat where "DB_DIR_START = DB_REGION_START + DB_SUPERBLOCK_BYTES"
definition DB_FORMAT_VERSION :: u8 where "DB_FORMAT_VERSION = 1"
definition DB_ENTRY_FLAG_SEALED :: u8 where "DB_ENTRY_FLAG_SEALED = 1"
definition DB_SEAL_IV_BYTES :: nat where "DB_SEAL_IV_BYTES = 16"
definition DB_SEAL_TAG_BYTES :: nat where "DB_SEAL_TAG_BYTES = 16"
definition DB_SEAL_OVERHEAD :: nat where "DB_SEAL_OVERHEAD = DB_SEAL_IV_BYTES + DB_SEAL_TAG_BYTES"
definition DB_SEAL_CHUNK_BYTES :: nat where "DB_SEAL_CHUNK_BYTES = 64"
definition DB_MAGIC :: bytes where "DB_MAGIC = [0x50, 0x44, 0x42]"

text \<open>\<open>struct_tables\<close> of \<^verbatim>\<open>src/src/utility/Database.h\<close>; the instance pointer is an identity.\<close>

record struct_tables =
  m_table_id :: u16
  m_table_size :: u16
  m_table_version :: u16
  m_table_secret :: bool
  m_instance :: "nat option"

record db_dir_entry_t =
  m_id :: u16
  m_version :: u16
  m_offset :: u16
  m_cap :: u16
  m_len :: u16
  m_crc :: u16
  m_flags :: u8

definition db_dir_entry_new :: db_dir_entry_t where
  "db_dir_entry_new = \<lparr>m_id = 0, m_version = 0, m_offset = 0, m_cap = 0, m_len = 0, m_crc = 0, m_flags = 0\<rparr>"

text \<open>
  What the engine takes from its surroundings: the build switches \<open>ENABLE_DB_SEALING\<close> and
  \<open>MAX_TABLES\<close>, the allocator's answer for a number of bytes and the size of the sealing
  scratch object, the device's random numbers, the key in RAM, and what an uninitialised hash
  context on the stack holds.
\<close>

record db_env =
  env_sealing :: bool
  MAX_TABLES :: nat
  env_heap :: "nat \<Rightarrow> bool"
  env_scratch_bytes :: nat
  env_random :: "nat \<Rightarrow> u32"
  env_key :: DbKey
  env_stack :: sha256_context

definition DB_PAYLOAD_START :: "db_env \<Rightarrow> nat" where
  "DB_PAYLOAD_START env = DB_DIR_START + DB_DIR_ENTRY_BYTES * MAX_TABLES env"

text \<open>\<open>m_draws\<close> counts the random numbers drawn so far.\<close>

record 's DbLayout =
  m_store :: "'s option"
  m_directory :: "db_dir_entry_t list"
  m_firmware :: u32
  m_entries :: nat
  m_year :: u8
  m_mounted :: bool
  m_formatted :: bool
  m_draws :: nat

definition DbLayout_new :: "db_env \<Rightarrow> 's DbLayout" where
  "DbLayout_new env = \<lparr>m_store = None, m_directory = replicate (MAX_TABLES env) db_dir_entry_new,
     m_firmware = 0, m_entries = 0, m_year = 0, m_mounted = False, m_formatted = False, m_draws = 0\<rparr>"

abbreviation dl_store :: "'s DbLayout \<Rightarrow> 's" where
  "dl_store L \<equiv> the (m_store L)"

section \<open>Codecs\<close>

definition db_put_u16 :: "u16 \<Rightarrow> bytes" where
  "db_put_u16 v = [ucast v, ucast (drop_bit 8 v)]"

definition db_get_u16 :: "bytes \<Rightarrow> nat \<Rightarrow> u16" where
  "db_get_u16 buf i = (ucast (buf ! i) OR push_bit 8 (ucast (buf ! Suc i)))"

definition db_put_u32 :: "u32 \<Rightarrow> bytes" where
  "db_put_u32 v = [ucast v, ucast (drop_bit 8 v), ucast (drop_bit 16 v), ucast (drop_bit 24 v)]"

definition db_get_u32 :: "bytes \<Rightarrow> nat \<Rightarrow> u32" where
  "db_get_u32 buf i = (ucast (buf ! i) OR push_bit 8 (ucast (buf ! (i + 1)))
     OR push_bit 16 (ucast (buf ! (i + 2))) OR push_bit 24 (ucast (buf ! (i + 3))))"

definition db_put_entry :: "db_dir_entry_t \<Rightarrow> bytes" where
  "db_put_entry e = db_put_u16 (m_id e) @ db_put_u16 (m_version e) @ db_put_u16 (m_offset e)
     @ db_put_u16 (m_cap e) @ db_put_u16 (m_len e) @ db_put_u16 (m_crc e) @ [m_flags e]"

definition db_get_entry :: "bytes \<Rightarrow> db_dir_entry_t" where
  "db_get_entry buf = \<lparr>m_id = db_get_u16 buf 0, m_version = db_get_u16 buf 2, m_offset = db_get_u16 buf 4,
     m_cap = db_get_u16 buf 6, m_len = db_get_u16 buf 8, m_crc = db_get_u16 buf 10, m_flags = buf ! 12\<rparr>"

definition entry_sealed :: "db_dir_entry_t \<Rightarrow> bool" where
  "entry_sealed e \<longleftrightarrow> m_flags e AND DB_ENTRY_FLAG_SEALED \<noteq> 0"

definition db_seals :: "db_env \<Rightarrow> struct_tables \<Rightarrow> bool" where
  "db_seals env t \<longleftrightarrow> env_sealing env \<and> m_table_secret t"

definition db_slot_for :: "db_env \<Rightarrow> struct_tables \<Rightarrow> u16" where
  "db_slot_for env t =
     (if db_seals env t then m_table_size t + of_nat DB_SEAL_OVERHEAD else m_table_size t)"

definition db_stored_bytes :: "db_dir_entry_t \<Rightarrow> u16" where
  "db_stored_bytes e =
     (if m_len e = 0 then 0
      else if entry_sealed e then m_len e + of_nat DB_SEAL_OVERHEAD else m_len e)"

section \<open>Superblock and directory\<close>

definition read_superblock ::
  "'s iDbStoreInterface \<Rightarrow> db_env \<Rightarrow> 's DbLayout \<Rightarrow> pdi_err \<times> 's DbLayout" where
  "read_superblock ops env L =
     (case st_read ops (dl_store L) (of_nat DB_REGION_START) (replicate DB_SUPERBLOCK_BYTES 0) of
        (ok, buf) \<Rightarrow>
          if \<not> ok then (PDI_ERR_IO, L)
          else if buf ! 0 \<noteq> DB_MAGIC ! 0 \<or> buf ! 1 \<noteq> DB_MAGIC ! 1 \<or> buf ! 2 \<noteq> DB_MAGIC ! 2
          then (PDI_ERR_CORRUPT, L)
          else if buf ! 3 \<noteq> DB_FORMAT_VERSION then (PDI_ERR_NOT_SUPPORTED, L)
          else if db_get_u16 buf 10 \<noteq> crc16Ccitt (take (DB_SUPERBLOCK_BYTES - 2) buf) then (PDI_ERR_CRC, L)
          else let L = L\<lparr>m_firmware := db_get_u32 buf 4, m_year := buf ! 8, m_entries := unat (buf ! 9)\<rparr>
               in if m_entries L > MAX_TABLES env then (PDI_ERR_CORRUPT, L) else (PDI_OK, L))"

definition superblock_body :: "'s DbLayout \<Rightarrow> bytes" where
  "superblock_body L = DB_MAGIC @ [DB_FORMAT_VERSION] @ db_put_u32 (m_firmware L)
     @ [m_year L, of_nat (m_entries L)]"

definition superblock_bytes :: "'s DbLayout \<Rightarrow> bytes" where
  "superblock_bytes L = superblock_body L @ db_put_u16 (crc16Ccitt (superblock_body L))"

text \<open>A write to, and a flush of, the bound store.\<close>

definition dl_write :: "'s iDbStoreInterface \<Rightarrow> 's DbLayout \<Rightarrow> nat \<Rightarrow> bytes \<Rightarrow> bool \<times> 's DbLayout" where
  "dl_write ops L off bs =
     (case st_write ops (dl_store L) (of_nat off) bs of (ok, s) \<Rightarrow> (ok, L\<lparr>m_store := Some s\<rparr>))"

definition dl_flush :: "'s iDbStoreInterface \<Rightarrow> 's DbLayout \<Rightarrow> pdi_err \<times> 's DbLayout" where
  "dl_flush ops L =
     (case st_flush ops (dl_store L) of
        (ok, s) \<Rightarrow> (if ok then PDI_OK else PDI_ERR_IO, L\<lparr>m_store := Some s\<rparr>))"

definition write_superblock :: "'s iDbStoreInterface \<Rightarrow> 's DbLayout \<Rightarrow> pdi_err \<times> 's DbLayout" where
  "write_superblock ops L =
     (case dl_write ops L DB_REGION_START (superblock_bytes L) of
        (ok, L) \<Rightarrow> if \<not> ok then (PDI_ERR_IO, L) else dl_flush ops L)"

fun read_entries :: "'s iDbStoreInterface \<Rightarrow> 's DbLayout \<Rightarrow> nat list \<Rightarrow> pdi_err \<times> 's DbLayout" where
  "read_entries ops L [] = (PDI_OK, L)"
| "read_entries ops L (i # is) =
     (case st_read ops (dl_store L) (of_nat (DB_DIR_START + i * DB_DIR_ENTRY_BYTES)) (replicate DB_DIR_ENTRY_BYTES 0) of
        (ok, buf) \<Rightarrow>
          if \<not> ok then (PDI_ERR_IO, L)
          else let e = db_get_entry buf; L = L\<lparr>m_directory := (m_directory L)[i := e]\<rparr>
               in if unat (st_capacity ops (dl_store L)) < unat (m_offset e) + unat (m_cap e) \<or> m_cap e < m_len e
                  then (PDI_ERR_CORRUPT, L)
                  else read_entries ops L is)"

definition read_directory :: "'s iDbStoreInterface \<Rightarrow> 's DbLayout \<Rightarrow> pdi_err \<times> 's DbLayout" where
  "read_directory ops L = read_entries ops L [0..<m_entries L]"

definition write_entry :: "'s iDbStoreInterface \<Rightarrow> 's DbLayout \<Rightarrow> nat \<Rightarrow> pdi_err \<times> 's DbLayout" where
  "write_entry ops L i =
     (case dl_write ops L (DB_DIR_START + i * DB_DIR_ENTRY_BYTES) (db_put_entry (m_directory L ! i)) of
        (ok, L) \<Rightarrow> (if ok then PDI_OK else PDI_ERR_IO, L))"

fun write_entries :: "'s iDbStoreInterface \<Rightarrow> 's DbLayout \<Rightarrow> nat list \<Rightarrow> pdi_err \<times> 's DbLayout" where
  "write_entries ops L [] = (PDI_OK, L)"
| "write_entries ops L (i # is) =
     (case write_entry ops L i of
        (err, L) \<Rightarrow> if err \<noteq> PDI_OK then (err, L) else write_entries ops L is)"

text \<open>The index of the entry; the code returns a pointer to it.\<close>

definition find_entry :: "'s DbLayout \<Rightarrow> u16 \<Rightarrow> nat option" where
  "find_entry L ident = List.find (\<lambda>i. m_id (m_directory L ! i) = ident) [0..<m_entries L]"

definition geometry_matches :: "db_env \<Rightarrow> 's DbLayout \<Rightarrow> struct_tables list \<Rightarrow> bool" where
  "geometry_matches env L tables \<longleftrightarrow> length tables = m_entries L \<and>
     list_all (\<lambda>t. case find_entry L (m_table_id t) of
         None \<Rightarrow> False
       | Some i \<Rightarrow> m_cap (m_directory L ! i) = db_slot_for env t) tables"

section \<open>Formatting and repacking\<close>

definition fresh_entry :: "db_env \<Rightarrow> struct_tables \<Rightarrow> u32 \<Rightarrow> db_dir_entry_t" where
  "fresh_entry env t off = \<lparr>m_id = m_table_id t, m_version = m_table_version t, m_offset = ucast off,
     m_cap = db_slot_for env t, m_len = 0, m_crc = 0,
     m_flags = (if db_seals env t then DB_ENTRY_FLAG_SEALED else 0)\<rparr>"

fun format_tables :: "db_env \<Rightarrow> u32 \<Rightarrow> struct_tables list \<Rightarrow> u32 \<Rightarrow> db_dir_entry_t list \<Rightarrow> nat
    \<Rightarrow> pdi_err \<times> db_dir_entry_t list \<times> nat" where
  "format_tables env capacity [] off dir n = (PDI_OK, dir, n)"
| "format_tables env capacity (t # ts) off dir n =
     (if n \<ge> MAX_TABLES env then (PDI_OK, dir, n)
      else let cap = db_slot_for env t in
        if capacity < off + ucast cap then (PDI_ERR_NO_SPACE, dir, n)
        else format_tables env capacity ts (off + ucast cap) (dir[n := fresh_entry env t off]) (Suc n))"

definition format_db ::
  "'s iDbStoreInterface \<Rightarrow> db_env \<Rightarrow> 's DbLayout \<Rightarrow> struct_tables list \<Rightarrow> pdi_err \<times> 's DbLayout" where
  "format_db ops env L tables =
     (case format_tables env (st_capacity ops (dl_store L)) tables (of_nat (DB_PAYLOAD_START env)) (m_directory L) 0 of
        (err, dir, n) \<Rightarrow>
          let L = L\<lparr>m_directory := dir, m_entries := n\<rparr> in
          if err \<noteq> PDI_OK then (err, L)
          else case write_entries ops L [0..<n] of
            (err, L) \<Rightarrow> if err \<noteq> PDI_OK then (err, L) else write_superblock ops L)"

text \<open>
  What a new entry takes over from the old directory: length, checksum and version, and the
  offset its bytes have to be lifted from (0 for none).
\<close>

definition carry_over :: "db_dir_entry_t list \<Rightarrow> db_dir_entry_t \<Rightarrow> db_dir_entry_t \<times> u16" where
  "carry_over old e =
     (case List.find (\<lambda>d. m_id d = m_id e) old of
        None \<Rightarrow> (e, 0)
      | Some d \<Rightarrow>
          let stored = db_stored_bytes d;
              same_kind = (m_flags d AND DB_ENTRY_FLAG_SEALED = m_flags e AND DB_ENTRY_FLAG_SEALED)
          in if stored \<noteq> 0 \<and> same_kind \<and> stored \<le> m_cap e
             then (e\<lparr>m_len := m_len d, m_crc := m_crc d, m_version := m_version d\<rparr>, m_offset d)
             else (e, 0))"

fun repack_tables :: "db_env \<Rightarrow> u32 \<Rightarrow> db_dir_entry_t list \<Rightarrow> struct_tables list \<Rightarrow> u32
    \<Rightarrow> db_dir_entry_t list \<Rightarrow> nat \<Rightarrow> u16 list \<Rightarrow> pdi_err \<times> db_dir_entry_t list \<times> nat \<times> u16 list" where
  "repack_tables env capacity old [] off dir n from = (PDI_OK, dir, n, from)"
| "repack_tables env capacity old (t # ts) off dir n from =
     (if n \<ge> MAX_TABLES env then (PDI_OK, dir, n, from)
      else let cap = db_slot_for env t in
        if capacity < off + ucast cap then (PDI_ERR_NO_SPACE, dir, n, from)
        else case carry_over old (fresh_entry env t off) of
          (e, frm) \<Rightarrow>
            repack_tables env capacity old ts (off + ucast cap) (dir[n := e]) (Suc n) (from @ [frm]))"

text \<open>
  The records that change place; \<open>lift_records\<close> fills the scratch buffer from the old
  places, one stretch per record, and \<open>lay_records\<close> empties it into the new ones. Neither
  looks at what the store answers.
\<close>

definition moved_records :: "'s DbLayout \<Rightarrow> u16 list \<Rightarrow> nat list" where
  "moved_records L from =
     filter (\<lambda>i. from ! i \<noteq> 0 \<and> from ! i \<noteq> m_offset (m_directory L ! i)) [0..<m_entries L]"

definition lift_records :: "'s iDbStoreInterface \<Rightarrow> 's DbLayout \<Rightarrow> u16 list \<Rightarrow> nat list \<Rightarrow> bytes list" where
  "lift_records ops L from is =
     map (\<lambda>i. snd (st_read ops (dl_store L) (ucast (from ! i))
            (replicate (unat (db_stored_bytes (m_directory L ! i))) 0))) is"

fun lay_records :: "'s iDbStoreInterface \<Rightarrow> 's DbLayout \<Rightarrow> (nat \<times> bytes) list \<Rightarrow> 's DbLayout" where
  "lay_records ops L [] = L"
| "lay_records ops L ((i, bs) # rest) =
     lay_records ops (snd (dl_write ops L (unat (m_offset (m_directory L ! i))) bs)) rest"

definition repack ::
  "'s iDbStoreInterface \<Rightarrow> db_env \<Rightarrow> 's DbLayout \<Rightarrow> struct_tables list \<Rightarrow> pdi_err \<times> 's DbLayout" where
  "repack ops env L tables =
     (case repack_tables env (st_capacity ops (dl_store L)) (take (m_entries L) (m_directory L)) tables
             (of_nat (DB_PAYLOAD_START env)) (m_directory L) 0 [] of
        (err, dir, n, from) \<Rightarrow>
          let L = L\<lparr>m_directory := dir, m_entries := n\<rparr> in
          if err \<noteq> PDI_OK then (err, L)
          else
            let moved = moved_records L from;
                carried = sum_list (map (\<lambda>i. unat (db_stored_bytes (m_directory L ! i))) moved)
            in if carried \<noteq> 0 \<and> \<not> env_heap env carried then (PDI_ERR_NO_MEM, L)
               else
                 let L = (if carried \<noteq> 0 then lay_records ops L (zip moved (lift_records ops L from moved)) else L)
                 in case write_entries ops L [0..<m_entries L] of
                      (err, L) \<Rightarrow> if err \<noteq> PDI_OK then (err, L) else write_superblock ops L)"

definition mount ::
  "'s iDbStoreInterface \<Rightarrow> db_env \<Rightarrow> 's DbLayout \<Rightarrow> 's option \<Rightarrow> struct_tables list \<Rightarrow> pdi_err \<times> 's DbLayout" where
  "mount ops env L store tables =
     (let L = L\<lparr>m_store := store, m_mounted := False, m_formatted := False\<rparr> in
      if store = None then (PDI_ERR_NULL_PTR, L)
      else if unat (st_capacity ops (dl_store L)) < DB_PAYLOAD_START env then (PDI_ERR_NO_SPACE, L)
      else case read_superblock ops env L of
        (err, L) \<Rightarrow>
          if err \<noteq> PDI_OK
          then (case format_db ops env L tables of
                  (err, L) \<Rightarrow> if err \<noteq> PDI_OK then (err, L)
                    else (PDI_OK, L\<lparr>m_mounted := True, m_formatted := True\<rparr>))
          else case read_directory ops L of
            (err, L) \<Rightarrow>
              if err \<noteq> PDI_OK then (PDI_ERR_CORRUPT, L)
              else let L = L\<lparr>m_mounted := True\<rparr>
                   in if \<not> geometry_matches env L tables then repack ops env L tables else (PDI_OK, L))"

section \<open>Plain records\<close>

function verify_plain_loop ::
  "'s iDbStoreInterface \<Rightarrow> 's \<Rightarrow> nat \<Rightarrow> nat \<Rightarrow> nat \<Rightarrow> u16 \<Rightarrow> pdi_err + u16" where
  "verify_plain_loop ops s off len at crc =
     (if at < len
      then let chunk = min (len - at) DB_CRC_WINDOW_BYTES in
        (case st_read ops s (of_nat (off + at)) (replicate chunk 0) of
           (ok, window) \<Rightarrow>
             if \<not> ok then Inl PDI_ERR_IO
             else verify_plain_loop ops s off len (at + chunk) (crc16CcittUpdate crc window))
      else Inr crc)"
  by pat_completeness auto
termination
  by (relation "measure (\<lambda>(_, _, _, len, at, _). len - at)") (auto simp: DB_CRC_WINDOW_BYTES_def)

declare verify_plain_loop.simps [simp del]

definition verify_plain :: "'s iDbStoreInterface \<Rightarrow> 's DbLayout \<Rightarrow> db_dir_entry_t \<Rightarrow> pdi_err" where
  "verify_plain ops L e =
     (case verify_plain_loop ops (dl_store L) (unat (m_offset e)) (unat (m_len e)) 0 0xFFFF of
        Inl err \<Rightarrow> err
      | Inr crc \<Rightarrow> if crc = m_crc e then PDI_OK else PDI_ERR_CRC)"

section \<open>Sealed records\<close>

text \<open>The scratch object is value-initialised on allocation.\<close>

definition scratch_mac :: hmac_sha256_context where
  "scratch_mac = \<lparr>m_inner = \<lparr>sh_data = replicate 64 0, sh_datalen = 0, sh_bitlen = 0, sh_state = replicate 8 0\<rparr>,
     m_opad = replicate 64 0\<rparr>"

function seal_loop :: "'s iDbStoreInterface \<Rightarrow> 's \<Rightarrow> nat \<Rightarrow> AES_ctx \<Rightarrow> hmac_sha256_context \<Rightarrow> bytes
    \<Rightarrow> bool \<times> 's \<times> hmac_sha256_context" where
  "seal_loop ops s off aes mac buf =
     (if buf = [] then (True, s, mac)
      else let chunk = take DB_SEAL_CHUNK_BYTES buf in
        (case AES_CTR_xcrypt_buffer aes chunk of
           (aes, window) \<Rightarrow>
             (case st_write ops s (of_nat off) window of
                (ok, s) \<Rightarrow>
                  if \<not> ok then (False, s, mac)
                  else seal_loop ops s (off + length chunk) aes (hmac_sha256_update mac window)
                         (drop DB_SEAL_CHUNK_BYTES buf))))"
  by pat_completeness auto
termination
  by (relation "measure (\<lambda>(_, _, _, _, _, buf). length buf)") (auto simp: DB_SEAL_CHUNK_BYTES_def)

declare seal_loop.simps [simp del]

text \<open>\<open>i\<close> is the index of the entry the code holds a pointer to.\<close>

definition seal_record ::
  "'s iDbStoreInterface \<Rightarrow> db_env \<Rightarrow> 's DbLayout \<Rightarrow> nat \<Rightarrow> bytes \<Rightarrow> pdi_err \<times> 's DbLayout" where
  "seal_record ops env L i buf =
     (if \<not> m_ready (env_key env) then (PDI_ERR_NOT_INITIALIZED, L)
      else if \<not> env_heap env (env_scratch_bytes env) then (PDI_ERR_NO_MEM, L)
      else
        let e = m_directory L ! i;
            off = unat (m_offset e);
            key = m_key (env_key env);
            iv = random_block (\<lambda>k. env_random env (m_draws L + k));
            L = L\<lparr>m_draws := m_draws L + 4\<rparr>
        in case dl_write ops L off iv of
          (ok, L) \<Rightarrow>
            if \<not> ok then (PDI_ERR_IO, L)
            else
              let aes = AES_init_ctx_iv key iv;
                  mac = hmac_sha256_update (hmac_sha256_init (env_stack env) scratch_mac key) iv
              in case seal_loop ops (dl_store L) (off + DB_SEAL_IV_BYTES) aes mac buf of
                (ok, s, mac) \<Rightarrow>
                  let L = L\<lparr>m_store := Some s\<rparr> in
                  if \<not> ok then (PDI_ERR_IO, L)
                  else
                    let tag = hmac_sha256_final (env_stack env) mac
                    in case dl_write ops L (off + DB_SEAL_IV_BYTES + length buf) (take DB_SEAL_TAG_BYTES tag) of
                      (ok, L) \<Rightarrow>
                        if \<not> ok then (PDI_ERR_IO, L)
                        else (PDI_OK, L\<lparr>m_directory := (m_directory L)
                               [i := e\<lparr>m_len := of_nat (length buf), m_crc := 0\<rparr>]\<rparr>))"

function verify_sealed_loop :: "'s iDbStoreInterface \<Rightarrow> 's \<Rightarrow> nat \<Rightarrow> nat \<Rightarrow> hmac_sha256_context
    \<Rightarrow> hmac_sha256_context option" where
  "verify_sealed_loop ops s off len mac =
     (if len = 0 then Some mac
      else let chunk = min len DB_SEAL_CHUNK_BYTES in
        (case st_read ops s (of_nat off) (replicate chunk 0) of
           (ok, window) \<Rightarrow>
             if \<not> ok then None
             else verify_sealed_loop ops s (off + chunk) (len - chunk) (hmac_sha256_update mac window)))"
  by pat_completeness auto
termination
  by (relation "measure (\<lambda>(_, _, _, len, _). len)") (auto simp: DB_SEAL_CHUNK_BYTES_def)

declare verify_sealed_loop.simps [simp del]

text \<open>Called with a scratch object in hand, so the allocation failure is the callers'.\<close>

definition verify_sealed ::
  "'s iDbStoreInterface \<Rightarrow> db_env \<Rightarrow> 's DbLayout \<Rightarrow> db_dir_entry_t \<Rightarrow> bytes \<Rightarrow> pdi_err" where
  "verify_sealed ops env L e expected =
     (if \<not> m_ready (env_key env) then PDI_ERR_NOT_INITIALIZED
      else case st_read ops (dl_store L) (ucast (m_offset e)) (replicate DB_SEAL_IV_BYTES 0) of
        (ok, iv) \<Rightarrow>
          if \<not> ok then PDI_ERR_IO
          else
            let mac = hmac_sha256_update
                  (hmac_sha256_init (env_stack env) scratch_mac (m_key (env_key env))) iv
            in case verify_sealed_loop ops (dl_store L) (unat (m_offset e) + DB_SEAL_IV_BYTES) (unat (m_len e)) mac of
                 None \<Rightarrow> PDI_ERR_IO
               | Some mac \<Rightarrow>
                   if take DB_SEAL_TAG_BYTES (hmac_sha256_final (env_stack env) mac) = expected
                   then PDI_OK else PDI_ERR_CRC)"

text \<open>\<open>buf\<close> is the stretch of the caller's buffer the record is laid over.\<close>

definition unseal_record ::
  "'s iDbStoreInterface \<Rightarrow> db_env \<Rightarrow> 's DbLayout \<Rightarrow> db_dir_entry_t \<Rightarrow> bytes \<Rightarrow> pdi_err \<times> bytes" where
  "unseal_record ops env L e buf =
     (let s = dl_store L; off = unat (m_offset e) in
      case st_read ops s (of_nat (off + DB_SEAL_IV_BYTES + unat (m_len e))) (replicate DB_SEAL_TAG_BYTES 0) of
        (ok, stored_tag) \<Rightarrow>
          if \<not> ok then (PDI_ERR_IO, buf)
          else if \<not> env_heap env (env_scratch_bytes env) then (PDI_ERR_NO_MEM, buf)
          else let err = verify_sealed ops env L e stored_tag in
            if err \<noteq> PDI_OK then (err, buf)
            else case st_read ops s (of_nat off) (replicate DB_SEAL_IV_BYTES 0) of
              (ok, iv) \<Rightarrow>
                if \<not> ok then (PDI_ERR_IO, buf)
                else case st_read ops s (of_nat (off + DB_SEAL_IV_BYTES)) buf of
                  (ok, buf) \<Rightarrow>
                    if \<not> ok then (PDI_ERR_IO, buf)
                    else (PDI_OK, snd (AES_CTR_xcrypt_buffer (AES_init_ctx_iv (m_key (env_key env)) iv) buf)))"

section \<open>Records by table id\<close>

definition verify_record :: "'s iDbStoreInterface \<Rightarrow> db_env \<Rightarrow> 's DbLayout \<Rightarrow> u16 \<Rightarrow> pdi_err" where
  "verify_record ops env L ident =
     (if \<not> m_mounted L then PDI_ERR_NOT_INITIALIZED
      else case find_entry L ident of
        None \<Rightarrow> PDI_ERR_NOT_FOUND
      | Some i \<Rightarrow>
          let e = m_directory L ! i in
          if m_len e = 0 then PDI_OK
          else if env_sealing env \<and> entry_sealed e
          then (case st_read ops (dl_store L) (of_nat (unat (m_offset e) + DB_SEAL_IV_BYTES + unat (m_len e)))
                       (replicate DB_SEAL_TAG_BYTES 0) of
                  (ok, stored_tag) \<Rightarrow>
                    if \<not> ok then PDI_ERR_IO
                    else if \<not> env_heap env (env_scratch_bytes env) then PDI_ERR_NO_MEM
                    else verify_sealed ops env L e stored_tag)
          else verify_plain ops L e)"

text \<open>The result is the error, the caller's buffer, and the two reference parameters.\<close>

definition read_record ::
  "'s iDbStoreInterface \<Rightarrow> db_env \<Rightarrow> 's DbLayout \<Rightarrow> u16 \<Rightarrow> bytes \<Rightarrow> pdi_err \<times> bytes \<times> nat \<times> u16" where
  "read_record ops env L ident buf =
     (if \<not> m_mounted L then (PDI_ERR_NOT_INITIALIZED, buf, 0, 0)
      else case find_entry L ident of
        None \<Rightarrow> (PDI_ERR_NOT_FOUND, buf, 0, 0)
      | Some i \<Rightarrow>
          let e = m_directory L ! i in
          if m_len e = 0 then (PDI_OK, buf, 0, m_version e)
          else
            let n = min (unat (m_len e)) (length buf) in
            if env_sealing env \<and> entry_sealed e
            then (case unseal_record ops env L e (take n buf) of
                    (err, out) \<Rightarrow>
                      if err \<noteq> PDI_OK then (err, out @ drop n buf, 0, 0)
                      else (PDI_OK, out @ drop n buf, n, m_version e))
            else
              let err = verify_plain ops L e in
              if err \<noteq> PDI_OK then (err, buf, 0, 0)
              else case st_read ops (dl_store L) (ucast (m_offset e)) (take n buf) of
                (ok, out) \<Rightarrow>
                  if \<not> ok then (PDI_ERR_IO, out @ drop n buf, 0, 0)
                  else (PDI_OK, out @ drop n buf, n, m_version e))"

text \<open>The entry is written back and the store flushed.\<close>

definition put_back :: "'s iDbStoreInterface \<Rightarrow> 's DbLayout \<Rightarrow> nat \<Rightarrow> pdi_err \<times> 's DbLayout" where
  "put_back ops L i =
     (case write_entry ops L i of
        (err, L) \<Rightarrow> if err \<noteq> PDI_OK then (err, L) else dl_flush ops L)"

definition write_record ::
  "'s iDbStoreInterface \<Rightarrow> db_env \<Rightarrow> 's DbLayout \<Rightarrow> u16 \<Rightarrow> bytes \<Rightarrow> u16 \<Rightarrow> pdi_err \<times> 's DbLayout" where
  "write_record ops env L ident buf version =
     (if \<not> m_mounted L then (PDI_ERR_NOT_INITIALIZED, L)
      else case find_entry L ident of
        None \<Rightarrow> (PDI_ERR_NOT_FOUND, L)
      | Some i \<Rightarrow>
          let e = m_directory L ! i; sealed = entry_sealed e in
          if unat (m_cap e) < length buf + (if sealed then DB_SEAL_OVERHEAD else 0) then (PDI_ERR_NO_SPACE, L)
          else
            case (if env_sealing env \<and> sealed then seal_record ops env L i buf
                  else case dl_write ops L (unat (m_offset e)) buf of
                    (ok, L) \<Rightarrow>
                      if \<not> ok then (PDI_ERR_IO, L)
                      else (PDI_OK, L\<lparr>m_directory := (m_directory L)
                             [i := e\<lparr>m_len := of_nat (length buf), m_crc := crc16Ccitt buf\<rparr>]\<rparr>)) of
              (err, L) \<Rightarrow>
                if err \<noteq> PDI_OK then (err, L)
                else put_back ops (L\<lparr>m_directory := (m_directory L)
                       [i := (m_directory L ! i)\<lparr>m_version := version\<rparr>]\<rparr>) i)"

definition clear_record ::
  "'s iDbStoreInterface \<Rightarrow> 's DbLayout \<Rightarrow> u16 \<Rightarrow> pdi_err \<times> 's DbLayout" where
  "clear_record ops L ident =
     (if \<not> m_mounted L then (PDI_ERR_NOT_INITIALIZED, L)
      else case find_entry L ident of
        None \<Rightarrow> (PDI_ERR_NOT_FOUND, L)
      | Some i \<Rightarrow> put_back ops (L\<lparr>m_directory := (m_directory L)
            [i := (m_directory L ! i)\<lparr>m_len := 0, m_crc := 0\<rparr>]\<rparr>) i)"

section \<open>Copying a tier, and the superblock fields\<close>

fun copy_records :: "'s iDbStoreInterface \<Rightarrow> 't iDbStoreInterface \<Rightarrow> db_env \<Rightarrow> 't DbLayout \<Rightarrow> 's DbLayout
    \<Rightarrow> bytes \<Rightarrow> nat list \<Rightarrow> pdi_err \<Rightarrow> pdi_err \<times> 's DbLayout" where
  "copy_records ops ops' env src L buf [] status = (status, L)"
| "copy_records ops ops' env src L buf (i # is) status =
     (let ident = m_id (m_directory L ! i) in
      case read_record ops' env src ident buf of
        (err, buf, len, version) \<Rightarrow>
          case (if err \<noteq> PDI_OK \<or> len = 0 then clear_record ops L ident
                else write_record ops env L ident (take len buf) version) of
            (err, L) \<Rightarrow>
              copy_records ops ops' env src L buf is (if err \<noteq> PDI_OK then PDI_ERR_IO else status))"

definition widest_payload :: "'s DbLayout \<Rightarrow> nat" where
  "widest_payload L = fold (\<lambda>i widest.
       let e = m_directory L ! i;
           payload = (if entry_sealed e \<and> unat (m_cap e) \<ge> DB_SEAL_OVERHEAD
                      then unat (m_cap e) - DB_SEAL_OVERHEAD else unat (m_cap e))
       in max widest payload) [0..<m_entries L] 0"

definition copy_from :: "'s iDbStoreInterface \<Rightarrow> 't iDbStoreInterface \<Rightarrow> db_env \<Rightarrow> 's DbLayout \<Rightarrow> 't DbLayout
    \<Rightarrow> pdi_err \<times> 's DbLayout" where
  "copy_from ops ops' env L src =
     (if \<not> m_mounted L \<or> \<not> m_mounted src then (PDI_ERR_NOT_INITIALIZED, L)
      else let widest = widest_payload L in
        if widest = 0 then (PDI_OK, L)
        else if \<not> env_heap env widest then (PDI_ERR_NO_MEM, L)
        else copy_records ops ops' env src L (replicate widest 0) [0..<m_entries L] PDI_OK)"

definition set_firmware_version :: "'s iDbStoreInterface \<Rightarrow> 's DbLayout \<Rightarrow> u32 \<Rightarrow> 's DbLayout" where
  "set_firmware_version ops L version =
     (if m_mounted L \<and> m_firmware L \<noteq> version
      then snd (write_superblock ops (L\<lparr>m_firmware := version\<rparr>)) else L)"

definition set_launch_year :: "'s iDbStoreInterface \<Rightarrow> 's DbLayout \<Rightarrow> u8 \<Rightarrow> 's DbLayout" where
  "set_launch_year ops L year =
     (if m_mounted L \<and> m_year L \<noteq> year
      then snd (write_superblock ops (L\<lparr>m_year := year\<rparr>)) else L)"

definition used_bytes :: "'s DbLayout \<Rightarrow> u16" where
  "used_bytes L = sum_list (map (\<lambda>i. m_cap (m_directory L ! i)) [0..<m_entries L])"

definition free_bytes :: "'s iDbStoreInterface \<Rightarrow> db_env \<Rightarrow> 's DbLayout \<Rightarrow> u16" where
  "free_bytes ops env L =
     (case m_store L of None \<Rightarrow> 0
      | Some s \<Rightarrow> ucast (st_capacity ops s - of_nat (DB_PAYLOAD_START env) - ucast (used_bytes L)))"

definition entry_at :: "'s DbLayout \<Rightarrow> nat \<Rightarrow> db_dir_entry_t option" where
  "entry_at L i = (if i < m_entries L then Some (m_directory L ! i) else None)"

end
