(* ===== verification/DbLayoutFacts.thy ===== *)
theory DbLayoutFacts
  imports DbLayout
begin

text \<open>
  Facts on the layout engine that do not depend on what the records hold: the codecs, the frame
  (superblock and directory) as it lies on the medium, and the engine's loops over a store that
  keeps the contract of \<open>db_store\<close>.
\<close>

named_theorems db_consts \<open>the constants of the on-media format\<close>

lemmas db_const_defs [db_consts] =
  DB_REGION_START_def DB_SUPERBLOCK_BYTES_def DB_DIR_ENTRY_BYTES_def DB_DIR_START_def DB_CRC_WINDOW_BYTES_def
  DB_SEAL_IV_BYTES_def DB_SEAL_TAG_BYTES_def DB_SEAL_OVERHEAD_def DB_SEAL_CHUNK_BYTES_def DB_PAYLOAD_START_def

section \<open>Codecs\<close>

lemma length_db_put [simp]:
  "length (db_put_u16 v) = 2" "length (db_put_u32 w) = 4" "length (db_put_entry e) = 13"
  by (simp_all add: db_put_u16_def db_put_u32_def db_put_entry_def)

lemma db_get_put_entry [simp]: "db_get_entry (db_put_entry e) = e"
  by (cases e) (simp add: db_get_entry_def db_put_entry_def db_get_u16_def db_put_u16_def le16_join)

lemma length_superblock [simp]: "length (superblock_bytes L) = 12" "length (superblock_body L) = 10"
  by (simp_all add: superblock_bytes_def superblock_body_def DB_MAGIC_def)

lemma superblock_fields:
  "superblock_bytes L ! 0 = DB_MAGIC ! 0" "superblock_bytes L ! Suc 0 = DB_MAGIC ! 1"
  "superblock_bytes L ! 2 = DB_MAGIC ! 2" "superblock_bytes L ! 3 = DB_FORMAT_VERSION"
  "superblock_bytes L ! 8 = m_year L" "superblock_bytes L ! 9 = of_nat (m_entries L)"
  "db_get_u32 (superblock_bytes L) 4 = m_firmware L"
  by (simp_all add: superblock_bytes_def superblock_body_def DB_MAGIC_def db_get_u32_def db_put_u32_def le32_join)

lemma superblock_crc:
  "db_get_u16 (superblock_bytes L) 10 = crc16Ccitt (take 10 (superblock_bytes L))"
proof -
  have "db_get_u16 (superblock_bytes L) 10 = crc16Ccitt (superblock_body L)"
    by (simp add: superblock_bytes_def db_get_u16_def nth_append db_put_u16_def le16_join)
  then show ?thesis
    by (simp add: superblock_bytes_def)
qed

section \<open>The frame on the medium\<close>

definition entries_of :: "'s DbLayout \<Rightarrow> db_dir_entry_t list" where
  "entries_of L = take (m_entries L) (m_directory L)"

text \<open>The superblock and every directory entry lie on the medium as they are in RAM.\<close>

definition framed :: "bytes \<Rightarrow> 's DbLayout \<Rightarrow> bool" where
  "framed img L \<longleftrightarrow> slice_at 5 12 img = superblock_bytes L \<and>
     (\<forall>i < m_entries L. slice_at (17 + i * 13) 13 img = db_put_entry (m_directory L ! i))"

text \<open>
  The geometry: one slot per entry, in order, inside the payload area and not overlapping, each
  holding the bytes its record occupies.
\<close>

definition overhead :: "db_dir_entry_t \<Rightarrow> nat" where
  "overhead e = (if entry_sealed e then 32 else 0)"

definition entry_fits :: "db_env \<Rightarrow> nat \<Rightarrow> db_dir_entry_t \<Rightarrow> bool" where
  "entry_fits env sz e \<longleftrightarrow> DB_PAYLOAD_START env \<le> unat (m_offset e) \<and> unat (m_offset e) + unat (m_cap e) \<le> sz \<and>
     (m_len e \<noteq> 0 \<longrightarrow> unat (m_len e) + overhead e \<le> unat (m_cap e)) \<and> (entry_sealed e \<longrightarrow> env_sealing env)
     \<and> (m_flags e = 0 \<or> m_flags e = DB_ENTRY_FLAG_SEALED)"

fun packed :: "db_dir_entry_t list \<Rightarrow> bool" where
  "packed [] \<longleftrightarrow> True"
| "packed (e # es) \<longleftrightarrow> (\<forall>f\<in>set es. unat (m_offset e) + unat (m_cap e) \<le> unat (m_offset f)) \<and> packed es"

definition geometry :: "db_env \<Rightarrow> nat \<Rightarrow> 's DbLayout \<Rightarrow> bool" where
  "geometry env sz L \<longleftrightarrow> m_entries L \<le> MAX_TABLES env \<and> MAX_TABLES env \<le> 255
     \<and> length (m_directory L) = MAX_TABLES env \<and> DB_PAYLOAD_START env \<le> sz \<and> sz < 2 ^ 16
     \<and> distinct (map m_id (entries_of L)) \<and> packed (entries_of L) \<and> list_all (entry_fits env sz) (entries_of L)"

lemma packed_nth:
  "packed es \<Longrightarrow> i < j \<Longrightarrow> j < length es \<Longrightarrow>
     unat (m_offset (es ! i)) + unat (m_cap (es ! i)) \<le> unat (m_offset (es ! j))"
proof (induction es arbitrary: i j)
  case (Cons e es)
  then show ?case
    by (cases i; cases j) auto
qed simp

lemma geometry_disjoint:
  assumes "geometry env sz L" "i < m_entries L" "j < m_entries L" "i \<noteq> j"
  shows "unat (m_offset (m_directory L ! i)) + unat (m_cap (m_directory L ! i)) \<le> unat (m_offset (m_directory L ! j))
    \<or> unat (m_offset (m_directory L ! j)) + unat (m_cap (m_directory L ! j)) \<le> unat (m_offset (m_directory L ! i))"
  using assms packed_nth [of "entries_of L" i j] packed_nth [of "entries_of L" j i]
  by (cases "i < j") (auto simp: geometry_def entries_of_def)

lemma geometry_entry:
  "geometry env sz L \<Longrightarrow> i < m_entries L \<Longrightarrow> entry_fits env sz (m_directory L ! i)"
  by (auto simp: geometry_def entries_of_def list_all_length)

lemma find_entry_Some:
  assumes "find_entry L ident = Some i"
  shows "i < m_entries L \<and> m_id (m_directory L ! i) = ident"
  using assms by (auto simp: find_entry_def find_Some_iff)

lemma find_entry_None:
  "find_entry L ident = None \<longleftrightarrow> (\<forall>i < m_entries L. m_id (m_directory L ! i) \<noteq> ident)"
  by (auto simp: find_entry_def find_None_iff)

lemma find_entry_id:
  assumes "geometry env sz L" "i < m_entries L"
  shows "find_entry L (m_id (m_directory L ! i)) = Some i"
proof -
  obtain j where j: "find_entry L (m_id (m_directory L ! i)) = Some j"
    using assms(2) find_entry_None by (metis not_Some_eq)
  have len: "length (entries_of L) = m_entries L"
    using assms(1) by (simp add: geometry_def entries_of_def)
  have "j < m_entries L" "map m_id (entries_of L) ! j = map m_id (entries_of L) ! i"
    using find_entry_Some [OF j] assms(2) len by (simp_all add: entries_of_def)
  moreover have "distinct (map m_id (entries_of L))"
    using assms(1) by (simp add: geometry_def)
  ultimately have "j = i"
    using assms(2) len nth_eq_iff_index_eq [of "map m_id (entries_of L)" j i] by simp
  with j show ?thesis
    by simp
qed

text \<open>Changing what an entry says of its record, but not where its slot is.\<close>

lemma geometry_update:
  assumes "geometry env sz L" "i < m_entries L" "entry_fits env sz e"
    and "m_id e = m_id (m_directory L ! i)" "m_offset e = m_offset (m_directory L ! i)"
      "m_cap e = m_cap (m_directory L ! i)"
  shows "geometry env sz (L\<lparr>m_directory := (m_directory L)[i := e]\<rparr>)"
proof -
  have i: "i < length (entries_of L)" "m_directory L ! i = entries_of L ! i"
    using assms(1,2) by (auto simp: geometry_def entries_of_def)
  have ids: "map m_id ((entries_of L)[i := e]) = map m_id (entries_of L)"
    using i assms(4) by (simp add: map_update list_update_same_conv)
  have "packed es \<Longrightarrow> k < length es \<Longrightarrow> m_offset e = m_offset (es ! k) \<Longrightarrow> m_cap e = m_cap (es ! k)
      \<Longrightarrow> packed (es[k := e])" for es k
  proof (induction es arbitrary: k)
    case (Cons f es)
    show ?case
    proof (cases k)
      case (Suc m)
      have "\<forall>g\<in>set (es[m := e]). unat (m_offset f) + unat (m_cap f) \<le> unat (m_offset g)"
        using Cons.prems Suc set_update_subset_insert [of es m e] by auto
      with Cons Suc show ?thesis
        by simp
    qed (use Cons in simp)
  qed simp
  then have "packed ((entries_of L)[i := e])"
    using assms i by (simp add: geometry_def)
  moreover have "list_all (entry_fits env sz) ((entries_of L)[i := e])"
    using assms i by (auto simp: geometry_def list_all_length nth_list_update)
  moreover have "entries_of (L\<lparr>m_directory := (m_directory L)[i := e]\<rparr>) = (entries_of L)[i := e]"
    by (simp add: entries_of_def take_update_swap)
  ultimately show ?thesis
    using assms(1) ids by (simp add: geometry_def)
qed

lemma entries_of_simps [simp]:
  "entries_of (L\<lparr>m_store := s\<rparr>) = entries_of L" "entries_of (L\<lparr>m_draws := n\<rparr>) = entries_of L"
  "entries_of (L\<lparr>m_mounted := b\<rparr>) = entries_of L" "entries_of (L\<lparr>m_formatted := b\<rparr>) = entries_of L"
  "entries_of (L\<lparr>m_firmware := w\<rparr>) = entries_of L" "entries_of (L\<lparr>m_year := y\<rparr>) = entries_of L"
  by (simp_all add: entries_of_def)

lemma geometry_simps [simp]:
  "geometry env sz (L\<lparr>m_store := s\<rparr>) = geometry env sz L" "geometry env sz (L\<lparr>m_draws := n\<rparr>) = geometry env sz L"
  "geometry env sz (L\<lparr>m_mounted := b\<rparr>) = geometry env sz L" "geometry env sz (L\<lparr>m_formatted := b\<rparr>) = geometry env sz L"
  "geometry env sz (L\<lparr>m_firmware := w\<rparr>) = geometry env sz L" "geometry env sz (L\<lparr>m_year := y\<rparr>) = geometry env sz L"
  by (simp_all add: geometry_def)

lemma superblock_simps [simp]:
  "superblock_bytes (L\<lparr>m_store := s\<rparr>) = superblock_bytes L" "superblock_bytes (L\<lparr>m_draws := n\<rparr>) = superblock_bytes L"
  "superblock_bytes (L\<lparr>m_mounted := b\<rparr>) = superblock_bytes L" "superblock_bytes (L\<lparr>m_formatted := b\<rparr>) = superblock_bytes L"
  "superblock_bytes (L\<lparr>m_directory := d\<rparr>) = superblock_bytes L"
  by (simp_all add: superblock_bytes_def superblock_body_def)

lemma framed_simps [simp]:
  "framed img (L\<lparr>m_store := s\<rparr>) = framed img L" "framed img (L\<lparr>m_draws := n\<rparr>) = framed img L"
  "framed img (L\<lparr>m_mounted := b\<rparr>) = framed img L" "framed img (L\<lparr>m_formatted := b\<rparr>) = framed img L"
  by (simp_all add: framed_def)

section \<open>The engine's loops over a store\<close>

lemma xcrypt_chunks:
  "AES_CTR_xcrypt_buffer aes (take 64 buf) = (aes', w) \<Longrightarrow> 64 \<le> length buf \<or> drop 64 buf = [] \<Longrightarrow>
     snd (AES_CTR_xcrypt_buffer aes buf) = w @ snd (AES_CTR_xcrypt_buffer aes' (drop 64 buf))"
proof (cases "drop 64 buf = []")
  case True
  assume "AES_CTR_xcrypt_buffer aes (take 64 buf) = (aes', w)"
  with True show ?thesis
    by (simp add: AES_CTR_xcrypt_buffer_def)
next
  case False
  assume a: "AES_CTR_xcrypt_buffer aes (take 64 buf) = (aes', w)"
  obtain aes'' w' where b: "AES_CTR_xcrypt_buffer aes' (drop 64 buf) = (aes'', w')"
    by (cases "AES_CTR_xcrypt_buffer aes' (drop 64 buf)")
  have "16 dvd length (take 64 buf)"
    using False by simp
  from xcrypt_append [OF this a b] b show ?thesis
    by simp
qed

lemma length_snd_xcrypt [simp]: "length (snd (AES_CTR_xcrypt_buffer aes buf)) = length buf"
  by (metis length_xcrypt prod.collapse)

context db_store
begin

lemma unat_offset: "inv s \<Longrightarrow> off \<le> length (img s) \<Longrightarrow> unat (of_nat off :: u32) = off"
  using capacity_max [of s] by (simp add: unat_of_nat)

lemma read_at:
  assumes "inv s" "off + n \<le> length (img s)"
  shows "st_read ops s (of_nat off) (replicate n 0) = (True, slice_at off n (img s))"
  using read_in [of s "of_nat off" "replicate n 0"] unat_offset [of s off] assms by simp

lemma dl_write_in:
  assumes "m_store L = Some s" "inv s" "off + length bs \<le> length (img s)"
  obtains s' where "dl_write ops L off bs = (True, L\<lparr>m_store := Some s'\<rparr>)" "inv s'"
    "img s' = splice_at off bs (img s)" "media s' = media s"
proof -
  obtain ok s' where w: "st_write ops s (of_nat off) bs = (ok, s')"
    by (cases "st_write ops s (of_nat off) bs")
  show ?thesis
    using write_in [OF assms(2) _ w] unat_offset [OF assms(2), of off] assms w that [of s']
    by (simp add: dl_write_def)
qed

lemma dl_flush_ok:
  assumes "m_store L = Some s" "inv s"
  obtains s' where "dl_flush ops L = (PDI_OK, L\<lparr>m_store := Some s'\<rparr>)" "inv s'" "img s' = img s" "media s' = img s"
proof -
  obtain ok s' where f: "st_flush ops s = (ok, s')"
    by (cases "st_flush ops s")
  show ?thesis
    using flush [OF assms(2) f] assms(1) f that [of s'] by (simp add: dl_flush_def)
qed

lemma verify_plain_loop_ok:
  assumes "inv s" "off + len \<le> length (img s)"
  shows "at \<le> len \<Longrightarrow> verify_plain_loop ops s off len at crc
    = Inr (crc16CcittUpdate crc (slice_at (off + at) (len - at) (img s)))"
proof (induction "len - at" arbitrary: at crc rule: less_induct)
  case less
  show ?case
  proof (cases "at < len")
    case True
    let ?c = "min (len - at) DB_CRC_WINDOW_BYTES"
    have c: "0 < ?c" "at + ?c \<le> len"
      using True by (auto simp: DB_CRC_WINDOW_BYTES_def)
    have "slice_at (off + at) (len - at) (img s)
        = slice_at (off + at) ?c (img s) @ slice_at (off + (at + ?c)) (len - (at + ?c)) (img s)"
      using slice_at_split [of "off + at" ?c "len - (at + ?c)" "img s"] c assms(2) by (simp add: add.assoc)
    then show ?thesis
      using less.hyps [of "at + ?c" "crc16CcittUpdate crc (slice_at (off + at) ?c (img s))"] c True
        read_at [OF assms(1), of "off + at" ?c] assms(2)
      by (subst verify_plain_loop.simps) (simp add: Let_def)
  next
    case False
    with less.prems show ?thesis
      by (subst verify_plain_loop.simps) simp
  qed
qed

lemma verify_sealed_loop_ok:
  assumes "inv s"
  shows "off + len \<le> length (img s) \<Longrightarrow>
    verify_sealed_loop ops s off len mac = Some (hmac_sha256_update mac (slice_at off len (img s)))"
proof (induction len arbitrary: off mac rule: less_induct)
  case (less len)
  show ?case
  proof (cases "len = 0")
    case False
    let ?c = "min len DB_SEAL_CHUNK_BYTES"
    have c: "0 < ?c" "?c \<le> len"
      using False by (auto simp: DB_SEAL_CHUNK_BYTES_def)
    have "slice_at off len (img s) = slice_at off ?c (img s) @ slice_at (off + ?c) (len - ?c) (img s)"
      using slice_at_split [of off ?c "len - ?c" "img s"] c less.prems by simp
    then show ?thesis
      using less.IH [of "len - ?c" "off + ?c" "hmac_sha256_update mac (slice_at off ?c (img s))"] c False
        read_at [OF assms, of off ?c] less.prems
      by (subst verify_sealed_loop.simps) (simp add: Let_def)
  qed (simp add: verify_sealed_loop.simps)
qed

lemma seal_loop_ok:
  "inv s \<Longrightarrow> off + length buf \<le> length (img s) \<Longrightarrow>
    \<exists>s'. seal_loop ops s off aes mac buf = (True, s', hmac_sha256_update mac (snd (AES_CTR_xcrypt_buffer aes buf)))
      \<and> inv s' \<and> img s' = splice_at off (snd (AES_CTR_xcrypt_buffer aes buf)) (img s) \<and> media s' = media s"
proof (induction buf arbitrary: s off aes mac rule: length_induct)
  case (1 buf)
  show ?case
  proof (cases "buf = []")
    case True
    then show ?thesis
      using 1 by (simp add: seal_loop.simps [of _ _ _ _ _ "[]"] AES_CTR_xcrypt_buffer_def)
  next
    case False
    obtain aes' w where x: "AES_CTR_xcrypt_buffer aes (take 64 buf) = (aes', w)"
      by (cases "AES_CTR_xcrypt_buffer aes (take 64 buf)")
    have w: "length w = min (length buf) 64"
      using length_xcrypt [OF x] by simp
    obtain ok s1 where e: "st_write ops s (of_nat off) w = (ok, s1)"
      by (cases "st_write ops s (of_nat off) w")
    have 2: "ok \<and> inv s1 \<and> img s1 = splice_at off w (img s) \<and> media s1 = media s"
      using write_in [OF "1.prems"(1) _ e] unat_offset [OF "1.prems"(1), of off] "1.prems"(2) w by simp
    let ?rest = "drop 64 buf" and ?mac = "hmac_sha256_update mac w"
    have "length ?rest < length buf"
      using False by simp
    moreover have "inv s1" "(off + length w) + length ?rest \<le> length (img s1)"
      using 2 "1.prems" w by simp_all
    ultimately obtain s2 where s2:
      "seal_loop ops s1 (off + length w) aes' ?mac ?rest
         = (True, s2, hmac_sha256_update ?mac (snd (AES_CTR_xcrypt_buffer aes' ?rest)))"
      "inv s2" "img s2 = splice_at (off + length w) (snd (AES_CTR_xcrypt_buffer aes' ?rest)) (img s1)"
      "media s2 = media s1"
      using "1.IH" by blast
    have all: "snd (AES_CTR_xcrypt_buffer aes buf) = w @ snd (AES_CTR_xcrypt_buffer aes' ?rest)"
      using xcrypt_chunks [OF x] by (cases "64 \<le> length buf") simp_all
    have "seal_loop ops s off aes mac buf = seal_loop ops s1 (off + length w) aes' ?mac ?rest"
      using False x e 2 w by (subst seal_loop.simps) (simp add: DB_SEAL_CHUNK_BYTES_def Let_def min.commute)
    moreover have "img s2 = splice_at off (snd (AES_CTR_xcrypt_buffer aes buf)) (img s)"
      using splice_at_append [of off w "snd (AES_CTR_xcrypt_buffer aes' ?rest)" "img s"] s2 2 "1.prems"(2) w
      by (simp add: all)
    ultimately show ?thesis
      using s2 2 all by simp
  qed
qed

end

end
