(* ===== verification/DbRecords.thy ===== *)
theory DbRecords
  imports DbLayoutFacts
begin

text \<open>
  What the engine promises of its records. A mounted database is abstracted to a map from table
  ids to payload and version; reading looks a record up, writing and clearing update one entry of
  the map and leave every other as it was, and the frame on the medium keeps describing what is
  in RAM, so that mounting again finds the same map.
\<close>

section \<open>Records in an image\<close>

definition env_ok :: "db_env \<Rightarrow> bool" where
  "env_ok env \<longleftrightarrow> length (sh_data (env_stack env)) = 64 \<and>
     (env_sealing env \<longrightarrow> m_ready (env_key env) \<and> env_heap env (env_scratch_bytes env))"

definition rec_tag :: "db_env \<Rightarrow> bytes \<Rightarrow> bytes \<Rightarrow> bytes" where
  "rec_tag env iv ct = take 16 (HMAC_spec (m_key (env_key env)) (iv @ ct))"

definition rec_ok :: "db_env \<Rightarrow> bytes \<Rightarrow> db_dir_entry_t \<Rightarrow> bool" where
  "rec_ok env img e \<longleftrightarrow> m_len e = 0 \<or>
     (let off = unat (m_offset e); n = unat (m_len e) in
      if env_sealing env \<and> entry_sealed e
      then slice_at (off + 16 + n) 16 img = rec_tag env (slice_at off 16 img) (slice_at (off + 16) n img)
      else crc16Ccitt (slice_at off n img) = m_crc e)"

definition rec_data :: "db_env \<Rightarrow> bytes \<Rightarrow> db_dir_entry_t \<Rightarrow> bytes" where
  "rec_data env img e =
     (let off = unat (m_offset e); n = unat (m_len e) in
      if n = 0 then []
      else if env_sealing env \<and> entry_sealed e
      then snd (AES_CTR_xcrypt_buffer (AES_init_ctx_iv (m_key (env_key env)) (slice_at off 16 img))
             (slice_at (off + 16) n img))
      else slice_at off n img)"

text \<open>The nonce and the ciphertext the next sealed write lays down.\<close>

definition seal_iv :: "db_env \<Rightarrow> 's DbLayout \<Rightarrow> bytes" where
  "seal_iv env L = random_block (\<lambda>k. env_random env (m_draws L + k))"

definition seal_ct :: "db_env \<Rightarrow> 's DbLayout \<Rightarrow> bytes \<Rightarrow> bytes" where
  "seal_ct env L buf = snd (AES_CTR_xcrypt_buffer (AES_init_ctx_iv (m_key (env_key env)) (seal_iv env L)) buf)"

definition lookup :: "db_env \<Rightarrow> bytes \<Rightarrow> 's DbLayout \<Rightarrow> u16 \<Rightarrow> (bytes \<times> u16) option" where
  "lookup env img L ident =
     map_option (\<lambda>i. (rec_data env img (m_directory L ! i), m_version (m_directory L ! i))) (find_entry L ident)"

definition db_ok :: "db_env \<Rightarrow> bytes \<Rightarrow> 's DbLayout \<Rightarrow> bool" where
  "db_ok env img L \<longleftrightarrow> m_mounted L \<and> geometry env (length img) L \<and> framed img L \<and>
     (\<forall>i < m_entries L. rec_ok env img (m_directory L ! i))"

lemma lookup_simps [simp]:
  "lookup env img (L\<lparr>m_store := s\<rparr>) = lookup env img L" "lookup env img (L\<lparr>m_draws := n\<rparr>) = lookup env img L"
  by (simp_all add: lookup_def find_entry_def fun_eq_iff)

lemma db_ok_simps [simp]:
  "db_ok env img (L\<lparr>m_store := s\<rparr>) = db_ok env img L" "db_ok env img (L\<lparr>m_draws := n\<rparr>) = db_ok env img L"
  by (simp_all add: db_ok_def)

section \<open>Framing\<close>

text \<open>Two images that agree from \<open>a\<close> up to \<open>b\<close>.\<close>

definition same_on :: "nat \<Rightarrow> nat \<Rightarrow> bytes \<Rightarrow> bytes \<Rightarrow> bool" where
  "same_on a b xs ys \<longleftrightarrow> length xs = length ys \<and> (\<forall>n. a \<le> n \<and> n < b \<longrightarrow> xs ! n = ys ! n)"

lemma same_on_slice:
  "same_on a b xs ys \<Longrightarrow> a \<le> off \<Longrightarrow> off + n \<le> b \<Longrightarrow> b \<le> length xs \<Longrightarrow> slice_at off n xs = slice_at off n ys"
  by (rule nth_equalityI) (auto simp: same_on_def nth_slice_at)

lemma same_on_splice:
  "off + length bs \<le> length xs \<Longrightarrow> b \<le> off \<or> off + length bs \<le> a \<Longrightarrow> b \<le> length xs \<Longrightarrow>
     same_on a b (splice_at off bs xs) xs"
  by (auto simp: same_on_def nth_splice_at)

lemma same_on_trans: "same_on a b xs ys \<Longrightarrow> same_on a b ys zs \<Longrightarrow> same_on a b xs zs"
  by (auto simp: same_on_def)

lemma rec_same:
  assumes "entry_fits env (length img) e"
    and "same_on (unat (m_offset e)) (unat (m_offset e) + unat (m_cap e)) img img'"
  shows "rec_ok env img' e = rec_ok env img e \<and> rec_data env img' e = rec_data env img e"
proof (cases "m_len e = 0")
  case True
  then show ?thesis
    by (simp add: rec_ok_def rec_data_def)
next
  case False
  let ?off = "unat (m_offset e)" and ?n = "unat (m_len e)"
  have fit: "?off + unat (m_cap e) \<le> length img" "?n + overhead e \<le> unat (m_cap e)"
    using assms(1) False by (simp_all add: entry_fits_def)
  note sl = same_on_slice [OF assms(2) _ _ fit(1)]
  show ?thesis
  proof (cases "entry_sealed e")
    case True
    then have "slice_at ?off 16 img = slice_at ?off 16 img'"
        "slice_at (?off + 16) ?n img = slice_at (?off + 16) ?n img'"
        "slice_at (?off + 16 + ?n) 16 img = slice_at (?off + 16 + ?n) 16 img'"
        "slice_at ?off ?n img = slice_at ?off ?n img'"
      using fit(2) by (auto intro!: sl simp: overhead_def)
    then show ?thesis
      by (simp only: rec_ok_def rec_data_def Let_def)
  next
    case False
    then have "slice_at ?off ?n img = slice_at ?off ?n img'"
      using fit(2) by (auto intro!: sl)
    with False show ?thesis
      by (simp add: rec_ok_def rec_data_def Let_def)
  qed
qed

lemma framed_same:
  assumes "framed img L" "same_on 0 (DB_PAYLOAD_START env) img img'" "m_entries L \<le> MAX_TABLES env"
    and "DB_PAYLOAD_START env \<le> length img"
  shows "framed img' L"
proof -
  have "slice_at 5 12 img = slice_at 5 12 img'"
    using assms by (intro same_on_slice [OF assms(2)]) (auto simp: db_consts)
  moreover have "slice_at (17 + i * 13) 13 img = slice_at (17 + i * 13) 13 img'" if "i < m_entries L" for i
    using assms that by (intro same_on_slice [OF assms(2)]) (auto simp: db_consts)
  ultimately show ?thesis
    using assms(1) by (simp add: framed_def)
qed

section \<open>One record changes\<close>

text \<open>
  The shape of every update: the image changes inside slot \<open>i\<close> only, the entry is
  replaced by one that describes what the slot now holds, and then the entry's bytes on the
  medium are replaced.
\<close>

text \<open>Writing entry \<open>i\<close> brings the frame in step with the directory in RAM.\<close>

lemma framed_entry_written:
  assumes fr: "framed img L" and i: "i < m_entries L" and n: "m_entries L \<le> MAX_TABLES env" "length (m_directory L) = MAX_TABLES env"
    and len: "DB_PAYLOAD_START env \<le> length img"
  shows "framed (splice_at (17 + i * 13) (db_put_entry e) img) (L\<lparr>m_directory := (m_directory L)[i := e]\<rparr>)"
proof -
  let ?img = "splice_at (17 + i * 13) (db_put_entry e) img"
  have dir: "17 + i * 13 + 13 \<le> length img"
    using i n len by (simp add: db_consts)
  have "slice_at 5 12 ?img = slice_at 5 12 img"
    using dir by (intro slice_at_splice_disjoint) auto
  moreover have "slice_at (17 + j * 13) 13 ?img = (if j = i then db_put_entry e else slice_at (17 + j * 13) 13 img)"
    if "j < m_entries L" for j
  proof (cases "j = i")
    case True
    then show ?thesis
      using dir slice_at_splice_same [of "17 + i * 13" "db_put_entry e" img] by simp
  next
    case False
    then have "j * 13 + 13 \<le> i * 13 \<or> i * 13 + 13 \<le> j * 13"
      by (cases "j < i") (auto dest: Suc_leI)
    moreover have "17 + j * 13 + 13 \<le> length img"
      using that n len by (simp add: db_consts)
    ultimately show ?thesis
      using False dir by (auto intro!: slice_at_splice_disjoint)
  qed
  ultimately show ?thesis
    using fr i n by (auto simp: framed_def nth_list_update)
qed

text \<open>An entry replaced under its own id changes the map there only.\<close>

lemma lookup_entry_replaced:
  assumes geo: "geometry env sz L" and i: "i < m_entries L" and e: "m_id e = m_id (m_directory L ! i)"
    and other: "\<And>j. j < m_entries L \<Longrightarrow> j \<noteq> i \<Longrightarrow> rec_data env img' (m_directory L ! j) = rec_data env img (m_directory L ! j)"
  shows "lookup env img' (L\<lparr>m_directory := (m_directory L)[i := e]\<rparr>) = (lookup env img L)(m_id e \<mapsto> (rec_data env img' e, m_version e))"
proof
  fix ident
  let ?L = "L\<lparr>m_directory := (m_directory L)[i := e]\<rparr>"
  have n: "m_entries L \<le> length (m_directory L)"
    using geo by (simp add: geometry_def)
  have find: "find_entry ?L ident = find_entry L ident"
    using e i n unfolding find_entry_def by (intro find_cong) (auto simp: nth_list_update)
  show "lookup env img' ?L ident = ((lookup env img L)(m_id e \<mapsto> (rec_data env img' e, m_version e))) ident"
  proof (cases "find_entry L ident")
    case None
    then have "ident \<noteq> m_id e"
      using i e by (auto simp: find_entry_None)
    with None find show ?thesis
      by (simp add: lookup_def)
  next
    case (Some j)
    with find_entry_Some [OF Some] find_entry_id [OF geo i] other [of j] i n find e
    show ?thesis
      by (cases "j = i") (auto simp: lookup_def nth_list_update)
  qed
qed

lemma record_update:
  assumes ok: "db_ok env img L" and i: "i < m_entries L"
    and len: "length img1 = length img"
    and out: "\<And>a b. b \<le> unat (m_offset (m_directory L ! i)) \<or>
        unat (m_offset (m_directory L ! i)) + unat (m_cap (m_directory L ! i)) \<le> a \<Longrightarrow> b \<le> length img
        \<Longrightarrow> same_on a b img img1"
    and e: "m_id e = m_id (m_directory L ! i)" "m_offset e = m_offset (m_directory L ! i)"
      "m_cap e = m_cap (m_directory L ! i)" "entry_fits env (length img) e" "rec_ok env img1 e"
    and img2: "img2 = splice_at (17 + i * 13) (db_put_entry e) img1"
    and L': "L' = L\<lparr>m_directory := (m_directory L)[i := e]\<rparr>"
  shows "db_ok env img2 L'"
    and "lookup env img2 L' = (lookup env img L)(m_id e \<mapsto> (rec_data env img1 e, m_version e))"
proof -
  have geo: "geometry env (length img) L" and fr: "framed img L" and mounted: "m_mounted L"
    and recs: "\<And>j. j < m_entries L \<Longrightarrow> rec_ok env img (m_directory L ! j)"
    using ok by (simp_all add: db_ok_def)
  have n: "m_entries L \<le> MAX_TABLES env" "DB_PAYLOAD_START env \<le> length img" "length (m_directory L) = MAX_TABLES env"
    using geo by (simp_all add: geometry_def)
  have dir: "17 + i * 13 + 13 \<le> DB_PAYLOAD_START env"
    using i n by (simp add: db_consts)
  have len2: "length img2 = length img"
    using dir n len by (simp add: img2)
  have geo': "geometry env (length img2) L'"
    using geometry_update [OF geo i e(4,1,2,3)] len2 L' by simp
  have same2: "same_on a b img1 img2" if "DB_PAYLOAD_START env \<le> a" "b \<le> length img" for a b
    using that dir n len unfolding img2 same_on_def by (auto simp: nth_splice_at)
  have frame_img: "framed img1 L"
    using framed_same [OF fr _ n(1,2)] out [of "DB_PAYLOAD_START env" 0] geometry_entry [OF geo i] n
    by (simp add: entry_fits_def)
  have fr': "framed img2 L'"
    using framed_entry_written [OF frame_img i n(1,3)] n(2) len by (simp add: img2 L')
  have other: "rec_ok env img2 (m_directory L ! j) \<and> rec_data env img2 (m_directory L ! j) = rec_data env img (m_directory L ! j)"
    if "j < m_entries L" "j \<noteq> i" for j
  proof -
    note fit = geometry_entry [OF geo that(1)]
    have "same_on (unat (m_offset (m_directory L ! j))) (unat (m_offset (m_directory L ! j)) + unat (m_cap (m_directory L ! j))) img img1"
      using geometry_disjoint [OF geo that(1) i that(2)] fit by (intro out) (auto simp: entry_fits_def)
    with same2 have "same_on (unat (m_offset (m_directory L ! j))) (unat (m_offset (m_directory L ! j)) + unat (m_cap (m_directory L ! j))) img img2"
      using fit by (auto intro: same_on_trans simp: entry_fits_def)
    from rec_same [OF fit this] recs [OF that(1)] show ?thesis
      by simp
  qed
  have this_rec: "rec_ok env img2 e \<and> rec_data env img2 e = rec_data env img1 e"
    using rec_same [of env img1 e img2] e(4,5) len same2 [of "unat (m_offset e)"] by (simp add: entry_fits_def)
  show "db_ok env img2 L'"
    using mounted geo' fr' other this_rec i n by (auto simp: db_ok_def L' nth_list_update)
  show "lookup env img2 L' = (lookup env img L)(m_id e \<mapsto> (rec_data env img1 e, m_version e))"
    using lookup_entry_replaced [OF geo i e(1), of img2 img] other this_rec by (simp add: L')
qed

section \<open>The operations\<close>

lemma xcrypt_take: "snd (AES_CTR_xcrypt_buffer aes (take n xs)) = take n (snd (AES_CTR_xcrypt_buffer aes xs))"
proof -
  have "fst (ctr_loop (RoundKey aes) (Iv aes) [] 16 xs)
      = fst (ctr_loop (RoundKey aes) (Iv aes) [] 16 (take n xs @ drop n xs))"
    by simp
  also have "\<dots> = fst (ctr_loop (RoundKey aes) (Iv aes) [] 16 (take n xs)) @ (fst (case ctr_loop (RoundKey aes) (Iv aes) [] 16 (take n xs) of
      (_, iv, b, bi) \<Rightarrow> ctr_loop (RoundKey aes) iv b bi (drop n xs)))"
    by (simp only: ctr_loop_append) (simp add: split_beta)
  finally show ?thesis
    by (simp add: AES_CTR_xcrypt_buffer_def split_beta min_def)
qed

lemma slice_take: "take k (slice_at off n xs) = slice_at off (min k n) xs"
  by (simp add: slice_at_def min.commute)

text \<open>A record laid into its slot is the record an entry of that length describes.\<close>

lemma unat_buf: "length buf + overhead e \<le> unat (m_cap e) \<Longrightarrow> unat (of_nat (length buf) :: u16) = length buf"
proof -
  have "unat (m_cap e) < 2 ^ 16"
    using unsigned_less [of "m_cap e"] by simp
  then show "length buf + overhead e \<le> unat (m_cap e) \<Longrightarrow> unat (of_nat (length buf) :: u16) = length buf"
    by (simp add: unat_of_nat)
qed

lemma plain_laid:
  assumes "length buf \<le> unat (m_cap e)" "unat (m_offset e) + unat (m_cap e) \<le> length xs" "\<not> entry_sealed e"
    and "m_len e = of_nat (length buf)" "m_crc e = crc16Ccitt buf"
  shows "rec_ok env (splice_at (unat (m_offset e)) buf xs) e \<and> rec_data env (splice_at (unat (m_offset e)) buf xs) e = buf"
proof -
  have "unat (m_len e) = length buf"
    using unat_buf [of buf e] assms by (simp add: overhead_def)
  then show ?thesis
    using assms slice_at_splice_same [of "unat (m_offset e)" buf xs] by (auto simp: rec_ok_def rec_data_def Let_def)
qed

lemma sealed_laid:
  assumes "length buf + 32 \<le> unat (m_cap e)" "unat (m_offset e) + unat (m_cap e) \<le> length xs" "entry_sealed e"
    and "env_sealing env" "m_len e = of_nat (length buf)" "length iv = 16"
    and "ct = snd (AES_CTR_xcrypt_buffer (AES_init_ctx_iv (m_key (env_key env)) iv) buf)"
    and "xs' = splice_at (unat (m_offset e)) (iv @ ct @ rec_tag env iv ct) xs"
  shows "rec_ok env xs' e \<and> rec_data env xs' e = buf"
proof -
  let ?off = "unat (m_offset e)"
  have n: "unat (m_len e) = length buf"
    using unat_buf [of buf e] assms by (simp add: overhead_def)
  have len: "length ct = length buf" "length (rec_tag env iv ct) = 16"
    by (simp_all add: assms(7) rec_tag_def)
  then have whole: "slice_at ?off (16 + (length buf + 16)) xs' = iv @ ct @ rec_tag env iv ct"
    using slice_at_splice_same [of ?off "iv @ ct @ rec_tag env iv ct" xs] assms(1,2,6,8) by simp
  have lxs: "?off + (16 + (length buf + 16)) \<le> length xs'"
    using assms(1,2,6,8) len by simp
  have parts: "slice_at ?off 16 xs' = iv" "slice_at (?off + 16) (length buf) xs' = ct"
    "slice_at (?off + 16 + length buf) 16 xs' = rec_tag env iv ct"
    using whole slice_at_split [of ?off 16 "length buf + 16" xs']
      slice_at_split [of "?off + 16" "length buf" 16 xs'] lxs assms(6) len
    by (auto simp: append_eq_append_conv add.assoc)
  have "AES_CTR_xcrypt_buffer (AES_init_ctx_iv (m_key (env_key env)) iv) buf
      = (fst (AES_CTR_xcrypt_buffer (AES_init_ctx_iv (m_key (env_key env)) iv) buf), ct)"
    by (simp add: assms(7))
  from xcrypt_twice [OF this]
  have "snd (AES_CTR_xcrypt_buffer (AES_init_ctx_iv (m_key (env_key env)) iv) ct) = buf"
    by simp
  with parts n assms(3,4) show ?thesis
    by (auto simp: rec_ok_def rec_data_def Let_def)
qed

text \<open>What the updates below keep: which slots there are.\<close>

definition slots :: "'s DbLayout \<Rightarrow> (u16 \<times> u16 \<times> u8) list" where
  "slots L = map (\<lambda>e. (m_id e, m_cap e, m_flags e)) (entries_of L)"

lemma slots_update:
  assumes "geometry env sz L" "i < m_entries L" "m_id e = m_id (m_directory L ! i)"
    "m_cap e = m_cap (m_directory L ! i)" "m_flags e = m_flags (m_directory L ! i)"
  shows "slots (L\<lparr>m_directory := (m_directory L)[i := e]\<rparr>) = slots L"
proof -
  have "entries_of (L\<lparr>m_directory := (m_directory L)[i := e]\<rparr>) = (entries_of L)[i := e]"
    by (simp add: entries_of_def take_update_swap)
  moreover have "i < length (entries_of L)" "m_directory L ! i = entries_of L ! i"
    using assms(1,2) by (auto simp: geometry_def entries_of_def)
  ultimately show ?thesis
    using assms(3-5) by (simp add: slots_def map_update list_update_same_conv)
qed

lemma slots_simps [simp]: "slots (L\<lparr>m_store := s\<rparr>) = slots L" "slots (L\<lparr>m_draws := n\<rparr>) = slots L"
  by (simp_all add: slots_def)

context db_store
begin

lemma put_back_ok:
  assumes "m_store L = Some s" "inv s" "17 + i * 13 + 13 \<le> length (img s)"
  obtains s' where "put_back ops L i = (PDI_OK, L\<lparr>m_store := Some s'\<rparr>)" "inv s'"
    "img s' = splice_at (17 + i * 13) (db_put_entry (m_directory L ! i)) (img s)" "media s' = img s'"
proof -
  obtain s1 where 1: "dl_write ops L (17 + i * 13) (db_put_entry (m_directory L ! i)) = (True, L\<lparr>m_store := Some s1\<rparr>)"
      "inv s1" "img s1 = splice_at (17 + i * 13) (db_put_entry (m_directory L ! i)) (img s)"
    using dl_write_in [OF assms(1,2), of "17 + i * 13" "db_put_entry (m_directory L ! i)"] assms(3) by auto
  obtain s2 where 2: "dl_flush ops (L\<lparr>m_store := Some s1\<rparr>) = (PDI_OK, L\<lparr>m_store := Some s2\<rparr>)"
      "inv s2" "img s2 = img s1" "media s2 = img s1"
    using dl_flush_ok [of "L\<lparr>m_store := Some s1\<rparr>" s1] 1(2) by auto
  show ?thesis
    using 1 2 that [of s2] by (simp add: put_back_def write_entry_def db_consts)
qed

lemma verify_sealed_ok:
  assumes "m_store L = Some s" "inv s" "env_ok env" "env_sealing env"
    and "unat (m_offset e) + 16 + unat (m_len e) \<le> length (img s)"
  shows "verify_sealed ops env L e expected =
    (if rec_tag env (slice_at (unat (m_offset e)) 16 (img s)) (slice_at (unat (m_offset e) + 16) (unat (m_len e)) (img s)) = expected
     then PDI_OK else PDI_ERR_CRC)"
proof -
  have "(ucast (m_offset e) :: u32) = of_nat (unat (m_offset e))"
    by (simp add: unat_ucast_up)
  then have iv: "st_read ops s (ucast (m_offset e)) (replicate 16 0) = (True, slice_at (unat (m_offset e)) 16 (img s))"
    using read_at [OF assms(2), of "unat (m_offset e)" 16] assms(5) by simp
  have key: "m_ready (env_key env)" "length (sh_data (env_stack env)) = 64"
    using assms(3,4) by (simp_all add: env_ok_def)
  show ?thesis
    using iv key assms(1,5) verify_sealed_loop_ok [OF assms(2), of "unat (m_offset e) + 16" "unat (m_len e)"]
      hmac_sha256_streaming [of "env_stack env" scratch_mac "m_key (env_key env)"
        "slice_at (unat (m_offset e)) 16 (img s) @ slice_at (unat (m_offset e) + 16) (unat (m_len e)) (img s)"]
    by (simp add: verify_sealed_def db_consts rec_tag_def scratch_mac_def)
qed

lemma verify_plain_ok:
  assumes "m_store L = Some s" "inv s" "unat (m_offset e) + unat (m_len e) \<le> length (img s)"
  shows "verify_plain ops L e =
    (if crc16Ccitt (slice_at (unat (m_offset e)) (unat (m_len e)) (img s)) = m_crc e then PDI_OK else PDI_ERR_CRC)"
  using verify_plain_loop_ok [OF assms(2,3), of 0 "0xFFFF"] assms(1) by (simp add: verify_plain_def crc16Ccitt_def)

lemma entry_bounds:
  assumes "db_ok env (img s) L" "i < m_entries L"
  shows "unat (m_offset (m_directory L ! i)) + unat (m_cap (m_directory L ! i)) \<le> length (img s)"
    and "m_len (m_directory L ! i) \<noteq> 0 \<Longrightarrow>
      unat (m_len (m_directory L ! i)) + overhead (m_directory L ! i) \<le> unat (m_cap (m_directory L ! i))"
  using geometry_entry [of env "length (img s)" L i] assms by (simp_all add: db_ok_def entry_fits_def)

text \<open>Whatever the image holds, verifying answers whether the record matches its checksum or tag.\<close>

lemma verify_record_answer:
  assumes "m_store L = Some s" "inv s" "geometry env (length (img s)) L" "m_mounted L" "env_ok env"
    and "find_entry L ident = Some i"
  shows "verify_record ops env L ident = (if rec_ok env (img s) (m_directory L ! i) then PDI_OK else PDI_ERR_CRC)"
proof (cases "m_len (m_directory L ! i) = 0")
  case True
  then show ?thesis
    using assms by (simp add: verify_record_def rec_ok_def)
next
  case False
  let ?e = "m_directory L ! i"
  have fit: "unat (m_offset ?e) + unat (m_cap ?e) \<le> length (img s)" "unat (m_len ?e) + overhead ?e \<le> unat (m_cap ?e)"
    using geometry_entry [OF assms(3), of i] find_entry_Some [OF assms(6)] False by (simp_all add: entry_fits_def)
  show ?thesis
  proof (cases "env_sealing env \<and> entry_sealed ?e")
    case True
    then have "st_read ops s (of_nat (unat (m_offset ?e) + 16 + unat (m_len ?e))) (replicate 16 0)
        = (True, slice_at (unat (m_offset ?e) + 16 + unat (m_len ?e)) 16 (img s))"
      using read_at [OF assms(2), of "unat (m_offset ?e) + 16 + unat (m_len ?e)" 16] fit by (simp add: overhead_def)
    then show ?thesis
      using True False assms fit verify_sealed_ok [OF assms(1,2,5), of ?e]
      by (auto simp: verify_record_def rec_ok_def db_consts env_ok_def Let_def overhead_def)
  next
    case False
    then show ?thesis
      using \<open>m_len ?e \<noteq> 0\<close> assms fit verify_plain_ok [OF assms(1,2), of ?e]
      by (auto simp: verify_record_def rec_ok_def Let_def)
  qed
qed

text \<open>What a read hands over for a record \<open>d\<close> of version \<open>v\<close>.\<close>

lemma read_record_intact:
  assumes "m_store L = Some s" "inv s" and geo: "geometry env (length (img s)) L" and mounted: "m_mounted L"
    and env: "env_ok env" and find: "find_entry L ident = Some i" and rok: "rec_ok env (img s) (m_directory L ! i)"
  shows "read_record ops env L ident buf =
    (let d = rec_data env (img s) (m_directory L ! i)
     in (PDI_OK, take (length buf) d @ drop (length d) buf, min (length d) (length buf), m_version (m_directory L ! i)))"
proof (cases "m_len (m_directory L ! i) = 0")
  case True
  then show ?thesis
    using mounted find by (simp add: read_record_def rec_data_def)
next
  case False
  let ?e = "m_directory L ! i"
  let ?off = "unat (m_offset ?e)" and ?n = "unat (m_len ?e)" and ?k = "min (unat (m_len ?e)) (length buf)"
  have fit: "unat (m_offset ?e) + unat (m_cap ?e) \<le> length (img s)" "unat (m_len ?e) + overhead ?e \<le> unat (m_cap ?e)"
    using geometry_entry [OF geo, of i] find_entry_Some [OF find] False by (simp_all add: entry_fits_def)
  have n: "?n \<noteq> 0"
    using False by (simp add: unat_eq_0)
  have off: "(ucast (m_offset ?e) :: u32) = of_nat ?off"
    by (simp add: unat_ucast_up)
  show ?thesis
  proof (cases "env_sealing env \<and> entry_sealed ?e")
    case True
    have bounds: "?off + 16 + ?n + 16 \<le> length (img s)"
      using fit True by (simp add: overhead_def)
    have "st_read ops s (of_nat (?off + 16 + ?n)) (replicate 16 0) = (True, slice_at (?off + 16 + ?n) 16 (img s))"
      "st_read ops s (of_nat ?off) (replicate 16 0) = (True, slice_at ?off 16 (img s))"
      using read_at [OF assms(2), of "?off + 16 + ?n" 16] read_at [OF assms(2), of ?off 16] bounds by simp_all
    moreover have "st_read ops s (of_nat (?off + 16)) (take ?k buf) = (True, slice_at (?off + 16) ?k (img s))"
      using read_in [OF assms(2), of "of_nat (?off + 16)" "take ?k buf"] unat_offset [OF assms(2), of "?off + 16"] bounds
      by (simp add: min_def)
    moreover have "slice_at (?off + 16) ?k (img s) = take (length buf) (slice_at (?off + 16) ?n (img s))"
      by (simp add: slice_take min.commute)
    moreover have "length (slice_at (?off + 16) ?n (img s)) = ?n"
      using bounds by simp
    ultimately show ?thesis
      using True False n mounted assms rok verify_sealed_ok [OF assms(1,2) env, of ?e] bounds
      by (auto simp: read_record_def unseal_record_def rec_ok_def rec_data_def Let_def db_consts env_ok_def xcrypt_take min_def)
  next
    case False
    have bounds: "?off + ?n \<le> length (img s)"
      using fit by simp
    have "st_read ops s (ucast (m_offset ?e)) (take ?k buf) = (True, slice_at ?off ?k (img s))"
      using read_in [OF assms(2), of "ucast (m_offset ?e)" "take ?k buf"] bounds by (simp add: min_def)
    moreover have "slice_at ?off ?k (img s) = take (length buf) (slice_at ?off ?n (img s))"
      by (simp add: slice_take min.commute)
    ultimately show ?thesis
      using False n mounted assms rok verify_plain_ok [OF assms(1,2), of ?e] bounds \<open>m_len ?e \<noteq> 0\<close>
      by (auto simp: read_record_def rec_ok_def rec_data_def Let_def min_def)
  qed
qed

text \<open>A record that does not match its checksum or tag is never handed over.\<close>

lemma read_record_damaged:
  assumes "m_store L = Some s" "inv s" and geo: "geometry env (length (img s)) L" and mounted: "m_mounted L"
    and env: "env_ok env" and find: "find_entry L ident = Some i" and bad: "\<not> rec_ok env (img s) (m_directory L ! i)"
  shows "read_record ops env L ident buf = (PDI_ERR_CRC, buf, 0, 0)"
proof -
  let ?e = "m_directory L ! i"
  let ?off = "unat (m_offset ?e)" and ?n = "unat (m_len ?e)"
  have e: "m_len ?e \<noteq> 0"
    using bad by (auto simp: rec_ok_def)
  have fit: "?off + unat (m_cap ?e) \<le> length (img s)" "?n + overhead ?e \<le> unat (m_cap ?e)"
    using geometry_entry [OF geo, of i] find_entry_Some [OF find] e by (simp_all add: entry_fits_def)
  show ?thesis
  proof (cases "env_sealing env \<and> entry_sealed ?e")
    case True
    then have bounds: "?off + 16 + ?n + 16 \<le> length (img s)"
      using fit by (simp add: overhead_def)
    then have "st_read ops s (of_nat (?off + 16 + ?n)) (replicate 16 0) = (True, slice_at (?off + 16 + ?n) 16 (img s))"
      using read_at [OF assms(2), of "?off + 16 + ?n" 16] by simp
    then show ?thesis
      using True e mounted find env bad assms(1) verify_sealed_ok [OF assms(1,2) env, of ?e] bounds
      by (auto simp: read_record_def unseal_record_def rec_ok_def Let_def db_consts env_ok_def)
  next
    case False
    then show ?thesis
      using e mounted find bad verify_plain_ok [OF assms(1,2), of ?e] fit
      by (auto simp: read_record_def rec_ok_def Let_def)
  qed
qed

lemma read_record_found:
  assumes "m_store L = Some s" "inv s" "db_ok env (img s) L" "env_ok env" "find_entry L ident = Some i"
  shows "read_record ops env L ident buf =
    (let d = rec_data env (img s) (m_directory L ! i)
     in (PDI_OK, take (length buf) d @ drop (length d) buf, min (length d) (length buf), m_version (m_directory L ! i)))"
  using read_record_intact [OF assms(1,2) _ _ assms(4,5)] assms(3) find_entry_Some [OF assms(5)] by (simp add: db_ok_def)

lemma seal_record_ok:
  assumes "m_store L = Some s" "inv s" "env_ok env" "env_sealing env"
    and "unat (m_offset (m_directory L ! i)) + 32 + length buf \<le> length (img s)"
  shows "\<exists>s'. seal_record ops env L i buf = (PDI_OK, L\<lparr>m_store := Some s', m_draws := m_draws L + 4,
      m_directory := (m_directory L)[i := (m_directory L ! i)\<lparr>m_len := of_nat (length buf), m_crc := 0\<rparr>]\<rparr>)
    \<and> inv s' \<and> img s' = splice_at (unat (m_offset (m_directory L ! i)))
        (seal_iv env L @ seal_ct env L buf @ rec_tag env (seal_iv env L) (seal_ct env L buf)) (img s)"
proof -
  let ?off = "unat (m_offset (m_directory L ! i))" and ?key = "m_key (env_key env)"
  let ?L1 = "L\<lparr>m_draws := m_draws L + 4\<rparr>" and ?iv = "seal_iv env L" and ?ct = "seal_ct env L buf"
  let ?mac = "hmac_sha256_update (hmac_sha256_init (env_stack env) scratch_mac ?key) ?iv"
  have len: "length ?iv = 16" "length ?ct = length buf" "length (rec_tag env ?iv ?ct) = 16"
    by (simp_all add: seal_iv_def seal_ct_def DB_KEY_BYTES_def rec_tag_def)
  obtain s1 where 1: "dl_write ops ?L1 ?off ?iv = (True, ?L1\<lparr>m_store := Some s1\<rparr>)" "inv s1"
      "img s1 = splice_at ?off ?iv (img s)"
    using dl_write_in [of ?L1 s ?off ?iv] assms len by auto
  obtain s2 where 2: "seal_loop ops s1 (?off + 16) (AES_init_ctx_iv ?key ?iv) ?mac buf
        = (True, s2, hmac_sha256_update ?mac ?ct)" "inv s2"
      "img s2 = splice_at (?off + 16) ?ct (img s1)"
    using seal_loop_ok [of s1 "?off + 16" buf "AES_init_ctx_iv ?key ?iv" ?mac] 1 assms(5) len
    by (auto simp: seal_ct_def)
  have tag: "take 16 (hmac_sha256_final (env_stack env) (hmac_sha256_update ?mac ?ct)) = rec_tag env ?iv ?ct"
    using hmac_sha256_streaming [of "env_stack env" scratch_mac ?key "?iv @ ?ct"] assms(3)
    by (simp add: rec_tag_def env_ok_def scratch_mac_def)
  obtain s3 where 3: "dl_write ops (?L1\<lparr>m_store := Some s2\<rparr>) (?off + 16 + length buf) (rec_tag env ?iv ?ct)
        = (True, ?L1\<lparr>m_store := Some s3\<rparr>)" "inv s3"
      "img s3 = splice_at (?off + 16 + length buf) (rec_tag env ?iv ?ct) (img s2)"
    using dl_write_in [of "?L1\<lparr>m_store := Some s2\<rparr>" s2 "?off + 16 + length buf" "rec_tag env ?iv ?ct"] 1 2 assms(5) len
    by auto
  have "img s3 = splice_at ?off (?iv @ ?ct @ rec_tag env ?iv ?ct) (img s)"
    using splice_at_append [of ?off ?iv ?ct "img s"]
      splice_at_append [of ?off "?iv @ ?ct" "rec_tag env ?iv ?ct" "img s"] 1 2 3 len assms(5)
    by (simp add: add.assoc)
  moreover have "seal_record ops env L i buf = (PDI_OK, L\<lparr>m_store := Some s3, m_draws := m_draws L + 4,
      m_directory := (m_directory L)[i := (m_directory L ! i)\<lparr>m_len := of_nat (length buf), m_crc := 0\<rparr>]\<rparr>)"
    using 1 2 3 tag assms(3,4) by (simp add: seal_record_def Let_def db_consts env_ok_def flip: seal_iv_def)
  ultimately show ?thesis
    using 3 by blast
qed

text \<open>
  The effect of an update on the map: one id gets a new record, the medium is brought up to
  date, and the slots stay where they are.
\<close>

definition updates :: "db_env \<Rightarrow> 's \<Rightarrow> 's DbLayout \<Rightarrow> u16 \<Rightarrow> bytes \<times> u16 \<Rightarrow> 's DbLayout \<Rightarrow> bool" where
  "updates env s L ident r L' \<longleftrightarrow>
     (\<exists>s'. m_store L' = Some s' \<and> inv s' \<and> db_ok env (img s') L' \<and> media s' = img s'
        \<and> length (img s') = length (img s) \<and> slots L' = slots L
        \<and> lookup env (img s') L' = (lookup env (img s) L)(ident \<mapsto> r))"

text \<open>
  The common end of writing and clearing: with the slot's new contents staged in \<open>s1\<close>
  and the new entry in RAM, the entry goes to the medium and the store is flushed.
\<close>

lemma finish_update:
  assumes ok: "db_ok env (img s) L" and i: "i < m_entries L" and s1: "inv s1" "length (img s1) = length (img s)"
    and out: "\<And>a b. b \<le> unat (m_offset (m_directory L ! i)) \<or>
        unat (m_offset (m_directory L ! i)) + unat (m_cap (m_directory L ! i)) \<le> a \<Longrightarrow> b \<le> length (img s)
        \<Longrightarrow> same_on a b (img s) (img s1)"
    and e: "m_id e = m_id (m_directory L ! i)" "m_offset e = m_offset (m_directory L ! i)"
      "m_cap e = m_cap (m_directory L ! i)" "m_flags e = m_flags (m_directory L ! i)"
      "entry_fits env (length (img s)) e" "rec_ok env (img s1) e"
  shows "\<exists>L'. put_back ops (L\<lparr>m_store := Some s1, m_draws := d, m_directory := (m_directory L)[i := e]\<rparr>) i = (PDI_OK, L')
    \<and> updates env s L (m_id e) (rec_data env (img s1) e, m_version e) L'"
proof -
  let ?L1 = "L\<lparr>m_store := Some s1, m_draws := d, m_directory := (m_directory L)[i := e]\<rparr>"
  have geo: "geometry env (length (img s)) L" and n: "i < length (m_directory L)"
    and dir: "17 + i * 13 + 13 \<le> length (img s1)"
    using ok i s1(2) by (auto simp: db_ok_def geometry_def db_consts)
  obtain s' where 2: "put_back ops ?L1 i = (PDI_OK, ?L1\<lparr>m_store := Some s'\<rparr>)" "inv s'"
      "img s' = splice_at (17 + i * 13) (db_put_entry e) (img s1)" "media s' = img s'"
    using put_back_ok [of ?L1 s1 i] s1 dir n by auto
  let ?L = "L\<lparr>m_directory := (m_directory L)[i := e]\<rparr>"
  note upd = record_update [OF ok i s1(2) out e(1,2,3,5,6) 2(3) refl]
  have eq: "?L1\<lparr>m_store := Some s'\<rparr> = ?L\<lparr>m_store := Some s', m_draws := d\<rparr>"
    by simp
  have "updates env s L (m_id e) (rec_data env (img s1) e, m_version e) (?L1\<lparr>m_store := Some s'\<rparr>)"
    using upd slots_update [OF geo i e(1,3,4)] 2 dir s1(2) unfolding eq updates_def
    by (intro exI [of _ s']) simp
  with 2(1) show ?thesis
    by blast
qed

lemma splice_outside:
  assumes "off + length bs \<le> off + cap" "off + cap \<le> length xs" "b \<le> off \<or> off + cap \<le> a" "b \<le> length xs"
  shows "same_on a b xs (splice_at off bs xs)"
  using assms by (auto simp: same_on_def nth_splice_at)

lemma write_plain:
  assumes L: "m_store L = Some s" "inv s" and ok: "db_ok env (img s) L" and i: "i < m_entries L"
    and fits: "length buf \<le> unat (m_cap (m_directory L ! i))" and plain: "\<not> entry_sealed (m_directory L ! i)"
  shows "\<exists>s1 L'. dl_write ops L (unat (m_offset (m_directory L ! i))) buf = (True, L\<lparr>m_store := Some s1\<rparr>) \<and>
    put_back ops (L\<lparr>m_store := Some s1, m_directory := (m_directory L)[i := (m_directory L ! i)
      \<lparr>m_len := of_nat (length buf), m_crc := crc16Ccitt buf, m_version := version\<rparr>]\<rparr>) i = (PDI_OK, L')
    \<and> updates env s L (m_id (m_directory L ! i)) (buf, version) L'"
proof -
  let ?e = "m_directory L ! i"
  let ?e' = "?e\<lparr>m_len := of_nat (length buf), m_crc := crc16Ccitt buf, m_version := version\<rparr>"
  have fit: "entry_fits env (length (img s)) ?e" and slot: "unat (m_offset ?e) + unat (m_cap ?e) \<le> length (img s)"
    using geometry_entry [OF _ i, of env "length (img s)"] ok by (auto simp: db_ok_def entry_fits_def)
  obtain s1 where s1: "dl_write ops L (unat (m_offset ?e)) buf = (True, L\<lparr>m_store := Some s1\<rparr>)" "inv s1"
      "img s1 = splice_at (unat (m_offset ?e)) buf (img s)"
    using dl_write_in [OF L, of "unat (m_offset ?e)" buf] fits slot by auto
  have laid: "rec_ok env (img s1) ?e' \<and> rec_data env (img s1) ?e' = buf"
    using plain_laid [of buf ?e' "img s" env] fits slot plain s1(3) by (simp add: entry_sealed_def)
  have "\<exists>L'. put_back ops (L\<lparr>m_store := Some s1, m_draws := m_draws L, m_directory := (m_directory L)[i := ?e']\<rparr>) i = (PDI_OK, L')
      \<and> updates env s L (m_id ?e') (rec_data env (img s1) ?e', m_version ?e') L'"
  proof (rule finish_update [OF ok i s1(2)])
    show "length (img s1) = length (img s)"
      using s1(3) fits slot by simp
    show "entry_fits env (length (img s)) ?e'"
      using fit fits plain unat_buf [of buf ?e] by (simp add: entry_fits_def overhead_def entry_sealed_def)
    show "same_on a b (img s) (img s1)" if "b \<le> unat (m_offset ?e) \<or> unat (m_offset ?e) + unat (m_cap ?e) \<le> a"
        "b \<le> length (img s)" for a b
      using s1(3) fits slot that by (auto intro!: splice_outside [where cap = "unat (m_cap ?e)"])
  qed (use laid in simp_all)
  then show ?thesis
    using s1(1) laid by auto
qed

lemma write_sealed:
  assumes L: "m_store L = Some s" "inv s" and ok: "db_ok env (img s) L" and env: "env_ok env" and i: "i < m_entries L"
    and fits: "length buf + 32 \<le> unat (m_cap (m_directory L ! i))" and sealed: "entry_sealed (m_directory L ! i)"
  shows "\<exists>s1 L'. seal_record ops env L i buf = (PDI_OK, L\<lparr>m_store := Some s1, m_draws := m_draws L + 4,
      m_directory := (m_directory L)[i := (m_directory L ! i)\<lparr>m_len := of_nat (length buf), m_crc := 0\<rparr>]\<rparr>) \<and>
    put_back ops (L\<lparr>m_store := Some s1, m_draws := m_draws L + 4, m_directory := (m_directory L)[i := (m_directory L ! i)
      \<lparr>m_len := of_nat (length buf), m_crc := 0, m_version := version\<rparr>]\<rparr>) i = (PDI_OK, L')
    \<and> updates env s L (m_id (m_directory L ! i)) (buf, version) L'"
proof -
  let ?e = "m_directory L ! i"
  let ?e' = "?e\<lparr>m_len := of_nat (length buf), m_crc := 0, m_version := version\<rparr>"
  let ?bs = "seal_iv env L @ seal_ct env L buf @ rec_tag env (seal_iv env L) (seal_ct env L buf)"
  have fit: "entry_fits env (length (img s)) ?e" and slot: "unat (m_offset ?e) + unat (m_cap ?e) \<le> length (img s)"
    and seal: "env_sealing env"
    using geometry_entry [OF _ i, of env "length (img s)"] ok sealed by (auto simp: db_ok_def entry_fits_def)
  have room: "unat (m_offset ?e) + 32 + length buf \<le> length (img s)"
    using fits slot by simp
  obtain s1 where s1: "seal_record ops env L i buf = (PDI_OK, L\<lparr>m_store := Some s1, m_draws := m_draws L + 4,
        m_directory := (m_directory L)[i := ?e\<lparr>m_len := of_nat (length buf), m_crc := 0\<rparr>]\<rparr>)" "inv s1"
      "img s1 = splice_at (unat (m_offset ?e)) ?bs (img s)"
    using seal_record_ok [OF L env seal room] by blast
  have iv: "length (seal_iv env L) = 16"
    by (simp add: seal_iv_def DB_KEY_BYTES_def)
  have laid: "rec_ok env (img s1) ?e' \<and> rec_data env (img s1) ?e' = buf"
    by (rule sealed_laid [OF _ _ _ seal _ iv refl])
      (use fits slot sealed s1(3) in \<open>simp_all add: seal_ct_def entry_sealed_def\<close>)
  have lens: "length ?bs = 32 + length buf"
    using iv by (simp add: seal_ct_def rec_tag_def)
  have "\<exists>L'. put_back ops (L\<lparr>m_store := Some s1, m_draws := m_draws L + 4, m_directory := (m_directory L)[i := ?e']\<rparr>) i = (PDI_OK, L')
      \<and> updates env s L (m_id ?e') (rec_data env (img s1) ?e', m_version ?e') L'"
  proof (rule finish_update [OF ok i s1(2)])
    show "length (img s1) = length (img s)"
      using s1(3) lens room by simp
    show "entry_fits env (length (img s)) ?e'"
      using fit fits sealed unat_buf [of buf ?e] by (simp add: entry_fits_def overhead_def entry_sealed_def)
    show "same_on a b (img s) (img s1)" if "b \<le> unat (m_offset ?e) \<or> unat (m_offset ?e) + unat (m_cap ?e) \<le> a"
        "b \<le> length (img s)" for a b
      using s1(3) lens fits slot that by (auto intro!: splice_outside [where cap = "unat (m_cap ?e)"])
  qed (use laid in simp_all)
  then show ?thesis
    using s1(1) laid by auto
qed

lemma write_record_ok:
  assumes L: "m_store L = Some s" "inv s" and ok: "db_ok env (img s) L" and env: "env_ok env"
    and find: "find_entry L ident = Some i"
    and fits: "length buf + overhead (m_directory L ! i) \<le> unat (m_cap (m_directory L ! i))"
  shows "\<exists>L'. write_record ops env L ident buf version = (PDI_OK, L') \<and> updates env s L ident (buf, version) L'"
proof -
  have i: "i < m_entries L" and id: "m_id (m_directory L ! i) = ident" and mounted: "m_mounted L"
    and n: "i < length (m_directory L)" and seal: "entry_sealed (m_directory L ! i) \<Longrightarrow> env_sealing env"
    using find_entry_Some [OF find] ok geometry_entry [of env "length (img s)" L i]
    by (auto simp: db_ok_def geometry_def entry_fits_def)
  show ?thesis
  proof (cases "entry_sealed (m_directory L ! i)")
    case True
    then show ?thesis
      using write_sealed [OF L ok env i _ True, of buf version] seal mounted find fits id n
      by (auto simp: write_record_def Let_def db_consts overhead_def)
  next
    case False
    then show ?thesis
      using write_plain [OF L ok i _ False, of buf version] mounted find fits id n
      by (auto simp: write_record_def Let_def db_consts overhead_def)
  qed
qed

lemma clear_record_ok:
  assumes L: "m_store L = Some s" "inv s" and ok: "db_ok env (img s) L" and find: "find_entry L ident = Some i"
  shows "\<exists>L'. clear_record ops L ident = (PDI_OK, L')
    \<and> updates env s L ident ([], m_version (m_directory L ! i)) L'"
proof -
  let ?e = "(m_directory L ! i)\<lparr>m_len := 0, m_crc := 0\<rparr>"
  have i: "i < m_entries L" and id: "m_id (m_directory L ! i) = ident" and mounted: "m_mounted L"
    using find_entry_Some [OF find] ok by (auto simp: db_ok_def)
  have "\<exists>L'. put_back ops (L\<lparr>m_store := Some s, m_draws := m_draws L, m_directory := (m_directory L)[i := ?e]\<rparr>) i = (PDI_OK, L')
      \<and> updates env s L (m_id ?e) (rec_data env (img s) ?e, m_version ?e) L'"
    by (rule finish_update [OF ok i L(2)])
      (use geometry_entry [OF _ i, of env "length (img s)"] ok in
        \<open>simp_all add: db_ok_def entry_fits_def overhead_def entry_sealed_def rec_ok_def same_on_def\<close>)
  moreover have "L\<lparr>m_store := Some s, m_draws := m_draws L, m_directory := d\<rparr> = L\<lparr>m_directory := d\<rparr>" for d
    using L(1) by (cases L) simp
  ultimately show ?thesis
    using mounted find id by (simp add: clear_record_def rec_data_def)
qed

end

end
