(* ===== verification/DbMount.thy ===== *)
theory DbMount
  imports DbRecords
begin

text \<open>
  Mounting: reading a valid frame back, laying down a fresh one, and repacking the records when
  the registered tables no longer match the stored geometry.
\<close>

section \<open>Placement\<close>

text \<open>
  The slots \<open>format\<close> and \<open>repack\<close> hand out, with what each takes over from the
  old directory and where from.
\<close>

fun place :: "db_env \<Rightarrow> db_dir_entry_t list \<Rightarrow> u32 \<Rightarrow> struct_tables list \<Rightarrow> (db_dir_entry_t \<times> u16) list" where
  "place env old off [] = []"
| "place env old off (t # ts) =
     carry_over old (fresh_entry env t off) # place env old (off + ucast (db_slot_for env t)) ts"

definition slots_total :: "db_env \<Rightarrow> struct_tables list \<Rightarrow> nat" where
  "slots_total env ts = sum_list (map (\<lambda>t. unat (db_slot_for env t)) ts)"

text \<open>What the registry and the build's static assertions guarantee of the tables.\<close>

definition tables_ok :: "db_env \<Rightarrow> nat \<Rightarrow> struct_tables list \<Rightarrow> bool" where
  "tables_ok env sz ts \<longleftrightarrow> length ts \<le> MAX_TABLES env \<and> MAX_TABLES env \<le> 255 \<and> distinct (map m_table_id ts)
     \<and> DB_PAYLOAD_START env + slots_total env ts \<le> sz \<and> sz < 2 ^ 16"

lemma length_place [simp]: "length (place env old off ts) = length ts"
  by (induction env old off ts rule: place.induct) simp_all

lemma slots_total_simps [simp]:
  "slots_total env [] = 0" "slots_total env (t # ts) = unat (db_slot_for env t) + slots_total env ts"
  by (simp_all add: slots_total_def)

lemma place_advance:
  "unat off + (unat (db_slot_for env t) + n) < 2 ^ 16 \<Longrightarrow>
     unat (off + ucast (db_slot_for env t)) = unat off + unat (db_slot_for env t)" for off :: u32
  using unat_add_small [of off "unat (db_slot_for env t)"] by (simp add: unat_ucast_up)

lemma dir_extend:
  "n < length dir \<Longrightarrow> take (Suc n) (dir[n := x]) = take n dir @ [x]"
  "drop (Suc (n + k)) (dir[n := x]) = drop (Suc (n + k)) dir"
  by (simp_all add: take_Suc_conv_app_nth)

lemma repack_tables_ok:
  assumes "unat capacity < 2 ^ 16" "length dir = MAX_TABLES env"
  shows "n + length ts \<le> MAX_TABLES env \<Longrightarrow> unat off + slots_total env ts \<le> unat capacity \<Longrightarrow>
    repack_tables env capacity old ts off dir n frm =
      (PDI_OK, take n dir @ map fst (place env old off ts) @ drop (n + length ts) dir, n + length ts,
       frm @ map snd (place env old off ts))"
  using assms(2)
proof (induction ts arbitrary: off dir n frm)
  case (Cons t ts)
  let ?e = "fst (carry_over old (fresh_entry env t off))"
  have adv: "unat (off + ucast (db_slot_for env t)) = unat off + unat (db_slot_for env t)"
    using place_advance [of off env t "slots_total env ts"] Cons.prems(2) assms(1) by simp
  have "\<not> capacity < off + ucast (db_slot_for env t)"
    using Cons.prems(2) adv by (simp add: word_less_nat_alt)
  moreover have "n < length dir"
    using Cons.prems by simp
  ultimately show ?case
    using Cons.IH [of "Suc n" "off + ucast (db_slot_for env t)" "dir[n := ?e]"
        "frm @ [snd (carry_over old (fresh_entry env t off))]"] Cons.prems adv
    by (simp add: Let_def split_beta dir_extend)
qed simp

lemma format_tables_ok:
  assumes "unat capacity < 2 ^ 16" "length dir = MAX_TABLES env"
  shows "n + length ts \<le> MAX_TABLES env \<Longrightarrow> unat off + slots_total env ts \<le> unat capacity \<Longrightarrow>
    format_tables env capacity ts off dir n =
      (PDI_OK, take n dir @ map fst (place env [] off ts) @ drop (n + length ts) dir, n + length ts)"
  using assms(2)
proof (induction ts arbitrary: off dir n)
  case (Cons t ts)
  have adv: "unat (off + ucast (db_slot_for env t)) = unat off + unat (db_slot_for env t)"
    using place_advance [of off env t "slots_total env ts"] Cons.prems(2) assms(1) by simp
  have "\<not> capacity < off + ucast (db_slot_for env t)"
    using Cons.prems(2) adv by (simp add: word_less_nat_alt)
  moreover have "n < length dir"
    using Cons.prems by simp
  ultimately show ?case
    using Cons.IH [of "Suc n" "off + ucast (db_slot_for env t)" "dir[n := fresh_entry env t off]"] Cons.prems adv
    by (simp add: Let_def carry_over_def dir_extend)
qed simp

text \<open>Every placed entry is its table's fresh entry, with length, checksum and version possibly taken over.\<close>

lemma carry_over_slot:
  "m_id (fst (carry_over old e)) = m_id e" "m_offset (fst (carry_over old e)) = m_offset e"
  "m_cap (fst (carry_over old e)) = m_cap e" "m_flags (fst (carry_over old e)) = m_flags e"
  by (auto simp: carry_over_def Let_def split: option.splits)

lemma place_ids: "map (m_id \<circ> fst) (place env old off ts) = map m_table_id ts"
  by (induction env old off ts rule: place.induct) (simp_all add: carry_over_slot fresh_entry_def)

lemma stored_bytes:
  assumes "m_len d \<noteq> 0" "unat (m_len d) + overhead d \<le> unat (m_cap d)"
  shows "unat (db_stored_bytes d) = unat (m_len d) + overhead d"
proof -
  have "unat (m_cap d) < 2 ^ 16"
    using unsigned_less [of "m_cap d"] by simp
  then show ?thesis
    using assms by (auto simp: db_stored_bytes_def overhead_def db_consts unat_word_ariths)
qed

lemma fresh_sealed [simp]: "entry_sealed (fresh_entry env t off) = db_seals env t"
  by (simp add: entry_sealed_def fresh_entry_def DB_ENTRY_FLAG_SEALED_def)

text \<open>When the old record is taken over: it occupies bytes, is of the same kind, and fits the new slot.\<close>

definition carries :: "db_dir_entry_t \<Rightarrow> db_dir_entry_t \<Rightarrow> bool" where
  "carries d e \<longleftrightarrow> m_len d \<noteq> 0 \<and> entry_sealed d = entry_sealed e \<and> unat (m_len d) + overhead d \<le> unat (m_cap e)"

lemma sealed_kind:
  "(m_flags d AND DB_ENTRY_FLAG_SEALED = m_flags e AND DB_ENTRY_FLAG_SEALED) \<longleftrightarrow> entry_sealed d = entry_sealed e"
proof -
  have "m_flags x AND 1 = (if odd (m_flags x) then 1 else 0)" for x :: db_dir_entry_t
    by (simp add: and_one_eq odd_iff_mod_2_eq_one)
  then show ?thesis
    by (simp add: entry_sealed_def DB_ENTRY_FLAG_SEALED_def)
qed

lemma carry_over_found:
  assumes "List.find (\<lambda>d. m_id d = m_id e) old = Some d" "m_len d \<noteq> 0 \<longrightarrow> unat (m_len d) + overhead d \<le> unat (m_cap d)"
  shows "carry_over old e =
    (if carries d e then (e\<lparr>m_len := m_len d, m_crc := m_crc d, m_version := m_version d\<rparr>, m_offset d) else (e, 0))"
proof (cases "m_len d = 0")
  case True
  then show ?thesis
    using assms(1) by (simp add: carry_over_def carries_def db_stored_bytes_def)
next
  case False
  then have stored: "unat (db_stored_bytes d) = unat (m_len d) + overhead d"
    using stored_bytes assms(2) by simp
  then have "db_stored_bytes d \<noteq> 0"
    using False by (metis add_is_0 unat_eq_0)
  then show ?thesis
    using assms(1) False stored by (simp add: carry_over_def carries_def Let_def sealed_kind word_le_nat_alt)
qed

text \<open>An entry whose record lies inside its slot; the old directories the engine meets have only such.\<close>

definition within_slot :: "db_dir_entry_t \<Rightarrow> bool" where
  "within_slot d \<longleftrightarrow> (m_len d \<noteq> 0 \<longrightarrow> unat (m_len d) + overhead d \<le> unat (m_cap d))"

lemma carry_over_within:
  assumes "list_all within_slot old" "m_len e = 0"
  shows "within_slot (fst (carry_over old e))"
proof (cases "List.find (\<lambda>d. m_id d = m_id e) old")
  case None
  then show ?thesis
    using assms(2) by (simp add: carry_over_def within_slot_def)
next
  case (Some d)
  then have "within_slot d"
    using assms(1) by (auto simp: find_Some_iff list_all_length)
  with Some assms(2) carry_over_found [OF Some] show ?thesis
    by (auto simp: within_slot_def carries_def overhead_def entry_sealed_def)
qed

lemma unat_ucast_small: "unat w < 2 ^ 16 \<Longrightarrow> unat (ucast w :: u16) = unat w" for w :: u32
  by (simp add: unsigned_ucast_eq take_bit_nat_eq_self)

lemma place_geometry:
  assumes "list_all within_slot old" "sz < 2 ^ 16"
  shows "DB_PAYLOAD_START env \<le> unat off \<Longrightarrow> unat off + slots_total env ts \<le> sz \<Longrightarrow>
    packed (map fst (place env old off ts)) \<and> list_all (entry_fits env sz) (map fst (place env old off ts))
    \<and> (\<forall>e\<in>set (map fst (place env old off ts)). unat off \<le> unat (m_offset e))"
proof (induction ts arbitrary: off)
  case (Cons t ts)
  let ?e = "fst (carry_over old (fresh_entry env t off))"
  have adv: "unat (off + ucast (db_slot_for env t)) = unat off + unat (db_slot_for env t)"
    using place_advance [of off env t "slots_total env ts"] Cons.prems(2) assms(2) by simp
  have "unat off < 2 ^ 16"
    using Cons.prems assms(2) by simp
  then have off: "unat (m_offset ?e) = unat off"
    by (simp add: carry_over_slot fresh_entry_def unat_ucast_small)
  have "entry_fits env sz ?e"
    using carry_over_within [OF assms(1), of "fresh_entry env t off"] off Cons.prems
    by (auto simp: entry_fits_def within_slot_def carry_over_slot fresh_entry_def overhead_def entry_sealed_def
        DB_ENTRY_FLAG_SEALED_def db_seals_def split: if_splits)
  moreover have "unat (m_cap ?e) = unat (db_slot_for env t)"
    by (simp add: carry_over_slot fresh_entry_def)
  ultimately show ?case
    using Cons.IH [of "off + ucast (db_slot_for env t)"] Cons.prems adv off by auto
qed simp

section \<open>Writing the frame\<close>

lemma same_on_mono: "same_on a b xs ys \<Longrightarrow> a \<le> a' \<Longrightarrow> b' \<le> b \<Longrightarrow> same_on a' b' xs ys"
  by (auto simp: same_on_def)

lemma same_on_sym: "same_on a b xs ys \<Longrightarrow> same_on a b ys xs"
  by (auto simp: same_on_def)

context db_store
begin

lemma write_entry_ok:
  assumes "m_store L = Some s" "inv s" "17 + i * 13 + 13 \<le> length (img s)"
  obtains s' where "write_entry ops L i = (PDI_OK, L\<lparr>m_store := Some s'\<rparr>)" "inv s'"
    "img s' = splice_at (17 + i * 13) (db_put_entry (m_directory L ! i)) (img s)" "media s' = media s"
proof -
  obtain s' where "dl_write ops L (17 + i * 13) (db_put_entry (m_directory L ! i)) = (True, L\<lparr>m_store := Some s'\<rparr>)"
      "inv s'" "img s' = splice_at (17 + i * 13) (db_put_entry (m_directory L ! i)) (img s)" "media s' = media s"
    using dl_write_in [OF assms(1,2), of "17 + i * 13" "db_put_entry (m_directory L ! i)"] assms(3) by auto
  then show ?thesis
    using that by (simp add: write_entry_def db_consts)
qed

lemma write_entries_ok:
  assumes "k \<le> n"
  shows "m_store L = Some s \<Longrightarrow> inv s \<Longrightarrow> 17 + n * 13 \<le> length (img s) \<Longrightarrow>
    \<exists>s'. write_entries ops L [k..<n] = (PDI_OK, L\<lparr>m_store := Some s'\<rparr>) \<and> inv s'
      \<and> length (img s') = length (img s)
      \<and> (\<forall>j. k \<le> j \<and> j < n \<longrightarrow> slice_at (17 + j * 13) 13 (img s') = db_put_entry (m_directory L ! j))
      \<and> (\<forall>a b. b \<le> 17 + k * 13 \<or> 17 + n * 13 \<le> a \<longrightarrow> b \<le> length (img s) \<longrightarrow> same_on a b (img s) (img s'))"
  using assms
proof (induction "n - k" arbitrary: k L s)
  case 0
  then show ?case
    by (intro exI [of _ s]) (cases L; auto simp: same_on_def)
next
  case (Suc m)
  then have k: "k < n" "17 + k * 13 + 13 \<le> 17 + n * 13"
    by simp_all
  obtain s1 where 1: "write_entry ops L k = (PDI_OK, L\<lparr>m_store := Some s1\<rparr>)" "inv s1"
      "img s1 = splice_at (17 + k * 13) (db_put_entry (m_directory L ! k)) (img s)"
    using write_entry_ok [OF Suc.prems(1,2), of k] Suc.prems(3) k by auto
  let ?L = "L\<lparr>m_store := Some s1\<rparr>"
  have len: "length (img s1) = length (img s)"
    using 1(3) k Suc.prems(3) by simp
  have "m = n - Suc k" "m_store ?L = Some s1" "17 + n * 13 \<le> length (img s1)" "Suc k \<le> n"
    using Suc.hyps(2) Suc.prems k len by simp_all
  from Suc.hyps(1) [OF this(1,2) 1(2) this(3,4)] obtain s' where 2:
    "write_entries ops ?L [Suc k..<n] = (PDI_OK, ?L\<lparr>m_store := Some s'\<rparr>)" "inv s'" "length (img s') = length (img s1)"
    "\<And>j. Suc k \<le> j \<Longrightarrow> j < n \<Longrightarrow> slice_at (17 + j * 13) 13 (img s') = db_put_entry (m_directory L ! j)"
    "\<And>a b. b \<le> 17 + Suc k * 13 \<or> 17 + n * 13 \<le> a \<Longrightarrow> b \<le> length (img s1) \<Longrightarrow> same_on a b (img s1) (img s')"
    by auto
  have "slice_at (17 + k * 13) 13 (img s') = slice_at (17 + k * 13) 13 (img s1)"
    using same_on_slice [OF 2(5), of "17 + Suc k * 13" "17 + k * 13" "17 + k * 13" 13] k len Suc.prems(3) by simp
  then have this_one: "slice_at (17 + k * 13) 13 (img s') = db_put_entry (m_directory L ! k)"
    using slice_at_splice_same [of "17 + k * 13" "db_put_entry (m_directory L ! k)" "img s"] 1(3) k Suc.prems(3) by simp
  have same1: "same_on a b (img s) (img s1)" if "b \<le> 17 + k * 13 \<or> 17 + n * 13 \<le> a" "b \<le> length (img s)" for a b
    using that k Suc.prems(3) unfolding 1(3) by (intro splice_outside [where cap = 13]) auto
  have "same_on a b (img s) (img s')" if "b \<le> 17 + k * 13 \<or> 17 + n * 13 \<le> a" "b \<le> length (img s)" for a b
    using that len by (intro same_on_trans [OF same1 [OF that] 2(5)]) auto
  moreover have "slice_at (17 + j * 13) 13 (img s') = db_put_entry (m_directory L ! j)" if "k \<le> j" "j < n" for j
    using that 2(4) this_one by (cases "j = k") auto
  ultimately show ?case
    using 1(1) 2(1-3) k(1) len by (intro exI [of _ s']) (simp add: upt_conv_Cons)
qed

definition framed_up :: "db_env \<Rightarrow> 's \<Rightarrow> 's DbLayout \<Rightarrow> 's \<Rightarrow> bool" where
  "framed_up env s L s' \<longleftrightarrow> inv s' \<and> framed (img s') L \<and> media s' = img s' \<and> length (img s') = length (img s)
     \<and> same_on (DB_PAYLOAD_START env) (length (img s)) (img s) (img s')"

lemma write_frame_ok:
  assumes "m_store L = Some s" "inv s" "m_entries L \<le> MAX_TABLES env" "DB_PAYLOAD_START env \<le> length (img s)"
  shows "\<exists>s'. (case write_entries ops L [0..<m_entries L] of
        (err, L) \<Rightarrow> if err \<noteq> PDI_OK then (err, L) else write_superblock ops L) = (PDI_OK, L\<lparr>m_store := Some s'\<rparr>)
      \<and> framed_up env s L s'"
proof -
  let ?n = "m_entries L"
  have room: "17 + ?n * 13 \<le> DB_PAYLOAD_START env"
    using assms(3) by (simp add: db_consts)
  obtain s1 where 1: "write_entries ops L [0..<?n] = (PDI_OK, L\<lparr>m_store := Some s1\<rparr>)" "inv s1"
      "length (img s1) = length (img s)"
      "\<And>j. j < ?n \<Longrightarrow> slice_at (17 + j * 13) 13 (img s1) = db_put_entry (m_directory L ! j)"
      "\<And>a b. 17 + ?n * 13 \<le> a \<Longrightarrow> b \<le> length (img s) \<Longrightarrow> same_on a b (img s) (img s1)"
    using write_entries_ok [of 0 ?n L s] assms(1,2,4) room by auto
  obtain s2 where 2: "dl_write ops (L\<lparr>m_store := Some s1\<rparr>) 5 (superblock_bytes L) = (True, L\<lparr>m_store := Some s2\<rparr>)"
      "inv s2" "img s2 = splice_at 5 (superblock_bytes L) (img s1)"
    using dl_write_in [of "L\<lparr>m_store := Some s1\<rparr>" s1 5 "superblock_bytes L"] 1(2,3) assms(4) room by auto
  obtain s3 where 3: "dl_flush ops (L\<lparr>m_store := Some s2\<rparr>) = (PDI_OK, L\<lparr>m_store := Some s3\<rparr>)" "inv s3"
      "img s3 = img s2" "media s3 = img s2"
    using dl_flush_ok [of "L\<lparr>m_store := Some s2\<rparr>" s2] 2(2) by auto
  have len: "length (img s2) = length (img s)" "5 + 12 \<le> length (img s1)"
    using 2(3) 1(3) assms(4) room by simp_all
  have "slice_at 5 12 (img s2) = superblock_bytes L"
    using slice_at_splice_same [of 5 "superblock_bytes L" "img s1"] 2(3) len by simp
  moreover have "slice_at (17 + j * 13) 13 (img s2) = db_put_entry (m_directory L ! j)" if "j < ?n" for j
    using slice_at_splice_disjoint [of 5 "superblock_bytes L" "img s1" "17 + j * 13" 13] 1(3,4) 2(3) that assms(4) room
    by simp
  moreover have "same_on (DB_PAYLOAD_START env) (length (img s)) (img s1) (img s2)"
    using len 1(3) room unfolding 2(3) by (intro splice_outside [where cap = 12]) auto
  then have "same_on (DB_PAYLOAD_START env) (length (img s)) (img s) (img s2)"
    using same_on_trans [OF 1(5) [of "DB_PAYLOAD_START env" "length (img s)"]] room by simp
  ultimately have "framed_up env s L s3"
    using 3 len by (simp add: framed_up_def framed_def)
  then show ?thesis
    using 1(1) 2(1) 3(1) by (intro exI [of _ s3]) (simp add: write_superblock_def db_consts)
qed

end

section \<open>Reading the frame back\<close>

text \<open>Two layouts that say the same of the database.\<close>

definition same_db :: "'s DbLayout \<Rightarrow> 't DbLayout \<Rightarrow> bool" where
  "same_db L L' \<longleftrightarrow> m_entries L' = m_entries L \<and> length (m_directory L') = length (m_directory L)
     \<and> (\<forall>i < m_entries L. m_directory L' ! i = m_directory L ! i)
     \<and> m_firmware L' = m_firmware L \<and> m_year L' = m_year L"

lemma same_db_find: "same_db L L' \<Longrightarrow> find_entry L' ident = find_entry L ident"
  unfolding find_entry_def by (intro find_cong) (auto simp: same_db_def)

lemma same_db_entries:
  assumes "same_db L L'" "m_entries L \<le> length (m_directory L)"
  shows "entries_of L' = entries_of L"
  using assms by (intro nth_equalityI) (auto simp: same_db_def entries_of_def)

lemma same_db_lookup: "same_db L L' \<Longrightarrow> lookup env img L' = lookup env img L"
proof
  fix ident
  assume same: "same_db L L'"
  show "lookup env img L' ident = lookup env img L ident"
    using same_db_find [OF same, of ident] find_entry_Some [of L ident] same
    by (cases "find_entry L ident") (auto simp: lookup_def same_db_def)
qed

lemma same_db_geometry:
  assumes "same_db L L'" "geometry env sz L"
  shows "geometry env sz L'" "slots L' = slots L"
  using same_db_entries [OF assms(1)] assms by (auto simp: geometry_def same_db_def slots_def)

lemma same_db_ok:
  assumes "same_db L L'" "m_mounted L'" "db_ok env img L"
  shows "db_ok env img L'"
proof -
  have "superblock_bytes L' = superblock_bytes L"
    using assms(1) by (simp add: same_db_def superblock_bytes_def superblock_body_def)
  then show ?thesis
    using assms same_db_geometry [OF assms(1), of env "length img"]
    by (auto simp: db_ok_def framed_def same_db_def)
qed

lemma same_db_matches: "same_db L L' \<Longrightarrow> geometry_matches env L' ts = geometry_matches env L ts"
proof -
  assume same: "same_db L L'"
  have "(case find_entry L' (m_table_id t) of None \<Rightarrow> False | Some i \<Rightarrow> m_cap (m_directory L' ! i) = db_slot_for env t)
      = (case find_entry L (m_table_id t) of None \<Rightarrow> False | Some i \<Rightarrow> m_cap (m_directory L ! i) = db_slot_for env t)" for t
    using same_db_find [OF same, of "m_table_id t"] find_entry_Some [of L "m_table_id t"] same
    by (auto simp: same_db_def split: option.splits)
  then show ?thesis
    using same by (simp add: geometry_matches_def same_db_def)
qed

context db_store
begin

lemma read_superblock_ok:
  assumes "m_store L = Some s" "inv s" "framed (img s) L0" "geometry env (length (img s)) L0"
  shows "read_superblock ops env L
    = (PDI_OK, L\<lparr>m_firmware := m_firmware L0, m_year := m_year L0, m_entries := m_entries L0\<rparr>)"
proof -
  have room: "17 \<le> length (img s)" and n: "m_entries L0 \<le> MAX_TABLES env" "m_entries L0 \<le> 255"
    using assms(4) by (auto simp: geometry_def db_consts)
  have "st_read ops s (of_nat 5) (replicate 12 0) = (True, superblock_bytes L0)"
    using read_at [OF assms(2), of 5 12] room assms(3) by (simp add: framed_def)
  moreover have "unat (of_nat (m_entries L0) :: u8) = m_entries L0"
    using n by (simp add: unat_of_nat)
  ultimately show ?thesis
    using assms(1) n superblock_fields [of L0] superblock_crc [of L0] by (simp add: read_superblock_def db_consts)
qed

lemma read_entries_ok:
  assumes "inv s" "framed (img s) L0" "geometry env (length (img s)) L0"
  shows "m_store L = Some s \<Longrightarrow> m_entries L0 \<le> length (m_directory L) \<Longrightarrow> k \<le> m_entries L0 \<Longrightarrow>
    \<exists>D. read_entries ops L [k..<m_entries L0] = (PDI_OK, L\<lparr>m_directory := D\<rparr>) \<and> length D = length (m_directory L)
      \<and> (\<forall>j < length D. D ! j = (if k \<le> j \<and> j < m_entries L0 then m_directory L0 ! j else m_directory L ! j))"
proof (induction "m_entries L0 - k" arbitrary: k L)
  case 0
  then show ?case
    by (intro exI [of _ "m_directory L"]) auto
next
  case (Suc m)
  then have k: "k < m_entries L0"
    by simp
  have dir: "17 + k * 13 + 13 \<le> length (img s)"
    using k assms(3) by (auto simp: geometry_def db_consts)
  have "st_read ops s (of_nat (17 + k * 13)) (replicate 13 0) = (True, db_put_entry (m_directory L0 ! k))"
    using read_at [OF assms(1), of "17 + k * 13" 13] dir k assms(2) by (simp add: framed_def)
  then have rd: "st_read ops (dl_store L) (of_nat (DB_DIR_START + k * DB_DIR_ENTRY_BYTES)) (replicate DB_DIR_ENTRY_BYTES 0)
      = (True, db_put_entry (m_directory L0 ! k))"
    using Suc.prems(1) by (simp add: db_consts)
  have fit: "entry_fits env (length (img s)) (m_directory L0 ! k)"
    using geometry_entry [OF assms(3) k] .
  then have "m_len (m_directory L0 ! k) \<le> m_cap (m_directory L0 ! k)"
    by (cases "m_len (m_directory L0 ! k) = 0") (auto simp: entry_fits_def word_le_nat_alt)
  with fit have valid: "\<not> (unat (st_capacity ops s) < unat (m_offset (m_directory L0 ! k)) + unat (m_cap (m_directory L0 ! k))
      \<or> m_cap (m_directory L0 ! k) < m_len (m_directory L0 ! k))"
    using capacity [OF assms(1)] by (auto simp: entry_fits_def)
  let ?L = "L\<lparr>m_directory := (m_directory L)[k := m_directory L0 ! k]\<rparr>"
  have "m = m_entries L0 - Suc k" "m_store ?L = Some s" "m_entries L0 \<le> length (m_directory ?L)" "Suc k \<le> m_entries L0"
    using Suc k by simp_all
  from Suc.hyps(1) [OF this] obtain D where D: "read_entries ops ?L [Suc k..<m_entries L0] = (PDI_OK, ?L\<lparr>m_directory := D\<rparr>)"
      "length D = length (m_directory L)"
      "\<forall>j < length D. D ! j = (if Suc k \<le> j \<and> j < m_entries L0 then m_directory L0 ! j else m_directory ?L ! j)"
    by auto
  have "read_entries ops L [k..<m_entries L0] = (PDI_OK, L\<lparr>m_directory := D\<rparr>)"
    using rd valid D(1) k Suc.prems(1) by (simp add: upt_conv_Cons Let_def)
  with D k show ?case
    by (intro exI [of _ D]) (auto simp: nth_list_update not_less_eq_eq dest: le_antisym)
qed

text \<open>A valid frame is read back as it was written, and nothing is written when the tables match it.\<close>

lemma read_frame_ok:
  assumes "m_store L = Some s" "inv s" "framed (img s) L0" "geometry env (length (img s)) L0"
    and "length (m_directory L) = MAX_TABLES env"
  shows "\<exists>L1 L2. read_superblock ops env L = (PDI_OK, L1) \<and> read_directory ops L1 = (PDI_OK, L2)
    \<and> same_db L0 L2 \<and> m_store L2 = Some s \<and> m_formatted L2 = m_formatted L"
proof -
  let ?L1 = "L\<lparr>m_firmware := m_firmware L0, m_year := m_year L0, m_entries := m_entries L0\<rparr>"
  have n: "m_entries L0 \<le> length (m_directory ?L1)" "length (m_directory L0) = length (m_directory L)"
    using assms(4,5) by (simp_all add: geometry_def)
  obtain D where D: "read_entries ops ?L1 [0..<m_entries L0] = (PDI_OK, ?L1\<lparr>m_directory := D\<rparr>)"
      "length D = length (m_directory L)" "\<And>j. j < m_entries L0 \<Longrightarrow> D ! j = m_directory L0 ! j"
    using read_entries_ok [OF assms(2,3,4), of ?L1 0] assms(1) n by auto
  show ?thesis
    using read_superblock_ok [OF assms(1-4)] D n assms(1)
    by (intro exI [of _ ?L1] exI [of _ "?L1\<lparr>m_directory := D\<rparr>"]) (simp add: read_directory_def same_db_def)
qed

lemma mount_same:
  assumes "inv s" "db_ok env (img s) L0" "geometry_matches env L0 ts" "length (m_directory L) = MAX_TABLES env"
  shows "\<exists>L1. mount ops env L (Some s) ts = (PDI_OK, L1) \<and> same_db L0 L1 \<and> m_store L1 = Some s \<and> m_mounted L1
    \<and> \<not> m_formatted L1"
proof -
  let ?L = "L\<lparr>m_store := Some s, m_mounted := False, m_formatted := False\<rparr>"
  have ok: "framed (img s) L0" "geometry env (length (img s)) L0"
    using assms(2) by (simp_all add: db_ok_def)
  have "\<not> unat (st_capacity ops s) < DB_PAYLOAD_START env"
    using capacity [OF assms(1)] ok(2) by (simp add: geometry_def)
  moreover obtain L1 L2 where 1: "read_superblock ops env ?L = (PDI_OK, L1)" "read_directory ops L1 = (PDI_OK, L2)"
      "same_db L0 L2" "m_store L2 = Some s" "\<not> m_formatted L2"
    using read_frame_ok [of ?L s L0 env] assms(1,4) ok by auto
  moreover have "same_db L0 (L2\<lparr>m_mounted := True\<rparr>)"
    using 1(3) by (simp add: same_db_def)
  moreover have "geometry_matches env (L2\<lparr>m_mounted := True\<rparr>) ts"
    using same_db_matches [OF calculation(7)] assms(3) by simp
  ultimately show ?thesis
    by (simp add: mount_def)
qed

end

section \<open>Fresh layouts\<close>

text \<open>The layout that placing \<open>ts\<close> gives, taking over from \<open>old\<close>.\<close>

definition place_all :: "db_env \<Rightarrow> db_dir_entry_t list \<Rightarrow> struct_tables list \<Rightarrow> (db_dir_entry_t \<times> u16) list" where
  "place_all env old ts = place env old (of_nat (DB_PAYLOAD_START env)) ts"

definition relaid :: "db_env \<Rightarrow> db_dir_entry_t list \<Rightarrow> struct_tables list \<Rightarrow> 's DbLayout \<Rightarrow> 's DbLayout" where
  "relaid env old ts L = L\<lparr>m_directory := map fst (place_all env old ts) @ drop (length ts) (m_directory L),
     m_entries := length ts\<rparr>"

lemma length_place_all [simp]: "length (place_all env old ts) = length ts"
  by (simp add: place_all_def)

lemma relaid_simps [simp]:
  "m_store (relaid env old ts L) = m_store L" "m_entries (relaid env old ts L) = length ts"
  "m_mounted (relaid env old ts L) = m_mounted L" "m_formatted (relaid env old ts L) = m_formatted L"
  "i < length ts \<Longrightarrow> m_directory (relaid env old ts L) ! i = fst (place_all env old ts ! i)"
  "entries_of (relaid env old ts L) = map fst (place_all env old ts)"
  by (simp_all add: relaid_def nth_append entries_of_def)

lemma place_nth:
  "i < length ts \<Longrightarrow> \<exists>off. place env old off0 ts ! i = carry_over old (fresh_entry env (ts ! i) off)"
proof (induction ts arbitrary: i off0)
  case (Cons t ts)
  then show ?case
    by (cases i) auto
qed simp

lemma place_all_nth:
  assumes "i < length ts"
  obtains off where "place_all env old ts ! i = carry_over old (fresh_entry env (ts ! i) off)"
  using place_nth [OF assms] unfolding place_all_def by blast

text \<open>The slots the registered tables are given.\<close>

definition table_slots :: "db_env \<Rightarrow> struct_tables list \<Rightarrow> (u16 \<times> u16 \<times> u8) list" where
  "table_slots env ts = map (\<lambda>t. (m_table_id t, db_slot_for env t, if db_seals env t then DB_ENTRY_FLAG_SEALED else 0)) ts"

lemma relaid_slots: "slots (relaid env old ts L) = table_slots env ts"
proof (rule nth_equalityI)
  fix i
  assume "i < length (slots (relaid env old ts L))"
  then have i: "i < length ts"
    by (simp add: slots_def)
  obtain off where "place_all env old ts ! i = carry_over old (fresh_entry env (ts ! i) off)"
    using place_all_nth [OF i] .
  then show "slots (relaid env old ts L) ! i = table_slots env ts ! i"
    using i by (simp add: slots_def table_slots_def carry_over_slot fresh_entry_def)
qed (simp add: slots_def table_slots_def)

lemma relaid_geometry:
  assumes "tables_ok env sz ts" "list_all within_slot old" "length (m_directory L) = MAX_TABLES env"
  shows "geometry env sz (relaid env old ts L)"
proof -
  let ?P = "place_all env old ts"
  have t: "length ts \<le> MAX_TABLES env" "MAX_TABLES env \<le> 255" "distinct (map m_table_id ts)"
      "DB_PAYLOAD_START env + slots_total env ts \<le> sz" "sz < 2 ^ 16"
    using assms(1) by (simp_all add: tables_ok_def)
  have "unat (of_nat (DB_PAYLOAD_START env) :: u32) = DB_PAYLOAD_START env"
    using t by (simp add: unat_of_nat)
  then have "packed (map fst ?P)" "list_all (entry_fits env sz) (map fst ?P)"
    using place_geometry [OF assms(2) t(5), of env "of_nat (DB_PAYLOAD_START env)" ts] t(4) by (simp_all add: place_all_def)
  moreover have "map m_id (map fst ?P) = map m_table_id ts"
    using place_ids [of env old "of_nat (DB_PAYLOAD_START env)" ts] by (simp add: place_all_def)
  ultimately show ?thesis
    using t assms(3) by (simp add: geometry_def) (simp add: relaid_def)
qed

lemma relaid_find:
  assumes "tables_ok env sz ts" "i < length ts" "list_all within_slot old" "length (m_directory L) = MAX_TABLES env"
  shows "find_entry (relaid env old ts L) (m_table_id (ts ! i)) = Some i"
proof -
  obtain off where "place_all env old ts ! i = carry_over old (fresh_entry env (ts ! i) off)"
    using place_all_nth [OF assms(2)] .
  then have "m_id (m_directory (relaid env old ts L) ! i) = m_table_id (ts ! i)"
    using assms(2) by (simp add: carry_over_slot fresh_entry_def)
  then show ?thesis
    using find_entry_id [OF relaid_geometry [OF assms(1,3,4)], of i] assms(2) by simp
qed

lemma relaid_find_None:
  assumes "ident \<notin> set (map m_table_id ts)"
  shows "find_entry (relaid env old ts L) ident = None"
  unfolding find_entry_None
proof (intro allI impI)
  fix i
  assume "i < m_entries (relaid env old ts L)"
  then have i: "i < length ts"
    by simp
  obtain off where "place_all env old ts ! i = carry_over old (fresh_entry env (ts ! i) off)"
    using place_all_nth [OF i] .
  then show "m_id (m_directory (relaid env old ts L) ! i) \<noteq> ident"
    using i assms by (auto simp: carry_over_slot fresh_entry_def)
qed

context db_store
begin

lemma format_db_ok:
  assumes "m_store L = Some s" "inv s" "length (m_directory L) = MAX_TABLES env" "tables_ok env (length (img s)) ts"
  shows "\<exists>s'. format_db ops env L ts = (PDI_OK, (relaid env [] ts L)\<lparr>m_store := Some s'\<rparr>)
    \<and> framed_up env s (relaid env [] ts L) s'"
proof -
  let ?L = "relaid env [] ts L"
  have t: "length ts \<le> MAX_TABLES env" "DB_PAYLOAD_START env + slots_total env ts \<le> length (img s)"
    using assms(4) by (simp_all add: tables_ok_def)
  have cap: "unat (st_capacity ops s) = length (img s)" "length (img s) < 2 ^ 16"
    using capacity [OF assms(2)] capacity_max [OF assms(2)] by simp_all
  moreover have "unat (of_nat (DB_PAYLOAD_START env) :: u32) = DB_PAYLOAD_START env"
    using t cap by (simp add: unat_of_nat)
  ultimately have "format_tables env (st_capacity ops s) ts (of_nat (DB_PAYLOAD_START env)) (m_directory L) 0
      = (PDI_OK, m_directory ?L, length ts)"
    using format_tables_ok [of "st_capacity ops s" "m_directory L" env 0 ts "of_nat (DB_PAYLOAD_START env)"] assms(3) t
    by (simp add: relaid_def place_all_def)
  moreover have "L\<lparr>m_directory := m_directory ?L, m_entries := length ts\<rparr> = ?L"
    by (simp add: relaid_def)
  ultimately show ?thesis
    using write_frame_ok [of ?L s env] assms(1,2) t by (simp add: format_db_def)
qed

end

text \<open>The map a fresh database stands for: every table present, no record written.\<close>

definition fresh_map :: "struct_tables list \<Rightarrow> u16 \<Rightarrow> (bytes \<times> u16) option" where
  "fresh_map ts ident = map_option (\<lambda>t. ([], m_table_version t)) (List.find (\<lambda>t. m_table_id t = ident) ts)"

lemma find_table:
  assumes "distinct (map m_table_id ts)" "i < length ts"
  shows "List.find (\<lambda>t. m_table_id t = m_table_id (ts ! i)) ts = Some (ts ! i)"
proof -
  have "m_table_id (ts ! j) \<noteq> m_table_id (ts ! i)" if "j < i" for j
    using nth_eq_iff_index_eq [OF assms(1), of j i] assms(2) that by simp
  then show ?thesis
    using assms(2) by (auto simp: find_Some_iff)
qed

lemma relaid_fresh:
  assumes "tables_ok env sz ts" "length (m_directory L) = MAX_TABLES env"
  shows "\<forall>i < length ts. rec_ok env img (m_directory (relaid env [] ts L) ! i)"
    and "lookup env img (relaid env [] ts L) = fresh_map ts"
proof -
  have entry: "m_len (m_directory (relaid env [] ts L) ! i) = 0
      \<and> m_version (m_directory (relaid env [] ts L) ! i) = m_table_version (ts ! i)" if i: "i < length ts" for i
  proof -
    obtain off where "place_all env [] ts ! i = carry_over [] (fresh_entry env (ts ! i) off)"
      using place_all_nth [OF i] .
    with i show ?thesis
      by (simp add: carry_over_def fresh_entry_def)
  qed
  then show "\<forall>i < length ts. rec_ok env img (m_directory (relaid env [] ts L) ! i)"
    by (simp add: rec_ok_def)
  show "lookup env img (relaid env [] ts L) = fresh_map ts"
  proof
    fix ident
    show "lookup env img (relaid env [] ts L) ident = fresh_map ts ident"
    proof (cases "ident \<in> set (map m_table_id ts)")
      case True
      then obtain i where i: "i < length ts" "ident = m_table_id (ts ! i)"
        by (auto simp: in_set_conv_nth)
      have "distinct (map m_table_id ts)"
        using assms(1) by (simp add: tables_ok_def)
      then show ?thesis
        using relaid_find [OF assms(1) i(1) _ assms(2), of "[]"] entry [OF i(1)] i find_table [of ts i]
        by (simp add: lookup_def fresh_map_def rec_data_def del: relaid_simps)
    next
      case False
      then have "List.find (\<lambda>t. m_table_id t = ident) ts = None"
        by (auto simp: find_None_iff)
      then show ?thesis
        using relaid_find_None [OF False, of env "[]" L] by (simp add: lookup_def fresh_map_def)
    qed
  qed
qed

lemma read_superblock_keeps:
  assumes "read_superblock ops env L = (err, L1)"
  shows "m_store L1 = m_store L \<and> m_directory L1 = m_directory L"
  using assms by (auto simp: read_superblock_def Let_def split: prod.splits if_splits)

context db_store
begin

lemma framed_up_ok:
  assumes "framed_up env s L s'" "geometry env (length (img s)) L" "\<forall>i < m_entries L. rec_ok env (img s) (m_directory L ! i)"
  shows "\<forall>i < m_entries L. rec_ok env (img s') (m_directory L ! i)" "lookup env (img s') L = lookup env (img s) L"
proof -
  have same: "rec_ok env (img s') (m_directory L ! i) = rec_ok env (img s) (m_directory L ! i) \<and>
      rec_data env (img s') (m_directory L ! i) = rec_data env (img s) (m_directory L ! i)" if "i < m_entries L" for i
  proof -
    have fit: "entry_fits env (length (img s)) (m_directory L ! i)"
      using geometry_entry [OF assms(2) that] .
    have pay: "same_on (DB_PAYLOAD_START env) (length (img s)) (img s) (img s')"
      using assms(1) by (simp only: framed_up_def)
    have "DB_PAYLOAD_START env \<le> unat (m_offset (m_directory L ! i))"
        "unat (m_offset (m_directory L ! i)) + unat (m_cap (m_directory L ! i)) \<le> length (img s)"
      using fit by (simp_all only: entry_fits_def)
    from rec_same [OF fit same_on_mono [OF pay this]] show ?thesis .
  qed
  then show "\<forall>i < m_entries L. rec_ok env (img s') (m_directory L ! i)"
    using assms(3) by simp
  show "lookup env (img s') L = lookup env (img s) L"
  proof
    fix ident
    show "lookup env (img s') L ident = lookup env (img s) L ident"
      using same find_entry_Some [of L ident] by (cases "find_entry L ident") (auto simp: lookup_def)
  qed
qed

lemma mount_format_ok:
  assumes "inv s" "length (m_directory L) = MAX_TABLES env" "tables_ok env (length (img s)) ts"
    and sb: "read_superblock ops env (L\<lparr>m_store := Some s, m_mounted := False, m_formatted := False\<rparr>) = (err, L1)" "err \<noteq> PDI_OK"
  shows "\<exists>L' s'. mount ops env L (Some s) ts = (PDI_OK, L') \<and> m_formatted L' \<and> m_store L' = Some s' \<and> inv s'
    \<and> db_ok env (img s') L' \<and> media s' = img s' \<and> length (img s') = length (img s) \<and> lookup env (img s') L' = fresh_map ts
    \<and> slots L' = table_slots env ts"
proof -
  have L1: "m_store L1 = Some s" "length (m_directory L1) = MAX_TABLES env"
    using read_superblock_keeps [OF sb(1)] assms(2) by simp_all
  let ?R = "relaid env [] ts L1"
  obtain s' where f: "format_db ops env L1 ts = (PDI_OK, ?R\<lparr>m_store := Some s'\<rparr>)" "framed_up env s ?R s'"
    using format_db_ok [OF L1(1) assms(1) L1(2) assms(3)] by blast
  let ?L = "?R\<lparr>m_store := Some s', m_mounted := True, m_formatted := True\<rparr>"
  have "\<not> unat (st_capacity ops s) < DB_PAYLOAD_START env"
    using capacity [OF assms(1)] assms(3) by (simp add: tables_ok_def)
  then have "mount ops env L (Some s) ts = (PDI_OK, ?L)"
    using sb f by (simp add: mount_def)
  moreover have geo: "geometry env (length (img s)) ?R"
    using relaid_geometry [OF assms(3) _ L1(2)] by simp
  moreover have "same_db ?R ?L"
    by (simp add: same_db_def)
  ultimately show ?thesis
    using f(2) framed_up_ok [OF f(2) geo] relaid_fresh [OF assms(3) L1(2)] same_db_lookup [of ?R ?L env "img s'"]
      same_db_geometry [of ?R ?L env "length (img s)"] relaid_slots [of env "[]" ts L1]
    by (intro exI [of _ ?L] exI [of _ s']) (simp add: framed_up_def db_ok_def)
qed

end

end
