(* ===== verification/DbRepack.thy ===== *)
theory DbRepack
  imports DbMount
begin

text \<open>
  Repacking: when the registered tables no longer match the stored geometry, every record whose
  bytes still fit its new slot is carried there by id. The records that move are all lifted
  before any is laid down, and the new slots do not overlap, so no record is lost to another.
\<close>

section \<open>Moving a record\<close>

lemma slice_slice: "a + n \<le> m \<Longrightarrow> off + m \<le> length xs \<Longrightarrow> slice_at (off + a) n xs = slice_at a n (slice_at off m xs)"
  by (rule nth_equalityI) (simp_all add: nth_slice_at add.assoc)

lemma rec_transfer:
  assumes e: "m_len e = m_len d" "m_crc e = m_crc d" "entry_sealed e = entry_sealed d" "m_len d \<noteq> 0"
    and bytes: "slice_at (unat (m_offset e)) (unat (m_len d) + overhead d) img' = slice_at (unat (m_offset d)) (unat (m_len d) + overhead d) img"
    and len: "unat (m_offset e) + (unat (m_len d) + overhead d) \<le> length img'"
      "unat (m_offset d) + (unat (m_len d) + overhead d) \<le> length img"
  shows "rec_ok env img' e = rec_ok env img d" "rec_data env img' e = rec_data env img d"
proof -
  let ?n = "unat (m_len d)"
  have part: "slice_at (unat (m_offset e) + a) k img' = slice_at (unat (m_offset d) + a) k img"
    if "a + k \<le> ?n + overhead d" for a k
    using slice_slice [OF that len(1)] slice_slice [OF that len(2)] bytes by simp
  have "slice_at (unat (m_offset e)) ?n img' = slice_at (unat (m_offset d)) ?n img"
    using part [of 0 ?n] by simp
  moreover have "entry_sealed d \<Longrightarrow> slice_at (unat (m_offset e)) 16 img' = slice_at (unat (m_offset d)) 16 img"
    using part [of 0 16] by (simp add: overhead_def)
  moreover have "entry_sealed d \<Longrightarrow> slice_at (unat (m_offset e) + 16) ?n img' = slice_at (unat (m_offset d) + 16) ?n img"
    using part [of 16 ?n] by (simp add: overhead_def)
  moreover have "entry_sealed d \<Longrightarrow> slice_at (unat (m_offset e) + 16 + ?n) 16 img' = slice_at (unat (m_offset d) + 16 + ?n) 16 img"
    using part [of "16 + ?n" 16] by (simp add: overhead_def add.assoc)
  ultimately show "rec_ok env img' e = rec_ok env img d" "rec_data env img' e = rec_data env img d"
    using e by (auto simp: rec_ok_def rec_data_def Let_def)
qed

context db_store
begin

text \<open>Laying the lifted bytes down, each inside its own slot.\<close>

lemma lay_records_ok:
  assumes "geometry env (length (img s)) L"
  shows "m_store L = Some s \<Longrightarrow> inv s \<Longrightarrow> distinct (map fst xs) \<Longrightarrow>
    \<forall>(i, bs)\<in>set xs. i < m_entries L \<and> length bs \<le> unat (m_cap (m_directory L ! i)) \<Longrightarrow>
    \<exists>s'. lay_records ops L xs = L\<lparr>m_store := Some s'\<rparr> \<and> inv s' \<and> length (img s') = length (img s)
      \<and> (\<forall>(i, bs)\<in>set xs. slice_at (unat (m_offset (m_directory L ! i))) (length bs) (img s') = bs)
      \<and> (\<forall>j < m_entries L. j \<notin> fst ` set xs \<longrightarrow>
           same_on (unat (m_offset (m_directory L ! j))) (unat (m_offset (m_directory L ! j)) + unat (m_cap (m_directory L ! j))) (img s) (img s'))"
  using assms
proof (induction xs arbitrary: L s)
  case Nil
  then show ?case
    by (intro exI [of _ s]) (cases L; auto simp: same_on_def)
next
  case (Cons x xs)
  obtain i bs where x: "x = (i, bs)"
    by (cases x)
  let ?e = "m_directory L ! i"
  let ?slot = "\<lambda>j ys zs. same_on (unat (m_offset (m_directory L ! j))) (unat (m_offset (m_directory L ! j)) + unat (m_cap (m_directory L ! j))) ys zs"
  have i: "i < m_entries L" "length bs \<le> unat (m_cap ?e)"
    using Cons.prems(4) x by auto
  have slot: "unat (m_offset ?e) + unat (m_cap ?e) \<le> length (img s)"
    using geometry_entry [OF Cons.prems(5) i(1)] by (simp only: entry_fits_def)
  obtain s1 where 1: "dl_write ops L (unat (m_offset ?e)) bs = (True, L\<lparr>m_store := Some s1\<rparr>)" "inv s1"
      "img s1 = splice_at (unat (m_offset ?e)) bs (img s)"
    using dl_write_in [OF Cons.prems(1,2), of "unat (m_offset ?e)" bs] i slot by auto
  have len: "length (img s1) = length (img s)"
    using 1(3) i slot by simp
  let ?L = "L\<lparr>m_store := Some s1\<rparr>"
  have "\<exists>s'. lay_records ops ?L xs = ?L\<lparr>m_store := Some s'\<rparr> \<and> inv s' \<and> length (img s') = length (img s1)
      \<and> (\<forall>(i, bs)\<in>set xs. slice_at (unat (m_offset (m_directory L ! i))) (length bs) (img s') = bs)
      \<and> (\<forall>j < m_entries L. j \<notin> fst ` set xs \<longrightarrow> ?slot j (img s1) (img s'))"
    using Cons.IH [of ?L s1] 1(2) Cons.prems len by simp
  then obtain s' where 2: "lay_records ops ?L xs = L\<lparr>m_store := Some s'\<rparr>" "inv s'" "length (img s') = length (img s1)"
      "\<forall>(i, bs)\<in>set xs. slice_at (unat (m_offset (m_directory L ! i))) (length bs) (img s') = bs"
      "\<And>j. j < m_entries L \<Longrightarrow> j \<notin> fst ` set xs \<Longrightarrow> ?slot j (img s1) (img s')"
    by auto
  have "i \<notin> fst ` set xs"
    using Cons.prems(3) x by auto
  then have "slice_at (unat (m_offset ?e)) (length bs) (img s') = slice_at (unat (m_offset ?e)) (length bs) (img s1)"
    using same_on_slice [OF 2(5) [OF i(1)], of "unat (m_offset ?e)" "length bs"] i(2) slot len by simp
  then have this_one: "slice_at (unat (m_offset ?e)) (length bs) (img s') = bs"
    using slice_at_splice_same [of "unat (m_offset ?e)" bs "img s"] 1(3) i slot by simp
  have "?slot j (img s) (img s')" if j: "j < m_entries L" "j \<notin> fst ` set (x # xs)" for j
  proof (rule same_on_trans)
    have "j \<noteq> i"
      using j(2) x by auto
    have "unat (m_offset (m_directory L ! j)) + unat (m_cap (m_directory L ! j)) \<le> length (img s)"
      using geometry_entry [OF Cons.prems(5) j(1)] by (simp only: entry_fits_def)
    then show "?slot j (img s) (img s1)"
      using geometry_disjoint [OF Cons.prems(5) j(1) i(1) \<open>j \<noteq> i\<close>] i(2) slot unfolding 1(3)
      by (intro splice_outside [where cap = "unat (m_cap ?e)"]) auto
    show "?slot j (img s1) (img s')"
      using 2(5) [OF j(1)] j(2) by simp
  qed
  then show ?case
    using 1(1) 2(1-4) this_one len x by (intro exI [of _ s']) simp
qed

end

section \<open>What the new directory takes over\<close>

text \<open>Whether a record can stay: written, of the kind the table now has, and no longer than its slot.\<close>

definition keeps :: "db_env \<Rightarrow> struct_tables \<Rightarrow> db_dir_entry_t \<Rightarrow> bool" where
  "keeps env t d \<longleftrightarrow> m_len d \<noteq> 0 \<and> entry_sealed d = db_seals env t \<and>
     unat (m_len d) + overhead d \<le> unat (db_slot_for env t)"

text \<open>The map after repacking: the tables registered now, each with its old record where that can stay.\<close>

definition repacked :: "db_env \<Rightarrow> bytes \<Rightarrow> 's DbLayout \<Rightarrow> struct_tables list \<Rightarrow> u16 \<Rightarrow> (bytes \<times> u16) option" where
  "repacked env img L ts ident =
     (case List.find (\<lambda>t. m_table_id t = ident) ts of
        None \<Rightarrow> None
      | Some t \<Rightarrow>
          (case find_entry L ident of
             None \<Rightarrow> Some ([], m_table_version t)
           | Some j \<Rightarrow>
               if keeps env t (m_directory L ! j)
               then Some (rec_data env img (m_directory L ! j), m_version (m_directory L ! j))
               else Some ([], m_table_version t)))"

lemma find_old: "List.find (\<lambda>d. m_id d = ident) (entries_of L) = map_option (\<lambda>j. m_directory L ! j) (find_entry L ident)"
  if "m_entries L \<le> length (m_directory L)"
proof -
  have "entries_of L = map (\<lambda>j. m_directory L ! j) [0..<m_entries L]"
    using that by (intro nth_equalityI) (simp_all add: entries_of_def)
  then show ?thesis
    by (simp add: find_entry_def find_map_list comp_def)
qed

lemma db_ok_within:
  assumes "db_ok env img L"
  shows "list_all within_slot (entries_of L)" "m_entries L \<le> length (m_directory L)"
  using assms by (auto simp: db_ok_def geometry_def list_all_iff within_slot_def entry_fits_def)

text \<open>A placed entry either starts empty, or describes an old record, which is to be found at its source.\<close>

definition taken_over :: "'s DbLayout \<Rightarrow> db_dir_entry_t \<Rightarrow> u16 \<Rightarrow> nat \<Rightarrow> bool" where
  "taken_over L e frm j \<longleftrightarrow> j < m_entries L \<and> (let d = m_directory L ! j in
     m_len d \<noteq> 0 \<and> m_len e = m_len d \<and> m_crc e = m_crc d \<and> m_version e = m_version d
     \<and> entry_sealed e = entry_sealed d \<and> unat (m_len d) + overhead d \<le> unat (m_cap e) \<and> frm = m_offset d)"

lemma placed_source:
  assumes ok: "db_ok env img L" and i: "i < length ts" and p: "place_all env (entries_of L) ts ! i = (e, frm)"
  shows "(case find_entry L (m_table_id (ts ! i)) of
      Some j \<Rightarrow> if keeps env (ts ! i) (m_directory L ! j) then taken_over L e frm j
        else m_len e = 0 \<and> m_version e = m_table_version (ts ! i) \<and> frm = 0
    | None \<Rightarrow> m_len e = 0 \<and> m_version e = m_table_version (ts ! i) \<and> frm = 0)"
proof -
  obtain off where c: "carry_over (entries_of L) (fresh_entry env (ts ! i) off) = (e, frm)"
    using place_all_nth [OF i] p by metis
  let ?f = "fresh_entry env (ts ! i) off"
  note old = find_old [OF db_ok_within(2) [OF ok], of "m_table_id (ts ! i)"]
  have f: "m_id ?f = m_table_id (ts ! i)" "m_cap ?f = db_slot_for env (ts ! i)" "m_len ?f = 0"
      "m_version ?f = m_table_version (ts ! i)"
    by (simp_all add: fresh_entry_def)
  show ?thesis
  proof (cases "find_entry L (m_table_id (ts ! i))")
    case None
    with old f c show ?thesis
      by (auto simp: carry_over_def)
  next
    case (Some j)
    let ?d = "m_directory L ! j"
    have j: "j < m_entries L"
      using find_entry_Some [OF Some] by simp
    have "entry_fits env (length img) ?d"
      using ok j geometry_entry by (auto simp: db_ok_def)
    then have "m_len ?d \<noteq> 0 \<longrightarrow> unat (m_len ?d) + overhead ?d \<le> unat (m_cap ?d)"
      by (simp only: entry_fits_def) blast
    from carry_over_found [OF _ this, of ?f "entries_of L"] old Some f
    have "carry_over (entries_of L) ?f = (if carries ?d ?f
        then (?f\<lparr>m_len := m_len ?d, m_crc := m_crc ?d, m_version := m_version ?d\<rparr>, m_offset ?d) else (?f, 0))"
      by simp
    moreover have "carries ?d ?f = keeps env (ts ! i) ?d"
      by (simp add: carries_def keeps_def f(2))
    ultimately show ?thesis
      using Some c f j by (auto simp: taken_over_def Let_def carries_def entry_sealed_def split: if_splits)
  qed
qed

lemma taken_over_facts:
  assumes ok: "db_ok env img L" and t: "taken_over L e frm j"
  shows "unat (db_stored_bytes e) = unat (m_len e) + overhead e" "0 < unat (m_len e)" "frm \<noteq> 0"
    "unat frm + (unat (m_len e) + overhead e) \<le> length img" "unat (m_len e) + overhead e \<le> unat (m_cap e)"
proof -
  let ?d = "m_directory L ! j"
  have d: "m_len ?d \<noteq> 0" "m_len e = m_len ?d" "overhead e = overhead ?d" "unat (m_len ?d) + overhead ?d \<le> unat (m_cap e)"
      "frm = m_offset ?d" "j < m_entries L"
    using t by (auto simp: taken_over_def Let_def overhead_def)
  have "entry_fits env (length img) ?d"
    using ok d(6) geometry_entry by (auto simp: db_ok_def)
  then have fit: "DB_PAYLOAD_START env \<le> unat (m_offset ?d)" "unat (m_offset ?d) + unat (m_cap ?d) \<le> length img"
      "m_len ?d \<noteq> 0 \<longrightarrow> unat (m_len ?d) + overhead ?d \<le> unat (m_cap ?d)"
    unfolding entry_fits_def by blast+
  show "unat (m_len e) + overhead e \<le> unat (m_cap e)" "0 < unat (m_len e)"
    using d by (simp_all add: unat_gt_0)
  then show "unat (db_stored_bytes e) = unat (m_len e) + overhead e"
    using stored_bytes [of e] d by simp
  show "unat frm + (unat (m_len e) + overhead e) \<le> length img" "frm \<noteq> 0"
    using fit d by (auto simp: db_consts)
qed

lemma taken_over_record:
  assumes ok: "db_ok env img L" and t: "taken_over L e frm j"
    and bytes: "slice_at (unat (m_offset e)) (unat (m_len e) + overhead e) img' = slice_at (unat frm) (unat (m_len e) + overhead e) img"
    and len: "unat (m_offset e) + unat (m_cap e) \<le> length img'"
  shows "rec_ok env img' e" "rec_data env img' e = rec_data env img (m_directory L ! j)"
    "m_version e = m_version (m_directory L ! j)"
proof -
  let ?d = "m_directory L ! j"
  note f = taken_over_facts [OF ok t]
  have d: "m_len ?d \<noteq> 0" "m_len e = m_len ?d" "m_crc e = m_crc ?d" "entry_sealed e = entry_sealed ?d" "overhead e = overhead ?d"
      "frm = m_offset ?d" "j < m_entries L" "m_version e = m_version ?d"
    using t by (auto simp: taken_over_def Let_def overhead_def)
  then show "m_version e = m_version ?d"
    by simp
  have "rec_ok env img ?d"
    using ok d(7) by (simp add: db_ok_def)
  moreover have "rec_ok env img' e = rec_ok env img ?d" "rec_data env img' e = rec_data env img ?d"
    using rec_transfer [OF d(2-4,1), of img' img env] bytes len f(4,5) d by simp_all
  ultimately show "rec_ok env img' e" "rec_data env img' e = rec_data env img ?d"
    by simp_all
qed

text \<open>The records named for moving have one source each, and the scratch stretch of each is its bytes there.\<close>

lemma moved_source:
  assumes ok: "db_ok env img L" and i: "i \<in> set (moved_records (relaid env (entries_of L) ts L) (map snd (place_all env (entries_of L) ts)))"
  shows "i < length ts"
    "\<exists>j. taken_over L (m_directory (relaid env (entries_of L) ts L) ! i) (map snd (place_all env (entries_of L) ts) ! i) j"
proof -
  show len: "i < length ts"
    using i by (simp add: moved_records_def)
  obtain e frm where p: "place_all env (entries_of L) ts ! i = (e, frm)"
    by fastforce
  with i len have "frm \<noteq> 0"
    by (simp add: moved_records_def)
  with placed_source [OF ok len p] obtain j where "taken_over L e frm j"
    by (auto split: option.splits if_splits)
  then show "\<exists>j. taken_over L (m_directory (relaid env (entries_of L) ts L) ! i) (map snd (place_all env (entries_of L) ts) ! i) j"
    using p len by auto
qed

context db_store
begin

lemma lift_records_ok:
  assumes "m_store L = Some s" "inv s" and ok: "db_ok env (img s) L"
    and R_def: "R = relaid env (entries_of L) ts L" and src_def: "src = map snd (place_all env (entries_of L) ts)"
  shows "lift_records ops R src (moved_records R src) =
    map (\<lambda>i. slice_at (unat (src ! i)) (unat (m_len (m_directory R ! i)) + overhead (m_directory R ! i)) (img s)) (moved_records R src)"
proof -
  have "st_read ops (dl_store R) (ucast (src ! i)) (replicate (unat (db_stored_bytes (m_directory R ! i))) 0) =
      (True, slice_at (unat (src ! i)) (unat (m_len (m_directory R ! i)) + overhead (m_directory R ! i)) (img s))"
    if i: "i \<in> set (moved_records R src)" for i
  proof -
    obtain j where t: "taken_over L (m_directory R ! i) (src ! i) j"
      using moved_source(2) [OF ok i [unfolded R_def src_def]] unfolding R_def src_def ..
    note f = taken_over_facts [OF ok t]
    have "ucast (src ! i) = (of_nat (unat (src ! i)) :: u32)"
      by (simp add: word_unat_eq_iff unat_ucast_up unat_of_nat take_bit_eq_mod)
    moreover have "dl_store R = s"
      using assms(1) by (simp add: R_def)
    ultimately show ?thesis
      using read_at [OF assms(2) f(4)] f(1) by simp
  qed
  then show ?thesis
    by (simp add: lift_records_def)
qed

lemma carried_bytes:
  assumes "m_store L = Some s" "inv s" and ok: "db_ok env (img s) L" and geo: "geometry env (length (img s)) R"
    and R_def: "R = relaid env (entries_of L) ts L" and src_def: "src = map snd (place_all env (entries_of L) ts)"
  shows "\<exists>s'. lay_records ops R (zip (moved_records R src) (lift_records ops R src (moved_records R src))) = R\<lparr>m_store := Some s'\<rparr>
    \<and> inv s' \<and> length (img s') = length (img s)
    \<and> (\<forall>i < length ts. \<forall>j. taken_over L (m_directory R ! i) (src ! i) j \<longrightarrow>
        slice_at (unat (m_offset (m_directory R ! i))) (unat (m_len (m_directory R ! i)) + overhead (m_directory R ! i)) (img s')
        = slice_at (unat (src ! i)) (unat (m_len (m_directory R ! i)) + overhead (m_directory R ! i)) (img s))"
proof -
  let ?M = "moved_records R src" and ?e = "\<lambda>i. m_directory R ! i"
  let ?n = "\<lambda>i. unat (m_len (?e i)) + overhead (?e i)"
  let ?xs = "map (\<lambda>i. (i, slice_at (unat (src ! i)) (?n i) (img s))) ?M"
  have xs: "zip ?M (lift_records ops R src ?M) = ?xs"
    using lift_records_ok [OF assms(1-3) R_def src_def] by (simp add: zip_map2 map_zip_map2 zip_same_conv_map comp_def)
  have taken: "i < length ts \<and> (\<exists>j. taken_over L (?e i) (src ! i) j)" if "i \<in> set ?M" for i
    using moved_source [OF ok that [unfolded R_def src_def]] by (simp add: R_def src_def)
  have fits: "length (slice_at (unat (src ! i)) (?n i) (img s)) = ?n i \<and> ?n i \<le> unat (m_cap (?e i))"
    if "taken_over L (?e i) (src ! i) j" for i j
    using taken_over_facts(4,5) [OF ok that] by simp
  have "distinct (map fst ?xs)"
    by (simp add: comp_def moved_records_def)
  moreover have "\<forall>(i, bs)\<in>set ?xs. i < m_entries R \<and> length bs \<le> unat (m_cap (?e i))"
    using taken fits by (fastforce simp: R_def)
  moreover have "m_store R = Some s"
    using assms(1) by (simp add: R_def)
  ultimately obtain s' where s': "lay_records ops R ?xs = R\<lparr>m_store := Some s'\<rparr>" "inv s'" "length (img s') = length (img s)"
      "\<forall>(i, bs)\<in>set ?xs. slice_at (unat (m_offset (?e i))) (length bs) (img s') = bs"
      "\<And>j. j < m_entries R \<Longrightarrow> j \<notin> fst ` set ?xs \<Longrightarrow>
         same_on (unat (m_offset (?e j))) (unat (m_offset (?e j)) + unat (m_cap (?e j))) (img s) (img s')"
    using lay_records_ok [OF geo _ assms(2), of ?xs] by auto
  have "slice_at (unat (m_offset (?e i))) (?n i) (img s') = slice_at (unat (src ! i)) (?n i) (img s)"
    if i: "i < length ts" and t: "taken_over L (?e i) (src ! i) j" for i j
  proof (cases "i \<in> set ?M")
    case True
    then have "(i, slice_at (unat (src ! i)) (?n i) (img s)) \<in> set ?xs"
      by auto
    with s'(4) show ?thesis
      using fits [OF t] by fastforce
  next
    case False
    then have place: "src ! i = m_offset (?e i)" "i < m_entries R" "i \<notin> fst ` set ?xs"
      using i taken_over_facts(3) [OF ok t] by (auto simp: moved_records_def R_def)
    have "unat (m_offset (?e i)) + unat (m_cap (?e i)) \<le> length (img s)"
      using geometry_entry [OF geo place(2)] by (simp only: entry_fits_def)
    then show ?thesis
      using same_on_slice [OF s'(5) [OF place(2,3)], of "unat (m_offset (?e i))" "?n i"] fits [OF t] place(1) by simp
  qed
  with s' xs show ?thesis
    by auto
qed

end

lemma relaid_lookup:
  assumes ts: "tables_ok env sz ts" and old: "list_all within_slot old" and dir: "length (m_directory L) = MAX_TABLES env"
    and entry: "\<And>i. i < length ts \<Longrightarrow> Some (rec_data env' img (m_directory (relaid env old ts L) ! i),
        m_version (m_directory (relaid env old ts L) ! i)) = M (m_table_id (ts ! i))"
    and none: "\<And>ident. List.find (\<lambda>t. m_table_id t = ident) ts = None \<Longrightarrow> M ident = None"
  shows "lookup env' img (relaid env old ts L) = M"
proof
  fix ident
  show "lookup env' img (relaid env old ts L) ident = M ident"
  proof (cases "ident \<in> set (map m_table_id ts)")
    case True
    then obtain i where i: "i < length ts" "ident = m_table_id (ts ! i)"
      by (auto simp: in_set_conv_nth)
    then show ?thesis
      using relaid_find [OF ts i(1) old dir] entry [OF i(1)] by (simp add: lookup_def)
  next
    case False
    then have "List.find (\<lambda>t. m_table_id t = ident) ts = None"
      by (auto simp: find_None_iff)
    then show ?thesis
      using relaid_find_None [OF False] none by (simp add: lookup_def)
  qed
qed

text \<open>What the relaid directory stands for over an image into which the records have been carried.\<close>

lemma relaid_records:
  assumes ok: "db_ok env img L" and ts: "tables_ok env (length img) ts" and geo: "geometry env (length img') R"
    and R_def: "R = relaid env (entries_of L) ts L" and src_def: "src = map snd (place_all env (entries_of L) ts)"
    and bytes: "\<And>i j. i < length ts \<Longrightarrow> taken_over L (m_directory R ! i) (src ! i) j \<Longrightarrow>
        slice_at (unat (m_offset (m_directory R ! i))) (unat (m_len (m_directory R ! i)) + overhead (m_directory R ! i)) img'
        = slice_at (unat (src ! i)) (unat (m_len (m_directory R ! i)) + overhead (m_directory R ! i)) img"
  shows "\<forall>i < m_entries R. rec_ok env img' (m_directory R ! i)" "lookup env img' R = repacked env img L ts"
proof -
  let ?e = "\<lambda>i. m_directory R ! i"
  have dir: "length (m_directory L) = MAX_TABLES env"
    using ok by (simp add: db_ok_def geometry_def)
  have entry: "rec_ok env img' (?e i) \<and> Some (rec_data env img' (?e i), m_version (?e i)) = repacked env img L ts (m_table_id (ts ! i))"
    if i: "i < length ts" for i
  proof -
    let ?id = "m_table_id (ts ! i)"
    have tab: "List.find (\<lambda>t. m_table_id t = ?id) ts = Some (ts ! i)"
      using find_table [OF _ i] ts by (simp add: tables_ok_def)
    have p: "place_all env (entries_of L) ts ! i = (?e i, src ! i)"
      using i by (simp add: R_def src_def)
    have "unat (m_offset (?e i)) + unat (m_cap (?e i)) \<le> length img'"
      using geometry_entry [OF geo, of i] i unfolding entry_fits_def R_def by simp
    note rec = taken_over_record [OF ok _ bytes [OF i] this]
    show ?thesis
    proof (cases "\<exists>j. find_entry L ?id = Some j \<and> keeps env (ts ! i) (m_directory L ! j)")
      case True
      then obtain j where j: "find_entry L ?id = Some j" "keeps env (ts ! i) (m_directory L ! j)"
        by blast
      with placed_source [OF ok i p] have t: "taken_over L (?e i) (src ! i) j"
        by simp
      show ?thesis
        using rec [OF t t] j tab by (simp add: repacked_def)
    next
      case False
      with placed_source [OF ok i p] have "m_len (?e i) = 0" "m_version (?e i) = m_table_version (ts ! i)"
        by (auto split: option.splits)
      then show ?thesis
        using False tab by (auto simp: repacked_def rec_ok_def rec_data_def split: option.splits)
    qed
  qed
  then show "\<forall>i < m_entries R. rec_ok env img' (?e i)"
    by (simp add: R_def)
  show "lookup env img' R = repacked env img L ts"
    using relaid_lookup [OF ts db_ok_within(1) [OF ok] dir, of env img' "repacked env img L ts"] entry
    by (auto simp: R_def repacked_def)
qed

context db_store
begin

text \<open>The directory pass, and that no scratch is asked for only when nothing moves.\<close>

lemma repack_places:
  assumes "inv s" "length (m_directory L) = MAX_TABLES env" "tables_ok env (length (img s)) ts"
  shows "repack_tables env (st_capacity ops s) (take (m_entries L) (m_directory L)) ts
      (of_nat (DB_PAYLOAD_START env)) (m_directory L) 0 []
    = (PDI_OK, m_directory (relaid env (entries_of L) ts L), length ts, map snd (place_all env (entries_of L) ts))"
proof -
  have t: "length ts \<le> MAX_TABLES env" "DB_PAYLOAD_START env + slots_total env ts \<le> length (img s)"
    using assms(3) by (simp_all add: tables_ok_def)
  have cap: "unat (st_capacity ops s) = length (img s)" "length (img s) < 2 ^ 16"
    using capacity [OF assms(1)] capacity_max [OF assms(1)] by simp_all
  moreover have "unat (of_nat (DB_PAYLOAD_START env) :: u32) = DB_PAYLOAD_START env"
    using t cap by (simp add: unat_of_nat)
  ultimately show ?thesis
    using repack_tables_ok [of "st_capacity ops s" "m_directory L" env 0 ts "of_nat (DB_PAYLOAD_START env)" "entries_of L" "[]"] assms(2) t
    by (simp add: relaid_def place_all_def entries_of_def)
qed

lemma nothing_moved:
  assumes ok: "db_ok env im L" and R_def: "R = relaid env (entries_of L) ts L" and src_def: "src = map snd (place_all env (entries_of L) ts)"
    and zero: "sum_list (map (\<lambda>i. unat (db_stored_bytes (m_directory R ! i))) (moved_records R src)) = 0"
  shows "moved_records R src = []"
proof (rule ccontr)
  assume "moved_records R src \<noteq> []"
  then obtain i where i: "i \<in> set (moved_records R src)"
    by (meson last_in_set)
  obtain j where "taken_over L (m_directory R ! i) (src ! i) j"
    using moved_source(2) [OF ok i [unfolded R_def src_def]] unfolding R_def src_def ..
  from taken_over_facts(1,2) [OF ok this] zero i show False
    by auto
qed

lemma repack_ok:
  assumes L: "m_store L = Some s" "inv s" and ok: "db_ok env (img s) L"
    and ts: "tables_ok env (length (img s)) ts" and heap: "\<And>n. env_heap env n"
  shows "\<exists>L' s'. repack ops env L ts = (PDI_OK, L') \<and> m_store L' = Some s' \<and> inv s' \<and> db_ok env (img s') L'
    \<and> media s' = img s' \<and> length (img s') = length (img s) \<and> lookup env (img s') L' = repacked env (img s) L ts
    \<and> m_formatted L' = m_formatted L \<and> slots L' = table_slots env ts"
proof -
  define R where "R = relaid env (entries_of L) ts L"
  define src where "src = map snd (place_all env (entries_of L) ts)"
  have dir: "length (m_directory L) = MAX_TABLES env"
    using ok by (simp add: db_ok_def geometry_def)
  have geo: "geometry env (length (img s)) R"
    unfolding R_def by (rule relaid_geometry [OF ts db_ok_within(1) [OF ok] dir])
  have t: "length ts \<le> MAX_TABLES env" "DB_PAYLOAD_START env \<le> length (img s)"
    using ts by (simp_all add: tables_ok_def)
  have placed: "repack_tables env (st_capacity ops s) (take (m_entries L) (m_directory L)) ts
      (of_nat (DB_PAYLOAD_START env)) (m_directory L) 0 [] = (PDI_OK, m_directory R, length ts, src)"
    unfolding R_def src_def by (rule repack_places [OF L(2) dir ts])
  have R: "L\<lparr>m_directory := m_directory R, m_entries := length ts\<rparr> = R"
    by (simp add: R_def relaid_def)
  let ?M = "moved_records R src"
  obtain s1 where s1: "lay_records ops R (zip ?M (lift_records ops R src ?M)) = R\<lparr>m_store := Some s1\<rparr>" "inv s1"
      "length (img s1) = length (img s)"
      "\<And>i j. i < length ts \<Longrightarrow> taken_over L (m_directory R ! i) (src ! i) j \<Longrightarrow>
        slice_at (unat (m_offset (m_directory R ! i))) (unat (m_len (m_directory R ! i)) + overhead (m_directory R ! i)) (img s1)
        = slice_at (unat (src ! i)) (unat (m_len (m_directory R ! i)) + overhead (m_directory R ! i)) (img s)"
    using carried_bytes [OF L ok geo R_def src_def] by blast
  have lay: "(if sum_list (map (\<lambda>i. unat (db_stored_bytes (m_directory R ! i))) ?M) \<noteq> 0
      then lay_records ops R (zip ?M (lift_records ops R src ?M)) else R) = R\<lparr>m_store := Some s1\<rparr>"
    using s1(1) nothing_moved [OF ok R_def src_def] by auto
  let ?R1 = "R\<lparr>m_store := Some s1\<rparr>"
  have geo1: "geometry env (length (img s1)) ?R1"
    using geo s1(3) by simp
  note recs = relaid_records [OF ok ts geo [folded s1(3)] R_def src_def s1(4)]
  have "m_entries ?R1 \<le> MAX_TABLES env" "DB_PAYLOAD_START env \<le> length (img s1)"
    using t s1(3) by (simp_all add: R_def)
  then obtain s2 where s2: "(case write_entries ops ?R1 [0..<m_entries ?R1] of
        (err, L) \<Rightarrow> if err \<noteq> PDI_OK then (err, L) else write_superblock ops L) = (PDI_OK, ?R1\<lparr>m_store := Some s2\<rparr>)"
      "framed_up env s1 ?R1 s2"
    using write_frame_ok [of ?R1 s1 env] s1(2) by auto
  have up: "\<forall>i < m_entries R. rec_ok env (img s2) (m_directory R ! i)" "lookup env (img s2) R = repacked env (img s) L ts"
    using framed_up_ok [OF s2(2) geo1] recs geo s1(3) by simp_all
  have "repack ops env L ts = (PDI_OK, R\<lparr>m_store := Some s2\<rparr>)"
    by (simp only: repack_def Let_def L(1) option.sel placed prod.case R heap not_True_eq_False simp_thms if_False lay s2(1)) simp
  moreover have "inv s2" "media s2 = img s2" "length (img s2) = length (img s)" "framed (img s2) ?R1"
    using s2(2) s1(3) by (simp_all add: framed_up_def)
  moreover have "m_mounted R" "m_formatted R = m_formatted L" "slots R = table_slots env ts"
    using ok by (simp_all add: R_def db_ok_def relaid_slots)
  ultimately show ?thesis
    using up geo by (intro exI [of _ "R\<lparr>m_store := Some s2\<rparr>"] exI [of _ s2]) (simp add: db_ok_def)
qed

end

text \<open>Mounting an image under other tables than it was written with.\<close>

lemma same_db_repacked: "same_db L0 L1 \<Longrightarrow> repacked env img L1 ts = repacked env img L0 ts"
proof
  fix ident
  assume same: "same_db L0 L1"
  have "m_directory L1 ! j = m_directory L0 ! j" if "find_entry L0 ident = Some j" for j
    using same find_entry_Some [OF that] by (auto simp: same_db_def)
  then show "repacked env img L1 ts ident = repacked env img L0 ts ident"
    using same_db_find [OF same] by (auto simp: repacked_def split: option.splits)
qed

context db_store
begin

lemma mount_repack_ok:
  assumes "inv s" "db_ok env (img s) L0" "\<not> geometry_matches env L0 ts" "length (m_directory L) = MAX_TABLES env"
    and ts: "tables_ok env (length (img s)) ts" and heap: "\<And>n. env_heap env n"
  shows "\<exists>L' s'. mount ops env L (Some s) ts = (PDI_OK, L') \<and> m_store L' = Some s' \<and> inv s' \<and> db_ok env (img s') L'
    \<and> media s' = img s' \<and> length (img s') = length (img s) \<and> lookup env (img s') L' = repacked env (img s) L0 ts
    \<and> \<not> m_formatted L' \<and> slots L' = table_slots env ts"
proof -
  let ?L = "L\<lparr>m_store := Some s, m_mounted := False, m_formatted := False\<rparr>"
  have ok: "framed (img s) L0" "geometry env (length (img s)) L0" "\<forall>i < m_entries L0. rec_ok env (img s) (m_directory L0 ! i)"
    using assms(2) by (simp_all add: db_ok_def)
  have room: "\<not> unat (st_capacity ops s) < DB_PAYLOAD_START env"
    using capacity [OF assms(1)] ok(2) by (simp add: geometry_def)
  obtain L1 L2 where 1: "read_superblock ops env ?L = (PDI_OK, L1)" "read_directory ops L1 = (PDI_OK, L2)"
      "same_db L0 L2" "m_store L2 = Some s" "\<not> m_formatted L2"
    using read_frame_ok [of ?L s L0 env] assms(1,4) ok by auto
  let ?M = "L2\<lparr>m_mounted := True\<rparr>"
  have same: "same_db L0 ?M"
    using 1(3) by (simp add: same_db_def)
  have "db_ok env (img s) ?M"
    using same_db_ok [OF same] assms(2) by simp
  from repack_ok [of ?M, OF _ assms(1) this ts heap] obtain L' s' where r: "repack ops env ?M ts = (PDI_OK, L')" "m_store L' = Some s'"
      "inv s'" "db_ok env (img s') L'" "media s' = img s'" "length (img s') = length (img s)"
      "lookup env (img s') L' = repacked env (img s) ?M ts" "m_formatted L' = m_formatted ?M" "slots L' = table_slots env ts"
    using 1(4) by auto
  have "mount ops env L (Some s) ts = (PDI_OK, L')"
    using room 1(1,2) r(1) same_db_matches [OF same] assms(3) by (simp add: mount_def Let_def)
  with r 1(5) show ?thesis
    using same_db_repacked [OF same] by auto
qed

end

end
