(* ===== verification/DbRefine.thy ===== *)
theory DbRefine
  imports DbRepack
begin

text \<open>
  What the layout engine promises its callers, as an abstract state: a slot per table, and a
  finite map from table ids to the bytes and the version last written. The calls of
  \<open>DbLayout\<close>, power cycles and mounts under changed tables included, are shown to answer
  as that state does over any store that keeps the contract of \<open>durable_store\<close>.
\<close>

section \<open>The abstract database\<close>

record table_spec =
  sp_slots :: "(u16 \<times> u16 \<times> u8) list"
  sp_map :: "u16 \<Rightarrow> (bytes \<times> u16) option"

definition slot_of :: "(u16 \<times> u16 \<times> u8) list \<Rightarrow> u16 \<Rightarrow> (u16 \<times> u8) option" where
  "slot_of sl ident = map_option snd (List.find (\<lambda>x. fst x = ident) sl)"

definition flag_sealed :: "u8 \<Rightarrow> bool" where
  "flag_sealed fl \<longleftrightarrow> fl AND DB_ENTRY_FLAG_SEALED \<noteq> 0"

definition flag_overhead :: "u8 \<Rightarrow> nat" where
  "flag_overhead fl = (if flag_sealed fl then DB_SEAL_OVERHEAD else 0)"

datatype db_call =
    CallVerify u16
  | CallRead u16 bytes
  | CallWrite u16 bytes u16
  | CallClear u16
  | CallReboot "struct_tables list"

datatype db_answer =
    Answer pdi_err
  | AnswerRead pdi_err bytes nat u16

definition slots_match :: "db_env \<Rightarrow> (u16 \<times> u16 \<times> u8) list \<Rightarrow> struct_tables list \<Rightarrow> bool" where
  "slots_match env sl ts \<longleftrightarrow> length ts = length sl \<and>
     list_all (\<lambda>t. map_option fst (slot_of sl (m_table_id t)) = Some (db_slot_for env t)) ts"

text \<open>
  A mount under tables whose slots differ keeps a record when its table is still registered, is
  sealed or not as before, and its new slot has room; every other table starts empty.
\<close>

definition spec_carry :: "db_env \<Rightarrow> table_spec \<Rightarrow> struct_tables \<Rightarrow> bytes \<times> u16" where
  "spec_carry env A t =
     (case (slot_of (sp_slots A) (m_table_id t), sp_map A (m_table_id t)) of
        (Some (cap, fl), Some (d, v)) \<Rightarrow>
          if d \<noteq> [] \<and> flag_sealed fl = db_seals env t \<and> length d + flag_overhead fl \<le> unat (db_slot_for env t)
          then (d, v) else ([], m_table_version t)
      | _ \<Rightarrow> ([], m_table_version t))"

definition spec_mount :: "db_env \<Rightarrow> struct_tables list \<Rightarrow> table_spec \<Rightarrow> table_spec" where
  "spec_mount env ts A =
     (if slots_match env (sp_slots A) ts then A
      else \<lparr>sp_slots = table_slots env ts,
            sp_map = (\<lambda>ident. map_option (spec_carry env A) (List.find (\<lambda>t. m_table_id t = ident) ts))\<rparr>)"

fun spec_call :: "db_env \<Rightarrow> db_call \<Rightarrow> table_spec \<Rightarrow> db_answer \<times> table_spec" where
  "spec_call env (CallVerify ident) A =
     (Answer (if sp_map A ident = None then PDI_ERR_NOT_FOUND else PDI_OK), A)"
| "spec_call env (CallRead ident buf) A =
     (case sp_map A ident of
        None \<Rightarrow> (AnswerRead PDI_ERR_NOT_FOUND buf 0 0, A)
      | Some (d, v) \<Rightarrow> (AnswerRead PDI_OK (take (length buf) d @ drop (length d) buf) (min (length d) (length buf)) v, A))"
| "spec_call env (CallWrite ident d v) A =
     (case slot_of (sp_slots A) ident of
        None \<Rightarrow> (Answer PDI_ERR_NOT_FOUND, A)
      | Some (cap, fl) \<Rightarrow>
          if unat cap < length d + flag_overhead fl then (Answer PDI_ERR_NO_SPACE, A)
          else (Answer PDI_OK, A\<lparr>sp_map := (sp_map A)(ident \<mapsto> (d, v))\<rparr>))"
| "spec_call env (CallClear ident) A =
     (case sp_map A ident of
        None \<Rightarrow> (Answer PDI_ERR_NOT_FOUND, A)
      | Some (d, v) \<Rightarrow> (Answer PDI_OK, A\<lparr>sp_map := (sp_map A)(ident \<mapsto> ([], v))\<rparr>))"
| "spec_call env (CallReboot ts) A = (Answer PDI_OK, spec_mount env ts A)"

fun spec_calls :: "db_env \<Rightarrow> db_call list \<Rightarrow> table_spec \<Rightarrow> db_answer list" where
  "spec_calls env [] A = []"
| "spec_calls env (c # cs) A = (case spec_call env c A of (a, A) \<Rightarrow> a # spec_calls env cs A)"

section \<open>The calls on the layout\<close>

text \<open>
  A power cycle loses the engine's RAM: a new \<open>DbLayout\<close> mounts what the store holds
  after its own restart. Only the random source goes on where it was.
\<close>

fun run_call :: "'s iDbStoreInterface \<Rightarrow> ('s \<Rightarrow> 's) \<Rightarrow> db_env \<Rightarrow> db_call \<Rightarrow> 's DbLayout \<Rightarrow> db_answer \<times> 's DbLayout" where
  "run_call ops reboot env (CallVerify ident) L = (Answer (verify_record ops env L ident), L)"
| "run_call ops reboot env (CallRead ident buf) L =
     (case read_record ops env L ident buf of (err, out, n, v) \<Rightarrow> (AnswerRead err out n v, L))"
| "run_call ops reboot env (CallWrite ident d v) L =
     (case write_record ops env L ident d v of (err, L) \<Rightarrow> (Answer err, L))"
| "run_call ops reboot env (CallClear ident) L =
     (case clear_record ops L ident of (err, L) \<Rightarrow> (Answer err, L))"
| "run_call ops reboot env (CallReboot ts) L =
     (case mount ops env ((DbLayout_new env)\<lparr>m_draws := m_draws L\<rparr>) (Some (reboot (dl_store L))) ts of
        (err, L) \<Rightarrow> (Answer err, L))"

fun run_calls :: "'s iDbStoreInterface \<Rightarrow> ('s \<Rightarrow> 's) \<Rightarrow> db_env \<Rightarrow> db_call list \<Rightarrow> 's DbLayout \<Rightarrow> db_answer list" where
  "run_calls ops reboot env [] L = []"
| "run_calls ops reboot env (c # cs) L = (case run_call ops reboot env c L of (a, L) \<Rightarrow> a # run_calls ops reboot env cs L)"

text \<open>The tables a mount is given fit the store.\<close>

fun call_ok :: "db_env \<Rightarrow> nat \<Rightarrow> db_call \<Rightarrow> bool" where
  "call_ok env sz (CallReboot ts) = tables_ok env sz ts"
| "call_ok env sz _ = True"

section \<open>Slots and contents of a directory\<close>

lemma slot_of_found:
  assumes "m_entries L \<le> length (m_directory L)"
  shows "slot_of (slots L) ident = map_option (\<lambda>i. (m_cap (m_directory L ! i), m_flags (m_directory L ! i))) (find_entry L ident)"
  using find_old [OF assms, of ident] by (simp add: slot_of_def slots_def find_map_list comp_def option.map_comp)

lemma matches_slots:
  assumes "m_entries L \<le> length (m_directory L)"
  shows "geometry_matches env L ts = slots_match env (slots L) ts"
proof -
  have "length (slots L) = m_entries L"
    using assms by (simp add: slots_def entries_of_def)
  then show ?thesis
    unfolding geometry_matches_def slots_match_def slot_of_found [OF assms]
    by (simp add: option.map_comp comp_def cong: list_all_cong) (auto simp: list_all_iff split: option.splits)
qed

lemma rec_data_length:
  assumes "db_ok env img L" "find_entry L ident = Some j"
  shows "length (rec_data env img (m_directory L ! j)) = unat (m_len (m_directory L ! j))"
proof -
  have "entry_fits env (length img) (m_directory L ! j)"
    using assms find_entry_Some [OF assms(2)] geometry_entry by (auto simp: db_ok_def)
  then show ?thesis
    by (auto simp: rec_data_def entry_fits_def overhead_def Let_def)
qed

lemma repacked_spec:
  assumes ok: "db_ok env img L"
  shows "repacked env img L ts = (\<lambda>ident. map_option (spec_carry env \<lparr>sp_slots = slots L, sp_map = lookup env img L\<rparr>)
    (List.find (\<lambda>t. m_table_id t = ident) ts))"
proof
  fix ident
  have n: "m_entries L \<le> length (m_directory L)"
    by (rule db_ok_within(2) [OF ok])
  show "repacked env img L ts ident = map_option (spec_carry env \<lparr>sp_slots = slots L, sp_map = lookup env img L\<rparr>)
      (List.find (\<lambda>t. m_table_id t = ident) ts)"
  proof (cases "List.find (\<lambda>t. m_table_id t = ident) ts")
    case (Some t)
    then have t: "m_table_id t = ident"
      by (auto simp: find_Some_iff)
    show ?thesis
    proof (cases "find_entry L ident")
      case None
      then show ?thesis
        using Some t n by (simp add: repacked_def spec_carry_def slot_of_found)
    next
      case (Some j)
      let ?e = "m_directory L ! j"
      have "(rec_data env img ?e \<noteq> []) = (m_len ?e \<noteq> 0)"
        using rec_data_length [OF ok Some] by (metis length_0_conv unat_eq_zero)
      then show ?thesis
        using \<open>List.find _ ts = Some t\<close> Some t n rec_data_length [OF ok Some]
        by (simp add: repacked_def spec_carry_def slot_of_found lookup_def keeps_def flag_sealed_def flag_overhead_def
            entry_sealed_def overhead_def db_consts)
    qed
  qed (simp add: repacked_def)
qed

section \<open>The simulation\<close>

text \<open>
  A store with a restart: what it holds afterwards is what had reached the medium.
\<close>

locale durable_store = db_store ops inv img media
  for ops :: "'s iDbStoreInterface" and inv img media +
  fixes reboot :: "'s \<Rightarrow> 's"
  assumes reboot: "inv s \<Longrightarrow> inv (reboot s) \<and> img (reboot s) = media s \<and> media (reboot s) = media s"
begin

definition db_refines :: "db_env \<Rightarrow> nat \<Rightarrow> 's DbLayout \<Rightarrow> table_spec \<Rightarrow> bool" where
  "db_refines env sz L A \<longleftrightarrow> (\<exists>s. m_store L = Some s \<and> inv s \<and> db_ok env (img s) L \<and> media s = img s
     \<and> length (img s) = sz \<and> slots L = sp_slots A \<and> lookup env (img s) L = sp_map A)"

lemma updates_refines:
  assumes "updates env s L ident r L'" "length (img s) = sz" "slots L = sp_slots A" "lookup env (img s) L = sp_map A"
  shows "db_refines env sz L' (A\<lparr>sp_map := (sp_map A)(ident \<mapsto> r)\<rparr>)"
  using assms unfolding updates_def db_refines_def by auto

lemma read_refines:
  assumes "db_refines env sz L A" "env_ok env" "c = CallVerify ident \<or> c = CallRead ident buf"
  shows "run_call ops reboot env c L = (fst (spec_call env c A), L) \<and> snd (spec_call env c A) = A"
proof -
  obtain s where s: "m_store L = Some s" "inv s" "db_ok env (img s) L" "lookup env (img s) L = sp_map A"
    using assms(1) unfolding db_refines_def by blast
  have ok: "geometry env (length (img s)) L" "m_mounted L"
    using s(3) by (simp_all add: db_ok_def)
  show ?thesis
  proof (cases "find_entry L ident")
    case None
    then have "sp_map A ident = None"
      unfolding s(4) [symmetric] by (simp add: lookup_def)
    then show ?thesis
      using assms(3) None ok(2) by (auto simp: verify_record_def read_record_def)
  next
    case (Some i)
    have "rec_ok env (img s) (m_directory L ! i)"
      using s(3) find_entry_Some [OF Some] by (simp add: db_ok_def)
    moreover have "sp_map A ident = Some (rec_data env (img s) (m_directory L ! i), m_version (m_directory L ! i))"
      unfolding s(4) [symmetric] by (simp add: lookup_def Some)
    ultimately show ?thesis
      using assms(3) verify_record_answer [OF s(1,2) ok assms(2) Some] read_record_found [OF s(1-3) assms(2) Some, of buf]
      by (auto simp: Let_def)
  qed
qed

lemma write_refines:
  assumes "db_refines env sz L A" "env_ok env"
  shows "\<exists>L'. run_call ops reboot env (CallWrite ident d v) L = (fst (spec_call env (CallWrite ident d v) A), L')
    \<and> db_refines env sz L' (snd (spec_call env (CallWrite ident d v) A))"
proof -
  obtain s where s: "m_store L = Some s" "inv s" "db_ok env (img s) L" "length (img s) = sz" "slots L = sp_slots A"
      "lookup env (img s) L = sp_map A"
    using assms(1) unfolding db_refines_def by blast
  have mounted: "m_mounted L"
    using s(3) by (simp add: db_ok_def)
  note sl = slot_of_found [OF db_ok_within(2) [OF s(3)], of ident, unfolded s(5)]
  show ?thesis
  proof (cases "find_entry L ident")
    case None
    then show ?thesis
      using assms(1) sl mounted by (simp add: write_record_def)
  next
    case (Some i)
    let ?e = "m_directory L ! i"
    have over: "flag_overhead (m_flags ?e) = overhead ?e" "DB_SEAL_OVERHEAD = 32"
      by (simp_all add: flag_overhead_def flag_sealed_def overhead_def entry_sealed_def db_consts)
    show ?thesis
    proof (cases "unat (m_cap ?e) < length d + overhead ?e")
      case True
      then show ?thesis
        using assms(1) sl mounted Some over by (auto simp: write_record_def overhead_def Let_def)
    next
      case False
      then obtain L' where "write_record ops env L ident d v = (PDI_OK, L')" "updates env s L ident (d, v) L'"
        using write_record_ok [OF s(1-3) assms(2) Some, of d v] by auto
      then show ?thesis
        using updates_refines [OF _ s(4-6)] sl Some over False by auto
    qed
  qed
qed

lemma clear_refines:
  assumes "db_refines env sz L A"
  shows "\<exists>L'. run_call ops reboot env (CallClear ident) L = (fst (spec_call env (CallClear ident) A), L')
    \<and> db_refines env sz L' (snd (spec_call env (CallClear ident) A))"
proof -
  obtain s where s: "m_store L = Some s" "inv s" "db_ok env (img s) L" "length (img s) = sz" "slots L = sp_slots A"
      "lookup env (img s) L = sp_map A"
    using assms(1) unfolding db_refines_def by blast
  have mounted: "m_mounted L"
    using s(3) by (simp add: db_ok_def)
  show ?thesis
  proof (cases "find_entry L ident")
    case None
    then have "sp_map A ident = None"
      unfolding s(6) [symmetric] by (simp add: lookup_def)
    then show ?thesis
      using assms mounted None by (simp add: clear_record_def)
  next
    case (Some i)
    obtain L' where "clear_record ops L ident = (PDI_OK, L')" "updates env s L ident ([], m_version (m_directory L ! i)) L'"
      using clear_record_ok [OF s(1-3) Some] by blast
    moreover have "sp_map A ident = Some (rec_data env (img s) (m_directory L ! i), m_version (m_directory L ! i))"
      unfolding s(6) [symmetric] by (simp add: lookup_def Some)
    ultimately show ?thesis
      using updates_refines [OF _ s(4-6)] by auto
  qed
qed

lemma reboot_refines:
  assumes "db_refines env sz L A" "tables_ok env sz ts" and heap: "\<And>n. env_heap env n"
  shows "\<exists>L'. run_call ops reboot env (CallReboot ts) L = (Answer PDI_OK, L') \<and> db_refines env sz L' (spec_mount env ts A)"
proof -
  obtain s where s: "m_store L = Some s" "inv s" "db_ok env (img s) L" "length (img s) = sz" "slots L = sp_slots A"
      "lookup env (img s) L = sp_map A" "media s = img s"
    using assms(1) unfolding db_refines_def by blast
  let ?N = "(DbLayout_new env :: 's DbLayout)\<lparr>m_draws := m_draws L\<rparr>"
  have r: "inv (reboot s)" "img (reboot s) = img s" "media (reboot s) = img s"
    using reboot [OF s(2)] s(7) by simp_all
  have ok: "db_ok env (img (reboot s)) L" "tables_ok env (length (img (reboot s))) ts"
    using s assms(2) r by simp_all
  have new: "length (m_directory ?N) = MAX_TABLES env"
    by (simp add: DbLayout_new_def)
  have A: "\<lparr>sp_slots = slots L, sp_map = lookup env (img s) L\<rparr> = A"
    using s(5,6) by simp
  have match: "geometry_matches env L ts = slots_match env (sp_slots A) ts"
    using matches_slots [OF db_ok_within(2) [OF s(3)]] s(5) by simp
  show ?thesis
  proof (cases "geometry_matches env L ts")
    case True
    obtain L1 where L1: "mount ops env ?N (Some (reboot s)) ts = (PDI_OK, L1)" "same_db L L1" "m_store L1 = Some (reboot s)" "m_mounted L1"
      using mount_same [OF r(1) ok(1) True new] by blast
    have "db_refines env sz L1 A"
      unfolding db_refines_def
      using L1(3) same_db_ok [OF L1(2,4) ok(1)] same_db_lookup [OF L1(2), of env "img s"] r s
        same_db_geometry(2) [OF L1(2), of env sz] by (intro exI [of _ "reboot s"]) (simp add: db_ok_def)
    then show ?thesis
      using L1(1) s(1) True match by (simp add: spec_mount_def)
  next
    case False
    obtain L' s' where L': "mount ops env ?N (Some (reboot s)) ts = (PDI_OK, L')" "m_store L' = Some s'" "inv s'"
        "db_ok env (img s') L'" "media s' = img s'" "length (img s') = length (img s)" "slots L' = table_slots env ts"
        "lookup env (img s') L' = repacked env (img s) L ts"
      using mount_repack_ok [OF r(1) ok(1) False new ok(2) heap] r(2) by auto
    have "spec_mount env ts A = \<lparr>sp_slots = table_slots env ts, sp_map = repacked env (img s) L ts\<rparr>"
      using False match repacked_spec [OF s(3), of ts] A by (simp add: spec_mount_def)
    then have "db_refines env sz L' (spec_mount env ts A)"
      unfolding db_refines_def using L' s(4) by auto
    then show ?thesis
      using L'(1) s(1) by simp
  qed
qed

lemma call_refines:
  assumes "db_refines env sz L A" "env_ok env" "\<And>n. env_heap env n" "call_ok env sz c"
  shows "\<exists>L'. run_call ops reboot env c L = (fst (spec_call env c A), L') \<and> db_refines env sz L' (snd (spec_call env c A))"
proof (cases c)
  case (CallVerify ident)
  then show ?thesis
    using read_refines [OF assms(1,2), of c ident] assms(1) by auto
next
  case (CallRead ident buf)
  then show ?thesis
    using read_refines [OF assms(1,2), of c ident buf] assms(1) by auto
next
  case (CallWrite ident d v)
  then show ?thesis
    using write_refines [OF assms(1,2), of ident d v] by blast
next
  case (CallClear ident)
  then show ?thesis
    using clear_refines [OF assms(1), of ident] by blast
next
  case (CallReboot ts)
  then show ?thesis
    using reboot_refines [OF assms(1) _ assms(3), of ts] assms(4) by auto
qed

lemma calls_refine:
  "db_refines env sz L A \<Longrightarrow> env_ok env \<Longrightarrow> (\<And>n. env_heap env n) \<Longrightarrow> list_all (call_ok env sz) cs \<Longrightarrow>
    run_calls ops reboot env cs L = spec_calls env cs A"
proof (induction cs arbitrary: L A)
  case (Cons c cs)
  obtain L' where L': "run_call ops reboot env c L = (fst (spec_call env c A), L')" "db_refines env sz L' (snd (spec_call env c A))"
    using call_refines [OF Cons.prems(1-3), of c] Cons.prems(4) by auto
  then show ?case
    using Cons.IH [OF L'(2) Cons.prems(2,3)] Cons.prems(4) by (simp split: prod.split)
qed simp

text \<open>From a store that holds no database, the first mount gives every table an empty record.\<close>

lemma fresh_refines:
  assumes "inv s" "length (img s) = sz" "tables_ok env sz ts" "length (m_directory L) = MAX_TABLES env"
    and "read_superblock ops env (L\<lparr>m_store := Some s, m_mounted := False, m_formatted := False\<rparr>) = (err, L1)" "err \<noteq> PDI_OK"
  shows "\<exists>L'. mount ops env L (Some s) ts = (PDI_OK, L') \<and> m_formatted L'
    \<and> db_refines env sz L' \<lparr>sp_slots = table_slots env ts, sp_map = fresh_map ts\<rparr>"
  using mount_format_ok [OF assms(1,4) _ assms(5,6), of ts] assms(2,3) unfolding db_refines_def by simp blast

end

end
