(* ===== verification/DbCopy.thy ===== *)
theory DbCopy
  imports DbRefine
begin

text \<open>
  Carrying one tier's records into another (\<open>DbLayout::copy_from\<close>): the two layouts
  stand on two stores of different types, so the client lemmas are proved in a locale over two
  \<open>db_store\<close> contracts.
\<close>

text \<open>
  What a layout can hand over: the records that pass their checksum or tag. On a sound database
  that is all of \<open>lookup\<close>.
\<close>

definition readable :: "db_env \<Rightarrow> bytes \<Rightarrow> 's DbLayout \<Rightarrow> u16 \<Rightarrow> (bytes \<times> u16) option" where
  "readable env img L ident =
     (case find_entry L ident of
        None \<Rightarrow> None
      | Some i \<Rightarrow> if rec_ok env img (m_directory L ! i)
          then Some (rec_data env img (m_directory L ! i), m_version (m_directory L ! i)) else None)"

lemma readable_lookup: "db_ok env img L \<Longrightarrow> readable env img L = lookup env img L"
  by (rule ext) (auto simp: readable_def lookup_def db_ok_def dest: find_entry_Some split: option.split)

text \<open>
  What the copy leaves in the destination: each of its tables takes the source's record, and is
  emptied when the source has none.
\<close>

definition copied :: "(u16 \<Rightarrow> (bytes \<times> u16) option) \<Rightarrow> (u16 \<Rightarrow> (bytes \<times> u16) option) \<Rightarrow> u16 \<Rightarrow> (bytes \<times> u16) option" where
  "copied M' M ident =
     (case M ident of
        None \<Rightarrow> None
      | Some (_, v0) \<Rightarrow>
          (case M' ident of
             None \<Rightarrow> Some ([], v0)
           | Some (d, v) \<Rightarrow> if d = [] then Some ([], v0) else Some (d, v)))"

text \<open>Every record of the source has room in the destination's slot of that table.\<close>

definition room_for :: "(u16 \<times> u16 \<times> u8) list \<Rightarrow> (u16 \<Rightarrow> (bytes \<times> u16) option) \<Rightarrow> bool" where
  "room_for sl M' \<longleftrightarrow> (\<forall>ident cap fl d v. slot_of sl ident = Some (cap, fl) \<longrightarrow> M' ident = Some (d, v) \<longrightarrow>
     length d + flag_overhead fl \<le> unat cap)"

lemma room_for_found:
  assumes "room_for (slots L) M'" "db_ok env img L" "find_entry L ident = Some i" "M' ident = Some (d, v)"
  shows "length d + overhead (m_directory L ! i) \<le> unat (m_cap (m_directory L ! i))"
proof -
  have "slot_of (slots L) ident = Some (m_cap (m_directory L ! i), m_flags (m_directory L ! i))"
    using slot_of_found [OF db_ok_within(2) [OF assms(2)]] assms(3) by simp
  then have "length d + flag_overhead (m_flags (m_directory L ! i)) \<le> unat (m_cap (m_directory L ! i))"
    using assms(1,4) unfolding room_for_def by blast
  then show ?thesis
    by (auto simp: flag_overhead_def flag_sealed_def overhead_def entry_sealed_def db_consts split: if_splits)
qed

lemma copied_again: "copied M' (M(ident := copied M' M ident)) = copied M' M"
  by (auto simp: copied_def fun_eq_iff split: option.splits prod.splits)

lemma widest_fold: "n \<le> fold (\<lambda>i w. max w (f i)) is n \<and> (i \<in> set is \<longrightarrow> f i \<le> fold (\<lambda>i w. max w (f i)) is n)" for f :: "nat \<Rightarrow> nat"
proof (induction "is" arbitrary: n)
  case (Cons j js)
  let ?F = "fold (\<lambda>i w. max w (f i)) js (max n (f j))"
  have "max n (f j) \<le> ?F" "i \<in> set js \<longrightarrow> f i \<le> ?F"
    using Cons [of "max n (f j)"] by blast+
  then show ?case
    by auto
qed simp

lemma widest_payload_ge:
  assumes "i < m_entries L" "n + overhead (m_directory L ! i) \<le> unat (m_cap (m_directory L ! i))"
  shows "n \<le> widest_payload L"
proof -
  let ?f = "\<lambda>i. let e = m_directory L ! i in
    if entry_sealed e \<and> unat (m_cap e) \<ge> DB_SEAL_OVERHEAD then unat (m_cap e) - DB_SEAL_OVERHEAD else unat (m_cap e)"
  have "?f i \<le> widest_payload L"
    using widest_fold [of 0 ?f "[0..<m_entries L]" i] assms(1) by (simp add: widest_payload_def Let_def)
  moreover have "n \<le> ?f i"
    using assms(2) by (auto simp: Let_def overhead_def db_consts split: if_splits)
  ultimately show ?thesis
    by linarith
qed

locale tier_copy = dst: db_store ops inv img media + source: db_store ops' inv' img' media'
  for ops :: "'s iDbStoreInterface" and inv img media and ops' :: "'t iDbStoreInterface" and inv' img' media'
begin

text \<open>One table: its record is read from the source and written, or the table is cleared.\<close>

lemma copy_one:
  assumes src: "m_store src = Some t" "inv' t" "geometry env (length (img' t)) src" "m_mounted src" and env: "env_ok env"
    and L: "m_store L = Some s" "inv s" "db_ok env (img s) L" and i: "i < m_entries L"
    and room: "room_for (slots L) (readable env (img' t) src)" and buf: "length buf = widest_payload L"
  shows "\<exists>err buf' len v L' r. read_record ops' env src (m_id (m_directory L ! i)) buf = (err, buf', len, v)
    \<and> (if err \<noteq> PDI_OK \<or> len = 0 then clear_record ops L (m_id (m_directory L ! i))
        else write_record ops env L (m_id (m_directory L ! i)) (take len buf') v) = (PDI_OK, L')
    \<and> dst.updates env s L (m_id (m_directory L ! i)) r L' \<and> length buf' = length buf
    \<and> copied (readable env (img' t) src) (lookup env (img s) L) (m_id (m_directory L ! i)) = Some r"
proof -
  let ?e = "m_directory L ! i" and ?id = "m_id (m_directory L ! i)"
  have find: "find_entry L ?id = Some i"
    using find_entry_id [OF _ i] L(3) by (auto simp: db_ok_def)
  have M: "lookup env (img s) L ?id = Some (rec_data env (img s) ?e, m_version ?e)"
    by (simp add: lookup_def find)
  obtain C where clear: "clear_record ops L ?id = (PDI_OK, C)" "dst.updates env s L ?id ([], m_version ?e) C"
    using dst.clear_record_ok [OF L find] by blast
  show ?thesis
  proof (cases "readable env (img' t) src ?id")
    case None
    then have "\<exists>err. read_record ops' env src ?id buf = (err, buf, 0, 0) \<and> err \<noteq> PDI_OK"
      using source.read_record_damaged [OF src env, of ?id] src(4)
      by (cases "find_entry src ?id") (auto simp: readable_def read_record_def split: if_splits)
    then show ?thesis
      using clear M None by (auto simp: copied_def)
  next
    case (Some r)
    then obtain j where j: "find_entry src ?id = Some j" "rec_ok env (img' t) (m_directory src ! j)"
      by (auto simp: readable_def split: option.splits if_splits)
    let ?d = "rec_data env (img' t) (m_directory src ! j)" and ?v = "m_version (m_directory src ! j)"
    have M': "readable env (img' t) src ?id = Some (?d, ?v)"
      using j by (simp add: readable_def)
    have fits: "length ?d + overhead ?e \<le> unat (m_cap ?e)"
      by (rule room_for_found [OF room L(3) find M'])
    then have n: "length ?d \<le> length buf"
      using widest_payload_ge [OF i] buf by simp
    then have read: "read_record ops' env src ?id buf = (PDI_OK, ?d @ drop (length ?d) buf, length ?d, ?v)"
      using source.read_record_intact [OF src env j, of buf] by (simp add: Let_def)
    obtain W where "write_record ops env L ?id ?d ?v = (PDI_OK, W)" "dst.updates env s L ?id (?d, ?v) W"
      using dst.write_record_ok [OF L env find fits] by blast
    then show ?thesis
      using read clear M M' n by (cases "?d = []") (auto simp: copied_def)
  qed
qed

lemma slots_widest:
  assumes "db_ok env im L" "db_ok env im' L'" "slots L' = slots L"
  shows "widest_payload L' = widest_payload L" "m_entries L' = m_entries L" "\<forall>i < m_entries L. m_id (m_directory L' ! i) = m_id (m_directory L ! i)"
proof -
  have n: "m_entries L \<le> length (m_directory L)" "m_entries L' \<le> length (m_directory L')"
    using db_ok_within(2) assms(1,2) by blast+
  have len: "length (slots L) = m_entries L" "length (slots L') = m_entries L'"
    using n by (simp_all add: slots_def entries_of_def)
  then show "m_entries L' = m_entries L"
    using assms(3) by simp
  have nth: "slots L ! i = (m_id (m_directory L ! i), m_cap (m_directory L ! i), m_flags (m_directory L ! i))"
      "slots L' ! i = (m_id (m_directory L' ! i), m_cap (m_directory L' ! i), m_flags (m_directory L' ! i))"
    if "i < m_entries L" for i
    using that n \<open>m_entries L' = m_entries L\<close> by (simp_all add: slots_def entries_of_def)
  then have same: "m_id (m_directory L' ! i) = m_id (m_directory L ! i) \<and> m_cap (m_directory L' ! i) = m_cap (m_directory L ! i)
      \<and> m_flags (m_directory L' ! i) = m_flags (m_directory L ! i)" if "i < m_entries L" for i
    using that assms(3) by (metis prod.inject)
  then show "\<forall>i < m_entries L. m_id (m_directory L' ! i) = m_id (m_directory L ! i)"
    by blast
  show "widest_payload L' = widest_payload L"
    unfolding widest_payload_def \<open>m_entries L' = m_entries L\<close>
    by (rule fold_cong) (use same in \<open>simp_all add: entry_sealed_def Let_def fun_eq_iff\<close>)
qed

lemma copy_records_ok:
  assumes src: "m_store src = Some t" "inv' t" "geometry env (length (img' t)) src" "m_mounted src" and env: "env_ok env"
  shows "m_store L = Some s \<Longrightarrow> inv s \<Longrightarrow> db_ok env (img s) L \<Longrightarrow> \<forall>i\<in>set is. i < m_entries L \<Longrightarrow>
    room_for (slots L) (readable env (img' t) src) \<Longrightarrow> length buf = widest_payload L \<Longrightarrow>
    \<exists>L' s'. copy_records ops ops' env src L buf is st = (st, L') \<and> m_store L' = Some s' \<and> inv s' \<and> db_ok env (img s') L'
      \<and> (is \<noteq> [] \<longrightarrow> media s' = img s') \<and> slots L' = slots L \<and> length (img s') = length (img s)
      \<and> lookup env (img s') L' = (\<lambda>ident. if ident \<in> (\<lambda>i. m_id (m_directory L ! i)) ` set is
           then copied (readable env (img' t) src) (lookup env (img s) L) ident else lookup env (img s) L ident)"
proof (induction "is" arbitrary: L s buf)
  case Nil
  then show ?case
    by auto
next
  case (Cons i "is")
  let ?M' = "readable env (img' t) src" and ?M = "lookup env (img s) L" and ?id = "m_id (m_directory L ! i)"
  have i: "i < m_entries L"
    using Cons.prems(4) by simp
  obtain err buf' len v L1 r where one: "read_record ops' env src ?id buf = (err, buf', len, v)"
      "(if err \<noteq> PDI_OK \<or> len = 0 then clear_record ops L ?id else write_record ops env L ?id (take len buf') v) = (PDI_OK, L1)"
      "dst.updates env s L ?id r L1" "length buf' = length buf" "copied ?M' ?M ?id = Some r"
    using copy_one [OF src env Cons.prems(1-3) i Cons.prems(5,6)] by blast
  obtain s1 where s1: "m_store L1 = Some s1" "inv s1" "db_ok env (img s1) L1" "media s1 = img s1" "slots L1 = slots L"
      "length (img s1) = length (img s)" "lookup env (img s1) L1 = ?M(?id \<mapsto> r)"
    using one(3) unfolding dst.updates_def by blast
  note w = slots_widest [OF Cons.prems(3) s1(3,5)]
  have "\<forall>j\<in>set is. j < m_entries L1" "length buf' = widest_payload L1" "room_for (slots L1) ?M'"
    using Cons.prems(4-6) w one(4) s1(5) by simp_all
  from Cons.IH [OF s1(1-3) this(1,3,2)] obtain L' s' where
      L': "copy_records ops ops' env src L1 buf' is st = (st, L')" "m_store L' = Some s'" "inv s'" "db_ok env (img s') L'"
        "is \<noteq> [] \<longrightarrow> media s' = img s'" "slots L' = slots L" "length (img s') = length (img s)"
      and look: "lookup env (img s') L' = (\<lambda>ident. if ident \<in> (\<lambda>i. m_id (m_directory L1 ! i)) ` set is
           then copied ?M' (?M(?id \<mapsto> r)) ident else (?M(?id \<mapsto> r)) ident)"
    unfolding s1(5-7) by blast
  have ids: "(\<lambda>i. m_id (m_directory L1 ! i)) ` set is = (\<lambda>i. m_id (m_directory L ! i)) ` set is"
    using w(3) Cons.prems(4) by (intro image_cong) auto
  have again: "copied ?M' (?M(?id \<mapsto> r)) = copied ?M' ?M"
    using copied_again [of ?M' ?M ?id] one(5) by simp
  have "lookup env (img s') L' = (\<lambda>ident. if ident \<in> (\<lambda>i. m_id (m_directory L ! i)) ` set (i # is)
      then copied ?M' ?M ident else ?M ident)"
    unfolding look ids again using one(5) by (auto simp: fun_eq_iff)
  moreover have "copy_records ops ops' env src L buf (i # is) st = (st, L')"
    using one(1,2) L'(1) by simp
  moreover have "media s' = img s'"
    using L' s1 by (cases "is = []") auto
  ultimately show ?case
    using L'(2-7) by blast
qed

text \<open>The whole copy, the case of a directory without any payload room included.\<close>

lemma copy_from_ok:
  assumes src: "m_store src = Some t" "inv' t" "geometry env (length (img' t)) src" "m_mounted src" and env: "env_ok env"
    and L: "m_store L = Some s" "inv s" "db_ok env (img s) L" and heap: "\<And>n. env_heap env n"
    and room: "room_for (slots L) (readable env (img' t) src)"
  shows "\<exists>L' s'. copy_from ops ops' env L src = (PDI_OK, L') \<and> m_store L' = Some s' \<and> inv s' \<and> db_ok env (img s') L'
    \<and> slots L' = slots L \<and> lookup env (img s') L' = copied (readable env (img' t) src) (lookup env (img s) L)"
proof (cases "widest_payload L = 0")
  case True
  have "copied (readable env (img' t) src) (lookup env (img s) L) = lookup env (img s) L"
  proof
    fix ident
    show "copied (readable env (img' t) src) (lookup env (img s) L) ident = lookup env (img s) L ident"
    proof (cases "find_entry L ident")
      case (Some i)
      let ?e = "m_directory L ! i"
      have i: "i < m_entries L"
        using find_entry_Some [OF Some] by simp
      have "m_len ?e = 0"
        using widest_payload_ge [OF i, of "unat (m_len ?e)"] dst.entry_bounds(2) [OF L(3) i] True
        by (cases "m_len ?e = 0") (simp_all add: unat_eq_0)
      moreover have "d = []" if "readable env (img' t) src ident = Some (d, v)" for d v
        using widest_payload_ge [OF i room_for_found [OF room L(3) Some that]] True by simp
      ultimately show ?thesis
        using Some by (auto simp: copied_def lookup_def rec_data_def split: option.split)
    qed (simp add: copied_def lookup_def)
  qed
  then show ?thesis
    using True L src(4) by (auto simp: copy_from_def db_ok_def)
next
  case False
  let ?is = "[0..<m_entries L]"
  obtain L' s' where L': "copy_records ops ops' env src L (replicate (widest_payload L) 0) ?is PDI_OK = (PDI_OK, L')" "m_store L' = Some s'"
      "inv s'" "db_ok env (img s') L'" "slots L' = slots L"
      "lookup env (img s') L' = (\<lambda>ident. if ident \<in> (\<lambda>i. m_id (m_directory L ! i)) ` set ?is
           then copied (readable env (img' t) src) (lookup env (img s) L) ident else lookup env (img s) L ident)"
    using copy_records_ok [OF src env L _ room, of ?is "replicate (widest_payload L) 0" PDI_OK] by auto
  have "lookup env (img s) L ident = None" if "ident \<notin> (\<lambda>i. m_id (m_directory L ! i)) ` set ?is" for ident
    using that by (cases "find_entry L ident") (auto simp: lookup_def dest: find_entry_Some)
  then have "lookup env (img s') L' = copied (readable env (img' t) src) (lookup env (img s) L)"
    unfolding L'(6) by (auto simp: copied_def)
  then show ?thesis
    using L' False heap L(3) src(4) by (auto simp: copy_from_def db_ok_def)
qed

end

end
