(* ===== verification/DbProps.thy ===== *)
theory DbProps
  imports DbCopy
begin

text \<open>
  The layout engine on the EEPROM store: the contracts of \<open>DbRefine\<close> and
  \<open>DbCopy\<close> are interpreted there, and what they give is stated over the engine's own
  operations.
\<close>

section \<open>The EEPROM store keeps the contracts\<close>

interpretation boot: durable_store "eeprom_ops sealing" eeprom_inv "eeprom_img sealing" "eeprom_media sealing" eeprom_reboot
  for sealing
proof unfold_locales
  show "eeprom_inv (eeprom_reboot s) \<and> eeprom_img sealing (eeprom_reboot s) = eeprom_media sealing s
      \<and> eeprom_media sealing (eeprom_reboot s) = eeprom_media sealing s" if "eeprom_inv s" for s
    using eeprom_reboot_media [OF that, of sealing] eeprom_reboot_media [OF that, of sealing]
    by (auto simp: eeprom_media_def eeprom_img_def eeprom_inv_def eeprom_file_def eeprom_reboot_def Let_def attachBackingFile_def
        DatabaseInterface_new_def)
qed

interpretation tiers: tier_copy "eeprom_ops a" eeprom_inv "eeprom_img a" "eeprom_media a"
    "eeprom_ops b" eeprom_inv "eeprom_img b" "eeprom_media b"
  for a b
  by unfold_locales

lemma eeprom_img_length: "eeprom_inv s \<Longrightarrow> length (eeprom_img sealing s) = eeprom_size sealing"
  by (simp add: eeprom_inv_def eeprom_img_def eeprom_size_def)

text \<open>A store whose bytes at the superblock are zero holds no database.\<close>

lemma blank_superblock:
  assumes "eeprom_inv s" "take 17 (di_store (ee_db s)) = replicate 17 0" "m_store L = Some s"
  shows "read_superblock (eeprom_ops sealing) env L = (PDI_ERR_CORRUPT, L)"
proof -
  have size: "(17 :: nat) \<le> eeprom_size sealing" "length (di_store (ee_db s)) = 4096"
    using assms(1) by (simp_all add: eeprom_size_def DATABASE_MAX_SIZE_def DB_KEY_REGION_BYTES_def eeprom_inv_def)
  have "slice_at 5 12 (eeprom_img sealing s) = replicate 12 0"
  proof (rule nth_equalityI)
    fix i
    assume "i < length (slice_at 5 12 (eeprom_img sealing s))"
    then have i: "i < 12"
      using size by (simp add: eeprom_img_def)
    then have "di_store (ee_db s) ! (5 + i) = take 17 (di_store (ee_db s)) ! (5 + i)"
      by simp
    then show "slice_at 5 12 (eeprom_img sealing s) ! i = replicate 12 0 ! i"
      using i size assms(2) by (simp add: nth_slice_at eeprom_img_def)
  qed (use size in \<open>simp add: eeprom_img_def\<close>)
  moreover have "st_read (eeprom_ops sealing) s 5 (replicate 12 0) = (True, slice_at 5 12 (eeprom_img sealing s))"
    using eeprom.read_at [OF assms(1), of 5 12 sealing] size eeprom_img_length [OF assms(1), of sealing] by simp
  ultimately show ?thesis
    using assms(3) by (simp add: read_superblock_def db_consts DB_MAGIC_def)
qed

section \<open>The database as a map\<close>

text \<open>
  C1: starting from an EEPROM store whose superblock cannot be read, mounting formats the
  database, and every sequence of record reads, verifications, writes, clears and power cycles
  that follows, each power cycle mounting under the tables registered at that time, answers
  exactly as the abstract database does: the last record written under an id is read back with
  its version, calls on an unknown id or a record too long for its slot are refused without
  effect, and a mount under changed tables keeps by id every record its new slot has room for.
\<close>

theorem database_refines_map:
  assumes "eeprom_inv s" "env_ok env" "\<forall>n. env_heap env n"
    and "tables_ok env (eeprom_size (env_sealing env)) ts" "list_all (call_ok env (eeprom_size (env_sealing env))) cs"
    and "fst (read_superblock (eeprom_ops (env_sealing env)) env ((DbLayout_new env)\<lparr>m_store := Some s\<rparr>)) \<noteq> PDI_OK"
  shows "\<exists>L. mount (eeprom_ops (env_sealing env)) env (DbLayout_new env) (Some s) ts = (PDI_OK, L) \<and> m_formatted L \<and>
    run_calls (eeprom_ops (env_sealing env)) eeprom_reboot env cs L
      = spec_calls env cs \<lparr>sp_slots = table_slots env ts, sp_map = fresh_map ts\<rparr>"
proof -
  let ?N = "DbLayout_new env :: EepromDbStore DbLayout" and ?sz = "eeprom_size (env_sealing env)"
  obtain err L1 where sb: "read_superblock (eeprom_ops (env_sealing env)) env (?N\<lparr>m_store := Some s\<rparr>) = (err, L1)" "err \<noteq> PDI_OK"
    using assms(6) by (metis fst_conv surj_pair)
  have new: "?N\<lparr>m_store := Some s, m_mounted := False, m_formatted := False\<rparr> = ?N\<lparr>m_store := Some s\<rparr>"
    "length (m_directory ?N) = MAX_TABLES env"
    by (simp_all add: DbLayout_new_def)
  obtain L where L: "mount (eeprom_ops (env_sealing env)) env ?N (Some s) ts = (PDI_OK, L)" "m_formatted L"
      "boot.db_refines (env_sealing env) env ?sz L \<lparr>sp_slots = table_slots env ts, sp_map = fresh_map ts\<rparr>"
    using boot.fresh_refines [OF assms(1) eeprom_img_length [OF assms(1)] assms(4) new(2), of err L1] sb new(1) by auto
  then show ?thesis
    using boot.calls_refine [OF L(3) assms(2) _ assms(5)] assms(3) by blast
qed

text \<open>A concrete device: a sealed and a plain table on a blank store, and later the sealed one grown.\<close>

definition sample_env :: db_env where
  "sample_env = \<lparr>env_sealing = True, MAX_TABLES = 10, env_heap = (\<lambda>_. True), env_scratch_bytes = 500, env_random = (\<lambda>n. of_nat n),
     env_key = \<lparr>m_key = replicate 16 7, m_ready = True\<rparr>, env_stack = \<lparr>sh_data = replicate 64 0, sh_datalen = 0, sh_bitlen = 0, sh_state = []\<rparr>\<rparr>"

definition sample_tables :: "u16 \<Rightarrow> struct_tables list" where
  "sample_tables n = [\<lparr>m_table_id = 9, m_table_size = n, m_table_version = 1, m_table_secret = True, m_instance = None\<rparr>,
     \<lparr>m_table_id = 7, m_table_size = 8, m_table_version = 1, m_table_secret = False, m_instance = None\<rparr>]"

definition sample_store :: EepromDbStore where
  "sample_store = \<lparr>ee_db = (DatabaseInterface_new [''f'' \<mapsto> replicate DATABASE_MAX_SIZE 0] (\<lambda>_. True))\<lparr>di_backingfile := ''f''\<rparr>,
     m_dirty = False\<rparr>"

lemma sample_inv: "eeprom_inv sample_store"
  by (simp add: eeprom_inv_def eeprom_file_def DatabaseInterface_new_def sample_store_def)

lemma sample_env_ok: "env_ok sample_env" "env_heap sample_env n" "env_sealing sample_env" "MAX_TABLES sample_env = 10"
  by (simp_all add: env_ok_def sample_env_def)

lemma sample_tables_ok: "tables_ok sample_env (eeprom_size True) (sample_tables 20)" "tables_ok sample_env (eeprom_size True) (sample_tables 30)"
  by (simp_all add: tables_ok_def sample_tables_def sample_env_def db_slot_for_def db_seals_def eeprom_size_def slots_total_def
      DATABASE_MAX_SIZE_def DB_KEY_REGION_BYTES_def db_consts)

lemma sample_blank: "fst (read_superblock (eeprom_ops True) env ((DbLayout_new env)\<lparr>m_store := Some sample_store\<rparr>)) \<noteq> PDI_OK"
proof -
  have "take 17 (di_store (ee_db sample_store)) = replicate 17 0"
    by (simp add: sample_store_def DatabaseInterface_new_def DATABASE_MAX_SIZE_def)
  from blank_superblock [OF sample_inv this] show ?thesis
    by simp
qed

lemma database_refines_map_witness:
  "\<exists>L. mount (eeprom_ops True) sample_env (DbLayout_new sample_env) (Some sample_store) (sample_tables 20) = (PDI_OK, L) \<and>
     run_calls (eeprom_ops True) eeprom_reboot sample_env
       [CallWrite 9 [1, 2, 3] 4, CallWrite 7 [5, 6] 2, CallWrite 8 [1] 1, CallReboot (sample_tables 30), CallRead 9 [0, 0, 0, 0], CallVerify 7] L
     = [Answer PDI_OK, Answer PDI_OK, Answer PDI_ERR_NOT_FOUND, Answer PDI_OK, AnswerRead PDI_OK [1, 2, 3, 0] 3 4, Answer PDI_OK]"
proof -
  let ?cs = "[CallWrite 9 [1, 2, 3] 4, CallWrite 7 [5, 6] 2, CallWrite 8 [1] 1, CallReboot (sample_tables 30),
    CallRead 9 [0, 0, 0, 0], CallVerify 7]"
  have "\<forall>n. env_heap sample_env n" "list_all (call_ok sample_env (eeprom_size (env_sealing sample_env))) ?cs"
      "tables_ok sample_env (eeprom_size (env_sealing sample_env)) (sample_tables 20)"
    using sample_tables_ok by (simp_all add: sample_env_ok)
  moreover have "spec_calls sample_env ?cs \<lparr>sp_slots = table_slots sample_env (sample_tables 20), sp_map = fresh_map (sample_tables 20)\<rparr>
      = [Answer PDI_OK, Answer PDI_OK, Answer PDI_ERR_NOT_FOUND, Answer PDI_OK, AnswerRead PDI_OK [1, 2, 3, 0] 3 4, Answer PDI_OK]"
    by (simp add: table_slots_def sample_tables_def slot_of_def fresh_map_def flag_overhead_def flag_sealed_def sample_env_def
        db_slot_for_def db_seals_def spec_mount_def slots_match_def spec_carry_def db_consts DB_ENTRY_FLAG_SEALED_def)
  ultimately show ?thesis
    using database_refines_map [of sample_store sample_env "sample_tables 20" ?cs] sample_inv sample_env_ok sample_blank [of sample_env]
    by auto
qed

section \<open>Damage\<close>

lemma splice_record:
  assumes "off + n \<le> length img" "k + length ys \<le> n"
  shows "slice_at off n (splice_at (off + k) ys img) = take k (slice_at off n img) @ ys @ drop (k + length ys) (slice_at off n img)"
  using assms by (intro nth_equalityI) (auto simp: nth_slice_at nth_splice_at nth_append min_def)

lemma two_bytes:
  assumes "k + 2 \<le> length xs"
  shows "\<exists>a b. slice_at k 2 xs = [a, b] \<and> xs = take k xs @ a # b # drop (k + 2) xs"
proof -
  have k: "k < length xs" "Suc k < length xs"
    using assms by simp_all
  have "xs = take k xs @ xs ! k # xs ! Suc k # drop (k + 2) xs"
    using id_take_nth_drop [OF k(1)] Cons_nth_drop_Suc [OF k(2)] by (simp add: numeral_2_eq_2)
  moreover have "slice_at k 2 xs = [xs ! k, xs ! Suc k]"
    using assms by (intro nth_equalityI) (auto simp: nth_slice_at nth_Cons' less_2_cases_iff)
  ultimately show ?thesis
    by blast
qed

text \<open>
  C3: when one or two adjacent bytes of a stored record that is not sealed change on the
  medium, verifying it reports \<open>PDI_ERR_CRC\<close>, and reading it reports the same and leaves
  the caller's buffer, with its defaults, as it was.
\<close>

theorem damaged_record_refused:
  assumes "eeprom_inv s" "db_ok env (eeprom_img sealing s) L" "env_ok env" "find_entry L ident = Some i"
    and "\<not> entry_sealed (m_directory L ! i)" "k + 2 \<le> unat (m_len (m_directory L ! i))"
    and "eeprom_inv s'" "eeprom_img sealing s' = splice_at (unat (m_offset (m_directory L ! i)) + k) [x, y] (eeprom_img sealing s)"
    and "slice_at (unat (m_offset (m_directory L ! i)) + k) 2 (eeprom_img sealing s) \<noteq> [x, y]"
  shows "verify_record (eeprom_ops sealing) env (L\<lparr>m_store := Some s'\<rparr>) ident = PDI_ERR_CRC
    \<and> read_record (eeprom_ops sealing) env (L\<lparr>m_store := Some s'\<rparr>) ident buf = (PDI_ERR_CRC, buf, 0, 0)"
proof -
  let ?e = "m_directory L ! i" and ?img = "eeprom_img sealing s" and ?img' = "eeprom_img sealing s'"
  let ?off = "unat (m_offset (m_directory L ! i))" and ?n = "unat (m_len (m_directory L ! i))" and ?L = "L\<lparr>m_store := Some s'\<rparr>"
  have i: "i < m_entries L"
    using find_entry_Some [OF assms(4)] by simp
  have len: "m_len ?e \<noteq> 0"
    using assms(6) by auto
  have fit: "?off + ?n \<le> length ?img"
    using eeprom.entry_bounds [OF assms(2) i] len by simp
  have "length ?img' = length ?img"
    using eeprom_img_length assms(1,7) by simp
  then have L: "geometry env (length ?img') ?L" "m_mounted ?L" "find_entry ?L ident = Some i" "m_directory ?L ! i = ?e"
    using assms(2,4) by (simp_all add: db_ok_def find_entry_def)
  obtain a b where ab: "slice_at k 2 (slice_at ?off ?n ?img) = [a, b]"
      "slice_at ?off ?n ?img = take k (slice_at ?off ?n ?img) @ a # b # drop (k + 2) (slice_at ?off ?n ?img)"
    using two_bytes [of k "slice_at ?off ?n ?img"] fit assms(6) by auto
  have "slice_at (?off + k) 2 ?img = [a, b]"
    using slice_slice [OF assms(6) fit] ab(1) by simp
  then have "a \<noteq> x \<or> b \<noteq> y"
    using assms(9) by auto
  moreover have "slice_at ?off ?n ?img' = take k (slice_at ?off ?n ?img) @ x # y # drop (k + 2) (slice_at ?off ?n ?img)"
    using splice_record [OF fit, of k "[x, y]"] assms(6,8) by simp
  moreover have "crc16Ccitt (slice_at ?off ?n ?img) = m_crc ?e"
    using assms(2,5) i len by (auto simp: db_ok_def rec_ok_def Let_def)
  ultimately have "crc16Ccitt (slice_at ?off ?n ?img') \<noteq> m_crc ?e"
    using crc16_burst [of a x b y "crc16CcittUpdate 0xFFFF (take k (slice_at ?off ?n ?img))" "drop (k + 2) (slice_at ?off ?n ?img)"] ab(2)
    by (metis crc16Ccitt_def crc16CcittUpdate_append)
  then have bad: "\<not> rec_ok env ?img' (m_directory ?L ! i)"
    using assms(5) len by (simp add: rec_ok_def Let_def)
  show ?thesis
    using eeprom.verify_record_answer [OF _ assms(7) L(1,2) assms(3) L(3)] eeprom.read_record_damaged [OF _ assms(7) L(1,2) assms(3) L(3) bad] bad
    by simp
qed

text \<open>A database on the sample device with the plain record written.\<close>

lemma sample_db:
  obtains L s i where "m_store L = Some s" "eeprom_inv s" "db_ok sample_env (eeprom_img True s) L" "find_entry L 7 = Some i"
    "\<not> entry_sealed (m_directory L ! i)" "rec_data sample_env (eeprom_img True s) (m_directory L ! i) = [5, 6]"
    "slots L = table_slots sample_env (sample_tables 20)"
    "lookup sample_env (eeprom_img True s) L = (fresh_map (sample_tables 20))(7 \<mapsto> ([5, 6], 2))"
    "eeprom_media True s = eeprom_img True s"
proof -
  let ?N = "DbLayout_new sample_env :: EepromDbStore DbLayout" and ?ts = "sample_tables 20"
  let ?A = "\<lparr>sp_slots = table_slots sample_env ?ts, sp_map = fresh_map ?ts\<rparr>"
  have new: "?N\<lparr>m_store := Some sample_store, m_mounted := False, m_formatted := False\<rparr> = ?N\<lparr>m_store := Some sample_store\<rparr>"
    "length (m_directory ?N) = MAX_TABLES sample_env"
    by (simp_all add: DbLayout_new_def)
  obtain err L1 where sb: "read_superblock (eeprom_ops True) sample_env (?N\<lparr>m_store := Some sample_store\<rparr>) = (err, L1)" "err \<noteq> PDI_OK"
    using sample_blank [of sample_env] by (metis fst_conv surj_pair)
  obtain L0 where "boot.db_refines True sample_env (eeprom_size True) L0 ?A"
    using boot.fresh_refines [OF sample_inv eeprom_img_length [OF sample_inv] sample_tables_ok(1) new(2), of err L1] sb new(1) by auto
  then obtain L where "boot.db_refines True sample_env (eeprom_size True) L (snd (spec_call sample_env (CallWrite 7 [5, 6] 2) ?A))"
    using boot.write_refines sample_env_ok(1) by blast
  moreover have slot: "slot_of (table_slots sample_env ?ts) 7 = Some (8, 0)"
    by (simp add: slot_of_def table_slots_def sample_tables_def db_slot_for_def db_seals_def)
  ultimately obtain s where s: "m_store L = Some s" "eeprom_inv s" "db_ok sample_env (eeprom_img True s) L"
      "slots L = table_slots sample_env ?ts" "lookup sample_env (eeprom_img True s) L = (fresh_map ?ts)(7 \<mapsto> ([5, 6], 2))"
      "eeprom_media True s = eeprom_img True s"
    unfolding boot.db_refines_def by (auto simp: flag_overhead_def flag_sealed_def)
  have "lookup sample_env (eeprom_img True s) L 7 = Some ([5, 6], 2)"
    by (simp only: s(5) fun_upd_same)
  then obtain i where i: "find_entry L 7 = Some i" "rec_data sample_env (eeprom_img True s) (m_directory L ! i) = [5, 6]"
    unfolding lookup_def by blast
  have "m_flags (m_directory L ! i) = 0"
    using slot_of_found [OF db_ok_within(2) [OF s(3)], of 7] slot s(4) i(1) by simp
  then show ?thesis
    using that [OF s(1-3) i(1) _ i(2) s(4-6)] by (simp add: entry_sealed_def)
qed

lemma damaged_record_refused_witness:
  "\<exists>s s' L i x y. eeprom_inv s \<and> db_ok sample_env (eeprom_img True s) L \<and> find_entry L 7 = Some i
    \<and> eeprom_img True s' = splice_at (unat (m_offset (m_directory L ! i)) + 0) [x, y] (eeprom_img True s)
    \<and> read_record (eeprom_ops True) sample_env (L\<lparr>m_store := Some s'\<rparr>) 7 [1, 2] = (PDI_ERR_CRC, [1, 2], 0, 0)"
proof -
  obtain L s i where db: "m_store L = Some s" "eeprom_inv s" "db_ok sample_env (eeprom_img True s) L" "find_entry L 7 = Some i"
      "\<not> entry_sealed (m_directory L ! i)" "rec_data sample_env (eeprom_img True s) (m_directory L ! i) = [5, 6]"
    using sample_db by metis
  let ?e = "m_directory L ! i" and ?img = "eeprom_img True s"
  let ?off = "unat (m_offset (m_directory L ! i))"
  have len: "unat (m_len ?e) = 2"
    using rec_data_length [OF db(3,4)] db(6) by simp
  have fit: "?off + 2 \<le> length ?img"
    using eeprom.entry_bounds [OF db(3)] find_entry_Some [OF db(4)] len by force
  have old: "slice_at (?off + 0) 2 ?img = [5, 6]"
    using db(5,6) len by (simp add: rec_data_def Let_def)
  obtain ok s' where w: "st_write (eeprom_ops True) s (of_nat ?off) [5, 7] = (ok, s')"
    by (metis surj_pair)
  have off: "unat (of_nat ?off :: u32) = ?off"
    using eeprom.unat_offset [OF db(2), of ?off True] fit by simp
  have s': "eeprom_inv s'" "eeprom_img True s' = splice_at (?off + 0) [5, 7] ?img"
    using eeprom.write_in [OF db(2) _ w] fit off by auto
  have "read_record (eeprom_ops True) sample_env (L\<lparr>m_store := Some s'\<rparr>) 7 [1, 2] = (PDI_ERR_CRC, [1, 2], 0, 0)"
    using damaged_record_refused [OF db(2,3) sample_env_ok(1) db(4,5) _ s', of "[1, 2]"] len old by simp
  then show ?thesis
    using db(2-4) s'(2) by blast
qed

section \<open>Copying a tier\<close>



section \<open>Tables that do not fit\<close>

lemma repack_tables_full:
  assumes "unat capacity < 2 ^ 16"
  shows "unat off \<le> unat capacity \<Longrightarrow> n + length ts \<le> MAX_TABLES env \<Longrightarrow> unat capacity < unat off + slots_total env ts \<Longrightarrow>
    \<exists>dir' n' frm'. repack_tables env capacity old ts off dir n frm = (PDI_ERR_NO_SPACE, dir', n', frm') \<and> n' < n + length ts"
proof (induction ts arbitrary: off dir n frm)
  case (Cons t ts)
  have slot: "unat (db_slot_for env t) < 2 ^ 16"
    using unsigned_less [of "db_slot_for env t"] by simp
  have adv: "unat (off + ucast (db_slot_for env t)) = unat off + unat (db_slot_for env t)"
    using unat_add_small [of off "unat (db_slot_for env t)"] Cons.prems(1) assms slot by (simp add: unat_ucast_up)
  show ?case
  proof (cases "capacity < off + ucast (db_slot_for env t)")
    case True
    then show ?thesis
      using Cons.prems(2) by simp
  next
    case False
    then have "unat (off + ucast (db_slot_for env t)) \<le> unat capacity"
      by (simp add: word_le_nat_alt not_less)
    then show ?thesis
      using Cons.IH [of "off + ucast (db_slot_for env t)" "Suc n"] Cons.prems(2,3) adv False by (auto simp: Let_def split: prod.split)
  qed
qed simp

context db_store
begin

lemma mount_full:
  assumes "inv s" "db_ok env (img s) L0" "\<not> geometry_matches env L0 ts" "length (m_directory L) = MAX_TABLES env"
    and "length ts \<le> MAX_TABLES env" "length (img s) < DB_PAYLOAD_START env + slots_total env ts"
  shows "\<exists>L'. mount ops env L (Some s) ts = (PDI_ERR_NO_SPACE, L') \<and> m_mounted L' \<and> m_store L' = Some s \<and> m_entries L' < length ts"
proof -
  let ?L = "L\<lparr>m_store := Some s, m_mounted := False, m_formatted := False\<rparr>"
  have ok: "framed (img s) L0" "geometry env (length (img s)) L0"
    using assms(2) by (simp_all add: db_ok_def)
  have cap: "unat (st_capacity ops s) = length (img s)" "length (img s) < 2 ^ 16" "DB_PAYLOAD_START env \<le> length (img s)"
    using capacity [OF assms(1)] capacity_max [OF assms(1)] ok(2) by (simp_all add: geometry_def)
  obtain L1 L2 where 1: "read_superblock ops env ?L = (PDI_OK, L1)" "read_directory ops L1 = (PDI_OK, L2)"
      "same_db L0 L2" "m_store L2 = Some s"
    using read_frame_ok [of ?L s L0 env] assms(1,4) ok by auto
  let ?M = "L2\<lparr>m_mounted := True\<rparr>"
  have "unat (of_nat (DB_PAYLOAD_START env) :: u32) = DB_PAYLOAD_START env"
    using cap by (simp add: unat_of_nat)
  then obtain dir n frm where "repack_tables env (st_capacity ops s) (take (m_entries ?M) (m_directory ?M)) ts
      (of_nat (DB_PAYLOAD_START env)) (m_directory ?M) 0 [] = (PDI_ERR_NO_SPACE, dir, n, frm)" "n < length ts"
    using repack_tables_full [of "st_capacity ops s" "of_nat (DB_PAYLOAD_START env)" 0 ts env] cap assms(5,6) by fastforce
  then have "repack ops env ?M ts = (PDI_ERR_NO_SPACE, ?M\<lparr>m_directory := dir, m_entries := n\<rparr>)" "n < length ts"
    using 1(4) by (simp_all add: repack_def)
  moreover have "\<not> geometry_matches env ?M ts"
    using same_db_matches [of L0 ?M env ts] 1(3) assms(3) by (simp add: same_db_def)
  ultimately show ?thesis
    using 1(1,2,4) cap by (simp add: mount_def Let_def)
qed

end

text \<open>
  C33: mounting a sound database under tables that together exceed the store fails with
  \<open>PDI_ERR_NO_SPACE\<close> and writes nothing, yet leaves the engine mounted, on a directory
  in memory that covers only part of the registered tables.
\<close>

theorem mount_too_large_stays_mounted:
  assumes "eeprom_inv s" "db_ok env (eeprom_img sealing s) L0" "\<not> geometry_matches env L0 ts" "length ts \<le> MAX_TABLES env"
    and "eeprom_size sealing < DB_PAYLOAD_START env + slots_total env ts"
  shows "\<exists>L'. mount (eeprom_ops sealing) env (DbLayout_new env) (Some s) ts = (PDI_ERR_NO_SPACE, L')
    \<and> m_mounted L' \<and> m_store L' = Some s \<and> m_entries L' < length ts"
  using eeprom.mount_full [OF assms(1-3), of "DbLayout_new env"] assms(4,5) eeprom_img_length [OF assms(1)] by (simp add: DbLayout_new_def)

lemma mount_too_large_stays_mounted_witness:
  "\<exists>s L'. mount (eeprom_ops True) sample_env (DbLayout_new sample_env) (Some s) (sample_tables 5000) = (PDI_ERR_NO_SPACE, L') \<and> m_mounted L'"
proof -
  obtain L s i where db: "m_store L = Some s" "eeprom_inv s" "db_ok sample_env (eeprom_img True s) L" "find_entry L 7 = Some i"
      "slots L = table_slots sample_env (sample_tables 20)"
    using sample_db by metis
  have "\<not> geometry_matches sample_env L (sample_tables 5000)"
    unfolding matches_slots [OF db_ok_within(2) [OF db(3)]] db(5)
    by (simp add: slots_match_def slot_of_def table_slots_def sample_tables_def db_slot_for_def db_seals_def sample_env_def db_consts)
  moreover have "length (sample_tables 5000) \<le> MAX_TABLES sample_env"
      "eeprom_size True < DB_PAYLOAD_START sample_env + slots_total sample_env (sample_tables 5000)"
    by (simp_all add: sample_tables_def sample_env_def db_slot_for_def db_seals_def eeprom_size_def slots_total_def
        DATABASE_MAX_SIZE_def DB_KEY_REGION_BYTES_def db_consts)
  ultimately show ?thesis
    using mount_too_large_stays_mounted [OF db(2,3)] by blast
qed

end
