(* ===== verification/DbTable.thy ===== *)
theory DbTable
  imports DbProps "HOL-Library.Multiset"
begin

text \<open>
  The registry of tables (\<^verbatim>\<open>src/src/utility/Database.cpp\<close>), the typed tables bound to it
  (\<^verbatim>\<open>src/src/database/core/DatabaseTable.h\<close>) and the budget the build checks
  (\<^verbatim>\<open>src/src/database/core/DatabaseLayout.h\<close>). An instance is known by its address; the
  struct it stores is the bytes of the object, and \<open>migrate\<close> is the virtual method.
\<close>

section \<open>The registry\<close>

definition DB_TABLE_ID_NONE :: u16 where "DB_TABLE_ID_NONE = 0"

record Database =
  m_database_tables :: "struct_tables list"

fun replace_table :: "struct_tables list \<Rightarrow> struct_tables \<Rightarrow> (bool \<times> struct_tables list) option" where
  "replace_table [] t = None"
| "replace_table (x # xs) t =
     (if m_table_id x = m_table_id t
      then Some (if m_instance t = None \<or> m_instance x \<noteq> m_instance t then (False, x # xs) else (True, t # xs))
      else map_option (apsnd ((#) x)) (replace_table xs t))"

definition register_table :: "db_env \<Rightarrow> Database \<Rightarrow> struct_tables \<Rightarrow> bool \<times> Database" where
  "register_table env db t =
     (if m_table_id t = DB_TABLE_ID_NONE \<or> m_table_size t = 0 then (False, db)
      else case replace_table (m_database_tables db) t of
        Some (ok, ts) \<Rightarrow> (ok, db\<lparr>m_database_tables := ts\<rparr>)
      | None \<Rightarrow>
          if length (m_database_tables db) \<ge> MAX_TABLES env then (False, db)
          else (True, db\<lparr>m_database_tables := m_database_tables db @ [t]\<rparr>))"

section \<open>Typed tables\<close>

record DatabaseTable =
  table_id :: u16
  table_size :: u16
  table_version :: u16
  table_secret :: bool
  this_ptr :: nat
  migrate :: "u16 \<Rightarrow> bytes \<Rightarrow> bool \<times> bytes"
  m_registered :: bool

text \<open>The instances in the order of their construction; one past the limit is not recorded.\<close>

definition new_instance :: "db_env \<Rightarrow> DatabaseTable list \<Rightarrow> DatabaseTable \<Rightarrow> DatabaseTable list" where
  "new_instance env insts T = (if length insts < MAX_TABLES env then insts @ [T] else insts)"

definition descriptor :: "DatabaseTable \<Rightarrow> struct_tables" where
  "descriptor T = \<lparr>m_table_id = table_id T, m_table_size = table_size T, m_table_version = table_version T,
     m_table_secret = table_secret T, m_instance = Some (this_ptr T)\<rparr>"

definition table_boot :: "db_env \<Rightarrow> Database \<Rightarrow> DatabaseTable \<Rightarrow> bool \<times> DatabaseTable \<times> Database" where
  "table_boot env db T =
     (case register_table env db (descriptor T) of (ok, db) \<Rightarrow> (ok, T\<lparr>m_registered := ok\<rparr>, db))"

fun boot_loop :: "db_env \<Rightarrow> Database \<Rightarrow> DatabaseTable list \<Rightarrow> u8 \<Rightarrow> u8 \<times> DatabaseTable list \<times> Database" where
  "boot_loop env db [] failed = (failed, [], db)"
| "boot_loop env db (T # Ts) failed =
     (case table_boot env db T of
        (ok, T, db) \<Rightarrow>
          case boot_loop env db Ts (if ok then failed else failed + 1) of
            (failed, Ts, db) \<Rightarrow> (failed, T # Ts, db))"

definition init_database :: "db_env \<Rightarrow> Database \<Rightarrow> DatabaseTable list \<Rightarrow> u8 \<times> DatabaseTable list \<times> Database" where
  "init_database env db insts = boot_loop env db insts 0"

text \<open>\<open>tbl\<close> holds the caller's struct, default constructed; the second component is what it holds afterwards.\<close>

definition table_get ::
  "'s iDbStoreInterface \<Rightarrow> db_env \<Rightarrow> 's DbLayout \<Rightarrow> DatabaseTable \<Rightarrow> bytes \<Rightarrow> bool \<times> bytes" where
  "table_get ops env L T tbl =
     (if \<not> m_registered T then (False, tbl)
      else case read_record ops env L (table_id T) tbl of
        (err, tbl, len, version) \<Rightarrow>
          if err \<noteq> PDI_OK then (False, tbl)
          else if len \<noteq> 0 \<and> version \<noteq> table_version T then migrate T version tbl
          else (True, tbl))"

definition table_set ::
  "'s iDbStoreInterface \<Rightarrow> db_env \<Rightarrow> 's DbLayout \<Rightarrow> DatabaseTable \<Rightarrow> bytes \<Rightarrow> bool \<times> 's DbLayout" where
  "table_set ops env L T tbl =
     (if \<not> m_registered T then (False, L)
      else case write_record ops env L (table_id T) tbl (table_version T) of (err, L) \<Rightarrow> (err = PDI_OK, L))"

definition table_clear ::
  "'s iDbStoreInterface \<Rightarrow> 's DbLayout \<Rightarrow> DatabaseTable \<Rightarrow> bool \<times> 's DbLayout" where
  "table_clear ops L T =
     (if \<not> m_registered T then (False, L)
      else case clear_record ops L (table_id T) of (err, L) \<Rightarrow> (err = PDI_OK, L))"

text \<open>The instance behind a descriptor's pointer is looked up by address.\<close>

fun clear_loop :: "'s iDbStoreInterface \<Rightarrow> (nat \<Rightarrow> DatabaseTable option) \<Rightarrow> 's DbLayout \<Rightarrow> struct_tables list \<Rightarrow> bool
    \<Rightarrow> bool \<times> 's DbLayout" where
  "clear_loop ops heap L [] status = (status, L)"
| "clear_loop ops heap L (t # ts) status =
     (case Option.bind (m_instance t) heap of
        None \<Rightarrow> clear_loop ops heap L ts status
      | Some T \<Rightarrow> case table_clear ops L T of (ok, L) \<Rightarrow> clear_loop ops heap L ts (ok \<and> status))"

definition clear_all ::
  "'s iDbStoreInterface \<Rightarrow> (nat \<Rightarrow> DatabaseTable option) \<Rightarrow> 's DbLayout \<Rightarrow> Database \<Rightarrow> bool \<times> 's DbLayout" where
  "clear_all ops heap L db = clear_loop ops heap L (m_database_tables db) True"

section \<open>The tables of the framework and their budget\<close>

text \<open>Each table class fixes an id, a version and whether it is secret; \<open>sz\<close> gives the struct sizes.\<close>

definition LoginTable :: "u16 \<times> u16 \<times> bool" where "LoginTable = (1, 1, True)"
definition WiFiTable :: "u16 \<times> u16 \<times> bool" where "WiFiTable = (2, 1, True)"
definition OtaTable :: "u16 \<times> u16 \<times> bool" where "OtaTable = (3, 1, False)"
definition GpioTable :: "u16 \<times> u16 \<times> bool" where "GpioTable = (4, 1, False)"
definition MqttGeneralTable :: "u16 \<times> u16 \<times> bool" where "MqttGeneralTable = (5, 1, True)"
definition MqttLwtTable :: "u16 \<times> u16 \<times> bool" where "MqttLwtTable = (6, 1, False)"
definition MqttPubSubTable :: "u16 \<times> u16 \<times> bool" where "MqttPubSubTable = (7, 1, False)"
definition EmailTable :: "u16 \<times> u16 \<times> bool" where "EmailTable = (8, 1, True)"
definition DeviceIotTable :: "u16 \<times> u16 \<times> bool" where "DeviceIotTable = (9, 1, True)"

lemmas table_classes = LoginTable_def WiFiTable_def OtaTable_def GpioTable_def MqttGeneralTable_def MqttLwtTable_def MqttPubSubTable_def EmailTable_def DeviceIotTable_def

text \<open>The classes in the order the budget lists their records.\<close>

definition pdi_tables :: "(u16 \<times> u16 \<times> bool) list" where
  "pdi_tables = [LoginTable, WiFiTable, OtaTable, GpioTable, MqttGeneralTable,
     MqttLwtTable, MqttPubSubTable, EmailTable, DeviceIotTable]"

definition DB_SEAL_BUDGET :: "bool \<Rightarrow> nat" where
  "DB_SEAL_BUDGET sealing = (if sealing then DB_SEAL_OVERHEAD else 0)"

definition DB_RECORD_SIZES :: "bool \<Rightarrow> (u16 \<Rightarrow> nat) \<Rightarrow> nat list" where
  "DB_RECORD_SIZES sealing sz = map (\<lambda>(ident, _, secret). sz ident + (if secret then DB_SEAL_BUDGET sealing else 0)) pdi_tables"

function db_records_total :: "nat list \<Rightarrow> nat \<Rightarrow> nat" where
  "db_records_total sizes i = (if i \<ge> length sizes then 0 else sizes ! i + db_records_total sizes (i + 1))"
  by pat_completeness auto
termination
  by (relation "measure (\<lambda>(sizes, i). length sizes - i)") auto

declare db_records_total.simps [simp del]

definition DB_EEPROM_BUDGET :: "bool \<Rightarrow> nat" where
  "DB_EEPROM_BUDGET sealing = (if sealing then DATABASE_MAX_SIZE - DB_KEY_REGION_BYTES else DATABASE_MAX_SIZE)"

definition budget_asserts :: "db_env \<Rightarrow> (u16 \<Rightarrow> nat) \<Rightarrow> bool" where
  "budget_asserts env sz \<longleftrightarrow> length pdi_tables \<le> MAX_TABLES env \<and>
     DB_PAYLOAD_START env + db_records_total (DB_RECORD_SIZES (env_sealing env) sz) 0 \<le> DB_EEPROM_BUDGET (env_sealing env)"

section \<open>The registry keeps identities apart\<close>

definition registry_ok :: "db_env \<Rightarrow> Database \<Rightarrow> bool" where
  "registry_ok env db \<longleftrightarrow> length (m_database_tables db) \<le> MAX_TABLES env \<and> distinct (map m_table_id (m_database_tables db))
     \<and> list_all (\<lambda>t. m_table_id t \<noteq> DB_TABLE_ID_NONE \<and> m_table_size t \<noteq> 0) (m_database_tables db)"

lemma replace_table_None: "replace_table ts t = None \<longleftrightarrow> m_table_id t \<notin> m_table_id ` set ts"
  by (induction ts) auto

lemma replace_table_Some:
  "replace_table ts t = Some (ok, ts') \<Longrightarrow> map m_table_id ts' = map m_table_id ts \<and> (\<not> ok \<longrightarrow> ts' = ts) \<and> (ok \<longrightarrow> t \<in> set ts')
     \<and> set ts' \<subseteq> insert t (set ts) \<and> (\<forall>x\<in>set ts. m_table_id x \<noteq> m_table_id t \<longrightarrow> x \<in> set ts')"
  by (induction ts arbitrary: ts') (auto split: if_splits)

text \<open>
  Registering a table keeps the registry within its limit with distinct, non-zero ids and
  non-empty tables. A table that is accepted is in the registry as described, one that is
  refused leaves it unchanged, and the descriptor of no other id is touched.
\<close>

lemma register_table_registry:
  assumes "registry_ok env db" "register_table env db t = (ok, db')"
  shows "registry_ok env db' \<and> (ok \<longrightarrow> t \<in> set (m_database_tables db')) \<and> (\<not> ok \<longrightarrow> db' = db)
    \<and> (\<forall>x. m_table_id x \<noteq> m_table_id t \<longrightarrow> (x \<in> set (m_database_tables db') \<longleftrightarrow> x \<in> set (m_database_tables db)))"
proof (cases "m_table_id t = DB_TABLE_ID_NONE \<or> m_table_size t = 0")
  case True
  then show ?thesis
    using assms by (auto simp: register_table_def)
next
  case new: False
  show ?thesis
  proof (cases "replace_table (m_database_tables db) t")
    case None
    then show ?thesis
      using assms new replace_table_None [of "m_database_tables db" t]
      by (auto simp: register_table_def registry_ok_def split: if_splits)
  next
    case (Some r)
    obtain k ts where r: "r = (k, ts)"
      by (cases r)
    have "map m_table_id ts = map m_table_id (m_database_tables db)" "\<not> k \<longrightarrow> ts = m_database_tables db" "k \<longrightarrow> t \<in> set ts"
        "set ts \<subseteq> insert t (set (m_database_tables db))"
        "\<forall>x\<in>set (m_database_tables db). m_table_id x \<noteq> m_table_id t \<longrightarrow> x \<in> set ts"
      using replace_table_Some [OF Some [unfolded r]] by blast+
    moreover have "length ts = length (m_database_tables db)"
      using calculation(1) by (metis length_map)
    moreover have "ok = k" "db' = db\<lparr>m_database_tables := ts\<rparr>"
      using assms(2) new Some r by (simp_all add: register_table_def)
    ultimately show ?thesis
      using assms(1) new by (auto simp: registry_ok_def list_all_iff)
  qed
qed

section \<open>The budget is enough\<close>

lemma db_records_total_sum: "db_records_total sizes i = sum_list (drop i sizes)"
proof (induction sizes i rule: db_records_total.induct)
  case (1 sizes i)
  then show ?case
    by (cases "i < length sizes") (simp_all add: db_records_total.simps [of sizes i] Cons_nth_drop_Suc [symmetric])
qed

lemma boot_all:
  assumes "\<forall>T\<in>set Ts. table_id T \<noteq> 0 \<and> table_size T \<noteq> 0"
  shows "distinct (map m_table_id (m_database_tables db) @ map table_id Ts) \<Longrightarrow>
    length (m_database_tables db) + length Ts \<le> MAX_TABLES env \<Longrightarrow>
    boot_loop env db Ts failed = (failed, map (m_registered_update (\<lambda>_. True)) Ts,
      db\<lparr>m_database_tables := m_database_tables db @ map descriptor Ts\<rparr>)"
  using assms
proof (induction Ts arbitrary: db)
  case (Cons T Ts)
  have "replace_table (m_database_tables db) (descriptor T) = None"
    using Cons.prems(1) by (simp add: replace_table_None descriptor_def)
  then have "table_boot env db T = (True, T\<lparr>m_registered := True\<rparr>, db\<lparr>m_database_tables := m_database_tables db @ [descriptor T]\<rparr>)"
    using Cons.prems by (simp add: table_boot_def register_table_def descriptor_def DB_TABLE_ID_NONE_def)
  then show ?case
    using Cons.IH [of "db\<lparr>m_database_tables := m_database_tables db @ [descriptor T]\<rparr>"] Cons.prems by (simp add: descriptor_def)
qed simp

lemma slot_size:
  assumes "unat (table_size T) = n" "n + 32 < 2 ^ 16"
  shows "unat (db_slot_for env (descriptor T)) = n + (if env_sealing env \<and> table_secret T then 32 else 0)"
proof -
  have "unat (table_size T + 32) = n + 32"
    using assms by (simp add: unat_word_ariths)
  then show ?thesis
    using assms by (simp add: db_slot_for_def db_seals_def descriptor_def db_consts)
qed

text \<open>
  C34: when the build's assertions hold, booting the framework's tables in any order of
  construction registers every one of them, and the registered tables fit the EEPROM store: the
  conditions under which mounting succeeds are met.
\<close>

theorem budget_suffices:
  assumes "budget_asserts env sz" "MAX_TABLES env \<le> 255"
    and "mset (map (\<lambda>T. (table_id T, table_version T, table_secret T)) insts) = mset pdi_tables"
    and "\<forall>T\<in>set insts. unat (table_size T) = sz (table_id T) \<and> 0 < sz (table_id T) \<and> sz (table_id T) + 32 < 2 ^ 16"
  shows "\<exists>insts' db. init_database env \<lparr>m_database_tables = []\<rparr> insts = (0, insts', db) \<and> list_all m_registered insts'
    \<and> m_database_tables db = map descriptor insts \<and> tables_ok env (eeprom_size (env_sealing env)) (m_database_tables db)"
proof -
  let ?key = "\<lambda>T. (table_id T, table_version T, table_secret T)"
  have "mset (map table_id insts) = image_mset fst (mset (map ?key insts))"
    by (simp add: multiset.map_comp comp_def)
  also have "\<dots> = mset (map fst pdi_tables)"
    unfolding assms(3) by simp
  finally have ids: "mset (map table_id insts) = mset [1, 2, 3, 4, 5, 6, 7, 8, 9]"
    by (simp add: pdi_tables_def table_classes)
  have "distinct ([1, 2, 3, 4, 5, 6, 7, 8, 9] :: u16 list)"
    by simp
  then have distinct: "distinct (map table_id insts)"
    using mset_eq_imp_distinct_iff [OF ids] by simp
  have "length insts = 9"
    using arg_cong [OF ids, of size] by simp
  moreover have "length pdi_tables = 9"
    by (simp add: pdi_tables_def table_classes)
  ultimately have len: "length insts \<le> MAX_TABLES env"
    using assms(1) by (simp add: budget_asserts_def)
  have "table_id T \<in> set [1, 2, 3, 4, 5, 6, 7, 8, 9]" if "T \<in> set insts" for T
    using mset_eq_setD [OF ids] that by auto
  then have nz: "\<forall>T\<in>set insts. table_id T \<noteq> 0 \<and> table_size T \<noteq> 0"
    using assms(4) by fastforce
  let ?f = "\<lambda>(ident, _, secret). sz ident + (if secret then DB_SEAL_BUDGET (env_sealing env) else 0)"
  have "slots_total env (map descriptor insts) = sum_list (map (?f \<circ> ?key) insts)"
    unfolding slots_total_def
    by (simp add: comp_def cong: map_cong) (intro arg_cong [where f = sum_list] map_cong refl,
      use assms(4) slot_size in \<open>auto simp: DB_SEAL_BUDGET_def db_consts\<close>)
  also have "\<dots> = sum_mset (image_mset ?f (mset (map ?key insts)))"
    by (simp add: sum_mset_sum_list [symmetric] multiset.map_comp)
  also have "\<dots> = sum_list (DB_RECORD_SIZES (env_sealing env) sz)"
    unfolding assms(3) by (simp add: DB_RECORD_SIZES_def sum_mset_sum_list [symmetric])
  finally have "DB_PAYLOAD_START env + slots_total env (map descriptor insts) \<le> eeprom_size (env_sealing env)"
    using assms(1) by (simp add: budget_asserts_def db_records_total_sum DB_EEPROM_BUDGET_def eeprom_size_def)
  then have "tables_ok env (eeprom_size (env_sealing env)) (map descriptor insts)"
    using len assms(2) distinct
    by (simp add: tables_ok_def comp_def descriptor_def eeprom_size_def DATABASE_MAX_SIZE_def DB_KEY_REGION_BYTES_def)
  then show ?thesis
    using boot_all [OF nz, of "\<lparr>m_database_tables = []\<rparr>" env 0] distinct len
    by (simp add: init_database_def list_all_iff)
qed

definition sample_insts :: "DatabaseTable list" where
  "sample_insts = map (\<lambda>(ident, version, secret). \<lparr>table_id = ident, table_size = 100, table_version = version, table_secret = secret,
     this_ptr = unat ident, migrate = (\<lambda>_ b. (True, b)), m_registered = False\<rparr>) (rev pdi_tables)"

lemma budget_suffices_witness:
  "\<exists>insts' db. init_database sample_env \<lparr>m_database_tables = []\<rparr> sample_insts = (0, insts', db) \<and> list_all m_registered insts'
     \<and> tables_ok sample_env (eeprom_size True) (m_database_tables db)"
proof -
  have "budget_asserts sample_env (\<lambda>_. 100)"
    by (simp add: budget_asserts_def db_records_total_sum DB_RECORD_SIZES_def pdi_tables_def table_classes DB_EEPROM_BUDGET_def sample_env_def
        DB_SEAL_BUDGET_def DATABASE_MAX_SIZE_def DB_KEY_REGION_BYTES_def db_consts)
  moreover have "mset (map (\<lambda>T. (table_id T, table_version T, table_secret T)) sample_insts) = mset pdi_tables"
    by (simp add: sample_insts_def pdi_tables_def table_classes)
  moreover have "\<forall>T\<in>set sample_insts. unat (table_size T) = 100 \<and> 0 < (100 :: nat) \<and> 100 + 32 < (2 ^ 16 :: nat)"
    by (auto simp: sample_insts_def)
  ultimately show ?thesis
    using budget_suffices [of sample_env "\<lambda>_. 100" sample_insts] sample_env_ok by auto
qed

section \<open>Tables across firmware versions\<close>

lemma slots_found:
  "distinct (map fst sl) \<Longrightarrow> (ident, x) \<in> set sl \<Longrightarrow> map_option snd (List.find (\<lambda>y. fst y = ident) sl) = Some x"
  by (induction sl) (force simp: image_iff)+

lemma find_member:
  "distinct (map m_table_id ts) \<Longrightarrow> t \<in> set ts \<Longrightarrow> List.find (\<lambda>x. m_table_id x = m_table_id t) ts = Some t"
  by (induction ts) (auto simp: image_iff)

text \<open>Reading and writing a table against the abstract database.\<close>

lemma table_set_refines:
  assumes "boot.db_refines sealing env sz L A" "env_ok env" "m_registered T"
    and "slot_of (sp_slots A) (table_id T) = Some (cap, fl)" "length tbl + flag_overhead fl \<le> unat cap"
  shows "\<exists>L'. table_set (eeprom_ops sealing) env L T tbl = (True, L')
    \<and> boot.db_refines sealing env sz L' (A\<lparr>sp_map := (sp_map A)(table_id T \<mapsto> (tbl, table_version T))\<rparr>)"
  using boot.write_refines [OF assms(1,2), of "table_id T" tbl "table_version T"] assms(3-5)
  by (auto simp: table_set_def split: prod.splits)

lemma table_get_refines:
  assumes "boot.db_refines sealing env sz L A" "env_ok env" "m_registered T"
    and "sp_map A (table_id T) = Some (d, v)" "d \<noteq> []" "length d \<le> length tbl"
  shows "table_get (eeprom_ops sealing) env L T tbl =
    (let out = d @ drop (length d) tbl in if v = table_version T then (True, out) else migrate T v out)"
  using boot.read_refines [OF assms(1,2), of "CallRead (table_id T) tbl" "table_id T" tbl] assms(3-6)
  by (auto simp: table_get_def Let_def split: prod.splits)

text \<open>
  C6: a record stored through a table is still there after a power cycle into a firmware whose
  struct gained fields at its end, whatever else changed among the registered tables: the grown
  table reads the old bytes followed by its own defaults, as they are when the version is the
  same and through its \<open>migrate\<close> with the old version when it is not.
\<close>

theorem grown_table_keeps_record:
  assumes "m_store L = Some s" "eeprom_inv s" "db_ok env (eeprom_img (env_sealing env) s) L"
      "eeprom_media (env_sealing env) s = eeprom_img (env_sealing env) s" "env_ok env" "\<forall>n. env_heap env n"
    and "m_registered T" "(table_id T, db_slot_for env (descriptor T), if db_seals env (descriptor T) then DB_ENTRY_FLAG_SEALED else 0) \<in> set (slots L)"
    and "length tbl = unat (table_size T)" "tbl \<noteq> []"
    and "tables_ok env (eeprom_size (env_sealing env)) ts'" "descriptor T' \<in> set ts'" "m_registered T'"
    and "table_id T' = table_id T" "table_secret T' = table_secret T" "length dflt = unat (table_size T')"
      "table_size T \<le> table_size T'" "unat (table_size T') + 32 < 2 ^ 16"
  shows "\<exists>L1 L2. table_set (eeprom_ops (env_sealing env)) env L T tbl = (True, L1)
    \<and> mount (eeprom_ops (env_sealing env)) env (DbLayout_new env\<lparr>m_draws := m_draws L1\<rparr>) (Some (eeprom_reboot (dl_store L1))) ts' = (PDI_OK, L2)
    \<and> table_get (eeprom_ops (env_sealing env)) env L2 T' dflt =
       (let out = tbl @ drop (length tbl) dflt in if table_version T = table_version T' then (True, out) else migrate T' (table_version T) out)"
proof -
  let ?sealing = "env_sealing env" and ?sz = "eeprom_size (env_sealing env)" and ?seal = "db_seals env (descriptor T)"
  let ?A = "\<lparr>sp_slots = slots L, sp_map = lookup env (eeprom_img (env_sealing env) s) L\<rparr>"
  let ?cap = "db_slot_for env (descriptor T)" and ?fl = "if db_seals env (descriptor T) then DB_ENTRY_FLAG_SEALED else 0"
  have L: "boot.db_refines ?sealing env ?sz L ?A"
    unfolding boot.db_refines_def using assms(1-4) eeprom_img_length by simp
  have "distinct (map fst (slots L))"
    using assms(3) by (simp add: db_ok_def geometry_def slots_def comp_def)
  then have slot: "slot_of (sp_slots ?A) (table_id T) = Some (?cap, ?fl)"
    using assms(8) by (simp add: slot_of_def slots_found)
  have seal: "flag_sealed ?fl = ?seal" "flag_overhead ?fl = (if ?seal then 32 else 0)"
    by (simp_all add: flag_sealed_def flag_overhead_def DB_ENTRY_FLAG_SEALED_def db_consts)
  have le: "unat (table_size T) \<le> unat (table_size T')"
    using assms(17) by (simp add: word_le_nat_alt)
  have caps: "unat ?cap = length tbl + flag_overhead ?fl" "unat (db_slot_for env (descriptor T')) = length dflt + flag_overhead ?fl"
      "db_seals env (descriptor T') = ?seal"
    using slot_size [of T "length tbl" env] slot_size [of T' "length dflt" env] assms(9,15,16,18) le seal(2)
    by (simp_all add: db_seals_def descriptor_def)
  obtain L1 where L1: "table_set (eeprom_ops ?sealing) env L T tbl = (True, L1)"
      "boot.db_refines ?sealing env ?sz L1 (?A\<lparr>sp_map := (sp_map ?A)(table_id T \<mapsto> (tbl, table_version T))\<rparr>)"
    using table_set_refines [OF L assms(5,7) slot] caps(1) by auto
  let ?A1 = "?A\<lparr>sp_map := (sp_map ?A)(table_id T \<mapsto> (tbl, table_version T))\<rparr>"
  obtain L2 where L2: "run_call (eeprom_ops ?sealing) eeprom_reboot env (CallReboot ts') L1 = (Answer PDI_OK, L2)"
      "boot.db_refines ?sealing env ?sz L2 (spec_mount env ts' ?A1)"
    using boot.reboot_refines [OF L1(2) assms(11)] assms(6) by blast
  have "List.find (\<lambda>t. m_table_id t = table_id T) ts' = Some (descriptor T')"
    using find_member [of ts' "descriptor T'"] assms(11,12,14) by (simp add: tables_ok_def descriptor_def)
  then have "sp_map (spec_mount env ts' ?A1) (table_id T') = Some (tbl, table_version T)"
    using slot seal caps assms(9,10,14,16) le by (simp add: spec_mount_def spec_carry_def descriptor_def)
  then have "table_get (eeprom_ops ?sealing) env L2 T' dflt =
      (let out = tbl @ drop (length tbl) dflt in if table_version T = table_version T' then (True, out) else migrate T' (table_version T) out)"
    using table_get_refines [OF L2(2) assms(5,13)] assms(9,10,16) le by simp
  moreover have "mount (eeprom_ops ?sealing) env (DbLayout_new env\<lparr>m_draws := m_draws L1\<rparr>) (Some (eeprom_reboot (dl_store L1))) ts' = (PDI_OK, L2)"
    using L2(1) by (auto split: prod.splits)
  ultimately show ?thesis
    using L1(1) by blast
qed

lemma grown_table_keeps_record_witness:
  "\<exists>L T T' L1 L2. table_set (eeprom_ops True) sample_env L T [1, 2, 3, 4, 5, 6, 7, 8] = (True, L1)
     \<and> mount (eeprom_ops True) sample_env (DbLayout_new sample_env\<lparr>m_draws := m_draws L1\<rparr>) (Some (eeprom_reboot (dl_store L1))) [descriptor T']
        = (PDI_OK, L2)
     \<and> table_get (eeprom_ops True) sample_env L2 T' [9, 9, 9, 9, 9, 9, 9, 9, 9, 9] = (True, [1, 2, 3, 4, 5, 6, 7, 8, 9, 9])"
proof -
  obtain L s i where db: "m_store L = Some s" "eeprom_inv s" "db_ok sample_env (eeprom_img True s) L" "find_entry L 7 = Some i"
      "slots L = table_slots sample_env (sample_tables 20)" "eeprom_media True s = eeprom_img True s"
    using sample_db by metis
  let ?T = "\<lparr>table_id = 7, table_size = 8, table_version = 1, table_secret = False, this_ptr = 1, migrate = (\<lambda>_ b. (True, b)), m_registered = True\<rparr>"
  let ?T' = "?T\<lparr>table_size := 10\<rparr>"
  have "(table_id ?T, db_slot_for sample_env (descriptor ?T), if db_seals sample_env (descriptor ?T) then DB_ENTRY_FLAG_SEALED else 0) \<in> set (slots L)"
    by (simp add: db(5) table_slots_def sample_tables_def db_slot_for_def db_seals_def descriptor_def)
  moreover have "tables_ok sample_env (eeprom_size True) [descriptor ?T']"
    by (simp add: tables_ok_def sample_env_def descriptor_def db_slot_for_def db_seals_def eeprom_size_def slots_total_def
        DATABASE_MAX_SIZE_def DB_KEY_REGION_BYTES_def db_consts)
  ultimately have "\<exists>L1 L2. table_set (eeprom_ops True) sample_env L ?T [1, 2, 3, 4, 5, 6, 7, 8] = (True, L1)
      \<and> mount (eeprom_ops True) sample_env (DbLayout_new sample_env\<lparr>m_draws := m_draws L1\<rparr>) (Some (eeprom_reboot (dl_store L1))) [descriptor ?T']
         = (PDI_OK, L2)
      \<and> table_get (eeprom_ops True) sample_env L2 ?T' [9, 9, 9, 9, 9, 9, 9, 9, 9, 9] = (True, [1, 2, 3, 4, 5, 6, 7, 8, 9, 9])"
    using grown_table_keeps_record [of L s sample_env ?T "[1, 2, 3, 4, 5, 6, 7, 8]" "[descriptor ?T']" ?T' "[9, 9, 9, 9, 9, 9, 9, 9, 9, 9]"]
      db sample_env_ok by simp
  then show ?thesis
    by blast
qed

end
