(* ===== verification/TaskSched.thy ===== *)
theory TaskSched
  imports PdiPrelude "HOL-Library.Signed_Division"
begin

text \<open>
  The cooperative task scheduler (\<^verbatim>\<open>src/src/utility/TaskScheduler.cpp\<close>, \<open>task_t\<close> of
  \<^verbatim>\<open>src/src/utility/DataTypeDef.h\<close>). The table of slots is a list that never changes its
  length; a callback is a handle whose effect on the scheduler, through its own calls, is given
  by \<open>call_task\<close>. The utility interface, the executives of the contextual build and the
  finalizers are further entries of \<open>sched_ops\<close>, over a state \<open>world\<close> of the device.
  Interrupt locks are not modelled: one call runs at a time.
\<close>

section \<open>Tasks\<close>

definition MAX_TASK_PRIORITY :: int where "MAX_TASK_PRIORITY = 99"
definition MAX_SCHEDULABLE_TASKS :: nat where "MAX_SCHEDULABLE_TASKS = 25"
definition MAX_TASK_ID :: int where "MAX_TASK_ID = 32000"
definition TASK_PRIORITY_WEIGHT_MIN :: int where "TASK_PRIORITY_WEIGHT_MIN = 50"
definition TASK_PRIORITY_WEIGHT_MAX :: int where "TASK_PRIORITY_WEIGHT_MAX = 100"
definition TASK_WEIGHT_LEVELS :: int where "TASK_WEIGHT_LEVELS = MAX_TASK_PRIORITY + 1"
definition TASK_WEIGHT_NOMINAL :: nat where "TASK_WEIGHT_NOMINAL = 1024"
definition TASK_WEIGHT_SPAN :: int where "TASK_WEIGHT_SPAN = 9"
definition TASK_WEIGHT_STEP_NUM :: nat where "TASK_WEIGHT_STEP_NUM = nat (TASK_WEIGHT_LEVELS + TASK_WEIGHT_SPAN)"
definition TASK_WEIGHT_STEP_DEN :: nat where "TASK_WEIGHT_STEP_DEN = nat TASK_WEIGHT_LEVELS"
definition TASK_WEIGHT_DEADLINE_BOOST :: nat where "TASK_WEIGHT_DEADLINE_BOOST = 4"

lemmas task_consts = MAX_TASK_PRIORITY_def MAX_SCHEDULABLE_TASKS_def MAX_TASK_ID_def TASK_PRIORITY_WEIGHT_MIN_def
  TASK_PRIORITY_WEIGHT_MAX_def TASK_WEIGHT_LEVELS_def TASK_WEIGHT_NOMINAL_def TASK_WEIGHT_SPAN_def TASK_WEIGHT_STEP_NUM_def
  TASK_WEIGHT_STEP_DEN_def TASK_WEIGHT_DEADLINE_BOOST_def

datatype task_mode_t = TASK_MODE_INLINE | TASK_MODE_COOPERATIVE | TASK_MODE_PREEMPTIVE | TASK_MODE_MAX

datatype task_policy_t = TASK_POLICY_FIFO | TASK_POLICY_ROUNDROBIN | TASK_POLICY_DEADLINE | TASK_POLICY_FAIRSHARE

datatype task_state_t = TASK_STATE_READY | TASK_STATE_RUNNING | TASK_STATE_SLEEPING | TASK_STATE_STOPPED | TASK_STATE_ZOMBIE

definition SIG_NONE :: u8 where "SIG_NONE = 0"
definition SIG_HUP :: u8 where "SIG_HUP = 1"
definition SIG_KILL :: u8 where "SIG_KILL = 9"
definition SIG_TERM :: u8 where "SIG_TERM = 15"
definition SIG_CONT :: u8 where "SIG_CONT = 18"
definition SIG_STOP :: u8 where "SIG_STOP = 19"

lemmas signals = SIG_NONE_def SIG_HUP_def SIG_KILL_def SIG_TERM_def SIG_CONT_def SIG_STOP_def

record task_t =
  m_task_id :: int
  m_max_attempts :: int
  m_duration :: u64
  m_last_millis :: u64
  m_task :: "nat option"
  m_task_priority :: u8
  m_task_exec_us :: u32
  m_task_mode :: task_mode_t
  m_task_policy :: task_policy_t
  m_name :: "string option"
  m_owner :: u8
  m_state :: task_state_t
  m_nice :: int
  m_created_ms :: u64
  m_run_count :: u32
  m_total_exec_us :: u64
  m_vruntime :: u64
  m_weight :: u32
  m_pending_sig :: u8
  m_stoppable :: bool
  m_finalizer :: "nat option"
  m_task_exec :: "nat option"

text \<open>\<open>clear\<close> leaves the executive alone.\<close>

definition task_clear :: "task_t \<Rightarrow> task_t" where
  "task_clear t = \<lparr>m_task_id = -1, m_max_attempts = 0, m_duration = 0, m_last_millis = 0, m_task = None, m_task_priority = 0,
     m_task_exec_us = 0, m_task_mode = TASK_MODE_INLINE, m_task_policy = TASK_POLICY_FIFO, m_name = None, m_owner = 0,
     m_state = TASK_STATE_READY, m_nice = 0, m_created_ms = 0, m_run_count = 0, m_total_exec_us = 0, m_vruntime = 0, m_weight = 1,
     m_pending_sig = SIG_NONE, m_stoppable = True, m_finalizer = None, m_task_exec = m_task_exec t\<rparr>"

definition task_new :: task_t where
  "task_new = \<lparr>m_task_id = -1, m_max_attempts = 0, m_duration = 0, m_last_millis = 0, m_task = None, m_task_priority = 0,
     m_task_exec_us = 0, m_task_mode = TASK_MODE_INLINE, m_task_policy = TASK_POLICY_FIFO, m_name = None, m_owner = 0,
     m_state = TASK_STATE_READY, m_nice = 0, m_created_ms = 0, m_run_count = 0, m_total_exec_us = 0, m_vruntime = 0, m_weight = 1,
     m_pending_sig = SIG_NONE, m_stoppable = True, m_finalizer = None, m_task_exec = None\<rparr>"

section \<open>The scheduler and its surroundings\<close>

record 'w TaskScheduler =
  m_tasks :: "task_t list"
  m_util :: bool
  m_max_tasks :: u8
  m_rebase_start_priotask :: bool
  m_min_vruntime :: u64
  m_next_task_id :: int
  world :: 'w

text \<open>
  \<open>undef_int\<close> is what a conversion from \<open>double\<close> gives where the language leaves it
  open. \<open>contextual\<close> is the build option for executives.
\<close>

record 'w sched_ops =
  millis_now :: "'w \<Rightarrow> u32 \<times> 'w"
  micros_now :: "'w \<Rightarrow> u64 \<times> 'w"
  util_yield :: "'w \<Rightarrow> 'w"
  call_task :: "nat \<Rightarrow> 'w TaskScheduler \<Rightarrow> 'w TaskScheduler"
  call_final :: "nat \<Rightarrow> nat \<Rightarrow> 'w TaskScheduler \<Rightarrow> 'w TaskScheduler"
  contextual :: bool
  exec_suspend :: "nat \<Rightarrow> 'w \<Rightarrow> 'w"
  exec_resume :: "nat \<Rightarrow> 'w \<Rightarrow> 'w"
  exec_terminate :: "nat \<Rightarrow> 'w \<Rightarrow> 'w"
  exec_is_finished :: "nat \<Rightarrow> 'w \<Rightarrow> bool"
  exec_reap :: "nat \<Rightarrow> 'w \<Rightarrow> 'w"
  schedule_task :: "nat \<Rightarrow> nat \<Rightarrow> u32 \<Rightarrow> 'w TaskScheduler \<Rightarrow> int \<times> 'w TaskScheduler"
  undef_int :: "int \<Rightarrow> int"

definition TaskScheduler_new :: "'w \<Rightarrow> 'w TaskScheduler" where
  "TaskScheduler_new w = \<lparr>m_tasks = replicate MAX_SCHEDULABLE_TASKS task_new, m_util = False, m_max_tasks = of_nat MAX_SCHEDULABLE_TASKS,
     m_rebase_start_priotask = False, m_min_vruntime = 0, m_next_task_id = 1, world = w\<rparr>"

definition upd_task :: "nat \<Rightarrow> (task_t \<Rightarrow> task_t) \<Rightarrow> 'w TaskScheduler \<Rightarrow> 'w TaskScheduler" where
  "upd_task i f S = S\<lparr>m_tasks := (m_tasks S)[i := f (m_tasks S ! i)]\<rparr>"

abbreviation task_at :: "'w TaskScheduler \<Rightarrow> nat \<Rightarrow> task_t" where
  "task_at S i \<equiv> m_tasks S ! i"

section \<open>Weights\<close>

definition ladder_up :: "nat \<Rightarrow> nat" where "ladder_up w = (w * TASK_WEIGHT_STEP_NUM) div TASK_WEIGHT_STEP_DEN"
definition ladder_down :: "nat \<Rightarrow> nat" where "ladder_down w = (w * TASK_WEIGHT_STEP_DEN) div TASK_WEIGHT_STEP_NUM"

definition effective_priority :: "task_t \<Rightarrow> int" where
  "effective_priority t = max 0 (min MAX_TASK_PRIORITY (uint (m_task_priority t) - m_nice t))"

definition ladder_step :: "int \<Rightarrow> int" where
  "ladder_step eff = (eff * (TASK_WEIGHT_LEVELS - 1)) div MAX_TASK_PRIORITY - TASK_WEIGHT_LEVELS div 2"

text \<open>The 64-bit arithmetic of the ladder does not wrap; \<open>taskWeight_exact\<close> below says so.\<close>

definition taskWeight :: "task_t \<Rightarrow> u32" where
  "taskWeight t =
     (if m_task_policy t = TASK_POLICY_ROUNDROBIN then of_nat TASK_WEIGHT_NOMINAL
      else
        let step = ladder_step (effective_priority t);
            weight = (if step \<ge> 0 then (ladder_up ^^ nat step) TASK_WEIGHT_NOMINAL else (ladder_down ^^ nat (- step)) TASK_WEIGHT_NOMINAL);
            weight = (if m_task_policy t = TASK_POLICY_DEADLINE then weight * TASK_WEIGHT_DEADLINE_BOOST else weight)
        in if weight < 1 then 1 else of_nat weight)"

definition set_task_priority :: "u8 \<Rightarrow> task_t \<Rightarrow> task_t" where
  "set_task_priority p t =
     (let t = t\<lparr>m_task_priority := (if uint p > MAX_TASK_PRIORITY then of_int MAX_TASK_PRIORITY else p)\<rparr> in t\<lparr>m_weight := taskWeight t\<rparr>)"

definition set_task_policy :: "task_policy_t \<Rightarrow> task_t \<Rightarrow> task_t" where
  "set_task_policy p t = (let t = t\<lparr>m_task_policy := p\<rparr> in t\<lparr>m_weight := taskWeight t\<rparr>)"

definition set_task_nice :: "int \<Rightarrow> task_t \<Rightarrow> task_t" where
  "set_task_nice n t = (let t = t\<lparr>m_nice := n\<rparr> in t\<lparr>m_weight := taskWeight t\<rparr>)"

section \<open>Identities\<close>

definition is_registered_task :: "'w TaskScheduler \<Rightarrow> int \<Rightarrow> nat option" where
  "is_registered_task S ident =
     (if ident < 0 then None else List.find (\<lambda>i. m_task_id (task_at S i) = ident) [0..<length (m_tasks S)])"

definition get_task :: "'w TaskScheduler \<Rightarrow> int \<Rightarrow> nat option" where
  "get_task S ident =
     (if ident < 0 then None else List.find (\<lambda>i. m_task_id (task_at S i) = ident) [0..<length (m_tasks S)])"

definition next_id :: "int \<Rightarrow> int" where
  "next_id ident = (if ident \<ge> MAX_TASK_ID then 1 else ident + 1)"

fun unique_id_loop :: "nat \<Rightarrow> 'w TaskScheduler \<Rightarrow> int \<times> 'w TaskScheduler" where
  "unique_id_loop 0 S = (-1, S)"
| "unique_id_loop (Suc n) S =
     (let ident = m_next_task_id S; S = S\<lparr>m_next_task_id := next_id ident\<rparr> in
      if ident \<in> m_task_id ` set (m_tasks S) then unique_id_loop n S else (ident, S))"

definition get_unique_task_id :: "'w TaskScheduler \<Rightarrow> int \<times> 'w TaskScheduler" where
  "get_unique_task_id S = unique_id_loop (Suc (unat (m_max_tasks S))) S"

section \<open>Registering, updating and removing\<close>

definition free_slot :: "'w TaskScheduler \<Rightarrow> nat option" where
  "free_slot S = List.find (\<lambda>i. m_task_id (task_at S i) < 0) [0..<min (length (m_tasks S)) (unat (m_max_tasks S))]"

definition now_or_zero :: "'w sched_ops \<Rightarrow> 'w TaskScheduler \<Rightarrow> u64 \<times> 'w TaskScheduler" where
  "now_or_zero ops S =
     (if m_util S then (case millis_now ops (world S) of (t, w) \<Rightarrow> (ucast t, S\<lparr>world := w\<rparr>)) else (0, S))"

definition register_task :: "'w sched_ops \<Rightarrow> 'w TaskScheduler \<Rightarrow> nat option \<Rightarrow> u64 \<Rightarrow> u8 \<Rightarrow> u64 \<Rightarrow> int \<Rightarrow> string option \<Rightarrow> u8
    \<Rightarrow> int \<times> 'w TaskScheduler" where
  "register_task ops S fn duration prio last_ms attempts name owner =
     (let start = m_min_vruntime S in
      case free_slot S of
        None \<Rightarrow> (-1, S)
      | Some i \<Rightarrow>
          case get_unique_task_id S of
            (ident, S) \<Rightarrow>
              if ident < 0 then (-1, S)
              else
                let S = upd_task i (\<lambda>t. t\<lparr>m_task := fn, m_duration := duration, m_last_millis := last_ms, m_max_attempts := attempts,
                      m_task_exec_us := 0, m_vruntime := start, m_task_id := ident, m_state := TASK_STATE_SLEEPING\<rparr>) S;
                    S = upd_task i (\<lambda>t. set_task_priority prio (set_task_policy TASK_POLICY_FIFO t)) S
                in case now_or_zero ops S of
                  (now, S) \<Rightarrow> (ident, upd_task i (\<lambda>t. t\<lparr>m_created_ms := now, m_name := name, m_owner := owner\<rparr>) S))"

definition TaskScheduler_with :: "'w sched_ops \<Rightarrow> 'w \<Rightarrow> nat option \<Rightarrow> u64 \<Rightarrow> u8 \<Rightarrow> u64 \<Rightarrow> 'w TaskScheduler" where
  "TaskScheduler_with ops w fn duration prio last_ms = snd (register_task ops (TaskScheduler_new w) fn duration prio last_ms (-1) None 0)"

definition setTimeout where
  "setTimeout ops S fn duration now prio name owner = register_task ops S fn duration prio now 1 name owner"

definition setInterval where
  "setInterval ops S fn duration now prio name owner = register_task ops S fn duration prio now (-1) name owner"

definition updateInterval :: "'w sched_ops \<Rightarrow> 'w TaskScheduler \<Rightarrow> int \<Rightarrow> nat option \<Rightarrow> u64 \<Rightarrow> u8 \<Rightarrow> u64 \<Rightarrow> int \<Rightarrow> string option \<Rightarrow> u8
    \<Rightarrow> int \<times> 'w TaskScheduler" where
  "updateInterval ops S ident fn duration prio last_ms attempts name owner =
     (case is_registered_task S ident of
        Some i \<Rightarrow>
          (ident, upd_task i (\<lambda>t.
             let t = set_task_priority prio (t\<lparr>m_task := fn, m_duration := duration\<rparr>)
             in t\<lparr>m_last_millis := (if last_ms = 0 then m_last_millis t else last_ms), m_max_attempts := attempts,
                  m_name := (case name of None \<Rightarrow> m_name t | Some n \<Rightarrow> Some n), m_owner := owner\<rparr>) S)
      | None \<Rightarrow> register_task ops S fn duration prio last_ms attempts name owner)"

definition updateTimeout where
  "updateTimeout ops S ident fn duration now prio = updateInterval ops S ident fn duration prio now 1 None 0"

definition remove_task :: "'w sched_ops \<Rightarrow> 'w TaskScheduler \<Rightarrow> int \<Rightarrow> bool \<times> 'w TaskScheduler" where
  "remove_task ops S ident =
     (if ident < 0 then (False, S)
      else (ident \<in> m_task_id ` set (m_tasks S),
            S\<lparr>m_tasks := map (\<lambda>t. if m_task_id t = ident
                then (set_task_priority 0 (t\<lparr>m_duration := 10\<rparr>))\<lparr>m_max_attempts := 0, m_task := None, m_state := TASK_STATE_ZOMBIE,
                       m_task_exec := (if contextual ops then None else m_task_exec t)\<rparr>
                else t) (m_tasks S)\<rparr>))"

definition clearTimeout where "clearTimeout = remove_task"
definition clearInterval where "clearInterval = remove_task"

section \<open>Attributes and signals\<close>

definition on_task :: "'w TaskScheduler \<Rightarrow> int \<Rightarrow> (task_t \<Rightarrow> task_t) \<Rightarrow> bool \<times> 'w TaskScheduler" where
  "on_task S ident f = (case is_registered_task S ident of None \<Rightarrow> (False, S) | Some i \<Rightarrow> (True, upd_task i f S))"

definition setTaskName where "setTaskName S ident name = on_task S ident (m_name_update (\<lambda>_. name))"
definition setTaskOwner where "setTaskOwner S ident owner = on_task S ident (m_owner_update (\<lambda>_. owner))"
definition setTaskNice where "setTaskNice S ident nice = on_task S ident (set_task_nice (max (-20) (min 19 nice)))"
definition setTaskPolicy where "setTaskPolicy S ident policy = on_task S ident (set_task_policy policy)"
definition setTaskPriority where "setTaskPriority S ident prio = on_task S ident (set_task_priority prio)"
definition sendSignal where "sendSignal S ident sig = on_task S ident (m_pending_sig_update (\<lambda>_. sig))"
definition setTaskFinalizer where "setTaskFinalizer S ident fn = on_task S ident (m_finalizer_update (\<lambda>_. fn))"

definition getTaskOwner :: "'w TaskScheduler \<Rightarrow> int \<Rightarrow> u8" where
  "getTaskOwner S ident = (case is_registered_task S ident of None \<Rightarrow> 0 | Some i \<Rightarrow> m_owner (task_at S i))"

definition hasTaskFinalizer :: "'w TaskScheduler \<Rightarrow> int \<Rightarrow> bool" where
  "hasTaskFinalizer S ident = (case is_registered_task S ident of None \<Rightarrow> False | Some i \<Rightarrow> m_finalizer (task_at S i) \<noteq> None)"

definition signal_hits :: "string \<Rightarrow> u8 \<Rightarrow> u8 \<Rightarrow> bool \<Rightarrow> task_t \<Rightarrow> bool" where
  "signal_hits name sig sid root t \<longleftrightarrow> m_task_id t \<ge> 0 \<and> m_state t \<noteq> TASK_STATE_ZOMBIE \<and> m_name t = Some name
     \<and> (root \<or> m_owner t = sid) \<and> (sig = SIG_STOP \<or> sig = SIG_CONT \<longrightarrow> m_stoppable t)"

definition sendSignalByName :: "'w TaskScheduler \<Rightarrow> string option \<Rightarrow> u8 \<Rightarrow> u8 \<Rightarrow> bool \<Rightarrow> u16 \<times> 'w TaskScheduler" where
  "sendSignalByName S name sig sid root =
     (case name of
        None \<Rightarrow> (0, S)
      | Some n \<Rightarrow>
          if n = [] then (0, S)
          else (of_nat (length (filter (signal_hits n sig sid root) (m_tasks S))),
                S\<lparr>m_tasks := map (\<lambda>t. if signal_hits n sig sid root t then t\<lparr>m_pending_sig := sig\<rparr> else t) (m_tasks S)\<rparr>))"

definition getTaskCount :: "'w TaskScheduler \<Rightarrow> nat" where
  "getTaskCount S = length (filter (\<lambda>t. m_task_id t \<ge> 0) (m_tasks S))"

definition getTaskByIndex :: "'w TaskScheduler \<Rightarrow> nat \<Rightarrow> task_t option" where
  "getTaskByIndex S i = (if i \<ge> length (m_tasks S) then None else if m_task_id (task_at S i) \<ge> 0 then Some (task_at S i) else None)"

definition setMaxTasksLimit :: "'w TaskScheduler \<Rightarrow> u8 \<Rightarrow> 'w TaskScheduler" where
  "setMaxTasksLimit S n = S\<lparr>m_max_tasks := n\<rparr>"

definition setUtilityInterface :: "'w TaskScheduler \<Rightarrow> bool \<Rightarrow> 'w TaskScheduler" where
  "setUtilityInterface S u = S\<lparr>m_util := u\<rparr>"

definition rebaseAndRestartPrioTasks :: "'w TaskScheduler \<Rightarrow> 'w TaskScheduler" where
  "rebaseAndRestartPrioTasks S = S\<lparr>m_rebase_start_priotask := True\<rparr>"

section \<open>Scores\<close>

fun flog2 :: "nat \<Rightarrow> nat" where
  "flog2 n = (if n \<le> 1 then 0 else Suc (flog2 (n div 2)))"

declare flog2.simps [simp del]

text \<open>
  \<open>(int)floor(log2((double)x + 1.0))\<close>: exact below \<open>2 ^ 48\<close>, where the rounding of
  \<open>log2\<close> cannot reach the next integer; beyond that, and for a negative argument, it is what
  the platform gives.
\<close>

definition log_floor :: "'w sched_ops \<Rightarrow> int \<Rightarrow> int" where
  "log_floor ops x = (if 0 \<le> x \<and> x < 2 ^ 48 then int (flog2 (nat x + 1)) else undef_int ops x)"

definition to_int :: "'w sched_ops \<Rightarrow> int \<Rightarrow> int" where
  "to_int ops x = (if - (2 ^ 31) \<le> x \<and> x < 2 ^ 31 then x else undef_int ops x)"

definition next_due :: "task_t \<Rightarrow> u64" where
  "next_due t = m_last_millis t + m_duration t"

definition computeScore :: "'w sched_ops \<Rightarrow> task_t \<Rightarrow> u64 \<Rightarrow> int" where
  "computeScore ops t now =
     (let overdue = next_due t \<le> now;
          lateness = (if overdue then sint (now - next_due t) else 0);
          earlyness = (if overdue then 0 else sint (next_due t - now));
          recentness = sint (now - m_last_millis t);
          weight = max TASK_PRIORITY_WEIGHT_MIN (min TASK_PRIORITY_WEIGHT_MAX (sint (ucast (m_duration t) :: 32 word)));
          cap = 50;
          eff = uint (m_task_priority t) - m_nice t
      in to_int ops (eff * weight +
           (case m_task_policy t of
              TASK_POLICY_ROUNDROBIN \<Rightarrow> 320 * min (log_floor ops recentness) cap
            | TASK_POLICY_DEADLINE \<Rightarrow> 640 * max 0 (cap - min (log_floor ops earlyness) cap)
            | TASK_POLICY_FAIRSHARE \<Rightarrow> 480 * max 0 (cap - min (log_floor ops (uint (m_task_exec_us t))) cap)
            | TASK_POLICY_FIFO \<Rightarrow> 320 * min (sint (of_int lateness :: 32 word) sdiv 100) cap)))"

section \<open>The order of a pass\<close>

definition swap_needed :: "'w sched_ops \<Rightarrow> u64 \<Rightarrow> task_t \<Rightarrow> task_t \<Rightarrow> bool" where
  "swap_needed ops now ti tj =
     (let due_i = next_due ti \<le> now; due_j = next_due tj \<le> now in
      if due_i \<noteq> due_j then due_j
      else if m_vruntime ti \<noteq> m_vruntime tj then m_vruntime tj < m_vruntime ti
      else
        let score_i = computeScore ops ti now; score_j = computeScore ops tj now in
        if score_i \<noteq> score_j then score_j > score_i
        else if \<bar>sint (next_due ti - next_due tj)\<bar> > 3 then next_due tj < next_due ti
        else m_task_exec_us ti > m_task_exec_us tj)"

fun inner_loop :: "('a \<Rightarrow> 'a \<Rightarrow> bool) \<Rightarrow> 'a list \<Rightarrow> nat \<Rightarrow> nat list \<Rightarrow> 'a list" where
  "inner_loop swp xs i [] = xs"
| "inner_loop swp xs i (j # js) = inner_loop swp (if swp (xs ! i) (xs ! j) then xs[i := xs ! j, j := xs ! i] else xs) i js"

fun outer_loop :: "('a \<Rightarrow> 'a \<Rightarrow> bool) \<Rightarrow> 'a list \<Rightarrow> nat list \<Rightarrow> 'a list" where
  "outer_loop swp xs [] = xs"
| "outer_loop swp xs (i # is) = outer_loop swp (inner_loop swp xs i [Suc i..<length xs]) is"

definition live_slots :: "'w TaskScheduler \<Rightarrow> nat list" where
  "live_slots S = filter (\<lambda>i. m_task_id (task_at S i) \<ge> 0) [0..<length (m_tasks S)]"

definition sort_tasks :: "'w sched_ops \<Rightarrow> 'w TaskScheduler \<Rightarrow> u64 \<Rightarrow> nat list" where
  "sort_tasks ops S now =
     outer_loop (\<lambda>i j. swap_needed ops now (task_at S i) (task_at S j)) (live_slots S) [0..<length (live_slots S)]"

definition getSortedTaskList :: "'w sched_ops \<Rightarrow> 'w TaskScheduler \<Rightarrow> nat list \<times> 'w TaskScheduler" where
  "getSortedTaskList ops S =
     (case millis_now ops (world S) of (now, w) \<Rightarrow> (sort_tasks ops S (ucast now), S\<lparr>world := w\<rparr>))"

section \<open>A pass\<close>

text \<open>A task that runs under an executive is only looked after here; whether to go on is always yes.\<close>

definition contextual_step :: "'w sched_ops \<Rightarrow> 'w TaskScheduler \<Rightarrow> nat \<Rightarrow> 'w TaskScheduler" where
  "contextual_step ops S i =
     (case m_task_exec (task_at S i) of
        None \<Rightarrow> S
      | Some x \<Rightarrow>
          let sig = m_pending_sig (task_at S i);
              S = upd_task i (m_pending_sig_update (\<lambda>_. SIG_NONE)) S;
              S = (if sig = SIG_STOP then
                     (if m_stoppable (task_at S i)
                      then upd_task i (m_state_update (\<lambda>_. TASK_STATE_STOPPED)) (S\<lparr>world := exec_suspend ops x (world S)\<rparr>) else S)
                   else if sig = SIG_CONT then
                     (if m_stoppable (task_at S i)
                      then upd_task i (m_state_update (\<lambda>s. if s = TASK_STATE_STOPPED then TASK_STATE_SLEEPING else s))
                             (S\<lparr>world := exec_resume ops x (world S)\<rparr>) else S)
                   else if sig = SIG_KILL \<or> sig = SIG_TERM then S\<lparr>world := exec_terminate ops x (world S)\<rparr>
                   else S)
          in if exec_is_finished ops x (world S)
             then let S = S\<lparr>world := exec_reap ops x (world S)\<rparr> in
               (case m_finalizer (task_at S i) of
                  None \<Rightarrow> S
                | Some fin \<Rightarrow> call_final ops fin i (upd_task i (m_finalizer_update (\<lambda>_. None)) S))
             else S)"

definition consume_signal :: "task_t \<Rightarrow> task_t" where
  "consume_signal t =
     (let sig = m_pending_sig t; t = t\<lparr>m_pending_sig := SIG_NONE\<rparr> in
      if sig = SIG_KILL \<or> sig = SIG_TERM then t\<lparr>m_task := None, m_max_attempts := 0, m_state := TASK_STATE_ZOMBIE\<rparr>
      else if sig = SIG_STOP then t\<lparr>m_state := TASK_STATE_STOPPED\<rparr>
      else if sig = SIG_CONT then t\<lparr>m_state := (if m_state t = TASK_STATE_STOPPED then TASK_STATE_SLEEPING else m_state t)\<rparr>
      else t)"

definition charge :: "u64 \<Rightarrow> task_t \<Rightarrow> task_t" where
  "charge us t =
     (let t = t\<lparr>m_task_exec_us := ucast us\<rparr>; t = t\<lparr>m_total_exec_us := m_total_exec_us t + ucast (m_task_exec_us t)\<rparr>;
          weight = (if m_weight t > 0 then m_weight t else 1)
      in t\<lparr>m_vruntime := m_vruntime t + (ucast (m_task_exec_us t) * of_nat TASK_WEIGHT_NOMINAL) div ucast weight,
           m_run_count := m_run_count t + 1, m_state := TASK_STATE_SLEEPING\<rparr>)"

definition run_callback :: "'w sched_ops \<Rightarrow> 'w TaskScheduler \<Rightarrow> nat \<Rightarrow> nat \<Rightarrow> 'w TaskScheduler" where
  "run_callback ops S i fn =
     (let S = (if m_vruntime (task_at S i) > m_min_vruntime S then S\<lparr>m_min_vruntime := m_vruntime (task_at S i)\<rparr> else S);
          S = upd_task i (m_state_update (\<lambda>_. TASK_STATE_RUNNING)) S
      in case micros_now ops (world S) of
        (us0, w) \<Rightarrow>
          let S = call_task ops fn (S\<lparr>world := w\<rparr>)
          in case micros_now ops (world S) of
            (us1, w) \<Rightarrow> upd_task i (charge (us1 - us0)) (S\<lparr>world := w\<rparr>))"

fun catch_up :: "nat \<Rightarrow> u64 \<Rightarrow> u64 \<Rightarrow> u64 \<Rightarrow> u64" where
  "catch_up 0 start duration last_ms = last_ms"
| "catch_up (Suc n) start duration last_ms =
     (if start - last_ms \<ge> duration then catch_up n start duration (last_ms + duration) else last_ms)"

definition account_run :: "u64 \<Rightarrow> task_t \<Rightarrow> task_t" where
  "account_run start t =
     (let t = t\<lparr>m_last_millis := (if m_last_millis t = 0 then start else catch_up 4 start (m_duration t) (m_last_millis t))\<rparr>;
          t = t\<lparr>m_max_attempts := (if m_max_attempts t > 0 then m_max_attempts t - 1 else m_max_attempts t)\<rparr>
      in if m_max_attempts t = 0 then t\<lparr>m_state := TASK_STATE_ZOMBIE\<rparr> else t)"

definition run_due :: "'w sched_ops \<Rightarrow> 'w TaskScheduler \<Rightarrow> nat \<Rightarrow> u64 \<Rightarrow> 'w TaskScheduler" where
  "run_due ops S i start =
     upd_task i (account_run start) (case m_task (task_at S i) of None \<Rightarrow> S | Some fn \<Rightarrow> run_callback ops S i fn)"

text \<open>The body of the loop: whether the pass ends here, and the state.\<close>

definition handle_one :: "'w sched_ops \<Rightarrow> 'w TaskScheduler \<Rightarrow> nat \<Rightarrow> bool \<times> 'w TaskScheduler" where
  "handle_one ops S i =
     (case millis_now ops (world S) of
        (ms, w) \<Rightarrow>
          let start = ucast ms; S = S\<lparr>world := w\<rparr> in
          if contextual ops \<and> m_task_mode (task_at S i) \<noteq> TASK_MODE_INLINE then (False, contextual_step ops S i)
          else
            let sig = m_pending_sig (task_at S i); S = (if sig \<noteq> SIG_NONE then upd_task i consume_signal S else S) in
            if sig = SIG_KILL \<or> sig = SIG_TERM then (False, S)
            else if m_state (task_at S i) = TASK_STATE_STOPPED then (False, S)
            else
              let S = (if start < m_last_millis (task_at S i) then upd_task i (m_last_millis_update (\<lambda>_. start)) S else S);
                  S = (if m_max_attempts (task_at S i) \<noteq> 0 \<and> start - m_last_millis (task_at S i) \<ge> m_duration (task_at S i)
                       then run_due ops S i start else S);
                  S = (if m_util S then S\<lparr>world := util_yield ops (world S)\<rparr> else S)
              in if m_rebase_start_priotask S then (True, S\<lparr>m_rebase_start_priotask := False\<rparr>) else (False, S))"

fun handle_loop :: "'w sched_ops \<Rightarrow> 'w TaskScheduler \<Rightarrow> nat list \<Rightarrow> 'w TaskScheduler" where
  "handle_loop ops S [] = S"
| "handle_loop ops S (i # is) = (case handle_one ops S i of (stop, S) \<Rightarrow> if stop then S else handle_loop ops S is)"

fun expire_loop :: "'w sched_ops \<Rightarrow> 'w TaskScheduler \<Rightarrow> nat list \<Rightarrow> 'w TaskScheduler" where
  "expire_loop ops S [] = S"
| "expire_loop ops S (i # is) =
     (let t = task_at S i in
      if m_task_id t \<ge> 0 \<and> m_max_attempts t = 0
      then let S = (case m_finalizer t of
                      None \<Rightarrow> S
                    | Some fin \<Rightarrow> call_final ops fin i (upd_task i (m_finalizer_update (\<lambda>_. None)) S))
           in expire_loop ops (upd_task i task_clear S) is
      else expire_loop ops S is)"

definition remove_expired_tasks :: "'w sched_ops \<Rightarrow> 'w TaskScheduler \<Rightarrow> 'w TaskScheduler" where
  "remove_expired_tasks ops S = expire_loop ops S [0..<length (m_tasks S)]"

definition handle_tasks :: "'w sched_ops \<Rightarrow> 'w TaskScheduler \<Rightarrow> 'w TaskScheduler" where
  "handle_tasks ops S =
     (if \<not> m_util S then S
      else case getSortedTaskList ops S of
        (order, S) \<Rightarrow> remove_expired_tasks ops (handle_loop ops (S\<lparr>m_rebase_start_priotask := True\<rparr>) order))"

definition TaskScheduler_yield :: "'w sched_ops \<Rightarrow> 'w TaskScheduler \<Rightarrow> 'w TaskScheduler" where
  "TaskScheduler_yield ops S = S\<lparr>world := util_yield ops (world S)\<rparr>"

definition TaskScheduler_run :: "'w sched_ops \<Rightarrow> 'w TaskScheduler \<Rightarrow> 'w TaskScheduler" where
  "TaskScheduler_run ops S = handle_tasks ops S"

definition scheduleUnderExecSched :: "'w sched_ops \<Rightarrow> 'w TaskScheduler \<Rightarrow> nat option \<Rightarrow> int \<Rightarrow> task_mode_t \<Rightarrow> u32
    \<Rightarrow> int \<times> 'w TaskScheduler" where
  "scheduleUnderExecSched ops S sched ident mode stackdepth =
     (case (sched, get_task S ident) of
        (Some x, Some i) \<Rightarrow>
          if mode \<noteq> TASK_MODE_INLINE \<and> m_task_exec (task_at S i) = None
          then schedule_task ops x i stackdepth (upd_task i (m_task_mode_update (\<lambda>_. mode)) S)
          else (pdi_err_code PDI_ERR_NOT_IMPLEMENTED, S)
      | _ \<Rightarrow> (pdi_err_code PDI_ERR_NOT_IMPLEMENTED, S))"

end
