(* ===== verification/TaskOrder.thy ===== *)
theory TaskOrder
  imports TaskSched "HOL-Library.Multiset" "HOL-Library.Product_Lexorder"
begin

text \<open>
  The order in which a pass visits the tasks. The exchange sort of
  \<open>getSortedTaskList\<close> compares by a relation that is not transitive, because of its
  tolerance window; it sorts by a key nevertheless, as long as the relation never contradicts
  the key. That is proved once for any such relation and used for the scheduler's, whose key is
  being due and then the service taken.
\<close>

section \<open>Exchange sort by a key\<close>

locale exchange_order =
  fixes swp :: "'a \<Rightarrow> 'a \<Rightarrow> bool" and key :: "'a \<Rightarrow> 'b :: linorder"
  assumes swap: "swp a b \<Longrightarrow> key b \<le> key a" and keep: "\<not> swp a b \<Longrightarrow> key a \<le> key b"
begin

lemma inner_loop_ok:
  "i < length xs \<Longrightarrow> distinct js \<Longrightarrow> \<forall>j\<in>set js. i < j \<and> j < length xs \<Longrightarrow>
    mset (inner_loop swp xs i js) = mset xs \<and> key (inner_loop swp xs i js ! i) \<le> key (xs ! i)
    \<and> (\<forall>j\<in>set js. key (inner_loop swp xs i js ! i) \<le> key (inner_loop swp xs i js ! j))
    \<and> (\<forall>k. k \<noteq> i \<and> k \<notin> set js \<longrightarrow> inner_loop swp xs i js ! k = xs ! k)"
proof (induction js arbitrary: xs)
  case (Cons j js)
  define xs1 where "xs1 = (if swp (xs ! i) (xs ! j) then xs[i := xs ! j, j := xs ! i] else xs)"
  define ys where "ys = inner_loop swp xs1 i js"
  have j: "i < j" "j < length xs" "j \<notin> set js"
    using Cons.prems by auto
  have step: "mset xs1 = mset xs" "key (xs1 ! i) \<le> key (xs ! i)" "key (xs1 ! i) \<le> key (xs1 ! j)" "length xs1 = length xs"
      "\<And>k. k \<noteq> i \<Longrightarrow> k \<noteq> j \<Longrightarrow> xs1 ! k = xs ! k"
    using j Cons.prems(1) swap keep [of "xs ! i" "xs ! j"] by (auto simp: xs1_def nth_list_update mset_swap)
  have "mset ys = mset xs1 \<and> key (ys ! i) \<le> key (xs1 ! i) \<and> (\<forall>j\<in>set js. key (ys ! i) \<le> key (ys ! j))
      \<and> (\<forall>k. k \<noteq> i \<and> k \<notin> set js \<longrightarrow> ys ! k = xs1 ! k)"
    unfolding ys_def by (rule Cons.IH) (use Cons.prems step(4) in auto)
  then have ys: "mset ys = mset xs1" "key (ys ! i) \<le> key (xs1 ! i)" "\<forall>j\<in>set js. key (ys ! i) \<le> key (ys ! j)"
      "\<And>k. k \<noteq> i \<Longrightarrow> k \<notin> set js \<Longrightarrow> ys ! k = xs1 ! k"
    by blast+
  have "key (ys ! i) \<le> key (ys ! j)"
    using ys(2) step(3) ys(4) [of j] j by simp
  moreover have "key (ys ! i) \<le> key (xs ! i)"
    using ys(2) step(2) by (rule order_trans)
  moreover have "inner_loop swp xs i (j # js) = ys"
    by (simp add: ys_def xs1_def)
  ultimately show ?case
    using ys(1,3,4) step(1,5) by simp
qed simp

lemma inner_loop_length [simp]: "i < length xs \<Longrightarrow> length (inner_loop swp xs i [Suc i..<length xs]) = length xs"
  using inner_loop_ok [of i xs "[Suc i..<length xs]"] by (metis atLeastLessThan_iff distinct_upt set_upt size_mset Suc_le_eq)

text \<open>The part already placed is sorted and below everything that follows.\<close>

lemma outer_loop_ok:
  "i \<le> length xs \<Longrightarrow> \<forall>a b. a < i \<and> a < b \<and> b < length xs \<longrightarrow> key (xs ! a) \<le> key (xs ! b) \<Longrightarrow>
    mset (outer_loop swp xs [i..<length xs]) = mset xs \<and> sorted (map key (outer_loop swp xs [i..<length xs]))"
proof (induction "length xs - i" arbitrary: i xs)
  case 0
  then show ?case
    by (auto simp: sorted_iff_nth_mono_less)
next
  case (Suc n)
  let ?ys = "inner_loop swp xs i [Suc i..<length xs]"
  have i: "i < length xs"
    using Suc.hyps(2) by simp
  have ys: "mset ?ys = mset xs" "\<forall>j\<in>{Suc i..<length xs}. key (?ys ! i) \<le> key (?ys ! j)" "\<And>k. k < i \<Longrightarrow> ?ys ! k = xs ! k"
    using inner_loop_ok [of i xs "[Suc i..<length xs]"] i by auto
  have len: "length ?ys = length xs"
    using i by simp
  have "take i ?ys = take i xs"
    using ys(3) len i by (intro nth_equalityI) auto
  then have "mset (drop i ?ys) = mset (drop i xs)"
    using ys(1) by (metis add_left_imp_eq append_take_drop_id mset_append)
  then have rest: "set (drop i ?ys) = set (drop i xs)"
    by (metis set_mset_mset)
  have "key (?ys ! a) \<le> key (?ys ! b)" if a: "a < Suc i" "a < b" "b < length ?ys" for a b
  proof (cases "a = i")
    case True
    then show ?thesis
      using ys(2) a len by auto
  next
    case False
    then have "a < i"
      using a by simp
    show ?thesis
    proof (cases "b < i")
      case True
      then show ?thesis
        using ys(3) Suc.prems(2) \<open>a < i\<close> a len by simp
    next
      case False
      then have "drop i ?ys ! (b - i) = ?ys ! b" "b - i < length (drop i ?ys)"
        using a by auto
      then have "?ys ! b \<in> set (drop i ?ys)"
        by (metis nth_mem)
      then have "?ys ! b \<in> set (drop i xs)"
        by (simp only: rest)
      then obtain k where "k < length (drop i xs)" "drop i xs ! k = ?ys ! b"
        unfolding in_set_conv_nth by blast
      then obtain c where "i \<le> c" "c < length xs" "?ys ! b = xs ! c"
        using i by (intro that [of "i + k"]) simp_all
      then show ?thesis
        using ys(3) Suc.prems(2) \<open>a < i\<close> by simp
    qed
  qed
  then have "mset (outer_loop swp ?ys [Suc i..<length ?ys]) = mset ?ys \<and> sorted (map key (outer_loop swp ?ys [Suc i..<length ?ys]))"
    using Suc.hyps(1) [of ?ys "Suc i"] Suc.hyps(2) len i by simp
  then show ?case
    using ys(1) len i by (simp add: upt_rec [of i])
qed

lemma exchange_sort:
  "mset (outer_loop swp xs [0..<length xs]) = mset xs" "sorted (map key (outer_loop swp xs [0..<length xs]))"
  using outer_loop_ok [of 0 xs] by simp_all

end

section \<open>The scheduler's order\<close>

text \<open>Due tasks come first, then the one that has taken least service for its weight.\<close>

definition service_key :: "u64 \<Rightarrow> task_t \<Rightarrow> bool \<times> u64" where
  "service_key now t = (\<not> next_due t \<le> now, m_vruntime t)"

interpretation service: exchange_order "\<lambda>i j. swap_needed ops now (f i) (f j)" "\<lambda>i. service_key now (f i)" for ops now f
  by unfold_locales (auto simp: swap_needed_def service_key_def Let_def split: if_splits)

lemma sort_tasks_mset: "mset (sort_tasks ops S now) = mset (live_slots S)"
  and sort_tasks_sorted: "sorted (map (\<lambda>i. service_key now (task_at S i)) (sort_tasks ops S now))"
  using service.exchange_sort [where f = "task_at S" and xs = "live_slots S"] by (simp_all add: sort_tasks_def)

lemma set_sort_tasks: "set (sort_tasks ops S now) = {i. i < length (m_tasks S) \<and> m_task_id (task_at S i) \<ge> 0}"
proof -
  have "set (sort_tasks ops S now) = set (live_slots S)"
    using sort_tasks_mset by (metis set_mset_mset)
  then show ?thesis
    by (auto simp: live_slots_def)
qed

lemma distinct_sort_tasks: "distinct (sort_tasks ops S now)"
  using mset_eq_imp_distinct_iff [OF sort_tasks_mset [of ops S now]] by (simp add: live_slots_def)

end
