(* ===== verification/TaskWeight.thy ===== *)
theory TaskWeight
  imports TaskSched
begin

text \<open>
  The share of the processor a task's weight stands for: the ladder of \<open>taskWeight\<close>
  (\<^verbatim>\<open>TaskScheduler.cpp\<close>) rises with the effective priority, its arithmetic stays within
  the widths of the source, and charging a run by it never divides by zero.
\<close>

section \<open>The ladder\<close>

definition base_weight :: "int \<Rightarrow> nat" where
  "base_weight eff = (let step = ladder_step eff in
     if step \<ge> 0 then (ladder_up ^^ nat step) TASK_WEIGHT_NOMINAL else (ladder_down ^^ nat (- step)) TASK_WEIGHT_NOMINAL)"

lemma ladder_step_eq: "ladder_step eff = eff - 50"
  by (simp add: ladder_step_def task_consts)

lemma effective_priority_range: "0 \<le> effective_priority t" "effective_priority t \<le> 99"
  by (simp_all add: effective_priority_def task_consts)

lemma ladder_up_ge: "w \<le> ladder_up w"
  by (simp add: ladder_up_def task_consts)

lemma ladder_down_le: "ladder_down w \<le> w"
  by (simp add: ladder_down_def task_consts)

lemma funpow_grows: "(\<And>w. w \<le> f w) \<Longrightarrow> m \<le> n \<Longrightarrow> (f ^^ m) (x :: nat) \<le> (f ^^ n) x"
  by (induction n) (auto simp: le_Suc_eq intro: order_trans)

lemma funpow_shrinks: "(\<And>w. f w \<le> w) \<Longrightarrow> m \<le> n \<Longrightarrow> (f ^^ n) (x :: nat) \<le> (f ^^ m) x"
  by (induction n) (auto simp: le_Suc_eq intro: order_trans)

lemma base_weight_mono:
  assumes "a \<le> b"
  shows "base_weight a \<le> base_weight b"
proof -
  have up: "(ladder_up ^^ m) x \<le> (ladder_up ^^ n) x" if "m \<le> n" for m n x
    using that by (rule funpow_grows [OF ladder_up_ge])
  have down: "(ladder_down ^^ n) x \<le> (ladder_down ^^ m) x" if "m \<le> n" for m n x
    using that by (rule funpow_shrinks [OF ladder_down_le])
  consider "a \<ge> 50" | "b < 50" | "a < 50" "b \<ge> 50"
    by linarith
  then show ?thesis
  proof cases
    case 3
    have "(ladder_down ^^ nat (50 - a)) TASK_WEIGHT_NOMINAL \<le> (ladder_up ^^ nat (b - 50)) TASK_WEIGHT_NOMINAL"
      using down [of 0 "nat (50 - a)" TASK_WEIGHT_NOMINAL] up [of 0 "nat (b - 50)" TASK_WEIGHT_NOMINAL] by simp
    then show ?thesis
      using 3 by (simp add: base_weight_def ladder_step_eq)
  qed (use assms in \<open>simp_all add: base_weight_def ladder_step_eq up down\<close>)
qed

lemma funpow_count: "(f ^^ numeral k) x = (f ^^ pred_numeral k) (f x)"
  by (simp add: numeral_eq_Suc funpow_swap1)

lemmas ladder_eval = base_weight_def ladder_step_eq ladder_up_def ladder_down_def task_consts funpow_count

lemma base_weight_least: "base_weight 0 = 9"
  by (simp add: ladder_eval)

lemma base_weight_greatest: "base_weight 99 = 69531"
  by (simp add: ladder_eval)

lemma base_weight_range: "0 \<le> eff \<Longrightarrow> eff \<le> 99 \<Longrightarrow> 9 \<le> base_weight eff \<and> base_weight eff \<le> 69531"
  using base_weight_mono [of 0 eff] base_weight_mono [of eff 99] by (simp add: base_weight_least base_weight_greatest)

definition policy_boost :: "task_policy_t \<Rightarrow> nat" where
  "policy_boost p = (if p = TASK_POLICY_DEADLINE then TASK_WEIGHT_DEADLINE_BOOST else 1)"

lemma taskWeight_exact:
  "unat (taskWeight t) =
     (if m_task_policy t = TASK_POLICY_ROUNDROBIN then TASK_WEIGHT_NOMINAL
      else base_weight (effective_priority t) * policy_boost (m_task_policy t))"
proof -
  let ?w = "base_weight (effective_priority t)"
  have w: "9 \<le> ?w" "?w \<le> 69531"
    using base_weight_range [OF effective_priority_range] by simp_all
  have u: "unat (of_nat n :: u32) = n" if "n \<le> 278124" for n
    using that by (simp add: unat_of_nat take_bit_eq_mod)
  have "taskWeight t = (if m_task_policy t = TASK_POLICY_ROUNDROBIN then of_nat TASK_WEIGHT_NOMINAL
      else of_nat (?w * policy_boost (m_task_policy t)))"
    unfolding taskWeight_def Let_def base_weight_def [unfolded Let_def, symmetric]
    using w by (simp add: policy_boost_def TASK_WEIGHT_DEADLINE_BOOST_def)
  moreover have "?w * policy_boost (m_task_policy t) \<le> 278124" "TASK_WEIGHT_NOMINAL \<le> 278124"
    using w(2) by (simp_all add: policy_boost_def task_consts)
  ultimately show ?thesis
    by (simp only: u split: if_split) simp
qed

lemma taskWeight_range: "9 \<le> unat (taskWeight t)" "unat (taskWeight t) \<le> 278124"
  using base_weight_range [OF effective_priority_range [of t]] by (auto simp: taskWeight_exact policy_boost_def task_consts)

section \<open>Rising with the priority\<close>

text \<open>
  Of two tasks under the same policy, the one with the higher effective priority (priority less
  niceness, kept within 0 and 99) weighs at least as much, and no weight of any task is outside 9 to
  278124, so neither the 64-bit ladder nor its 32-bit result wraps and a run is never charged by a
  zero weight.
\<close>

lemma taskWeight_rises:
  assumes "m_task_policy t = m_task_policy u"
    and "uint (m_task_priority t) - m_nice t \<le> uint (m_task_priority u) - m_nice u"
  shows "taskWeight t \<le> taskWeight u \<and> 9 \<le> taskWeight t \<and> taskWeight u \<le> 278124"
proof -
  have "effective_priority t \<le> effective_priority u"
    using assms(2) by (simp add: effective_priority_def)
  then show ?thesis
    using assms(1) taskWeight_range [of t] taskWeight_range [of u]
    by (simp add: word_le_nat_alt taskWeight_exact base_weight_mono)
qed

end
