(* ===== verification/TaskInv.thy ===== *)
theory TaskInv
  imports TaskWeight
begin

text \<open>
  What every call of the scheduler keeps (\<^verbatim>\<open>TaskScheduler.cpp\<close>): the calls are the steps of
  \<open>sched_api\<close>, the passes of \<open>handle_tasks\<close> interleave with them in \<open>sched_run\<close>. The table
  stays as long as it was built, identities stay unique and in range, the attributes stay within
  their limits and the weight of a task is the one its attributes give. A slot in use is not given
  to another task until \<open>remove_expired_tasks\<close> clears it.
\<close>

section \<open>The invariant\<close>

definition task_ok :: "task_t \<Rightarrow> bool" where
  "task_ok t \<longleftrightarrow> (m_task_id t = -1 \<or> 1 \<le> m_task_id t \<and> m_task_id t \<le> MAX_TASK_ID \<and> m_weight t = taskWeight t)
     \<and> -20 \<le> m_nice t \<and> m_nice t \<le> 19 \<and> m_task_priority t \<le> 99"

definition live_ids :: "'w TaskScheduler \<Rightarrow> int list" where
  "live_ids S = filter (\<lambda>n. n \<ge> 0) (map m_task_id (m_tasks S))"

definition sched_ok :: "'w TaskScheduler \<Rightarrow> bool" where
  "sched_ok S \<longleftrightarrow> length (m_tasks S) = MAX_SCHEDULABLE_TASKS \<and> (\<forall>t\<in>set (m_tasks S). task_ok t) \<and> distinct (live_ids S)
     \<and> 1 \<le> m_next_task_id S \<and> m_next_task_id S \<le> MAX_TASK_ID"

section \<open>The calls\<close>

inductive sched_api :: "'w sched_ops \<Rightarrow> 'w TaskScheduler \<Rightarrow> 'w TaskScheduler \<Rightarrow> bool" for ops where
  register: "sched_api ops S (snd (register_task ops S fn duration prio last_ms attempts name owner))"
| update: "sched_api ops S (snd (updateInterval ops S ident fn duration prio last_ms attempts name owner))"
| remove: "sched_api ops S (snd (remove_task ops S ident))"
| name: "sched_api ops S (snd (setTaskName S ident name))"
| owner: "sched_api ops S (snd (setTaskOwner S ident owner))"
| nice: "sched_api ops S (snd (setTaskNice S ident nice))"
| policy: "sched_api ops S (snd (setTaskPolicy S ident policy))"
| priority: "sched_api ops S (snd (setTaskPriority S ident prio))"
| signal: "sched_api ops S (snd (sendSignal S ident sig))"
| finalizer: "sched_api ops S (snd (setTaskFinalizer S ident fin))"
| by_name: "sched_api ops S (snd (sendSignalByName S who sig sid root))"
| limit: "sched_api ops S (setMaxTasksLimit S n)"
| util: "sched_api ops S (setUtilityInterface S u)"
| rebase: "sched_api ops S (rebaseAndRestartPrioTasks S)"
| device: "sched_api ops S (S\<lparr>world := w\<rparr>)"

inductive_cases sched_apiE: "sched_api ops S S'"

text \<open>Callbacks, finalizers and the executives touch the scheduler through its calls.\<close>

definition well_behaved :: "'w sched_ops \<Rightarrow> bool" where
  "well_behaved ops \<longleftrightarrow> (\<forall>fn S. (sched_api ops)\<^sup>*\<^sup>* S (call_task ops fn S)) \<and> (\<forall>fin i S. (sched_api ops)\<^sup>*\<^sup>* S (call_final ops fin i S))"

inductive sched_run :: "'w sched_ops \<Rightarrow> 'w TaskScheduler \<Rightarrow> 'w TaskScheduler \<Rightarrow> bool" for ops where
  api: "sched_api ops S S' \<Longrightarrow> sched_run ops S S'"
| pass: "sched_run ops S (handle_tasks ops S)"

section \<open>Updating one slot\<close>

lemma upd_task_other [simp]:
  "length (m_tasks (upd_task i f S)) = length (m_tasks S)"
  "world (upd_task i f S) = world S" "m_util (upd_task i f S) = m_util S" "m_max_tasks (upd_task i f S) = m_max_tasks S"
  "m_rebase_start_priotask (upd_task i f S) = m_rebase_start_priotask S" "m_min_vruntime (upd_task i f S) = m_min_vruntime S"
  "m_next_task_id (upd_task i f S) = m_next_task_id S"
  by (simp_all add: upd_task_def)

lemma task_at_upd_task [simp]:
  "task_at (upd_task i f S) j = (if j = i \<and> i < length (m_tasks S) then f (task_at S i) else task_at S j)"
  by (cases "i < length (m_tasks S)") (auto simp: upd_task_def nth_list_update list_update_beyond)

lemma set_task_ids [simp]:
  "m_task_id (set_task_priority p t) = m_task_id t" "m_task_id (set_task_policy q t) = m_task_id t" "m_task_id (set_task_nice n t) = m_task_id t"
  by (simp_all add: set_task_priority_def set_task_policy_def set_task_nice_def Let_def)

text \<open>A change that keeps the identity and the limits keeps the invariant.\<close>

definition mild :: "(task_t \<Rightarrow> task_t) \<Rightarrow> bool" where
  "mild f \<longleftrightarrow> (\<forall>t. m_task_id (f t) = m_task_id t \<and> (task_ok t \<longrightarrow> task_ok (f t)))"

lemma sched_ok_map:
  assumes "sched_ok S" and "\<And>t. m_task_id (f t) = m_task_id t" and "\<And>t. task_ok t \<Longrightarrow> task_ok (f t)"
  shows "sched_ok (S\<lparr>m_tasks := map f (m_tasks S)\<rparr>)"
  using assms by (auto simp: sched_ok_def live_ids_def comp_def)

lemma ids_update_same:
  assumes "m_task_id u = m_task_id (ts ! i)"
  shows "map m_task_id (ts[i := u]) = map m_task_id ts"
  by (metis assms list_update_id list_update_beyond map_update nth_map not_le)

lemma sched_ok_upd:
  assumes "sched_ok S" and "m_task_id (f (task_at S i)) = m_task_id (task_at S i)"
    and "i < length (m_tasks S) \<Longrightarrow> task_ok (task_at S i) \<Longrightarrow> task_ok (f (task_at S i))"
  shows "sched_ok (upd_task i f S)"
proof (cases "i < length (m_tasks S)")
  case True
  then show ?thesis
    using assms set_update_subset_insert [of "m_tasks S" i "f (task_at S i)"]
    by (auto simp: sched_ok_def live_ids_def upd_task_def ids_update_same)
next
  case False
  then show ?thesis
    using assms(1) by (simp add: upd_task_def list_update_beyond)
qed

lemma sched_ok_mild: "sched_ok S \<Longrightarrow> mild f \<Longrightarrow> sched_ok (upd_task i f S)"
  by (rule sched_ok_upd) (auto simp: mild_def)

lemma sched_ok_on_task: "sched_ok S \<Longrightarrow> mild f \<Longrightarrow> sched_ok (snd (on_task S ident f))"
  by (auto simp: on_task_def sched_ok_mild split: option.split)

section \<open>The changes to a slot\<close>

lemma taskWeight_cong:
  "m_task_policy t = m_task_policy u \<Longrightarrow> m_task_priority t = m_task_priority u \<Longrightarrow> m_nice t = m_nice u \<Longrightarrow> taskWeight t = taskWeight u"
  by (simp add: taskWeight_def effective_priority_def)

lemma taskWeight_other [simp]:
  "taskWeight (m_task_id_update a t) = taskWeight t" "taskWeight (m_max_attempts_update b t) = taskWeight t"
  "taskWeight (m_duration_update c t) = taskWeight t" "taskWeight (m_last_millis_update c t) = taskWeight t"
  "taskWeight (m_task_update d t) = taskWeight t" "taskWeight (m_task_exec_us_update e t) = taskWeight t"
  "taskWeight (m_task_mode_update f t) = taskWeight t" "taskWeight (m_name_update g t) = taskWeight t"
  "taskWeight (m_owner_update h t) = taskWeight t" "taskWeight (m_state_update i t) = taskWeight t"
  "taskWeight (m_created_ms_update c t) = taskWeight t" "taskWeight (m_run_count_update e t) = taskWeight t"
  "taskWeight (m_total_exec_us_update c t) = taskWeight t" "taskWeight (m_vruntime_update c t) = taskWeight t"
  "taskWeight (m_weight_update e t) = taskWeight t" "taskWeight (m_pending_sig_update h t) = taskWeight t"
  "taskWeight (m_stoppable_update j t) = taskWeight t" "taskWeight (m_finalizer_update d t) = taskWeight t"
  "taskWeight (m_task_exec_update d t) = taskWeight t"
  by (rule taskWeight_cong; simp)+

lemma task_ok_set [simp]:
  "task_ok t \<Longrightarrow> task_ok (set_task_priority p t)" "task_ok t \<Longrightarrow> task_ok (set_task_policy q t)"
  "task_ok t \<Longrightarrow> -20 \<le> n \<Longrightarrow> n \<le> 19 \<Longrightarrow> task_ok (set_task_nice n t)"
  by (auto simp: task_ok_def set_task_priority_def set_task_policy_def set_task_nice_def Let_def task_consts word_le_def)

lemma task_ok_other [simp]:
  "task_ok (m_max_attempts_update b t) = task_ok t"
  "task_ok (m_duration_update c t) = task_ok t" "task_ok (m_last_millis_update c t) = task_ok t"
  "task_ok (m_task_update d t) = task_ok t" "task_ok (m_task_exec_us_update e t) = task_ok t"
  "task_ok (m_task_mode_update f t) = task_ok t" "task_ok (m_name_update g t) = task_ok t"
  "task_ok (m_owner_update h t) = task_ok t" "task_ok (m_state_update i t) = task_ok t"
  "task_ok (m_created_ms_update c t) = task_ok t" "task_ok (m_run_count_update e t) = task_ok t"
  "task_ok (m_total_exec_us_update c t) = task_ok t" "task_ok (m_vruntime_update c t) = task_ok t"
  "task_ok (m_pending_sig_update h t) = task_ok t"
  "task_ok (m_stoppable_update j t) = task_ok t" "task_ok (m_finalizer_update d t) = task_ok t"
  "task_ok (m_task_exec_update d t) = task_ok t"
  by (simp_all add: task_ok_def)

lemma mild_fields [simp]:
  "mild (m_name_update g)" "mild (m_owner_update h)" "mild (m_state_update i)" "mild (m_last_millis_update c)"
  "mild (m_pending_sig_update h)" "mild (m_finalizer_update d)" "mild (m_task_mode_update f)"
  by (simp_all add: mild_def)

lemma mild_set [simp]:
  "mild (set_task_priority p)" "mild (set_task_policy q)" "mild (set_task_nice (max (-20) (min 19 n)))"
  by (simp_all add: mild_def)

lemma mild_pass [simp]: "mild consume_signal" "mild (charge us)" "mild (account_run start)"
  by (simp_all add: mild_def consume_signal_def charge_def account_run_def Let_def)

section \<open>Registering\<close>

lemma next_id_range: "1 \<le> n \<Longrightarrow> n \<le> MAX_TASK_ID \<Longrightarrow> 1 \<le> next_id n \<and> next_id n \<le> MAX_TASK_ID"
  by (simp add: next_id_def task_consts)

lemma unique_id_loop_result:
  "unique_id_loop n S = (ident, S') \<Longrightarrow> 1 \<le> m_next_task_id S \<Longrightarrow> m_next_task_id S \<le> MAX_TASK_ID \<Longrightarrow>
    S' = S\<lparr>m_next_task_id := m_next_task_id S'\<rparr> \<and> 1 \<le> m_next_task_id S' \<and> m_next_task_id S' \<le> MAX_TASK_ID
    \<and> (ident \<ge> 0 \<longrightarrow> 1 \<le> ident \<and> ident \<le> MAX_TASK_ID \<and> ident \<notin> m_task_id ` set (m_tasks S))"
proof (induction n S rule: unique_id_loop.induct)
  case (2 n S)
  show ?case
  proof (cases "m_next_task_id S \<in> m_task_id ` set (m_tasks S)")
    case True
    then show ?thesis
      using 2 next_id_range [of "m_next_task_id S"] by (simp add: Let_def)
  next
    case False
    then show ?thesis
      using 2(2-) next_id_range [of "m_next_task_id S"] by (auto simp: Let_def)
  qed
qed simp

lemma unique_id_loop_frame: "unique_id_loop n S = (ident, S') \<Longrightarrow> S' = S\<lparr>m_next_task_id := m_next_task_id S'\<rparr>"
  by (induction n S rule: unique_id_loop.induct) (auto simp: Let_def split: if_splits)

lemma free_slot_range: "free_slot S = Some i \<Longrightarrow> i < length (m_tasks S) \<and> i < unat (m_max_tasks S) \<and> m_task_id (task_at S i) < 0"
  by (auto simp: free_slot_def find_Some_iff)

lemma upd_task_twice: "upd_task i g (upd_task i f S) = upd_task i (\<lambda>t. g (f t)) S"
  by (cases "i < length (m_tasks S)") (simp_all add: upd_task_def list_update_beyond)

lemma upd_task_world [simp]: "(upd_task i f S)\<lparr>world := w\<rparr> = upd_task i f (S\<lparr>world := w\<rparr>)"
  by (simp add: upd_task_def)

text \<open>The task a registration puts in its slot.\<close>

definition registered :: "nat option \<Rightarrow> u64 \<Rightarrow> u8 \<Rightarrow> u64 \<Rightarrow> int \<Rightarrow> string option \<Rightarrow> u8 \<Rightarrow> u64 \<Rightarrow> int \<Rightarrow> u64 \<Rightarrow> task_t \<Rightarrow> task_t" where
  "registered fn duration prio last_ms attempts name owner start ident now t =
     (set_task_priority prio (set_task_policy TASK_POLICY_FIFO (t\<lparr>m_task := fn, m_duration := duration,
        m_last_millis := last_ms, m_max_attempts := attempts, m_task_exec_us := 0, m_vruntime := start, m_task_id := ident,
        m_state := TASK_STATE_SLEEPING\<rparr>)))\<lparr>m_created_ms := now, m_name := name, m_owner := owner\<rparr>"

lemma registered_id [simp]: "m_task_id (registered fn duration prio last_ms attempts name owner start ident now t) = ident"
  by (simp add: registered_def)

lemma now_or_zero_frame: "snd (now_or_zero ops S) = S\<lparr>world := world (snd (now_or_zero ops S))\<rparr>"
  by (auto simp: now_or_zero_def split: prod.split)

lemma now_or_zero_cong:
  assumes "m_util S = m_util S'" and "world S = world S'"
  shows "now_or_zero ops S = (fst (now_or_zero ops S'), S\<lparr>world := world (snd (now_or_zero ops S'))\<rparr>)"
  using assms by (auto simp: now_or_zero_def split: prod.split)

lemma register_task_cases:
  obtains (full) "free_slot S = None" "register_task ops S fn duration prio last_ms attempts name owner = (-1, S)"
  | (ids) i ident S1 where "free_slot S = Some i" "get_unique_task_id S = (ident, S1)" "ident < 0"
      "register_task ops S fn duration prio last_ms attempts name owner = (-1, S1)"
  | (ok) i ident S1 where "free_slot S = Some i" "get_unique_task_id S = (ident, S1)" "ident \<ge> 0"
      "register_task ops S fn duration prio last_ms attempts name owner
        = (ident, upd_task i (registered fn duration prio last_ms attempts name owner (m_min_vruntime S) ident (fst (now_or_zero ops S)))
            (S1\<lparr>world := world (snd (now_or_zero ops S))\<rparr>))"
proof (cases "free_slot S")
  case None
  then show ?thesis
    using full by (simp add: register_task_def)
next
  case (Some i)
  obtain ident S1 where u: "get_unique_task_id S = (ident, S1)"
    by fastforce
  show ?thesis
  proof (cases "ident < 0")
    case True
    then show ?thesis
      using Some u ids by (simp add: register_task_def)
  next
    case False
    define S2 where "S2 = upd_task i (\<lambda>t. set_task_priority prio (set_task_policy TASK_POLICY_FIFO (t\<lparr>m_task := fn, m_duration := duration,
        m_last_millis := last_ms, m_max_attempts := attempts, m_task_exec_us := 0, m_vruntime := m_min_vruntime S, m_task_id := ident,
        m_state := TASK_STATE_SLEEPING\<rparr>))) S1"
    have "S1 = S\<lparr>m_next_task_id := m_next_task_id S1\<rparr>"
      using u unfolding get_unique_task_id_def by (rule unique_id_loop_frame)
    then have "m_util S1 = m_util S" "world S1 = world S"
      by (metis TaskScheduler.ext_inject TaskScheduler.surjective TaskScheduler.update_convs(6))+
    then have "now_or_zero ops S2 = (fst (now_or_zero ops S), S2\<lparr>world := world (snd (now_or_zero ops S))\<rparr>)"
      by (intro now_or_zero_cong) (simp_all add: S2_def)
    then have "register_task ops S fn duration prio last_ms attempts name owner
        = (ident, upd_task i (registered fn duration prio last_ms attempts name owner (m_min_vruntime S) ident (fst (now_or_zero ops S)))
            (S1\<lparr>world := world (snd (now_or_zero ops S))\<rparr>))"
      using Some u False by (simp add: register_task_def S2_def Let_def registered_def [abs_def] upd_task_twice)
    then show ?thesis
      using Some u False ok by simp
  qed
qed

lemma sched_ok_fields [simp]:
  "sched_ok (S\<lparr>world := w\<rparr>) = sched_ok S" "sched_ok (S\<lparr>m_util := u\<rparr>) = sched_ok S" "sched_ok (S\<lparr>m_max_tasks := n\<rparr>) = sched_ok S"
  "sched_ok (S\<lparr>m_rebase_start_priotask := b\<rparr>) = sched_ok S" "sched_ok (S\<lparr>m_min_vruntime := v\<rparr>) = sched_ok S"
  by (simp_all add: sched_ok_def live_ids_def)

text \<open>A slot can be cleared, or take an identity no task has.\<close>

lemma sched_ok_put:
  assumes S: "sched_ok S" and u: "task_ok u" and fresh: "m_task_id u < 0 \<or> m_task_id u \<notin> m_task_id ` set (m_tasks S)"
  shows "sched_ok (upd_task i (\<lambda>_. u) S)"
proof (cases "i < length (m_tasks S)")
  case i: True
  have "map m_task_id (m_tasks S) = map m_task_id (take i (m_tasks S)) @ m_task_id (task_at S i) # map m_task_id (drop (Suc i) (m_tasks S))"
    using i by (metis id_take_nth_drop list.simps(9) map_append)
  moreover have "m_task_id u < 0 \<or> m_task_id u \<notin> m_task_id ` set (take i (m_tasks S)) \<union> m_task_id ` set (drop (Suc i) (m_tasks S))"
    using fresh by (auto dest: in_set_takeD in_set_dropD)
  ultimately have "distinct (filter (\<lambda>n. n \<ge> 0) (map m_task_id ((m_tasks S)[i := u])))"
    using S i by (auto simp: sched_ok_def live_ids_def upd_conv_take_nth_drop split: if_splits)
  then show ?thesis
    using S u i set_update_subset_insert [of "m_tasks S" i u] by (auto simp: sched_ok_def live_ids_def upd_task_def)
qed (use S in \<open>simp add: upd_task_def list_update_beyond\<close>)

lemma sched_ok_ids:
  assumes "sched_ok S" and "get_unique_task_id S = (ident, S1)"
  shows "sched_ok S1" "m_tasks S1 = m_tasks S"
    "ident \<ge> 0 \<Longrightarrow> 1 \<le> ident \<and> ident \<le> MAX_TASK_ID \<and> ident \<notin> m_task_id ` set (m_tasks S)"
proof -
  have r: "S1 = S\<lparr>m_next_task_id := m_next_task_id S1\<rparr>" "1 \<le> m_next_task_id S1" "m_next_task_id S1 \<le> MAX_TASK_ID"
    "ident \<ge> 0 \<longrightarrow> 1 \<le> ident \<and> ident \<le> MAX_TASK_ID \<and> ident \<notin> m_task_id ` set (m_tasks S)"
    using assms unique_id_loop_result [of "Suc (unat (m_max_tasks S))" S ident S1] by (auto simp: get_unique_task_id_def sched_ok_def)
  show ts: "m_tasks S1 = m_tasks S"
    by (subst r(1)) simp
  then show "sched_ok S1"
    using assms(1) r(2,3) by (simp add: sched_ok_def live_ids_def)
  show "ident \<ge> 0 \<Longrightarrow> 1 \<le> ident \<and> ident \<le> MAX_TASK_ID \<and> ident \<notin> m_task_id ` set (m_tasks S)"
    using r(4) by simp
qed

lemma upd_task_const: "upd_task i f S = upd_task i (\<lambda>_. f (task_at S i)) S"
  by (simp add: upd_task_def)

lemma task_ok_registered:
  assumes "task_ok t" and "1 \<le> ident" "ident \<le> MAX_TASK_ID"
  shows "task_ok (registered fn duration prio last_ms attempts name owner start ident now t)"
  using assms
  by (auto simp: registered_def task_ok_def set_task_priority_def set_task_policy_def Let_def task_consts word_le_def intro: taskWeight_cong)

lemma sched_ok_register:
  assumes "sched_ok S"
  shows "sched_ok (snd (register_task ops S fn duration prio last_ms attempts name owner))"
proof (cases rule: register_task_cases [of S ops fn duration prio last_ms attempts name owner])
  case full
  then show ?thesis
    using assms by simp
next
  case (ids i ident S1)
  then show ?thesis
    using sched_ok_ids(1) [OF assms ids(2)] by simp
next
  case (ok i ident S1)
  let ?t = "registered fn duration prio last_ms attempts name owner (m_min_vruntime S) ident (fst (now_or_zero ops S)) (task_at S1 i)"
  have S1: "sched_ok S1" "m_tasks S1 = m_tasks S" "1 \<le> ident" "ident \<le> MAX_TASK_ID" "ident \<notin> m_task_id ` set (m_tasks S)"
    using sched_ok_ids [OF assms ok(2)] ok(3) by auto
  have i: "i < length (m_tasks S1)" "m_task_id (task_at S1 i) < 0"
    using free_slot_range [OF ok(1)] S1(2) by simp_all
  have "task_ok (task_at S1 i)"
    using S1(1) i(1) by (simp add: sched_ok_def)
  then have "task_ok ?t"
    using S1(3,4) by (rule task_ok_registered)
  then have "sched_ok (upd_task i (\<lambda>_. ?t) (S1\<lparr>world := world (snd (now_or_zero ops S))\<rparr>))"
    using S1 by (intro sched_ok_put) simp_all
  then show ?thesis
    unfolding ok(4) by (subst upd_task_const) simp
qed

section \<open>Every call keeps the invariant\<close>

lemma sched_ok_update:
  assumes "sched_ok S"
  shows "sched_ok (snd (updateInterval ops S ident fn duration prio last_ms attempts name owner))"
  using assms
  by (auto simp: updateInterval_def sched_ok_register Let_def mild_def intro!: sched_ok_mild split: option.split)

lemma sched_api_ok: "sched_api ops S S' \<Longrightarrow> sched_ok S \<Longrightarrow> sched_ok S'"
proof (induction rule: sched_api.induct)
  case (remove S ident)
  then show ?case
    by (auto simp: remove_task_def intro!: sched_ok_map)
next
  case (by_name S who sig sid root)
  then show ?case
    by (auto simp: sendSignalByName_def intro!: sched_ok_map split: option.split)
qed (auto simp: sched_ok_register sched_ok_update setTaskName_def setTaskOwner_def setTaskNice_def setTaskPolicy_def
  setTaskPriority_def sendSignal_def setTaskFinalizer_def sched_ok_on_task
  setMaxTasksLimit_def setUtilityInterface_def rebaseAndRestartPrioTasks_def)

lemma sched_apis_ok: "(sched_api ops)\<^sup>*\<^sup>* S S' \<Longrightarrow> sched_ok S \<Longrightarrow> sched_ok S'"
  by (induction rule: rtranclp_induct) (auto intro: sched_api_ok)

section \<open>What a callback cannot take away\<close>

text \<open>
  The pass holds a reference to the slot whose callback it runs. No call of the callback gives that
  slot to another task, moves the floor new tasks start from, or takes back the request to end the
  pass.
\<close>

definition calls_keep :: "'w TaskScheduler \<Rightarrow> 'w TaskScheduler \<Rightarrow> bool" where
  "calls_keep S S' \<longleftrightarrow> length (m_tasks S') = length (m_tasks S) \<and> m_min_vruntime S' = m_min_vruntime S
     \<and> (m_rebase_start_priotask S \<longrightarrow> m_rebase_start_priotask S')
     \<and> (\<forall>i<length (m_tasks S). m_task_id (task_at S i) \<ge> 0 \<longrightarrow> m_task_id (task_at S' i) = m_task_id (task_at S i))"

lemma calls_keep_refl [simp]: "calls_keep S S"
  by (simp add: calls_keep_def)

lemma calls_keep_trans: "calls_keep S S' \<Longrightarrow> calls_keep S' S'' \<Longrightarrow> calls_keep S S''"
  by (auto simp: calls_keep_def)

lemma calls_keep_upd: "(\<And>t. m_task_id (f t) = m_task_id t) \<Longrightarrow> calls_keep S (upd_task i f S)"
  by (simp add: calls_keep_def)

lemma calls_keep_on_task: "(\<And>t. m_task_id (f t) = m_task_id t) \<Longrightarrow> calls_keep S (snd (on_task S ident f))"
  by (simp add: on_task_def calls_keep_upd split: option.split)

lemma calls_keep_register: "calls_keep S (snd (register_task ops S fn duration prio last_ms attempts name owner))"
proof (cases rule: register_task_cases [of S ops fn duration prio last_ms attempts name owner])
  case (ids i ident S1)
  have "S1 = S\<lparr>m_next_task_id := m_next_task_id S1\<rparr>"
    using ids(2) unfolding get_unique_task_id_def by (rule unique_id_loop_frame)
  then obtain n where "S1 = S\<lparr>m_next_task_id := n\<rparr>"
    by blast
  then show ?thesis
    using ids by (simp add: calls_keep_def)
next
  case (ok i ident S1)
  have "S1 = S\<lparr>m_next_task_id := m_next_task_id S1\<rparr>"
    using ok(2) unfolding get_unique_task_id_def by (rule unique_id_loop_frame)
  then obtain n where "S1 = S\<lparr>m_next_task_id := n\<rparr>"
    by blast
  then show ?thesis
    using ok free_slot_range [OF ok(1)] by (auto simp: calls_keep_def)
qed simp

lemma sched_api_keep: "sched_api ops S S' \<Longrightarrow> calls_keep S S'"
proof (induction rule: sched_api.induct)
  case (update S ident fn duration prio last_ms attempts name owner)
  then show ?case
    by (simp add: updateInterval_def calls_keep_register Let_def calls_keep_upd split: option.split)
next
  case (remove S ident)
  then show ?case
    by (auto simp: remove_task_def calls_keep_def)
next
  case (by_name S who sig sid root)
  then show ?case
    by (auto simp: sendSignalByName_def calls_keep_def split: option.split)
qed (auto simp: calls_keep_register setTaskName_def setTaskOwner_def setTaskNice_def setTaskPolicy_def
  setTaskPriority_def sendSignal_def setTaskFinalizer_def intro!: calls_keep_on_task,
  auto simp: setMaxTasksLimit_def setUtilityInterface_def rebaseAndRestartPrioTasks_def calls_keep_def)

lemma sched_apis_keep: "(sched_api ops)\<^sup>*\<^sup>* S S' \<Longrightarrow> calls_keep S S'"
  by (induction rule: rtranclp_induct) (auto intro: sched_api_keep calls_keep_trans)

section \<open>A pass keeps the invariant\<close>

lemma well_behaved_ok:
  assumes "well_behaved ops" and "sched_ok S"
  shows "sched_ok (call_task ops fn S)" "sched_ok (call_final ops fin i S)"
  using assms sched_apis_ok unfolding well_behaved_def by blast+

lemma sched_ok_flow:
  "sched_ok S \<Longrightarrow> (\<And>S. sched_ok S \<Longrightarrow> sched_ok (f S)) \<Longrightarrow> sched_ok (let S = S in f S)"
  "(\<And>x. sched_ok (g x)) \<Longrightarrow> sched_ok (let x = x0 :: u8 in g x)"
  "sched_ok S \<Longrightarrow> sched_ok S' \<Longrightarrow> sched_ok (if b then S else S')"
  by simp_all

lemma sched_ok_snd_flow:
  "sched_ok S \<Longrightarrow> (\<And>S. sched_ok S \<Longrightarrow> sched_ok (snd (f S))) \<Longrightarrow> sched_ok (snd (let S = S in f S))"
  "(\<And>x. sched_ok (snd (g x))) \<Longrightarrow> sched_ok (snd (let x = x0 :: u8 in g x))"
  "(\<And>x. sched_ok (snd (h x))) \<Longrightarrow> sched_ok (snd (let x = x1 :: u64 in h x))"
  "sched_ok (snd p) \<Longrightarrow> sched_ok (snd q) \<Longrightarrow> sched_ok (snd (if b then p else q))"
  by simp_all

lemma sched_ok_world: "sched_ok S \<Longrightarrow> sched_ok (S\<lparr>world := w\<rparr>)"
  by simp

lemma sched_ok_contextual:
  assumes "well_behaved ops" and "sched_ok S"
  shows "sched_ok (contextual_step ops S i)"
proof (cases "m_task_exec (task_at S i)")
  case None
  then show ?thesis
    using assms by (simp add: contextual_step_def)
next
  case (Some x)
  have final: "sched_ok (case m_finalizer (task_at S' i) of None \<Rightarrow> S'
      | Some fin \<Rightarrow> call_final ops fin i (upd_task i (m_finalizer_update (\<lambda>_. None)) S'))" if "sched_ok S'" for S'
    using that assms(1) by (simp add: well_behaved_ok sched_ok_mild split: option.split)
  show ?thesis
    unfolding contextual_step_def Some option.case
    by (intro sched_ok_flow sched_ok_mild sched_ok_world final assms(2)) simp_all
qed

lemma sched_ok_run_callback: "well_behaved ops \<Longrightarrow> sched_ok S \<Longrightarrow> sched_ok (run_callback ops S i fn)"
  by (simp add: run_callback_def Let_def well_behaved_ok sched_ok_mild split: prod.split)

lemma sched_ok_run_due: "well_behaved ops \<Longrightarrow> sched_ok S \<Longrightarrow> sched_ok (run_due ops S i start)"
  by (simp add: run_due_def sched_ok_run_callback sched_ok_mild split: option.split)

lemma sched_ok_handle_one:
  assumes "well_behaved ops" and "sched_ok S"
  shows "sched_ok (snd (handle_one ops S i))"
  unfolding handle_one_def prod.case_eq_if
  by (intro sched_ok_snd_flow sched_ok_flow) (use assms in \<open>simp_all add: sched_ok_contextual sched_ok_run_due sched_ok_mild\<close>)

lemma sched_ok_handle_loop: "well_behaved ops \<Longrightarrow> sched_ok S \<Longrightarrow> sched_ok (handle_loop ops S is)"
proof (induction "is" arbitrary: S)
  case (Cons i "is")
  then show ?case
    using sched_ok_handle_one [OF Cons.prems, of i] by (cases "handle_one ops S i") simp
qed simp

lemma sched_ok_clear: "sched_ok S \<Longrightarrow> sched_ok (upd_task i task_clear S)"
  by (subst upd_task_const, rule sched_ok_put) (simp_all add: task_clear_def task_ok_def)

lemma sched_ok_expire_loop: "well_behaved ops \<Longrightarrow> sched_ok S \<Longrightarrow> sched_ok (expire_loop ops S is)"
  by (induction "is" arbitrary: S) (simp_all add: Let_def sched_ok_clear sched_ok_mild well_behaved_ok split: option.split)

lemma sched_ok_pass: "well_behaved ops \<Longrightarrow> sched_ok S \<Longrightarrow> sched_ok (handle_tasks ops S)"
  by (simp add: handle_tasks_def getSortedTaskList_def remove_expired_tasks_def sched_ok_expire_loop sched_ok_handle_loop split: prod.split)

lemma sched_run_ok: "sched_run ops S S' \<Longrightarrow> well_behaved ops \<Longrightarrow> sched_ok S \<Longrightarrow> sched_ok S'"
  by (induction rule: sched_run.induct) (auto intro: sched_api_ok sched_ok_pass)

lemma TaskScheduler_new_ok: "sched_ok (TaskScheduler_new w)"
  by (simp add: sched_ok_def TaskScheduler_new_def task_ok_def task_new_def live_ids_def task_consts)


section \<open>Properties\<close>

text \<open>
  C9: In every state the scheduler reaches from its construction, by calls and passes in any order and
  with callbacks and finalizers that make any calls themselves, the table has its
  \<open>MAX_SCHEDULABLE_TASKS\<close> slots, no two live tasks share an identity, identities lie between 1
  and \<open>MAX_TASK_ID\<close>, niceness and priority are within their limits and each live task has the
  weight of its attributes.
\<close>

theorem scheduler_invariant:
  assumes "well_behaved ops" and "(sched_run ops)\<^sup>*\<^sup>* (TaskScheduler_new w) S"
  shows "sched_ok S"
  using assms(2) by (induction rule: rtranclp_induct) (auto intro: TaskScheduler_new_ok sched_run_ok [OF _ assms(1)])

text \<open>A device whose clock stands still but for the reading of microseconds; callback 7 renices task 1.\<close>

definition sample_ops :: "nat sched_ops" where
  "sample_ops = \<lparr>millis_now = (\<lambda>w. (of_nat w, w)), micros_now = (\<lambda>w. (of_nat w * 1000, Suc w)), util_yield = (\<lambda>w. w),
     call_task = (\<lambda>fn S. if fn = 7 then snd (setTaskNice S 1 5) else S),
     call_final = (\<lambda>fin i S. S), contextual = False, exec_suspend = (\<lambda>x w. w), exec_resume = (\<lambda>x w. w), exec_terminate = (\<lambda>x w. w),
     exec_is_finished = (\<lambda>x w. False), exec_reap = (\<lambda>x w. w), schedule_task = (\<lambda>x i d S. (0, S)), undef_int = (\<lambda>x. 0)\<rparr>"

lemma sample_ops_well_behaved: "well_behaved sample_ops"
  by (auto simp: well_behaved_def sample_ops_def intro: sched_api.nice)

definition sample_sched :: "nat TaskScheduler" where
  "sample_sched = snd (setInterval sample_ops (setUtilityInterface (TaskScheduler_new 100) True) (Some 7) 10 50 5 None 0)"

lemma sample_sched_reached: "(sched_run sample_ops)\<^sup>*\<^sup>* (TaskScheduler_new 100) sample_sched"
proof -
  have "sched_run sample_ops (TaskScheduler_new 100) (setUtilityInterface (TaskScheduler_new 100) True)"
    by (intro sched_run.api sched_api.util)
  moreover have "sched_run sample_ops (setUtilityInterface (TaskScheduler_new 100) True) sample_sched"
    unfolding sample_sched_def setInterval_def by (intro sched_run.api sched_api.register)
  ultimately show ?thesis
    by simp
qed

theorem scheduler_invariant_witness: "sched_ok (handle_tasks sample_ops sample_sched)"
  by (rule scheduler_invariant [OF sample_ops_well_behaved rtranclp.rtrancl_into_rtrancl [OF sample_sched_reached sched_run.pass]])

text \<open>
  While a callback runs, whatever it calls, every slot in use keeps its task: the reference the
  pass holds to the running task still denotes that task when the callback returns, and so does every
  entry of the order the pass goes through. The floor for new tasks stays, and a request to end the
  pass is not withdrawn.
\<close>

lemma callback_keeps_slots:
  assumes "well_behaved ops"
  shows "calls_keep S (call_task ops fn S)"
  using assms by (auto simp: well_behaved_def intro: sched_apis_keep)

section \<open>There is always an identity\<close>

lemma next_id_power:
  assumes "1 \<le> n" "n \<le> MAX_TASK_ID"
  shows "(next_id ^^ k) n = (n - 1 + int k) mod MAX_TASK_ID + 1"
proof (induction k)
  case (Suc k)
  define m where "m = (n - 1 + int k) mod MAX_TASK_ID"
  have m: "0 \<le> m" "m < MAX_TASK_ID" and ih: "(next_id ^^ k) n = m + 1"
    using Suc by (simp_all add: m_def MAX_TASK_ID_def)
  have "(n - 1 + int (Suc k)) mod MAX_TASK_ID = (m + 1) mod MAX_TASK_ID"
    by (simp add: m_def mod_simps algebra_simps)
  moreover have "next_id (m + 1) = (m + 1) mod MAX_TASK_ID + 1"
    using m by (cases "m = MAX_TASK_ID - 1") (simp_all add: next_id_def MAX_TASK_ID_def)
  ultimately show ?case
    using ih by simp
qed (use assms in \<open>simp add: MAX_TASK_ID_def\<close>)

lemma next_id_inj:
  assumes "1 \<le> n" "n \<le> MAX_TASK_ID"
  shows "inj_on (\<lambda>k. (next_id ^^ k) n) {..<nat MAX_TASK_ID}"
proof (rule inj_onI)
  fix j k assume jk: "j \<in> {..<nat MAX_TASK_ID}" "k \<in> {..<nat MAX_TASK_ID}" "(next_id ^^ j) n = (next_id ^^ k) n"
  then have "(n - 1 + int j) mod MAX_TASK_ID = (n - 1 + int k) mod MAX_TASK_ID"
    by (simp add: next_id_power [OF assms])
  then have "int j mod MAX_TASK_ID = int k mod MAX_TASK_ID"
    by (metis add_diff_cancel_left' mod_diff_left_eq mod_diff_right_eq add.commute)
  then show "j = k"
    using jk by (simp add: MAX_TASK_ID_def)
qed

lemma unique_id_loop_fails:
  "fst (unique_id_loop n S) < 0 \<Longrightarrow> 1 \<le> m_next_task_id S \<Longrightarrow> m_next_task_id S \<le> MAX_TASK_ID \<Longrightarrow> k < n \<Longrightarrow>
    (next_id ^^ k) (m_next_task_id S) \<in> m_task_id ` set (m_tasks S)"
proof (induction n S arbitrary: k rule: unique_id_loop.induct)
  case (2 n S)
  have "m_next_task_id S \<in> m_task_id ` set (m_tasks S)"
    using 2(2,3) by (auto simp: Let_def split: if_splits)
  then show ?case
    using 2(1) [OF refl refl] 2(2-) next_id_range [of "m_next_task_id S"] by (cases k) (simp_all add: Let_def funpow_swap1)
qed simp

lemma card_live: "card (m_task_id ` set (m_tasks S) \<inter> {0..}) \<le> getTaskCount S"
proof -
  have "m_task_id ` set (m_tasks S) \<inter> {0..} = set (map m_task_id (filter (\<lambda>t. m_task_id t \<ge> 0) (m_tasks S)))"
    by auto
  then show ?thesis
    using card_length [of "map m_task_id (filter (\<lambda>t. m_task_id t \<ge> 0) (m_tasks S))"] by (simp add: getTaskCount_def)
qed

lemma get_unique_task_id_succeeds:
  assumes S: "sched_ok S" and count: "getTaskCount S \<le> unat (m_max_tasks S)"
  shows "fst (get_unique_task_id S) \<ge> 0"
proof (rule ccontr)
  let ?f = "\<lambda>k. (next_id ^^ k) (m_next_task_id S)"
  let ?n = "Suc (unat (m_max_tasks S))"
  assume "\<not> fst (get_unique_task_id S) \<ge> 0"
  then have "?f ` {..<?n} \<subseteq> m_task_id ` set (m_tasks S)"
    using S unique_id_loop_fails [of ?n S] by (auto simp: get_unique_task_id_def sched_ok_def)
  moreover have "?f k \<ge> 0" for k
    using S by (simp add: sched_ok_def next_id_power MAX_TASK_ID_def)
  ultimately have "card (?f ` {..<?n}) \<le> card (m_task_id ` set (m_tasks S) \<inter> {0..})"
    by (intro card_mono) auto
  moreover have "unat (m_max_tasks S) < 2 ^ 8"
    using unsigned_less [of "m_max_tasks S"] by simp
  then have "inj_on ?f {..<?n}"
    using S by (intro inj_on_subset [OF next_id_inj]) (auto simp: sched_ok_def MAX_TASK_ID_def)
  ultimately show False
    using card_live [of S] count by (simp add: card_image)
qed

lemma is_registered_taskI:
  assumes "k < length (m_tasks S)" "m_task_id (task_at S k) = ident" "ident \<ge> 0" "\<And>j. j < k \<Longrightarrow> m_task_id (task_at S j) \<noteq> ident"
  shows "is_registered_task S ident = Some k"
proof -
  have "[0..<length (m_tasks S)] = [0..<k] @ k # [Suc k..<length (m_tasks S)]"
    using assms(1) by (metis less_imp_le_nat upt_add_eq_append upt_conv_Cons zero_le le_add_diff_inverse add_0)
  moreover have "List.find (\<lambda>i. m_task_id (task_at S i) = ident) [0..<k] = None"
    using assms(4) by (simp add: find_None_iff)
  ultimately show ?thesis
    using assms(2,3) by (simp add: is_registered_task_def find_append)
qed

lemma free_slot_found: "i < length (m_tasks S) \<Longrightarrow> i < unat (m_max_tasks S) \<Longrightarrow> m_task_id (task_at S i) < 0 \<Longrightarrow> \<exists>k. free_slot S = Some k"
  by (cases "free_slot S") (auto simp: free_slot_def find_None_iff)

text \<open>
  C30: With a free slot below the task limit and no more live tasks than the limit, a registration
  succeeds: it returns an identity between 1 and \<open>MAX_TASK_ID\<close> that no task has, fills one
  free slot with the given callback, duration, priority, attempts, name and owner, sleeping, at the
  service the running tasks have already had (\<open>m_min_vruntime\<close>, so it can neither starve
  them nor be starved), and leaves every other slot as it was.
\<close>

theorem register_task_succeeds:
  assumes "sched_ok S" and "i < unat (m_max_tasks S)" "i < length (m_tasks S)" "m_task_id (task_at S i) < 0"
    and "getTaskCount S \<le> unat (m_max_tasks S)"
  shows "\<exists>ident k S'. register_task ops S fn duration prio last_ms attempts name owner = (ident, S')
     \<and> 1 \<le> ident \<and> ident \<le> MAX_TASK_ID \<and> ident \<notin> m_task_id ` set (m_tasks S)
     \<and> k < unat (m_max_tasks S) \<and> m_task_id (task_at S k) < 0
     \<and> task_at S' k = registered fn duration prio last_ms attempts name owner (m_min_vruntime S) ident (fst (now_or_zero ops S)) (task_at S k)
     \<and> (\<forall>j. j \<noteq> k \<longrightarrow> task_at S' j = task_at S j) \<and> is_registered_task S' ident = Some k"
  using assms
proof (cases rule: register_task_cases [of S ops fn duration prio last_ms attempts name owner])
  case full
  then show ?thesis
    using free_slot_found assms(2-4) by fastforce
next
  case ids
  then show ?thesis
    using get_unique_task_id_succeeds [OF assms(1,5)] by simp
next
  case (ok k ident S1)
  note S1 = sched_ok_ids [OF assms(1) ok(2)]
  have k: "k < length (m_tasks S)" "k < unat (m_max_tasks S)" "m_task_id (task_at S k) < 0"
    using free_slot_range [OF ok(1)] by simp_all
  let ?S' = "upd_task k (registered fn duration prio last_ms attempts name owner (m_min_vruntime S) ident (fst (now_or_zero ops S)))
      (S1\<lparr>world := world (snd (now_or_zero ops S))\<rparr>)"
  have fresh: "1 \<le> ident" "ident \<le> MAX_TASK_ID" "ident \<notin> m_task_id ` set (m_tasks S)"
    using S1(3) ok(3) by simp_all
  have "is_registered_task ?S' ident = Some k"
    using fresh k S1(2) by (intro is_registered_taskI) auto
  then show ?thesis
    using ok(4) k fresh S1(2) by (intro exI [of _ ident] exI [of _ k] exI [of _ ?S']) simp
qed

theorem register_task_succeeds_witness:
  "\<exists>ident k S'. register_task sample_ops (TaskScheduler_new 100) (Some 7) 50 5 10 1 None 3 = (ident, S') \<and> ident \<ge> 1
     \<and> task_at S' k = registered (Some 7) 50 5 10 1 None 3 0 ident 0 task_new \<and> is_registered_task S' ident = Some k"
proof -
  let ?S = "TaskScheduler_new 100 :: nat TaskScheduler"
  have "m_task_id (task_at ?S 0) < 0" "0 < unat (m_max_tasks ?S)" "0 < length (m_tasks ?S)" "getTaskCount ?S \<le> unat (m_max_tasks ?S)"
    by (simp_all add: TaskScheduler_new_def task_new_def task_consts getTaskCount_def)
  from register_task_succeeds [OF TaskScheduler_new_ok this(2,3,1,4), of sample_ops "Some 7" 50 5 10 1 None 3]
  obtain ident k S' where "register_task sample_ops ?S (Some 7) 50 5 10 1 None 3 = (ident, S')" "1 \<le> ident" "k < unat (m_max_tasks ?S)"
    "task_at S' k = registered (Some 7) 50 5 10 1 None 3 (m_min_vruntime ?S) ident (fst (now_or_zero sample_ops ?S)) (task_at ?S k)"
    "is_registered_task S' ident = Some k"
    by blast
  moreover from this(3) have "task_at ?S k = task_new" "m_min_vruntime ?S = 0" "fst (now_or_zero sample_ops ?S) = 0"
    by (simp_all add: TaskScheduler_new_def now_or_zero_def task_consts)
  ultimately show ?thesis
    by auto
qed

end
