(* ===== verification/TaskPass.thy ===== *)
theory TaskPass
  imports TaskOrder TaskInv
begin

text \<open>
  What one pass of \<open>handle_tasks\<close> does (\<^verbatim>\<open>TaskScheduler.cpp\<close>) in a build without
  executives: stopped and killed tasks are passed over, the first other task of the order is served,
  and the pass ends there. The order puts due tasks first and among them the one with the least
  service for its weight, so passes cannot starve a task that stays due.
\<close>

section \<open>One pass\<close>

definition signalled :: "task_t \<Rightarrow> task_t" where
  "signalled t = (if m_pending_sig t \<noteq> SIG_NONE then consume_signal t else t)"

definition skipped :: "task_t \<Rightarrow> bool" where
  "skipped t \<longleftrightarrow> m_pending_sig t = SIG_KILL \<or> m_pending_sig t = SIG_TERM \<or> m_state (signalled t) = TASK_STATE_STOPPED"

abbreviation tick :: "'w sched_ops \<Rightarrow> 'w \<Rightarrow> 'w" where
  "tick ops w \<equiv> snd (millis_now ops w)"

abbreviation clock :: "'w sched_ops \<Rightarrow> 'w \<Rightarrow> u64" where
  "clock ops w \<equiv> ucast (fst (millis_now ops w))"

fun skip_all :: "'w sched_ops \<Rightarrow> 'w TaskScheduler \<Rightarrow> nat list \<Rightarrow> 'w TaskScheduler" where
  "skip_all ops S [] = S"
| "skip_all ops S (i # is) = skip_all ops (upd_task i signalled (S\<lparr>world := tick ops (world S)\<rparr>)) is"

definition yielded :: "'w sched_ops \<Rightarrow> 'w TaskScheduler \<Rightarrow> 'w TaskScheduler" where
  "yielded ops S = (if m_util S then S\<lparr>world := util_yield ops (world S)\<rparr> else S)"

definition serve :: "'w sched_ops \<Rightarrow> 'w TaskScheduler \<Rightarrow> nat \<Rightarrow> u64 \<Rightarrow> 'w TaskScheduler" where
  "serve ops S i start =
     (let S = (if start < m_last_millis (task_at S i) then upd_task i (m_last_millis_update (\<lambda>_. start)) S else S)
      in yielded ops (if m_max_attempts (task_at S i) \<noteq> 0 \<and> start - m_last_millis (task_at S i) \<ge> m_duration (task_at S i)
                      then run_due ops S i start else S))"

lemma upd_task_same: "f (task_at S i) = task_at S i \<Longrightarrow> upd_task i f S = S"
  by (simp add: upd_task_def)

lemma signalled_upd:
  "(if m_pending_sig (task_at S i) \<noteq> SIG_NONE then upd_task i consume_signal S else S) = upd_task i signalled S"
  by (simp add: signalled_def upd_task_def)

lemma handle_one_skips:
  assumes "\<not> contextual ops" "skipped (task_at S i)" "i < length (m_tasks S)"
  shows "handle_one ops S i = (False, upd_task i signalled (S\<lparr>world := tick ops (world S)\<rparr>))"
  using assms unfolding handle_one_def skipped_def Let_def
  by (auto simp: prod.case_eq_if signalled_upd [of "S\<lparr>world := tick ops (world S)\<rparr>" i, simplified])

lemma handle_one_serves:
  assumes "\<not> contextual ops" "\<not> skipped (task_at S i)" "i < length (m_tasks S)"
  shows "handle_one ops S i =
    (let S' = serve ops (upd_task i signalled (S\<lparr>world := tick ops (world S)\<rparr>)) i (clock ops (world S))
     in if m_rebase_start_priotask S' then (True, S'\<lparr>m_rebase_start_priotask := False\<rparr>) else (False, S'))"
proof -
  define S0 where "S0 = S\<lparr>world := tick ops (world S)\<rparr>"
  have S0: "i < length (m_tasks S0)" "task_at S0 i = task_at S i"
    using assms(3) by (simp_all add: S0_def)
  have sig: "\<not> (m_pending_sig (task_at S0 i) = SIG_KILL \<or> m_pending_sig (task_at S0 i) = SIG_TERM)"
      "m_state (task_at (upd_task i signalled S0) i) \<noteq> TASK_STATE_STOPPED"
    using assms(2) S0 by (auto simp: skipped_def)
  show ?thesis
    unfolding handle_one_def prod.case_eq_if S0_def [symmetric]
    by (simp only: Let_def assms(1) signalled_upd sig simp_thms if_False serve_def yielded_def)
qed

lemma run_callback_rebase:
  assumes "well_behaved ops" "m_rebase_start_priotask S"
  shows "m_rebase_start_priotask (run_callback ops S i fn)"
proof -
  have "m_rebase_start_priotask (call_task ops fn S')" if "m_rebase_start_priotask S'" for S'
    using assms(1) that sched_apis_keep unfolding well_behaved_def calls_keep_def by blast
  then show ?thesis
    using assms(2) by (simp add: run_callback_def Let_def prod.case_eq_if)
qed

lemma serve_rebase:
  assumes "well_behaved ops" "m_rebase_start_priotask S"
  shows "m_rebase_start_priotask (serve ops S i start)"
  using assms by (simp add: serve_def yielded_def Let_def run_due_def run_callback_rebase split: option.split)

lemma skip_all_fields [simp]:
  "length (m_tasks (skip_all ops S is)) = length (m_tasks S)" "m_util (skip_all ops S is) = m_util S"
  "m_rebase_start_priotask (skip_all ops S is) = m_rebase_start_priotask S"
  "m_min_vruntime (skip_all ops S is) = m_min_vruntime S"
  "world (skip_all ops S is) = (tick ops ^^ length is) (world S)"
  by (induction "is" arbitrary: S) (simp_all add: funpow_swap1 [of "tick ops"])

lemma task_at_skip_all:
  assumes "distinct is" "\<forall>i\<in>set is. i < length (m_tasks S)"
  shows "task_at (skip_all ops S is) k = (if k \<in> set is then signalled (task_at S k) else task_at S k)"
  using assms by (induction "is" arbitrary: S) auto

text \<open>The pass goes over the skipped tasks at the head of the order and ends at the first other one.\<close>

lemma handle_loop_serves:
  assumes ops: "\<not> contextual ops" "well_behaved ops"
    and S: "m_rebase_start_priotask S" "\<forall>k\<in>set (pre @ i # post). k < length (m_tasks S)" "distinct (pre @ i # post)"
    and skips: "\<forall>k\<in>set pre. skipped (task_at S k)" "\<not> skipped (task_at S i)"
  shows "handle_loop ops S (pre @ i # post) =
    (let S1 = skip_all ops S pre
     in (serve ops (upd_task i signalled (S1\<lparr>world := tick ops (world S1)\<rparr>)) i (clock ops (world S1)))\<lparr>m_rebase_start_priotask := False\<rparr>)"
  using S skips
proof (induction pre arbitrary: S)
  case Nil
  then show ?case
    using handle_one_serves [OF ops(1), of S i] serve_rebase [OF ops(2)] by (simp add: Let_def)
next
  case (Cons j pre)
  let ?S = "upd_task j signalled (S\<lparr>world := tick ops (world S)\<rparr>)"
  have "handle_loop ops ?S (pre @ i # post) =
    (let S1 = skip_all ops ?S pre
     in (serve ops (upd_task i signalled (S1\<lparr>world := tick ops (world S1)\<rparr>)) i (clock ops (world S1)))\<lparr>m_rebase_start_priotask := False\<rparr>)"
    by (rule Cons.IH) (use Cons.prems in auto)
  then show ?case
    using handle_one_skips [OF ops(1), of S j] Cons.prems by simp
qed

lemma first_unskipped:
  assumes "j < length (m_tasks S)" "m_task_id (task_at S j) \<ge> 0" "\<not> skipped (task_at S j)"
  obtains pre i post where "sort_tasks ops S now = pre @ i # post" "\<forall>k\<in>set pre. skipped (task_at S k)" "\<not> skipped (task_at S i)"
    "\<And>k. k < length (m_tasks S) \<Longrightarrow> m_task_id (task_at S k) \<ge> 0 \<Longrightarrow> \<not> skipped (task_at S k) \<Longrightarrow>
      service_key now (task_at S i) \<le> service_key now (task_at S k)"
proof -
  let ?xs = "sort_tasks ops S now"
  have "\<exists>k\<in>set ?xs. \<not> skipped (task_at S k)"
    using assms by (auto simp: set_sort_tasks)
  then obtain pre i post where s: "?xs = pre @ i # post" "\<not> skipped (task_at S i)" "\<forall>k\<in>set pre. \<not> \<not> skipped (task_at S k)"
    by (rule split_list_first_propE) auto
  have "service_key now (task_at S i) \<le> service_key now (task_at S k)" if "k \<in> set ?xs" "\<not> skipped (task_at S k)" for k
  proof -
    have "k = i \<or> k \<in> set post"
      using that s by auto
    then show ?thesis
      using sort_tasks_sorted [where ops = ops and S = S and now = now] s(1) by (auto simp: sorted_append)
  qed
  then show thesis
    using s(3) by (intro that [OF s(1) _ s(2)]) (auto simp: set_sort_tasks)
qed

lemma due_word:
  fixes a d s n :: u64
  assumes "unat a + unat d < 2 ^ 64" "a + d \<le> n" "n \<le> s"
  shows "a \<le> s" "d \<le> s - a"
proof -
  have "unat (a + d) = unat a + unat d"
    using assms(1) by (simp add: unat_word_ariths)
  then have "unat a + unat d \<le> unat s"
    using assms(2,3) by (metis order_trans word_le_nat_alt)
  then show "a \<le> s" "d \<le> s - a"
    by (simp_all add: word_le_nat_alt unat_sub)
qed

lemma serve_due:
  assumes "unat (m_last_millis (task_at S i)) + unat (m_duration (task_at S i)) < 2 ^ 64"
    and "next_due (task_at S i) \<le> now" "now \<le> start"
  shows "serve ops S i start = yielded ops (if m_max_attempts (task_at S i) \<noteq> 0 then run_due ops S i start else S)"
proof -
  have "m_last_millis (task_at S i) \<le> start" "m_duration (task_at S i) \<le> start - m_last_millis (task_at S i)"
    using due_word [OF assms(1) assms(2)[unfolded next_due_def] assms(3)] by simp_all
  then show ?thesis
    by (simp add: serve_def Let_def not_less)
qed

lemma signalled_fields:
  assumes "\<not> skipped t"
  shows "m_max_attempts (signalled t) = m_max_attempts t" "m_last_millis (signalled t) = m_last_millis t"
    "m_duration (signalled t) = m_duration t"
  using assms by (auto simp: skipped_def signalled_def consume_signal_def Let_def)

text \<open>The task a pass serves, and what it has done before serving it.\<close>

definition least_due :: "'w sched_ops \<Rightarrow> 'w TaskScheduler \<Rightarrow> nat \<Rightarrow> bool" where
  "least_due ops S i \<longleftrightarrow> (let ready = (\<lambda>k. k < length (m_tasks S) \<and> m_task_id (task_at S k) \<ge> 0 \<and> \<not> skipped (task_at S k)
        \<and> next_due (task_at S k) \<le> clock ops (world S))
     in ready i \<and> (\<forall>k. ready k \<longrightarrow> m_vruntime (task_at S i) \<le> m_vruntime (task_at S k)))"

definition signals_consumed :: "'w TaskScheduler \<Rightarrow> nat \<Rightarrow> 'w TaskScheduler \<Rightarrow> bool" where
  "signals_consumed S i S1 \<longleftrightarrow> length (m_tasks S1) = length (m_tasks S) \<and> m_min_vruntime S1 = m_min_vruntime S \<and> m_util S1 = m_util S
     \<and> task_at S1 i = signalled (task_at S i)
     \<and> (\<forall>k. k \<noteq> i \<longrightarrow> task_at S1 k = task_at S k \<or> skipped (task_at S k) \<and> task_at S1 k = signalled (task_at S k))"

lemma pass_outcome:
  assumes ops: "\<not> contextual ops" "well_behaved ops" and util: "m_util S"
    and clock: "\<forall>k\<le>length (m_tasks S). clock ops (world S) \<le> clock ops ((tick ops ^^ k) (tick ops (world S)))"
    and nowrap: "\<forall>t\<in>set (m_tasks S). unat (m_last_millis t) + unat (m_duration t) < 2 ^ 64"
    and j: "j < length (m_tasks S)" "m_task_id (task_at S j) \<ge> 0" "\<not> skipped (task_at S j)" "next_due (task_at S j) \<le> clock ops (world S)"
  shows "\<exists>i S1 n. least_due ops S i \<and> signals_consumed S i S1 \<and> n \<le> length (m_tasks S)
      \<and> world S1 = tick ops ((tick ops ^^ n) (tick ops (world S)))
      \<and> handle_tasks ops S = remove_expired_tasks ops ((yielded ops (if m_max_attempts (task_at S i) \<noteq> 0
           then run_due ops S1 i (clock ops ((tick ops ^^ n) (tick ops (world S)))) else S1))\<lparr>m_rebase_start_priotask := False\<rparr>)"
proof -
  let ?now = "clock ops (world S)"
  obtain pre i post where o: "sort_tasks ops S ?now = pre @ i # post" "\<forall>k\<in>set pre. skipped (task_at S k)" "\<not> skipped (task_at S i)"
    and least: "\<And>k. k < length (m_tasks S) \<Longrightarrow> m_task_id (task_at S k) \<ge> 0 \<Longrightarrow> \<not> skipped (task_at S k) \<Longrightarrow>
      service_key ?now (task_at S i) \<le> service_key ?now (task_at S k)"
    using first_unskipped [OF j(1-3), of ops ?now] by blast
  have i: "i < length (m_tasks S)" "m_task_id (task_at S i) \<ge> 0" and dist: "distinct (pre @ i # post)"
    and range: "\<forall>k\<in>set (pre @ i # post). k < length (m_tasks S)"
    using set_sort_tasks [of ops S ?now] distinct_sort_tasks [of ops S ?now] o(1) by auto
  have due: "next_due (task_at S i) \<le> ?now"
    using least [OF j(1-3)] j(4) by (auto simp: service_key_def)
  have best: "m_vruntime (task_at S i) \<le> m_vruntime (task_at S k)"
    if "k < length (m_tasks S)" "m_task_id (task_at S k) \<ge> 0" "\<not> skipped (task_at S k)" "next_due (task_at S k) \<le> ?now" for k
    using least [OF that(1-3)] that(4) due by (simp add: service_key_def)
  define S0 where "S0 = S\<lparr>world := tick ops (world S), m_rebase_start_priotask := True\<rparr>"
  define S1 where "S1 = upd_task i signalled ((skip_all ops S0 pre)\<lparr>world := tick ops (world (skip_all ops S0 pre))\<rparr>)"
  define start where "start = clock ops (world (skip_all ops S0 pre))"
  have "card (set pre) \<le> card {..<length (m_tasks S)}"
    by (rule card_mono) (use range in auto)
  then have len: "length pre \<le> length (m_tasks S)"
    using dist by (simp add: distinct_card)
  have start: "?now \<le> start"
    using clock len by (simp add: start_def S0_def)
  have S1: "task_at S1 k = (if k = i then signalled (task_at S i) else if k \<in> set pre then signalled (task_at S k) else task_at S k)" for k
    using dist range i by (simp add: S1_def S0_def task_at_skip_all)
  have "handle_loop ops S0 (pre @ i # post) = (serve ops S1 i start)\<lparr>m_rebase_start_priotask := False\<rparr>"
    using handle_loop_serves [OF ops, of S0 pre i post] dist range o(2,3) by (simp add: S0_def S1_def start_def Let_def)
  moreover have "serve ops S1 i start = yielded ops (if m_max_attempts (task_at S i) \<noteq> 0 then run_due ops S1 i start else S1)"
    using serve_due [of S1 i ?now start ops] due start nowrap i(1) signalled_fields [OF o(3)] by (simp add: S1 next_due_def)
  ultimately have "handle_tasks ops S = remove_expired_tasks ops
      ((yielded ops (if m_max_attempts (task_at S i) \<noteq> 0 then run_due ops S1 i start else S1))\<lparr>m_rebase_start_priotask := False\<rparr>)"
    using util o(1) by (simp add: handle_tasks_def getSortedTaskList_def prod.case_eq_if S0_def)
  moreover have "least_due ops S i"
    using i o(3) due best by (simp add: least_due_def)
  moreover have "length (m_tasks S1) = length (m_tasks S)" "m_min_vruntime S1 = m_min_vruntime S" "m_util S1 = m_util S"
    and "world S1 = tick ops ((tick ops ^^ length pre) (tick ops (world S)))" "start = clock ops ((tick ops ^^ length pre) (tick ops (world S)))"
    by (simp_all add: S1_def S0_def start_def)
  moreover from this(1-3) have "signals_consumed S i S1"
    using o(2) by (simp add: signals_consumed_def S1)
  ultimately show ?thesis
    using len by auto
qed


definition sample_task :: task_t where
  "sample_task = registered (Some 7) 10 5 50 (-1) None 0 0 1 100 task_new"

lemma sample_sched_eq:
  "sample_sched = \<lparr>m_tasks = sample_task # replicate 24 task_new, m_util = True, m_max_tasks = 25, m_rebase_start_priotask = False,
     m_min_vruntime = 0, m_next_task_id = 2, world = 100\<rparr>"
proof -
  let ?S = "setUtilityInterface (TaskScheduler_new 100 :: nat TaskScheduler) True"
  have ts: "m_tasks ?S = task_new # replicate 24 task_new" "m_max_tasks ?S = 25" "m_next_task_id ?S = 1"
    by (simp_all add: setUtilityInterface_def TaskScheduler_new_def task_consts numeral_eq_Suc)
  have "[0..<min (length (m_tasks ?S)) (unat (m_max_tasks ?S))] = 0 # [1..<25]"
    by (simp add: ts upt_rec)
  then have "free_slot ?S = Some 0"
    by (simp add: free_slot_def ts task_new_def)
  moreover have "get_unique_task_id ?S = (1, ?S\<lparr>m_next_task_id := 2\<rparr>)"
    unfolding get_unique_task_id_def unique_id_loop.simps Let_def by (simp add: ts next_id_def task_consts task_new_def)
  ultimately show ?thesis
    unfolding sample_sched_def setInterval_def register_task_def Let_def sample_task_def registered_def
    by (simp add: upd_task_def ts now_or_zero_def sample_ops_def) (simp add: setUtilityInterface_def TaskScheduler_new_def task_consts)
qed


section \<open>No starvation\<close>

text \<open>
  A standing load: interval tasks that are neither stopped nor signalled and weigh at most 1024 for
  each microsecond of \<open>c\<close>, whose callbacks leave the scheduler alone and take at least \<open>c\<close>
  microseconds, under a clock that does not go back and has reached \<open>t0\<close>.
\<close>

definition steady :: "nat \<Rightarrow> task_t \<Rightarrow> bool" where
  "steady c t \<longleftrightarrow> m_pending_sig t = SIG_NONE \<and> m_state t \<noteq> TASK_STATE_STOPPED \<and> unat (m_last_millis t) < 2 ^ 63 \<and> unat (m_duration t) < 2 ^ 63
     \<and> (m_task_id t \<ge> 0 \<longrightarrow> m_max_attempts t < 0 \<and> m_task t \<noteq> None \<and> 0 < m_weight t \<and> unat (m_weight t) \<le> 1024 * c)"

definition workload :: "'w sched_ops \<Rightarrow> ('w \<Rightarrow> bool) \<Rightarrow> u32 \<Rightarrow> nat \<Rightarrow> bool" where
  "workload ops good t0 c \<longleftrightarrow> \<not> contextual ops \<and> well_behaved ops
     \<and> (\<forall>fn S. good (world S) \<longrightarrow> (\<exists>w. call_task ops fn S = S\<lparr>world := w\<rparr> \<and> good w))
     \<and> (\<forall>w. good w \<longrightarrow> good (tick ops w) \<and> good (snd (micros_now ops w)) \<and> good (util_yield ops w)
          \<and> t0 \<le> fst (millis_now ops w) \<and> fst (millis_now ops w) \<le> fst (millis_now ops (tick ops w)))
     \<and> (\<forall>fn S. good (world S) \<longrightarrow>
          c \<le> unat (ucast (fst (micros_now ops (world (call_task ops fn (S\<lparr>world := snd (micros_now ops (world S))\<rparr>))))
            - fst (micros_now ops (world S))) :: u32))"

lemma steady_unskipped: "steady c t \<Longrightarrow> \<not> skipped t" "steady c t \<Longrightarrow> signalled t = t"
  by (simp_all add: steady_def skipped_def signalled_def signals)

lemma catch_up_le: "l \<le> start \<Longrightarrow> catch_up n start d l \<le> start"
proof (induction n arbitrary: l)
  case (Suc n)
  have "l + d \<le> start" if "d \<le> start - l"
  proof -
    have "unat l + unat d \<le> unat start"
      using that Suc.prems by (simp add: word_le_nat_alt unat_sub)
    moreover have "unat start < 2 ^ 64"
      using unsigned_less [of start] by simp
    ultimately show ?thesis
      by (simp add: word_le_nat_alt unat_word_ariths)
  qed
  then show ?case
    using Suc by simp
qed simp

lemma charge_service:
  assumes "0 < m_weight t" "unat (m_weight t) \<le> 1024 * c" "c \<le> unat (ucast us :: u32)"
  shows "\<exists>d. m_vruntime (charge us t) = m_vruntime t + d \<and> 1 \<le> unat d \<and> unat d < 2 ^ 42"
proof -
  let ?e = "ucast us :: u32"
  let ?d = "(ucast ?e * 1024) div ucast (m_weight t) :: u64"
  have e: "unat ?e < 2 ^ 32"
    using unsigned_less [of ?e] by simp
  have w: "0 < unat (m_weight t)"
    using assms(1) by (simp add: word_less_nat_alt)
  have u: "unat (ucast x :: u64) = unat x" for x :: u32
    by simp
  have "unat (ucast ?e * 1024 :: u64) = unat ?e * 1024"
    using e by (simp add: unat_word_ariths u)
  then have d: "unat ?d = unat ?e * 1024 div unat (m_weight t)"
    by (simp add: unat_div u)
  have "unat (m_weight t) \<le> unat ?e * 1024"
    using assms(2,3) by linarith
  then have "1 \<le> unat ?d"
    using w d by (simp add: Suc_le_eq div_greater_zero_iff)
  moreover have "unat ?d < 2 ^ 42"
    unfolding d by (rule le_less_trans [OF div_le_dividend]) (use e in simp)
  moreover have "m_vruntime (charge us t) = m_vruntime t + ?d"
    using assms(1) by (simp add: charge_def Let_def task_consts)
  ultimately show ?thesis
    by blast
qed

lemma no_expiry:
  assumes "\<forall>i\<in>set is. m_task_id (task_at S i) \<ge> 0 \<longrightarrow> m_max_attempts (task_at S i) \<noteq> 0"
  shows "expire_loop ops S is = S"
  using assms by (induction "is") auto

lemma run_callback_quiet:
  assumes "workload ops good t0 c" "good (world S)"
  shows "\<exists>us v w. run_callback ops S i fn = upd_task i (\<lambda>t. charge us (t\<lparr>m_state := TASK_STATE_RUNNING\<rparr>)) (S\<lparr>m_min_vruntime := v, world := w\<rparr>)
     \<and> c \<le> unat (ucast us :: u32) \<and> good w"
proof -
  define v where "v = (if m_vruntime (task_at S i) > m_min_vruntime S then m_vruntime (task_at S i) else m_min_vruntime S)"
  have floor: "(if m_vruntime (task_at S i) > m_min_vruntime S then S\<lparr>m_min_vruntime := m_vruntime (task_at S i)\<rparr> else S)
      = S\<lparr>m_min_vruntime := v\<rparr>"
    by (simp add: v_def)
  define S1 where "S1 = upd_task i (m_state_update (\<lambda>_. TASK_STATE_RUNNING)) (S\<lparr>m_min_vruntime := v\<rparr>)"
  define us0 where "us0 = fst (micros_now ops (world S))"
  define S2 where "S2 = S1\<lparr>world := snd (micros_now ops (world S))\<rparr>"
  have load: "c \<le> unat (ucast (fst (micros_now ops (world (call_task ops fn (S\<lparr>world := snd (micros_now ops (world S))\<rparr>))))
      - fst (micros_now ops (world S))) :: u32)" if "good (world S)" for S fn
    using assms(1) that unfolding workload_def by blast
  have good: "good (world S2)" and S1: "world S1 = world S"
    using assms by (auto simp: workload_def S2_def S1_def)
  then obtain w where w: "call_task ops fn S2 = S2\<lparr>world := w\<rparr>" "good w"
    using assms(1) unfolding workload_def by blast
  have cost: "c \<le> unat (ucast (fst (micros_now ops w) - us0) :: u32)"
    using load [of S1 fn] assms(2) unfolding S1 S2_def [symmetric] us0_def [symmetric] w(1) by simp
  have "run_callback ops S i fn = upd_task i (charge (fst (micros_now ops w) - us0)) (S2\<lparr>world := snd (micros_now ops w)\<rparr>)"
    unfolding run_callback_def Let_def prod.case_eq_if floor S1_def [symmetric] S1 S2_def [symmetric] us0_def [symmetric] w(1) by simp
  moreover have "S2\<lparr>world := snd (micros_now ops w)\<rparr>
      = upd_task i (m_state_update (\<lambda>_. TASK_STATE_RUNNING)) (S\<lparr>m_min_vruntime := v, world := snd (micros_now ops w)\<rparr>)"
    by (simp add: S2_def S1_def)
  moreover have "good (snd (micros_now ops w))"
    using assms(1) w(2) by (simp add: workload_def)
  ultimately show ?thesis
    using cost by (auto simp: upd_task_twice)
qed

lemma served_steady:
  assumes t: "steady c t" "m_task_id t \<ge> 0" and us: "c \<le> unat (ucast us :: u32)" and last_ms: "m_last_millis t \<le> ucast (ms :: u32)"
  defines "u \<equiv> account_run (ucast ms) (charge us (t\<lparr>m_state := TASK_STATE_RUNNING\<rparr>))"
  shows "steady c u" "m_task_id u = m_task_id t" "m_run_count u = m_run_count t + 1"
    "\<exists>d. m_vruntime u = m_vruntime t + d \<and> 1 \<le> unat d \<and> unat d < 2 ^ 42"
proof -
  have "m_last_millis u \<le> ucast ms"
    using catch_up_le [OF last_ms] by (simp add: u_def account_run_def charge_def Let_def)
  moreover have "unat (ucast ms :: u64) < 2 ^ 32"
    using unsigned_less [of ms] by simp
  ultimately have "unat (m_last_millis u) < 2 ^ 63"
    by (simp add: word_le_nat_alt)
  moreover have "m_pending_sig u = m_pending_sig t" "m_state u \<noteq> TASK_STATE_STOPPED" "m_duration u = m_duration t" "m_task_id u = m_task_id t"
    "m_max_attempts t < 0 \<longrightarrow> m_max_attempts u < 0" "m_task u = m_task t" "m_weight u = m_weight t"
    by (simp_all add: u_def account_run_def charge_def Let_def)
  ultimately show "steady c u"
    using t by (simp add: steady_def)
  show "m_task_id u = m_task_id t" "m_run_count u = m_run_count t + 1"
    by (simp_all add: u_def account_run_def charge_def Let_def)
  show "\<exists>d. m_vruntime u = m_vruntime t + d \<and> 1 \<le> unat d \<and> unat d < 2 ^ 42"
    using charge_service [of "t\<lparr>m_state := TASK_STATE_RUNNING\<rparr>" c us] t us
    by (simp add: u_def account_run_def Let_def steady_def)
qed

lemma steady_nowrap: "steady c t \<Longrightarrow> unat (m_last_millis t) + unat (m_duration t) < 2 ^ 64"
  by (simp add: steady_def)

lemma ucast_clock_mono: "a \<le> b \<Longrightarrow> (ucast (a :: u32) :: u64) \<le> ucast b"
  by (simp add: word_le_nat_alt)

lemma workload_clock:
  assumes "workload ops good t0 c" "good w"
  shows "good ((tick ops ^^ k) w)" "fst (millis_now ops w) \<le> fst (millis_now ops ((tick ops ^^ k) w))"
proof -
  have "good ((tick ops ^^ k) w) \<and> fst (millis_now ops w) \<le> fst (millis_now ops ((tick ops ^^ k) w))"
    using assms unfolding workload_def by (induction k) (auto intro: order_trans)
  then show "good ((tick ops ^^ k) w)" "fst (millis_now ops w) \<le> fst (millis_now ops ((tick ops ^^ k) w))"
    by simp_all
qed

lemma steady_run:
  assumes load: "workload ops good t0 c" and S: "m_util S" "good (world S)" "\<forall>t\<in>set (m_tasks S). steady c t"
    and j: "j < length (m_tasks S)" "m_task_id (task_at S j) \<ge> 0" "m_last_millis (task_at S j) \<le> ucast (ms :: u32)"
  shows "\<exists>u d w v. remove_expired_tasks ops ((yielded ops (run_due ops S j (ucast ms)))\<lparr>m_rebase_start_priotask := False\<rparr>)
      = S\<lparr>m_tasks := (m_tasks S)[j := u], m_min_vruntime := v, m_rebase_start_priotask := False, world := w\<rparr>
    \<and> good w \<and> steady c u \<and> m_task_id u = m_task_id (task_at S j) \<and> m_run_count u = m_run_count (task_at S j) + 1
    \<and> m_vruntime u = m_vruntime (task_at S j) + d \<and> 1 \<le> unat d \<and> unat d < 2 ^ 42"
proof -
  have t: "steady c (task_at S j)"
    using S(3) j(1) by simp
  then obtain fn where fn: "m_task (task_at S j) = Some fn"
    using j(2) by (auto simp: steady_def)
  obtain us v w where run: "run_callback ops S j fn = upd_task j (\<lambda>t. charge us (t\<lparr>m_state := TASK_STATE_RUNNING\<rparr>)) (S\<lparr>m_min_vruntime := v, world := w\<rparr>)"
    and us: "c \<le> unat (ucast us :: u32)" and w: "good w"
    using run_callback_quiet [OF load S(2)] by blast
  define u where "u = account_run (ucast ms) (charge us ((task_at S j)\<lparr>m_state := TASK_STATE_RUNNING\<rparr>))"
  note u = served_steady [OF t j(2) us j(3), folded u_def]
  define S2 where "S2 = S\<lparr>m_tasks := (m_tasks S)[j := u], m_min_vruntime := v, m_rebase_start_priotask := False, world := util_yield ops w\<rparr>"
  have "(yielded ops (run_due ops S j (ucast ms)))\<lparr>m_rebase_start_priotask := False\<rparr> = S2"
    using S(1) j(1) by (simp add: run_due_def fn run upd_task_twice yielded_def S2_def upd_task_def u_def)
  moreover have "m_task_id t \<ge> 0 \<longrightarrow> m_max_attempts t \<noteq> 0" if "t \<in> set (m_tasks S2)" for t
  proof -
    have "steady c t"
      using that S(3) u(1) set_update_subset_insert [of "m_tasks S" j u] by (auto simp: S2_def)
    then show ?thesis
      by (auto simp: steady_def)
  qed
  then have "remove_expired_tasks ops S2 = S2"
    unfolding remove_expired_tasks_def by (intro no_expiry) simp
  moreover have "good (util_yield ops w)"
    using load w unfolding workload_def by blast
  ultimately show ?thesis
    using u unfolding S2_def by metis
qed

lemma steady_pass:
  assumes load: "workload ops good t0 c" and S: "m_util S" "good (world S)" "\<forall>t\<in>set (m_tasks S). steady c t"
    and i: "i < length (m_tasks S)" "m_task_id (task_at S i) \<ge> 0" "next_due (task_at S i) \<le> ucast t0"
  shows "\<exists>j u d. j < length (m_tasks S) \<and> m_task_id (task_at S j) \<ge> 0 \<and> m_vruntime (task_at S j) \<le> m_vruntime (task_at S i)
    \<and> m_tasks (handle_tasks ops S) = (m_tasks S)[j := u] \<and> m_util (handle_tasks ops S) \<and> good (world (handle_tasks ops S))
    \<and> steady c u \<and> m_task_id u = m_task_id (task_at S j) \<and> m_run_count u = m_run_count (task_at S j) + 1
    \<and> m_vruntime u = m_vruntime (task_at S j) + d \<and> 1 \<le> unat d \<and> unat d < 2 ^ 42"
proof -
  have ops: "\<not> contextual ops" "well_behaved ops"
    using load by (simp_all add: workload_def)
  have step: "good (tick ops w)" "t0 \<le> fst (millis_now ops w)" if "good w" for w
    using load that unfolding workload_def by blast+
  have up: "clock ops (world S) \<le> clock ops ((tick ops ^^ k) (tick ops (world S)))" for k
    using workload_clock(2) [OF load S(2), of "Suc k"] by (simp add: ucast_clock_mono funpow_swap1 [of "tick ops"])
  have st: "steady c (task_at S k)" if "k < length (m_tasks S)" for k
    using S(3) that by simp
  have now: "next_due (task_at S i) \<le> clock ops (world S)"
    using i(3) ucast_clock_mono [OF step(2) [OF S(2)]] by (rule order_trans)
  have wrap: "\<forall>t\<in>set (m_tasks S). unat (m_last_millis t) + unat (m_duration t) < 2 ^ 64"
    using S(3) steady_nowrap by blast
  obtain j S1 n where o: "least_due ops S j" "signals_consumed S j S1" "world S1 = tick ops ((tick ops ^^ n) (tick ops (world S)))"
    and pass: "handle_tasks ops S = remove_expired_tasks ops ((yielded ops (if m_max_attempts (task_at S j) \<noteq> 0
           then run_due ops S1 j (clock ops ((tick ops ^^ n) (tick ops (world S)))) else S1))\<lparr>m_rebase_start_priotask := False\<rparr>)"
    using pass_outcome [OF ops S(1) _ wrap i(1,2) _ now] up steady_unskipped(1) [OF st [OF i(1)]] by blast
  have j: "j < length (m_tasks S)" "m_task_id (task_at S j) \<ge> 0" "next_due (task_at S j) \<le> clock ops (world S)"
      "m_vruntime (task_at S j) \<le> m_vruntime (task_at S i)"
    using o(1) i now steady_unskipped(1) [OF st [OF i(1)]] by (auto simp: least_due_def Let_def)
  have "task_at S1 k = task_at S k" if "k < length (m_tasks S)" for k
    using o(2) steady_unskipped [OF st [OF that]] by (cases "k = j") (auto simp: signals_consumed_def)
  then have ts: "m_tasks S1 = m_tasks S" "m_util S1"
    using o(2) S(1) by (auto simp: signals_consumed_def intro: nth_equalityI)
  have good: "good (world S1)"
    unfolding o(3) by (intro step(1) workload_clock(1) [OF load] S(2))
  have last_ms: "m_last_millis (task_at S j) \<le> clock ops ((tick ops ^^ n) (tick ops (world S)))"
    using due_word(1) [OF steady_nowrap [OF st [OF j(1)]] j(3) [unfolded next_due_def] up] .
  have "m_max_attempts (task_at S j) \<noteq> 0"
    using st [OF j(1)] j(2) by (auto simp: steady_def)
  then show ?thesis
    using steady_run [OF load ts(2) good, of j] S(3) j last_ms ts S(1) unfolding pass by fastforce
qed

text \<open>How far the other tasks are behind: each pass that serves another task takes at least one off.\<close>

definition backlog :: "nat \<Rightarrow> 'w TaskScheduler \<Rightarrow> nat" where
  "backlog v S = (\<Sum>k<length (m_tasks S). if m_task_id (task_at S k) \<ge> 0 then Suc v - unat (m_vruntime (task_at S k)) else 0)"

lemma backlog_drops:
  assumes "m_tasks S' = (m_tasks S)[j := u]" "j < length (m_tasks S)" "m_task_id (task_at S j) \<ge> 0" "m_task_id u = m_task_id (task_at S j)"
    and "unat (m_vruntime (task_at S j)) \<le> v" "unat (m_vruntime (task_at S j)) < unat (m_vruntime u)"
  shows "backlog v S' < backlog v S"
  unfolding backlog_def
proof (rule order_less_le_trans [OF sum_strict_mono_ex1])
  show "\<forall>k\<in>{..<length (m_tasks S')}. (if m_task_id (task_at S' k) \<ge> 0 then Suc v - unat (m_vruntime (task_at S' k)) else 0)
      \<le> (if m_task_id (task_at S k) \<ge> 0 then Suc v - unat (m_vruntime (task_at S k)) else 0)"
    using assms by (auto simp: nth_list_update)
  show "\<exists>k\<in>{..<length (m_tasks S')}. (if m_task_id (task_at S' k) \<ge> 0 then Suc v - unat (m_vruntime (task_at S' k)) else 0)
      < (if m_task_id (task_at S k) \<ge> 0 then Suc v - unat (m_vruntime (task_at S k)) else 0)"
    using assms by (intro bexI [of _ j]) (simp_all add: nth_list_update)
qed (simp_all add: assms(1))

text \<open>
  C7: No task starves: under a standing load of interval tasks whose callbacks each take at least
  \<open>c\<close> microseconds, a task that is due is run after finitely many passes, at most as many as
  the tasks with less service are microunits of service behind it.
\<close>

theorem no_starvation:
  assumes "workload ops good t0 c" "m_util S" "good (world S)" "\<forall>t\<in>set (m_tasks S). steady c t"
    and "i < length (m_tasks S)" "m_task_id (task_at S i) \<ge> 0" "next_due (task_at S i) \<le> ucast t0"
    and "unat (m_vruntime (task_at S i)) < 2 ^ 63"
  shows "\<exists>n\<le>backlog (unat (m_vruntime (task_at S i))) S.
    m_run_count (task_at ((handle_tasks ops ^^ n) S) i) = m_run_count (task_at S i) + 1"
  using assms(2-)
proof (induction "backlog (unat (m_vruntime (task_at S i))) S" arbitrary: S rule: less_induct)
  case less
  let ?v = "unat (m_vruntime (task_at S i))"
  obtain j u d where p: "j < length (m_tasks S)" "m_task_id (task_at S j) \<ge> 0" "m_vruntime (task_at S j) \<le> m_vruntime (task_at S i)"
    "m_tasks (handle_tasks ops S) = (m_tasks S)[j := u]" "m_util (handle_tasks ops S)" "good (world (handle_tasks ops S))"
    "steady c u" "m_task_id u = m_task_id (task_at S j)" "m_run_count u = m_run_count (task_at S j) + 1"
    "m_vruntime u = m_vruntime (task_at S j) + d" "1 \<le> unat d" "unat d < 2 ^ 42"
    using steady_pass [OF assms(1) less.prems(1-6)] by blast
  have le: "unat (m_vruntime (task_at S j)) \<le> ?v"
    using p(3) by (simp add: word_le_nat_alt)
  then have "unat (m_vruntime u) = unat (m_vruntime (task_at S j)) + unat d"
    using less.prems(7) p(10,12) by (simp add: unat_word_ariths)
  then have drop: "backlog ?v (handle_tasks ops S) < backlog ?v S"
    using backlog_drops [OF p(4,1,2,8) le] p(11) by simp
  show ?case
  proof (cases "j = i")
    case True
    then have "m_run_count (task_at ((handle_tasks ops ^^ 1) S) i) = m_run_count (task_at S i) + 1"
      using p(1,4,9) by simp
    moreover have "1 \<le> backlog ?v S"
      using drop by simp
    ultimately show ?thesis
      by blast
  next
    case False
    then have i: "task_at (handle_tasks ops S) i = task_at S i"
      using p(4) by simp
    have "\<forall>t\<in>set (m_tasks (handle_tasks ops S)). steady c t"
      using less.prems(3) p(4,7) set_update_subset_insert [of "m_tasks S" j u] by auto
    then obtain n where n: "n \<le> backlog ?v (handle_tasks ops S)"
      "m_run_count (task_at ((handle_tasks ops ^^ n) (handle_tasks ops S)) i) = m_run_count (task_at S i) + 1"
      using less.hyps [of "handle_tasks ops S"] drop less.prems p(4-6) i by auto
    then have "m_run_count (task_at ((handle_tasks ops ^^ Suc n) S) i) = m_run_count (task_at S i) + 1"
      by (simp add: funpow_swap1)
    then show ?thesis
      using n(1) drop by (intro exI [of _ "Suc n"]) simp
  qed
qed

definition sample_load :: "nat sched_ops" where
  "sample_load = sample_ops\<lparr>millis_now := (\<lambda>w. (of_nat (min w (2 ^ 31)), w)), call_task := (\<lambda>fn S. S)\<rparr>"

lemma sample_load_workload: "workload sample_load (\<lambda>w. 100 \<le> w) 100 1000"
proof -
  have clock: "(100 :: u32) \<le> of_nat (min w (2 ^ 31))" if "100 \<le> w" for w :: nat
    using that by (simp add: word_le_nat_alt unat_of_nat take_bit_eq_mod min_def)
  have f: "\<not> contextual sample_load" "call_task sample_load = (\<lambda>fn S. S)" "millis_now sample_load = (\<lambda>w. (of_nat (min w (2 ^ 31)), w))"
    "micros_now sample_load = (\<lambda>w. (of_nat w * 1000, Suc w))" "util_yield sample_load = (\<lambda>w. w)" "well_behaved sample_load"
    by (simp_all add: sample_load_def sample_ops_def well_behaved_def)
  have quiet: "\<exists>w'. S = S\<lparr>world := w'\<rparr> \<and> 100 \<le> w'" if "100 \<le> world S" for S :: "nat TaskScheduler"
  proof (intro exI conjI)
    show "S = S\<lparr>world := world S\<rparr>"
      by simp
  qed (rule that)
  have "(of_nat (Suc w) * 1000 :: u64) - of_nat w * 1000 = 1000" for w
    by (simp only: of_nat_Suc distrib_right mult_1 add_diff_cancel_right')
  then have cost: "1000 \<le> unat (ucast ((of_nat (Suc w) * 1000 :: u64) - of_nat w * 1000) :: u32)" for w
    by (simp only:) simp
  show ?thesis
    unfolding workload_def f(2-5)
    by (intro conjI allI impI f(1,6) quiet) (use clock cost in \<open>simp_all\<close>)
qed

theorem no_starvation_witness:
  "\<exists>n\<le>1. m_run_count (task_at ((handle_tasks sample_load ^^ n) sample_sched) 0) = 1"
proof -
  have t: "m_task_id sample_task = 1" "m_vruntime sample_task = 0" "m_run_count sample_task = 0" "next_due sample_task = 60"
    "m_pending_sig sample_task = SIG_NONE" "m_state sample_task = TASK_STATE_SLEEPING" "m_last_millis sample_task = 50"
    "m_duration sample_task = 10" "m_max_attempts sample_task = -1" "m_task sample_task = Some 7"
    by (simp_all add: sample_task_def registered_def task_new_def set_task_priority_def set_task_policy_def Let_def next_due_def)
  have "task_ok task_new"
    by (simp add: task_ok_def task_new_def)
  then have "task_ok sample_task"
    unfolding sample_task_def by (rule task_ok_registered) (simp_all add: task_consts)
  then have "m_weight sample_task = taskWeight sample_task"
    by (simp add: task_ok_def t)
  then have "steady 1000 sample_task"
    using taskWeight_range [of sample_task] by (simp add: steady_def t word_less_nat_alt)
  then have "\<forall>t\<in>set (m_tasks sample_sched). steady 1000 t"
    by (simp add: sample_sched_eq) (simp add: steady_def task_new_def)
  moreover have "backlog 0 sample_sched = 1"
    by (simp add: backlog_def sample_sched_eq sum.lessThan_Suc_shift t numeral_eq_Suc task_new_def)
  ultimately show ?thesis
    using no_starvation [OF sample_load_workload, of sample_sched 0] by (simp add: sample_sched_eq t)
qed

end
