(* ===== verification/RegexMatch.thy ===== *)
theory RegexMatch
  imports PdiPrelude "HOL-Library.Sublist"
begin

text \<open>
  The pattern matcher behind \<^verbatim>\<open>grep\<close> (\<^verbatim>\<open>src/src/utility/RegexMatch.cpp\<close>): one-character
  tokens (a literal, \<open>.\<close>, an escaped character, a bracket class), the quantifiers
  \<open>*\<close>, \<open>+\<close> and \<open>?\<close>, and the anchors \<open>^\<close> and \<open>$\<close>. A pointer
  and a length are a list; a position in the text is a number. \<open>cv\<close> is the value the
  compiler gives a plain \<open>char\<close>, which is signed on some of the targets and unsigned on others.
  The second half gives a pattern the language it denotes and shows that the backtracking search
  decides it.
\<close>

section \<open>The matcher\<close>

definition token_length :: "string \<Rightarrow> nat" where
  "token_length p =
     (if p = [] then 0
      else if hd p = CHR 0x5C \<and> length p \<ge> 2 then 2
      else if hd p = CHR ''['' then
        let i = 1; i = (if i < length p \<and> p ! i = CHR ''^'' then i + 1 else i);
            i = i + length (takeWhile (\<lambda>c. c \<noteq> CHR '']'') (drop i p))
        in if i < length p then i + 1 else 1
      else 1)"

fun class_loop :: "(char \<Rightarrow> int) \<Rightarrow> char \<Rightarrow> string \<Rightarrow> bool \<Rightarrow> bool" where
  "class_loop cv ch (a # b # c # r) found =
     (if a = CHR '']'' then found
      else if b = CHR ''-'' \<and> c \<noteq> CHR '']'' then class_loop cv ch r (found \<or> cv a \<le> cv ch \<and> cv ch \<le> cv c)
      else class_loop cv ch (b # c # r) (found \<or> ch = a))"
| "class_loop cv ch [a, b] found = (if a = CHR '']'' then found else class_loop cv ch [b] (found \<or> ch = a))"
| "class_loop cv ch [a] found = (if a = CHR '']'' then found else found \<or> ch = a)"
| "class_loop cv ch [] found = found"

definition token_matches :: "(char \<Rightarrow> int) \<Rightarrow> string \<Rightarrow> char \<Rightarrow> bool" where
  "token_matches cv p ch =
     (if p = [] then False
      else if hd p = CHR ''.'' then True
      else if hd p = CHR 0x5C \<and> length p \<ge> 2 then ch = p ! 1
      else if hd p = CHR ''['' then
        let negate = (1 < length p \<and> p ! 1 = CHR ''^'');
            found = class_loop cv ch (drop (if negate then 2 else 1) p) False
        in found \<noteq> negate
      else ch = hd p)"

text \<open>The longest run of the token, and giving it back one character at a time.\<close>

fun count_run :: "(char \<Rightarrow> bool) \<Rightarrow> nat \<Rightarrow> string \<Rightarrow> nat" where
  "count_run P m [] = 0"
| "count_run P m (c # s) = (if 0 < m \<and> P c then Suc (count_run P (m - 1) s) else 0)"

fun back_off :: "(nat \<Rightarrow> bool) \<Rightarrow> nat \<Rightarrow> nat \<Rightarrow> bool" where
  "back_off f m c = (if c \<ge> m then (if f c then True else if c = 0 then False else back_off f m (c - 1)) else False)"

declare back_off.simps [simp del]

definition match_quant :: "(nat \<Rightarrow> bool) \<Rightarrow> (char \<Rightarrow> int) \<Rightarrow> string \<Rightarrow> char \<Rightarrow> string \<Rightarrow> nat \<Rightarrow> bool" where
  "match_quant rest cv token quant t tpos =
     (let minMatches = (if quant = CHR ''+'' then 1 else 0);
          maxMatches = (if quant = CHR ''?'' then 1 else 32767);
          count = count_run (token_matches cv token) maxMatches (drop tpos t)
      in back_off (\<lambda>c. rest (tpos + c)) minMatches count)"

lemma back_off_iff: "back_off f m c \<longleftrightarrow> (\<exists>k. m \<le> k \<and> k \<le> c \<and> f k)"
proof (induction f m c rule: back_off.induct)
  case (1 f m c)
  show ?case
  proof (cases "m \<le> c \<and> \<not> f c \<and> c \<noteq> 0")
    case True
    then have "back_off f m c = back_off f m (c - 1)"
      by (subst back_off.simps) simp
    moreover have "(\<exists>k. m \<le> k \<and> k \<le> c \<and> f k) \<longleftrightarrow> (\<exists>k. m \<le> k \<and> k \<le> c - 1 \<and> f k)"
      using True by (metis Suc_diff_1 gr0I le_SucE le_SucI)
    ultimately show ?thesis
      using 1 True by simp
  next
    case False
    then show ?thesis
      by (subst back_off.simps) (auto dest: order_trans)
  qed
qed

lemma match_quant_cong [fundef_cong]:
  "(\<And>pos. rest pos = rest' pos) \<Longrightarrow> cv = cv' \<Longrightarrow> token = token' \<Longrightarrow> quant = quant' \<Longrightarrow> t = t' \<Longrightarrow> tpos = tpos' \<Longrightarrow>
    match_quant rest cv token quant t tpos = match_quant rest' cv' token' quant' t' tpos'"
  by (simp add: match_quant_def Let_def back_off_iff)

lemma token_length_pos: "p \<noteq> [] \<Longrightarrow> 0 < token_length p"
  by (simp add: token_length_def Let_def)

function match_here :: "(char \<Rightarrow> int) \<Rightarrow> string \<Rightarrow> string \<Rightarrow> nat \<Rightarrow> bool" where
  "match_here cv p t tpos =
     (if p = [] then True
      else if p = ''$'' then tpos = length t
      else
        let tokenlen = token_length p in
        if tokenlen = 0 then True
        else if tokenlen < length p \<and> p ! tokenlen \<in> {CHR ''*'', CHR ''+'', CHR ''?''}
        then match_quant (\<lambda>pos. match_here cv (drop (tokenlen + 1) p) t pos) cv (take tokenlen p) (p ! tokenlen) t tpos
        else if tpos < length t \<and> token_matches cv (take tokenlen p) (t ! tpos)
        then match_here cv (drop tokenlen p) t (tpos + 1)
        else False)"
  by pat_completeness auto
termination
  by (relation "measure (\<lambda>(cv, p, t, tpos). length p)") (auto simp: token_length_pos)

declare match_here.simps [simp del]

fun search_loop :: "(nat \<Rightarrow> bool) \<Rightarrow> nat list \<Rightarrow> int" where
  "search_loop f [] = -1"
| "search_loop f (i # is) = (if f i then int i else search_loop f is)"

definition regex_match :: "(char \<Rightarrow> int) \<Rightarrow> string option \<Rightarrow> string option \<Rightarrow> int" where
  "regex_match cv pattern text =
     (case (pattern, text) of
        (Some pattern, Some text) \<Rightarrow>
          let p = takeWhile (\<lambda>c. c \<noteq> CHR 0x00) pattern in
          if p \<noteq> [] \<and> hd p = CHR ''^'' then (if match_here cv (tl p) text 0 then 0 else -1)
          else search_loop (match_here cv p text) [0..<length text + 1]
      | _ \<Rightarrow> -1)"

section \<open>The language of a pattern\<close>

text \<open>The ranges of a bracket class up to its closing bracket; a single character is a range of one.\<close>

fun class_ranges :: "string \<Rightarrow> (char \<times> char) list" where
  "class_ranges (a # b # c # r) =
     (if a = CHR '']'' then [] else if b = CHR ''-'' \<and> c \<noteq> CHR '']'' then (a, c) # class_ranges r else (a, a) # class_ranges (b # c # r))"
| "class_ranges [a, b] = (if a = CHR '']'' then [] else (a, a) # class_ranges [b])"
| "class_ranges [a] = (if a = CHR '']'' then [] else [(a, a)])"
| "class_ranges [] = []"

definition class_set :: "(char \<Rightarrow> int) \<Rightarrow> string \<Rightarrow> char set" where
  "class_set cv r = (\<Union>(a, b)\<in>set (class_ranges r). {c. cv a \<le> cv c \<and> cv c \<le> cv b})"

text \<open>An unclosed bracket is a token of its own that matches nothing.\<close>

definition token_set :: "(char \<Rightarrow> int) \<Rightarrow> string \<Rightarrow> char set" where
  "token_set cv tok = (case tok of
       [] \<Rightarrow> {}
     | c # r \<Rightarrow> if c = CHR ''.'' then UNIV
         else if c = CHR 0x5C \<and> r \<noteq> [] then {hd r}
         else if c = CHR ''['' then (if r \<noteq> [] \<and> hd r = CHR ''^'' then - class_set cv (tl r) else class_set cv r)
         else {c})"

datatype quant = One | Star | Plus | Opt

definition quant_of :: "char \<Rightarrow> quant option" where
  "quant_of c = (if c = CHR ''*'' then Some Star else if c = CHR ''+'' then Some Plus else if c = CHR ''?'' then Some Opt else None)"

definition quant_counts :: "quant \<Rightarrow> nat set" where
  "quant_counts q = (case q of One \<Rightarrow> {1} | Star \<Rightarrow> UNIV | Plus \<Rightarrow> {1..} | Opt \<Rightarrow> {..1})"

text \<open>A pattern is a sequence of quantified tokens, and whether it ends at the end of the text.\<close>

function pattern_items :: "string \<Rightarrow> (string \<times> quant) list \<times> bool" where
  "pattern_items p =
     (if p = [] then ([], False)
      else if p = ''$'' then ([], True)
      else
        let n = token_length p in
        case (if n < length p then quant_of (p ! n) else None) of
          Some q \<Rightarrow> (case pattern_items (drop (n + 1) p) of (its, e) \<Rightarrow> ((take n p, q) # its, e))
        | None \<Rightarrow> (case pattern_items (drop n p) of (its, e) \<Rightarrow> ((take n p, One) # its, e)))"
  by pat_completeness auto
termination
  by (relation "measure length") (auto simp: token_length_pos)

declare pattern_items.simps [simp del]

definition item_lang :: "(char \<Rightarrow> int) \<Rightarrow> string \<times> quant \<Rightarrow> string set" where
  "item_lang cv it = {w. set w \<subseteq> token_set cv (fst it) \<and> length w \<in> quant_counts (snd it)}"

fun items_lang :: "(char \<Rightarrow> int) \<Rightarrow> (string \<times> quant) list \<Rightarrow> string set" where
  "items_lang cv [] = {[]}"
| "items_lang cv (it # its) = {u @ v | u v. u \<in> item_lang cv it \<and> v \<in> items_lang cv its}"

definition matches_at :: "(char \<Rightarrow> int) \<Rightarrow> string \<Rightarrow> string \<Rightarrow> nat \<Rightarrow> bool" where
  "matches_at cv p t i \<longleftrightarrow> (case pattern_items p of (its, e) \<Rightarrow>
     \<exists>w\<in>items_lang cv its. if e then drop i t = w else prefix w (drop i t))"

section \<open>The search decides the language\<close>

lemma class_loop_set: "inj cv \<Longrightarrow> class_loop cv ch r found \<longleftrightarrow> found \<or> ch \<in> class_set cv r"
  by (induction cv ch r found rule: class_loop.induct) (auto simp: class_set_def order_antisym_conv inj_eq)

lemma token_matches_set: "inj cv \<Longrightarrow> token_matches cv tok ch \<longleftrightarrow> ch \<in> token_set cv tok"
  by (cases tok) (auto simp: token_matches_def token_set_def class_loop_set Let_def hd_conv_nth drop_Suc neq_Nil_conv Suc_le_eq)

lemma count_run_prefix: "c \<le> count_run P m s \<longleftrightarrow> c \<le> length s \<and> c \<le> m \<and> (\<forall>x\<in>set (take c s). P x)"
proof (induction P m s arbitrary: c rule: count_run.induct)
  case (2 P m x s)
  then show ?case
    by (cases c) auto
qed auto

text \<open>A word of an item followed by one of the rest, at a position of the text.\<close>

lemma matches_at_item:
  assumes "pattern_items p = ((tok, q) # its, e)" and "pattern_items p' = (its, e)" and "i \<le> length t"
  shows "matches_at cv p t i \<longleftrightarrow>
    (\<exists>n\<in>quant_counts q. i + n \<le> length t \<and> set (take n (drop i t)) \<subseteq> token_set cv tok \<and> matches_at cv p' t (i + n))"
    (is "?L \<longleftrightarrow> ?R")
proof
  assume ?L
  then obtain u v where u: "set u \<subseteq> token_set cv tok" "length u \<in> quant_counts q" and v: "v \<in> items_lang cv its"
    and w: "if e then drop i t = u @ v else prefix (u @ v) (drop i t)"
    using assms(1) by (auto simp: matches_at_def item_lang_def split: if_splits)
  from w obtain z where z: "drop i t = u @ v @ z" "e \<longrightarrow> z = []"
    by (cases e) (auto simp: prefix_def)
  then have "drop (i + length u) t = v @ z" "take (length u) (drop i t) = u"
    by (metis add.commute append_eq_conv_conj drop_drop, simp)
  moreover have "i + length u \<le> length t"
    using z(1) assms(3) by (metis add_le_cancel_left append_take_drop_id le_add1 length_append length_take min.absorb2)
  ultimately show ?R
    using u v z(2) assms(2) by (intro bexI [of _ "length u"]) (auto simp: matches_at_def intro: bexI [of _ v])
next
  assume ?R
  then obtain n v where n: "n \<in> quant_counts q" "i + n \<le> length t" "set (take n (drop i t)) \<subseteq> token_set cv tok"
    and v: "v \<in> items_lang cv its" "if e then drop (i + n) t = v else prefix v (drop (i + n) t)"
    using assms(2) by (auto simp: matches_at_def)
  define u where "u = take n (drop i t)"
  have u: "length u = n" "drop i t = u @ drop (i + n) t"
    using n(2) append_take_drop_id [of n "drop i t"] by (simp_all add: u_def add.commute)
  have "u @ v \<in> items_lang cv ((tok, q) # its)"
    using n(1,3) v(1) u(1) by (auto simp: item_lang_def u_def [symmetric])
  moreover have "if e then drop i t = u @ v else prefix (u @ v) (drop i t)"
    using v(2) unfolding u(2) by (simp split: if_splits)
  ultimately have "\<exists>w\<in>items_lang cv ((tok, q) # its). if e then drop i t = w else prefix w (drop i t)"
    by (rule rev_bexI)
  then show ?L
    using assms(1) by (simp add: matches_at_def)
qed


lemma count_run_set:
  assumes "inj cv"
  shows "n \<le> count_run (token_matches cv tok) m (drop i t) \<longleftrightarrow>
    n \<le> length t - i \<and> n \<le> m \<and> set (take n (drop i t)) \<subseteq> token_set cv tok"
  by (auto simp: count_run_prefix token_matches_set [OF assms])

lemma match_quant_counts:
  assumes "inj cv" "length t \<le> 32767" "i \<le> length t" "quant_of c = Some q"
  shows "match_quant rest cv tok c t i \<longleftrightarrow>
    (\<exists>k\<in>quant_counts q. i + k \<le> length t \<and> set (take k (drop i t)) \<subseteq> token_set cv tok \<and> rest (i + k))"
  using assms(2-4) unfolding match_quant_def Let_def back_off_iff count_run_set [OF assms(1)]
  by (auto simp: quant_of_def quant_counts_def le_diff_conv2 add.commute split: if_splits)

lemma match_here_language:
  "inj cv \<Longrightarrow> length t \<le> 32767 \<Longrightarrow> i \<le> length t \<Longrightarrow> match_here cv p t i \<longleftrightarrow> matches_at cv p t i"
proof (induction cv p t i rule: match_here.induct)
  case (1 cv p t i)
  let ?n = "token_length p"
  consider (empty) "p = []" | (dollar) "p = ''$''" | (quant) q where "p \<noteq> []" "p \<noteq> ''$''" "?n < length p" "quant_of (p ! ?n) = Some q"
    | (one) "p \<noteq> []" "p \<noteq> ''$''" "(if ?n < length p then quant_of (p ! ?n) else None) = None"
    by (metis option.exhaust)
  then show ?case
  proof cases
    case empty
    then show ?thesis
      by (simp add: match_here.simps matches_at_def pattern_items.simps)
  next
    case dollar
    then show ?thesis
      using "1.prems"(3) by (auto simp: match_here.simps matches_at_def pattern_items.simps)
  next
    case quant
    obtain its e where r: "pattern_items (drop (?n + 1) p) = (its, e)"
      by fastforce
    have it: "pattern_items p = ((take ?n p, q) # its, e)"
      using quant r by (subst pattern_items.simps) (simp add: Let_def)
    have c: "p ! ?n \<in> {CHR ''*'', CHR ''+'', CHR ''?''}"
      using quant(4) by (auto simp: quant_of_def split: if_splits)
    have ih: "match_here cv (drop (?n + 1) p) t pos = matches_at cv (drop (?n + 1) p) t pos" if "pos \<le> length t" for pos
      using "1.IH"(1) [OF quant(1,2) refl _ conjI [OF quant(3) c]] token_length_pos [OF quant(1)] "1.prems" that by simp
    have "match_here cv p t i = match_quant (match_here cv (drop (?n + 1) p) t) cv (take ?n p) (p ! ?n) t i"
      using quant c token_length_pos [OF quant(1)] by (subst match_here.simps) (simp add: Let_def)
    also have "\<dots> \<longleftrightarrow> (\<exists>k\<in>quant_counts q. i + k \<le> length t \<and> set (take k (drop i t)) \<subseteq> token_set cv (take ?n p)
        \<and> match_here cv (drop (?n + 1) p) t (i + k))"
      by (rule match_quant_counts [OF "1.prems" quant(4)])
    also have "\<dots> \<longleftrightarrow> matches_at cv p t i"
      unfolding matches_at_item [OF it r "1.prems"(3)] using ih by blast
    finally show ?thesis .
  next
    case one
    obtain its e where r: "pattern_items (drop ?n p) = (its, e)"
      by fastforce
    have it: "pattern_items p = ((take ?n p, One) # its, e)"
      using one r by (subst pattern_items.simps) (simp add: Let_def)
    have c: "\<not> (?n < length p \<and> p ! ?n \<in> {CHR ''*'', CHR ''+'', CHR ''?''})"
      using one(3) by (auto simp: quant_of_def split: if_splits)
    have n: "?n \<noteq> 0"
      using token_length_pos [OF one(1)] by simp
    have here: "match_here cv p t i \<longleftrightarrow> i < length t \<and> token_matches cv (take ?n p) (t ! i) \<and> match_here cv (drop ?n p) t (i + 1)"
      by (subst match_here.simps) (simp only: Let_def one(1,2) c n if_False split: if_split, blast)
    have "match_here cv (drop ?n p) t (i + 1) = matches_at cv (drop ?n p) t (i + 1)" if "i < length t" "token_matches cv (take ?n p) (t ! i)"
      using "1.IH"(2) [OF one(1,2) refl n c conjI [OF that]] "1.prems" that by simp
    then show ?thesis
      unfolding here matches_at_item [OF it r "1.prems"(3)]
      by (auto simp: quant_counts_def token_matches_set [OF "1.prems"(1)] take_Suc_conv_app_nth Cons_nth_drop_Suc [symmetric])
  qed
qed

lemma search_loop_least:
  "sorted xs \<Longrightarrow> search_loop f xs = (if {i \<in> set xs. f i} = {} then -1 else int (Min {i \<in> set xs. f i}))"
proof (induction xs)
  case (Cons x xs)
  show ?case
  proof (cases "f x")
    case True
    then have "Min {i \<in> set (x # xs). f i} = x"
      using Cons.prems by (intro Min_eqI) auto
    then show ?thesis
      using True by auto
  next
    case False
    then have "{i \<in> set (x # xs). f i} = {i \<in> set xs. f i}"
      by auto
    then show ?thesis
      using Cons False by simp
  qed
qed simp

text \<open>
  C12: On a text of at most 32767 characters the matcher returns the least position at which a word of
  the pattern's language begins, and -1 when there is none; a pattern that begins with \<open>^\<close> is
  looked for at position 0 only, and one that ends with \<open>$\<close> must reach the end of the text.
  Whether \<open>char\<close> is signed only changes which characters a range holds.
\<close>

theorem regex_match_leftmost:
  assumes "inj cv" and "length t \<le> 32767" and "CHR 0x00 \<notin> set p"
  shows "regex_match cv (Some p) (Some t) =
    (let anchored = (p \<noteq> [] \<and> hd p = CHR ''^''); q = (if anchored then tl p else p);
         found = {i. i \<le> length t \<and> matches_at cv q t i \<and> (anchored \<longrightarrow> i = 0)}
     in if found = {} then -1 else int (Min found))"
proof -
  have p: "takeWhile (\<lambda>c. c \<noteq> CHR 0x00) p = p"
    using assms(3) by (auto simp: takeWhile_eq_all_conv)
  note lang = match_here_language [OF assms(1,2)]
  show ?thesis
  proof (cases "p \<noteq> [] \<and> hd p = CHR ''^''")
    case True
    then have found: "{i. i \<le> length t \<and> matches_at cv (tl p) t i \<and> i = 0} = (if match_here cv (tl p) t 0 then {0} else {})"
      using lang [of 0] by auto
    have "regex_match cv (Some p) (Some t) = (if match_here cv (tl p) t 0 then 0 else -1)"
      using True by (simp only: regex_match_def p Let_def prod.case option.case simp_thms if_True)
    then show ?thesis
      using True by (simp only: Let_def found simp_thms if_True) simp
  next
    case False
    have found: "{i \<in> set [0..<length t + 1]. match_here cv p t i} = {i. i \<le> length t \<and> matches_at cv p t i \<and> (False \<longrightarrow> i = 0)}"
      using lang by auto
    have "regex_match cv (Some p) (Some t) = search_loop (match_here cv p t) [0..<length t + 1]"
      using False by (simp only: regex_match_def p Let_def prod.case option.case if_False)
    also have "\<dots> = (if {i \<in> set [0..<length t + 1]. match_here cv p t i} = {} then -1
        else int (Min {i \<in> set [0..<length t + 1]. match_here cv p t i}))"
      by (rule search_loop_least) (rule sorted_upt)
    finally show ?thesis
      using False by (simp only: Let_def found if_False)
  qed
qed

theorem regex_match_leftmost_witness:
  "regex_match of_char (Some ''b+[^a-c]'') (Some ''abbcbd'') = 4
   \<and> (let found = {i. i \<le> length ''abbcbd'' \<and> matches_at of_char ''b+[^a-c]'' ''abbcbd'' i} in found \<noteq> {} \<and> Min found = 4)"
proof -
  have "inj (of_char :: char \<Rightarrow> int)"
    by (simp add: inj_def)
  moreover have "regex_match of_char (Some ''b+[^a-c]'') (Some ''abbcbd'') = 4"
    by (simp add: regex_match_def upt_rec match_here.simps token_length_def token_matches_def match_quant_def back_off.simps Let_def)
  ultimately show ?thesis
    using regex_match_leftmost [of "of_char" "''abbcbd''" "''b+[^a-c]''"] unfolding Let_def by (simp split: if_splits)
qed

end
