(* ===== verification/Convert.thy ===== *)
theory Convert
  imports PdiPrelude "HOL-Library.Signed_Division"
begin

text \<open>
  Text and numbers (\<^verbatim>\<open>src/src/utility/DataTypeConversions.cpp\<close>). A C string is the list of
  its characters up to the terminator, so reading past its end reads no digit; a buffer a function
  clears and fills is the string it then holds, and \<open>None\<close> stands for a buffer left alone.
  Lengths are numbers below 256. The reading of numbers keeps the width of its result and wraps
  as the source does.
\<close>

section \<open>Reading numbers\<close>

definition is_dec :: "char \<Rightarrow> bool" where
  "is_dec c \<longleftrightarrow> 48 \<le> (of_char c :: nat) \<and> (of_char c :: nat) \<le> 57"

definition dec_val :: "char \<Rightarrow> nat" where
  "dec_val c = of_char c - 48"

definition dec_char :: "nat \<Rightarrow> char" where
  "dec_char k = char_of (48 + k)"

text \<open>Passing over leading characters, and the digits, both within the length that is left.\<close>

fun skip_chars :: "char set \<Rightarrow> nat \<Rightarrow> string \<Rightarrow> nat \<times> string" where
  "skip_chars C n [] = (n, [])"
| "skip_chars C n (c # s) = (if c \<in> C \<and> 0 < n then skip_chars C (n - 1) s else (n, c # s))"

fun read_digits :: "nat \<Rightarrow> 'a::len word \<Rightarrow> string \<Rightarrow> 'a word" where
  "read_digits n v [] = v"
| "read_digits n v (c # s) = (if is_dec c \<and> 0 < n then read_digits (n - 1) (v * 10 + of_nat (dec_val c)) s else v)"

definition string_to_word :: "string option \<Rightarrow> nat \<Rightarrow> 'a::len word" where
  "string_to_word pString len =
     (case pString of None \<Rightarrow> 0 | Some s \<Rightarrow> (case skip_chars {CHR ''0'', CHR '' '', CHR 0x22} len s of (n, s) \<Rightarrow> read_digits n 0 s))"

definition StringToUint64 :: "string option \<Rightarrow> nat \<Rightarrow> u64" where "StringToUint64 = string_to_word"
definition StringToUint32 :: "string option \<Rightarrow> nat \<Rightarrow> u32" where "StringToUint32 = string_to_word"
definition StringToUint16 :: "string option \<Rightarrow> nat \<Rightarrow> u16" where "StringToUint16 = string_to_word"
definition StringToUint8 :: "string option \<Rightarrow> nat \<Rightarrow> u8" where "StringToUint8 = string_to_word"

fun read_octal :: "nat \<Rightarrow> u16 \<Rightarrow> string \<Rightarrow> u16" where
  "read_octal n v [] = v"
| "read_octal n v (c # s) =
     (if 0 < n \<and> 48 \<le> (of_char c :: nat) \<and> (of_char c :: nat) \<le> 55 then read_octal (n - 1) (push_bit 3 v OR of_nat (dec_val c)) s else v)"

definition StringToOctalUint16 :: "string option \<Rightarrow> nat \<Rightarrow> u16" where
  "StringToOctalUint16 pString len =
     (case pString of None \<Rightarrow> 0 | Some s \<Rightarrow> (case skip_chars {CHR '' '', CHR 0x22} len s of (n, s) \<Rightarrow> read_octal n 0 s))"

text \<open>Signed overflow, which the language leaves open, wraps here.\<close>

definition StringToInt32 :: "string option \<Rightarrow> nat \<Rightarrow> int" where
  "StringToInt32 pString len =
     (case pString of
        None \<Rightarrow> 0
      | Some s \<Rightarrow>
          case skip_chars {CHR '' '', CHR 0x22} len s of
            (n, s) \<Rightarrow>
              let sign = (0 < n \<and> s \<noteq> [] \<and> hd s \<in> {CHR ''-'', CHR ''+''});
                  value = (if sign then read_digits (n - 1) 0 (tl s) else read_digits n 0 s) :: u32
              in if sign \<and> hd s = CHR ''-'' then sint (- value) else sint value)"

definition hex_val :: "char \<Rightarrow> nat option" where
  "hex_val c = (let n = of_char c :: nat in
     if 48 \<le> n \<and> n \<le> 57 then Some (n - 48)
     else if 97 \<le> n \<and> n \<le> 102 then Some (10 + (n - 97))
     else if 65 \<le> n \<and> n \<le> 70 then Some (10 + (n - 65))
     else None)"

fun read_hex :: "u16 \<Rightarrow> u16 \<Rightarrow> string \<Rightarrow> u16" where
  "read_hex v weight [] = v"
| "read_hex v weight (c # s) = (case hex_val c of None \<Rightarrow> v | Some d \<Rightarrow> read_hex (v + weight * of_nat d) (weight div 16) s)"

definition StringToHex16 :: "string option \<Rightarrow> nat \<Rightarrow> u16" where
  "StringToHex16 pString len =
     (case pString of None \<Rightarrow> 0 | Some s \<Rightarrow> read_hex 0 (16 ^ (len - 1)) (dropWhile (\<lambda>c. c \<in> {CHR '' '', CHR 0x22}) s))"

definition BcdToUint8 :: "u8 \<Rightarrow> u8" where "BcdToUint8 val = val - 6 * drop_bit 4 val"
definition Uint8ToBcd :: "u8 \<Rightarrow> u8" where "Uint8ToBcd val = val + 6 * (val div 10)"

section \<open>Writing numbers\<close>

text \<open>Digits are put before those already there, while there is room in front.\<close>

fun digits_loop :: "nat \<Rightarrow> nat \<Rightarrow> string \<Rightarrow> string" where
  "digits_loop 0 u tmp = tmp"
| "digits_loop (Suc room) u tmp = (if u > 0 then digits_loop room (u div 10) (dec_char (u mod 10) # tmp) else tmp)"

definition dec_digits :: "nat \<Rightarrow> nat \<Rightarrow> string" where
  "dec_digits room u = (if u = 0 then ''0'' else digits_loop room u [])"

text \<open>What a cleared buffer of \<open>maxlen\<close> holds after the text has been copied and padded.\<close>

definition fit_padded :: "string \<Rightarrow> nat \<Rightarrow> nat \<Rightarrow> string option" where
  "fit_padded tmp maxlen padmax =
     (if maxlen = 0 then None
      else let len = min (length tmp) (maxlen - 1)
           in Some (take len tmp @ replicate (min padmax (maxlen - 1) - len) (CHR '' '')))"

definition Int32ToString :: "int \<Rightarrow> nat \<Rightarrow> nat \<Rightarrow> string option" where
  "Int32ToString val maxlen padmax =
     (let tmp = dec_digits 12 (nat \<bar>val\<bar>) in fit_padded (if val < 0 \<and> length tmp < 12 then CHR ''-'' # tmp else tmp) maxlen padmax)"

definition Int64ToString :: "int \<Rightarrow> nat \<Rightarrow> nat \<Rightarrow> string option" where
  "Int64ToString val maxlen padmax =
     (let tmp = dec_digits 21 (nat \<bar>val\<bar>) in fit_padded (if val < 0 \<and> length tmp < 21 then CHR ''-'' # tmp else tmp) maxlen padmax)"

definition Uint32ToString :: "u32 \<Rightarrow> nat \<Rightarrow> nat \<Rightarrow> string option" where
  "Uint32ToString val maxlen padmax = fit_padded (dec_digits 11 (unat val)) maxlen padmax"

definition Uint64ToString :: "u64 \<Rightarrow> nat \<Rightarrow> nat \<Rightarrow> string option" where
  "Uint64ToString val maxlen padmax = fit_padded (dec_digits 21 (unat val)) maxlen padmax"

definition MicrosToTimeString :: "u64 \<Rightarrow> nat \<Rightarrow> nat \<Rightarrow> string option" where
  "MicrosToTimeString val maxlen fraclen =
     (if maxlen = 0 then None
      else
        let fraclen = min fraclen 6;
            secs = dec_digits 21 (unat val div 1000000);
            frac = unat val mod 1000000;
            text = take (maxlen - 1) secs
        in if fraclen = 0 then Some text
           else
             let text = (if length text < maxlen - 1 then text @ ''.'' else text)
             in Some (text @ take (maxlen - 1 - length text) (map (\<lambda>d. dec_char (frac div 10 ^ (5 - d) mod 10)) [0..<fraclen])))"

definition hex_char :: "bool \<Rightarrow> nat \<Rightarrow> char" where
  "hex_char cap n = (if n < 10 then char_of (48 + n) else char_of ((if cap then 65 else 97) + (n - 10)))"

fun hex_loop :: "bool \<Rightarrow> nat \<Rightarrow> nat \<Rightarrow> string \<Rightarrow> string" where
  "hex_loop cap 0 u tmp = tmp"
| "hex_loop cap (Suc room) u tmp = (if u > 0 then hex_loop cap room (u div 16) (hex_char cap (u mod 16) # tmp) else tmp)"

definition Uint32ToHexString :: "u32 \<Rightarrow> nat \<Rightarrow> bool \<Rightarrow> string option" where
  "Uint32ToHexString val maxlen cap = fit_padded (if val = 0 then ''0'' else hex_loop cap 9 (unat val) []) maxlen 0"

definition hex_pair :: "bool \<Rightarrow> u8 \<Rightarrow> string" where
  "hex_pair cap b = [hex_char cap (unat (drop_bit 4 b AND 0x0F)), hex_char cap (unat (b AND 0x0F))]"

definition BytesToHexString :: "u8 list option \<Rightarrow> string option" where
  "BytesToHexString bytes = map_option (\<lambda>bs. concat (map (hex_pair False) bs)) bytes"

fun mac_loop :: "char \<Rightarrow> bool \<Rightarrow> bool \<Rightarrow> u8 list \<Rightarrow> string" where
  "mac_loop separator cap later [] = []"
| "mac_loop separator cap later (b # bs) =
     (if separator \<noteq> CHR 0x00 \<and> later then [separator] else []) @ hex_pair cap b @ mac_loop separator cap True bs"

definition BytesToMacString :: "u8 list option \<Rightarrow> char \<Rightarrow> bool \<Rightarrow> string" where
  "BytesToMacString bytes separator cap = (case bytes of None \<Rightarrow> [] | Some bs \<Rightarrow> mac_loop separator cap False bs)"

definition FilePermsToString :: "u16 \<Rightarrow> bool \<Rightarrow> string" where
  "FilePermsToString perms isdir =
     (if isdir then CHR ''d'' else CHR ''-'') # map (\<lambda>b. if bit perms (8 - b) then ''rwx'' ! (b mod 3) else CHR ''-'') [0..<9]"

text \<open>\<open>None\<close> for a character that is no hex digit; past the end of the text there is none.\<close>

fun HexStringToBytes :: "string \<Rightarrow> nat \<Rightarrow> u8 list option" where
  "HexStringToBytes hex 0 = Some []"
| "HexStringToBytes (a # b # hex) (Suc n) =
     (case (hex_val a, hex_val b) of
        (Some hi, Some lo) \<Rightarrow> map_option (Cons (push_bit 4 (of_nat hi) OR of_nat lo)) (HexStringToBytes hex n)
      | _ \<Rightarrow> None)"
| "HexStringToBytes hex (Suc n) = None"

section \<open>Dates\<close>

record datetime_t =
  m_valid :: bool
  m_epoch :: int
  m_year :: u16
  m_month :: u8
  m_day :: u8
  m_hour :: u8
  m_minute :: u8
  m_second :: u8
  m_weekday :: u8

text \<open>The arithmetic stays below \<open>2 ^ 31\<close> for every epoch, so it is done in numbers.\<close>

definition era_year :: "nat \<Rightarrow> nat" where
  "era_year doe = (doe - doe div 1460 + doe div 36524 - doe div 146096) div 365"

definition civil :: "nat \<Rightarrow> nat \<times> nat \<times> nat" where
  "civil z =
     (let era = z div 146097; doe = z - era * 146097; yoe = era_year doe; y = yoe + era * 400;
          doy = doe - (365 * yoe + yoe div 4 - yoe div 100); mp = (5 * doy + 2) div 153; d = doy - (153 * mp + 2) div 5 + 1;
          m = (if mp < 10 then mp + 3 else mp - 9)
      in (if m \<le> 2 then y + 1 else y, m, d))"

definition EpochToDateTime :: "u32 \<Rightarrow> datetime_t \<Rightarrow> datetime_t" where
  "EpochToDateTime epoch out =
     (let sec_of_day = unat epoch mod 86400; days = unat epoch div 86400 in
      case civil (days + 719468) of
        (y, m, d) \<Rightarrow>
          out\<lparr>m_hour := of_nat (sec_of_day div 3600), m_minute := of_nat (sec_of_day mod 3600 div 60), m_second := of_nat (sec_of_day mod 60),
              m_weekday := of_nat ((days + 4) mod 7), m_year := of_nat y, m_month := of_nat m, m_day := of_nat d\<rparr>)"

definition month_abbr :: "string list" where
  "month_abbr = [''   '', ''Jan'', ''Feb'', ''Mar'', ''Apr'', ''May'', ''Jun'', ''Jul'', ''Aug'', ''Sep'', ''Oct'', ''Nov'', ''Dec'']"

fun EpochFmtWidth :: "string \<Rightarrow> u8" where
  "EpochFmtWidth [] = 0"
| "EpochFmtWidth [c] = 1"
| "EpochFmtWidth (p # c # fmt) =
     (if p = CHR ''%''
      then (if c = CHR ''Y'' then 4 else if c = CHR ''b'' then 3 else if c = CHR ''%'' then 1 else 2) + EpochFmtWidth fmt
      else 1 + EpochFmtWidth (c # fmt))"

definition two_digits :: "nat \<Rightarrow> string" where
  "two_digits n = [dec_char (n div 10), dec_char (n mod 10)]"

definition fmt_field :: "datetime_t \<Rightarrow> char \<Rightarrow> string option" where
  "fmt_field t c =
     (let yr = unat (m_year t); m = unat (m_month t) in
      if c = CHR ''Y'' then Some [dec_char (yr div 1000 mod 10), dec_char (yr div 100 mod 10), dec_char (yr div 10 mod 10), dec_char (yr mod 10)]
      else if c = CHR ''y'' then Some [dec_char (yr div 10 mod 10), dec_char (yr mod 10)]
      else if c = CHR ''m'' then Some (two_digits m)
      else if c = CHR ''b'' then Some (month_abbr ! (if 1 \<le> m \<and> m \<le> 12 then m else 0))
      else if c = CHR ''d'' then Some (two_digits (unat (m_day t)))
      else if c = CHR ''H'' then Some (two_digits (unat (m_hour t)))
      else if c = CHR ''M'' then Some (two_digits (unat (m_minute t)))
      else if c = CHR ''S'' then Some (two_digits (unat (m_second t)))
      else if c = CHR ''%'' then Some ''%''
      else None)"

fun fmt_loop :: "datetime_t \<Rightarrow> nat \<Rightarrow> string \<Rightarrow> string \<Rightarrow> string" where
  "fmt_loop t maxlen out [] = out"
| "fmt_loop t maxlen out [c] = (if (length out + 1) mod 256 < maxlen then out @ [c] else out)"
| "fmt_loop t maxlen out (p # c # fmt) =
     (if (length out + 1) mod 256 < maxlen
      then
        if p = CHR ''%''
        then (case fmt_field t c of
                Some f \<Rightarrow> fmt_loop t maxlen (out @ f) fmt
              | None \<Rightarrow> fmt_loop t maxlen (if (length out + 2) mod 256 < maxlen then out @ [CHR ''%'', c] else out @ ''%'') fmt)
        else fmt_loop t maxlen (out @ [p]) (c # fmt)
      else out)"

definition datetime_new :: datetime_t where
  "datetime_new = \<lparr>m_valid = False, m_epoch = 0, m_year = 0, m_month = 0, m_day = 0, m_hour = 0, m_minute = 0, m_second = 0, m_weekday = 0\<rparr>"

definition EpochToDateTimeString :: "u32 \<Rightarrow> nat \<Rightarrow> string option \<Rightarrow> string option" where
  "EpochToDateTimeString epoch maxlen fmt =
     (if maxlen = 0 then None
      else
        let fmt = (case fmt of None \<Rightarrow> ''%Y-%m-%d %H:%M:%S'' | Some f \<Rightarrow> f);
            width = unat (EpochFmtWidth fmt)
        in if epoch = 0 then
             let n = min (maxlen - 1) width in Some (if n > 0 then CHR ''-'' # replicate (n - 1) (CHR '' '') else [])
           else if maxlen \<le> width then Some []
           else Some (fmt_loop (EpochToDateTime epoch datetime_new) maxlen [] fmt))"

section \<open>Counting digits, ranges and names\<close>

definition Int32DigitCount :: "int \<Rightarrow> nat" where
  "Int32DigitCount x =
     (if x = - (2 ^ 31) then 10 + 1
      else
        let sign = (if x < 0 then 1 else 0); x = \<bar>x\<bar> in
        sign +
        (if x \<ge> 10000 then
           (if x \<ge> 10000000 then (if x \<ge> 100000000 then (if x \<ge> 1000000000 then 10 else 9) else 8)
            else if x \<ge> 100000 then (if x \<ge> 1000000 then 7 else 6)
            else 5)
         else if x \<ge> 100 then (if x \<ge> 1000 then 4 else 3)
         else if x \<ge> 10 then 2
         else 1))"

definition Int64DigitCount :: "int \<Rightarrow> nat" where
  "Int64DigitCount x =
     (if x = - (2 ^ 63) then 19 + 1
      else
        let sign = (if x < 0 then 1 else 0); x = \<bar>x\<bar> in
        sign +
        (if x \<ge> 10000000000 then
           (if x \<ge> 100000000000000 then
              (if x \<ge> 10000000000000000 then
                 (if x \<ge> 100000000000000000 then (if x \<ge> 1000000000000000000 then 19 else 18) else 17)
               else if x \<ge> 1000000000000000 then 16
               else 15)
            else if x \<ge> 1000000000000 then (if x \<ge> 10000000000000 then 14 else 13)
            else if x \<ge> 100000000000 then 12
            else 11)
         else if x \<ge> 100000 then
           (if x \<ge> 10000000 then (if x \<ge> 100000000 then (if x \<ge> 1000000000 then 10 else 9) else 8)
            else if x \<ge> 1000000 then 7
            else 6)
         else if x \<ge> 100 then (if x \<ge> 1000 then (if x \<ge> 10000 then 5 else 4) else 3)
         else if x \<ge> 10 then 2
         else 1))"

definition wrap32 :: "int \<Rightarrow> int" where
  "wrap32 x = sint (of_int x :: u32)"

text \<open>The differences are taken in 32 bits before they are widened.\<close>

definition MapRange :: "int \<Rightarrow> int \<Rightarrow> int \<Rightarrow> int \<Rightarrow> int \<Rightarrow> int" where
  "MapRange value fromlow fromhigh tolow tohigh =
     (if fromhigh = fromlow then tolow
      else let span = wrap32 (value - fromlow) * wrap32 (tohigh - tolow)
           in wrap32 (wrap32 (span sdiv wrap32 (fromhigh - fromlow)) + tolow))"

datatype vfs_type_t = VFS_TYPE_UNKNOWN | VFS_TYPE_LITTLEFS | VFS_TYPE_SPIFFS | VFS_TYPE_SD | VFS_TYPE_TMPFS | VFS_TYPE_PROCFS
  | VFS_TYPE_SYSFS | VFS_TYPE_DEVFS | VFS_TYPE_MAX

definition VfsTypeToString :: "vfs_type_t \<Rightarrow> string" where
  "VfsTypeToString type =
     (case type of
        VFS_TYPE_LITTLEFS \<Rightarrow> ''littlefs'' | VFS_TYPE_SPIFFS \<Rightarrow> ''spiffs'' | VFS_TYPE_SD \<Rightarrow> ''sd'' | VFS_TYPE_TMPFS \<Rightarrow> ''tmpfs''
      | VFS_TYPE_PROCFS \<Rightarrow> ''procfs'' | VFS_TYPE_SYSFS \<Rightarrow> ''sysfs'' | VFS_TYPE_DEVFS \<Rightarrow> ''devfs'' | _ \<Rightarrow> ''unknown'')"

end
