(* ===== verification/ConvertProps.thy ===== *)
theory ConvertProps
  imports Convert
begin

text \<open>
  What is written is read back: decimal numbers of either sign and width through any buffer long
  enough, with or without padding, and bytes through their hex digits. The digit counts are the
  lengths of what is written.
\<close>

section \<open>Decimal digits\<close>

fun dec :: "nat \<Rightarrow> string" where
  "dec u = (if u = 0 then [] else dec (u div 10) @ [dec_char (u mod 10)])"

declare dec.simps [simp del]

lemma of_char_dec: "k < 10 \<Longrightarrow> (of_char (dec_char k) :: nat) = 48 + k"
  by (simp add: dec_char_def)

lemma dec_char_digit [simp]: "k < 10 \<Longrightarrow> is_dec (dec_char k)" "k < 10 \<Longrightarrow> dec_val (dec_char k) = k"
  by (simp_all add: is_dec_def dec_val_def of_char_dec)

lemma dec_0 [simp]: "dec 0 = []"
  by (subst dec.simps) simp

lemma digits_loop_dec: "u < 10 ^ room \<Longrightarrow> digits_loop room u tmp = dec u @ tmp"
proof (induction room arbitrary: u tmp)
  case (Suc room)
  show ?case
  proof (cases "u = 0")
    case False
    have "u div 10 < 10 ^ room"
      using Suc.prems by (simp add: less_mult_imp_div_less mult.commute)
    then show ?thesis
      using Suc.IH False by (simp add: dec.simps [of u])
  qed simp
qed simp

lemma dec_length: "u < 10 ^ k \<Longrightarrow> length (dec u) \<le> k" "10 ^ k \<le> u \<Longrightarrow> k < length (dec u)"
proof -
  show "u < 10 ^ k \<Longrightarrow> length (dec u) \<le> k"
  proof (induction k arbitrary: u)
    case (Suc k)
    then have "u div 10 < 10 ^ k"
      by (simp add: less_mult_imp_div_less mult.commute)
    then show ?case
      using Suc.IH [of "u div 10"] by (subst dec.simps) simp
  qed simp
  show "10 ^ k \<le> u \<Longrightarrow> k < length (dec u)"
  proof (induction k arbitrary: u)
    case 0
    then show ?case
      by (subst dec.simps) simp
  next
    case (Suc k)
    have "0 < (10 :: nat) ^ Suc k"
      by (rule zero_less_power) simp
    then have "u \<noteq> 0"
      using Suc.prems by linarith
    moreover have "10 ^ k \<le> u div 10"
      using Suc.prems by (simp add: less_eq_div_iff_mult_less_eq mult.commute)
    ultimately show ?case
      using Suc.IH [of "u div 10"] by (subst dec.simps) simp
  qed
qed

lemma dec_digits_eq: "u < 10 ^ room \<Longrightarrow> dec_digits room u = (if u = 0 then ''0'' else dec u)"
  by (simp add: dec_digits_def digits_loop_dec)

lemma dec_first:
  assumes "u \<noteq> 0"
  obtains k s where "dec u = dec_char k # s" "0 < k" "k < 10"
proof -
  have "\<exists>k s. dec u = dec_char k # s \<and> 0 < k \<and> k < 10"
    using assms
  proof (induction u rule: dec.induct)
    case (1 u)
    show ?case
    proof (cases "u div 10 = 0")
      case True
      then show ?thesis
        using 1(2) by (subst dec.simps) (auto simp: div_eq_0_iff)
    next
      case False
      then show ?thesis
        using 1 by (subst dec.simps) auto
    qed
  qed
  then show thesis
    using that by blast
qed

lemma read_digits_dec:
  "length (dec u) \<le> n \<Longrightarrow> read_digits n v (dec u @ s) = read_digits (n - length (dec u)) (v * 10 ^ length (dec u) + of_nat u) s"
proof (induction u arbitrary: s n rule: dec.induct)
  case (1 u)
  show ?case
  proof (cases "u = 0")
    case False
    let ?q = "u div 10"
    have len: "length (dec u) = Suc (length (dec ?q))" "dec u = dec ?q @ [dec_char (u mod 10)]"
      using False by (simp_all add: dec.simps [of u])
    have "(of_nat u :: 'a word) = of_nat ?q * 10 + of_nat (u mod 10)"
      by (metis div_mult_mod_eq of_nat_add of_nat_mult of_nat_numeral)
    then show ?thesis
      using 1 False len by (simp add: algebra_simps)
  qed simp
qed

abbreviation blanks :: "nat \<Rightarrow> string" where
  "blanks m \<equiv> replicate m (CHR '' '')"

lemma read_digits_blanks [simp]: "read_digits n v (blanks m) = v"
  by (cases m) (simp_all add: is_dec_def)

lemma skip_blanks: "\<exists>n' m'. skip_chars C n (blanks m) = (n', blanks m')"
proof (induction m arbitrary: n)
  case 0
  have "skip_chars C n (blanks 0) = (n, blanks 0)"
    by simp
  then show ?case
    by blast
next
  case (Suc m)
  have "skip_chars C n (blanks (Suc m)) = (if CHR '' '' \<in> C \<and> 0 < n then skip_chars C (n - 1) (blanks m) else (n, blanks (Suc m)))"
    by simp
  then show ?case
    using Suc.IH [of "n - 1"] by (auto simp del: replicate_Suc)
qed

lemma not_zero_digit: "0 < k \<Longrightarrow> k < 10 \<Longrightarrow> dec_char k \<notin> {CHR ''0'', CHR '' '', CHR 0x22}"
  by (auto simp: dec_char_def dest: arg_cong [where f = "of_char :: char \<Rightarrow> nat"])

lemma not_sign_digit: "k < 10 \<Longrightarrow> dec_char k \<notin> {CHR ''-'', CHR ''+'', CHR '' '', CHR 0x22}"
  by (auto simp: dec_char_def dest: arg_cong [where f = "of_char :: char \<Rightarrow> nat"])

text \<open>The text of a number, with blanks after it, is read as the number.\<close>

definition dec_text :: "nat \<Rightarrow> string" where
  "dec_text u = (if u = 0 then ''0'' else dec u)"

lemma string_to_word_dec:
  assumes "length (dec_text u) \<le> len"
  shows "string_to_word (Some (dec_text u @ blanks m)) len = of_nat u"
proof (cases "u = 0")
  case True
  obtain n' m' where "skip_chars {CHR ''0'', CHR '' '', CHR 0x22} (len - 1) (blanks m) = (n', blanks m')"
    using skip_blanks by blast
  then show ?thesis
    using True assms by (simp add: string_to_word_def dec_text_def)
next
  case False
  then obtain k r where k: "dec u = dec_char k # r" "0 < k" "k < 10"
    by (rule dec_first)
  then have "skip_chars {CHR ''0'', CHR '' '', CHR 0x22} len (dec u @ blanks m) = (len, dec u @ blanks m)"
    using not_zero_digit [of k] by auto
  then show ?thesis
    using False assms by (simp add: string_to_word_def dec_text_def read_digits_dec)
qed

lemma read_text: "length (dec_text u) \<le> n \<Longrightarrow> read_digits n 0 (dec_text u @ blanks m) = of_nat u"
  by (cases "u = 0") (simp_all add: dec_text_def read_digits_dec is_dec_def dec_val_def)

lemma dec_text_first:
  obtains k s where "dec_text u = dec_char k # s" "k < 10"
proof (cases "u = 0")
  case True
  moreover have "dec_char 0 = CHR ''0''"
    by code_simp
  ultimately have "dec_text u = dec_char 0 # []"
    by (simp add: dec_text_def)
  then show ?thesis
    by (rule that) simp
next
  case False
  then show ?thesis
    using dec_first [OF False] that by (metis dec_text_def)
qed

lemma dec_text_length: "u < 10 ^ k \<Longrightarrow> 0 < k \<Longrightarrow> length (dec_text u) \<le> k"
  using dec_length(1) by (simp add: dec_text_def)

lemma fit_padded_whole: "length tmp < maxlen \<Longrightarrow> \<exists>m. fit_padded tmp maxlen padmax = Some (tmp @ blanks m)"
  by (auto simp: fit_padded_def Let_def)

lemma StringToInt32_text:
  assumes "length (dec_text u) < len"
  shows "StringToInt32 (Some (dec_text u @ blanks m)) len = sint (of_nat u :: u32)"
    "StringToInt32 (Some (CHR ''-'' # dec_text u @ blanks m)) len = sint (- of_nat u :: u32)"
proof -
  obtain k r where k: "dec_text u = dec_char k # r" "k < 10"
    by (rule dec_text_first)
  have first: "dec_char k \<notin> {CHR ''-'', CHR ''+'', CHR '' '', CHR 0x22}"
    by (rule not_sign_digit [OF k(2)])
  have skip: "skip_chars {CHR '' '', CHR 0x22} len (dec_text u @ blanks m) = (len, dec_text u @ blanks m)"
    "skip_chars {CHR '' '', CHR 0x22} len (CHR ''-'' # dec_text u @ blanks m) = (len, CHR ''-'' # dec_text u @ blanks m)"
    using first k(1) by auto
  have hd: "hd (dec_text u @ blanks m) \<notin> {CHR ''-'', CHR ''+''}" "0 < len"
    using first k(1) assms by auto
  have rd: "read_digits n (0 :: u32) (dec_text u @ blanks m) = of_nat u" if "length (dec_text u) \<le> n" for n
    using that by (rule read_text)
  show "StringToInt32 (Some (dec_text u @ blanks m)) len = sint (of_nat u :: u32)"
    using hd assms rd [of len] by (simp only: StringToInt32_def option.case skip prod.case Let_def) simp
  show "StringToInt32 (Some (CHR ''-'' # dec_text u @ blanks m)) len = sint (- of_nat u :: u32)"
    using hd(2) assms rd [of "len - 1"] by (simp only: StringToInt32_def option.case skip prod.case Let_def) simp
qed

lemma unat_less_words: "unat (v :: u32) < 4294967296" "unat (w :: u64) < 18446744073709551616"
  using unsigned_less [of v] unsigned_less [of w] by simp_all

lemma sint_word32: "- (2 ^ 31) \<le> x \<Longrightarrow> x < 2 ^ 31 \<Longrightarrow> sint (of_int x :: u32) = x"
  by (simp add: signed_of_int signed_take_bit_int_eq_self)

lemma Uint32_roundtrip:
  assumes "11 \<le> maxlen" "10 \<le> len"
  shows "StringToUint32 (Uint32ToString v maxlen padmax) len = v"
proof -
  have v: "unat v < 10 ^ 10"
    using unat_less_words(1) [of v] by simp
  obtain m where "Uint32ToString v maxlen padmax = Some (dec_text (unat v) @ blanks m)"
    using fit_padded_whole [of "dec_text (unat v)" maxlen padmax] dec_text_length [OF v] v assms(1)
    by (auto simp: Uint32ToString_def dec_digits_eq dec_text_def)
  then show ?thesis
    using string_to_word_dec [of "unat v" len m, where ?'a = 32] dec_text_length [OF v] assms(2) by (simp add: StringToUint32_def)
qed

lemma Uint64_roundtrip:
  assumes "21 \<le> maxlen" "20 \<le> len"
  shows "StringToUint64 (Uint64ToString w maxlen padmax) len = w"
proof -
  have w: "unat w < 10 ^ 20"
    using unat_less_words(2) [of w] by simp
  obtain m where "Uint64ToString w maxlen padmax = Some (dec_text (unat w) @ blanks m)"
    using fit_padded_whole [of "dec_text (unat w)" maxlen padmax] dec_text_length [OF w] w assms(1)
    by (auto simp: Uint64ToString_def dec_digits_eq dec_text_def)
  then show ?thesis
    using string_to_word_dec [of "unat w" len m, where ?'a = 64] dec_text_length [OF w] assms(2) by (simp add: StringToUint64_def)
qed

text \<open>The text of a signed number.\<close>

definition signed_text :: "int \<Rightarrow> string" where
  "signed_text x = (if x < 0 then CHR ''-'' # dec_text (nat \<bar>x\<bar>) else dec_text (nat \<bar>x\<bar>))"

lemma signed_text_length: "length (signed_text x) \<le> Suc (length (dec_text (nat \<bar>x\<bar>)))"
  unfolding signed_text_def by simp

lemma Int32ToString_text:
  assumes "\<bar>x\<bar> \<le> 2 ^ 31"
  shows "Int32ToString x maxlen padmax = fit_padded (signed_text x) maxlen padmax" "length (dec_text (nat \<bar>x\<bar>)) \<le> 10"
proof -
  define u where "u = nat \<bar>x\<bar>"
  have st: "signed_text x = (if x < 0 then CHR ''-'' # dec_text u else dec_text u)"
    unfolding signed_text_def u_def by (rule refl)
  have u: "u < 10 ^ 10"
    using assms by (simp add: u_def)
  then have "dec_digits 12 u = dec_text u"
    by (simp add: dec_digits_eq dec_text_def)
  moreover show "length (dec_text u) \<le> 10"
    using dec_text_length [OF u] by simp
  ultimately show "Int32ToString x maxlen padmax = fit_padded (signed_text x) maxlen padmax"
    by (simp add: Int32ToString_def u_def [symmetric] st)
qed

lemma Int32_roundtrip:
  assumes "12 \<le> maxlen" "12 \<le> len" "- (2 ^ 31) \<le> x" "x < 2 ^ 31"
  shows "StringToInt32 (Int32ToString x maxlen padmax) len = x"
proof -
  define u where "u = nat \<bar>x\<bar>"
  have st: "signed_text x = (if x < 0 then CHR ''-'' # dec_text u else dec_text u)"
    unfolding signed_text_def u_def by (rule refl)
  have x: "\<bar>x\<bar> \<le> 2 ^ 31"
    using assms(3,4) by simp
  have len: "length (dec_text u) \<le> 10"
    using Int32ToString_text(2) [OF x] by (simp add: u_def)
  then have "length (signed_text x) < maxlen"
    using assms(1) by (simp add: st)
  then obtain m where "Int32ToString x maxlen padmax = Some (signed_text x @ blanks m)"
    using fit_padded_whole Int32ToString_text(1) [OF x] by metis
  moreover have "sint (of_int x :: u32) = x"
    using assms(3,4) by (simp add: sint_word32)
  moreover have "(if x < 0 then - of_nat u else of_nat u) = (of_int x :: u32)"
    by (simp add: u_def)
  ultimately show ?thesis
    using StringToInt32_text [of u len m] len assms(2) by (cases "x < 0") (simp_all add: st)
qed



section \<open>Digit counts\<close>

lemma dec_text_count: "10 ^ k \<le> u \<Longrightarrow> u < 10 ^ Suc k \<Longrightarrow> length (dec_text u) = Suc k" "u < 10 \<Longrightarrow> length (dec_text u) = 1"
proof -
  show "10 ^ k \<le> u \<Longrightarrow> u < 10 ^ Suc k \<Longrightarrow> length (dec_text u) = Suc k"
    using dec_length(1) [of u "Suc k"] dec_length(2) [of k u] by (cases "u = 0") (simp_all add: dec_text_def)
  show "u < 10 \<Longrightarrow> length (dec_text u) = 1"
    by (simp add: dec_text_def dec.simps [of u])
qed

lemmas digit_steps = dec_text_count(1) [of 1, simplified] dec_text_count(1) [of 2, simplified] dec_text_count(1) [of 3, simplified]
  dec_text_count(1) [of 4, simplified] dec_text_count(1) [of 5, simplified] dec_text_count(1) [of 6, simplified]
  dec_text_count(1) [of 7, simplified] dec_text_count(1) [of 8, simplified] dec_text_count(1) [of 9, simplified]

lemmas digit_steps64 = digit_steps dec_text_count(1) [of 10, simplified] dec_text_count(1) [of 11, simplified]
  dec_text_count(1) [of 12, simplified] dec_text_count(1) [of 13, simplified] dec_text_count(1) [of 14, simplified]
  dec_text_count(1) [of 15, simplified] dec_text_count(1) [of 16, simplified] dec_text_count(1) [of 17, simplified]
  dec_text_count(1) [of 18, simplified]

lemma Int32DigitCount_text:
  assumes "- (2 ^ 31) \<le> x" "x < 2 ^ 31"
  shows "Int32DigitCount x = length (signed_text x)"
proof -
  define u where "u = nat \<bar>x\<bar>"
  have u: "\<bar>x\<bar> = int u" "u \<le> 2147483648"
    using assms by (simp_all add: u_def)
  have st: "length (signed_text x) = (if x < 0 then 1 else 0) + length (dec_text u)"
    unfolding signed_text_def u_def by simp
  show ?thesis
    using u(2) unfolding st Int32DigitCount_def Let_def u(1)
    by (auto simp: digit_steps dec_text_count(2) u_def not_le)
qed

lemma Int64DigitCount_text:
  assumes "- (2 ^ 63) \<le> x" "x < 2 ^ 63"
  shows "Int64DigitCount x = length (signed_text x)"
proof -
  define u where "u = nat \<bar>x\<bar>"
  have u: "\<bar>x\<bar> = int u" "u \<le> 9223372036854775808"
    using assms by (simp_all add: u_def)
  have st: "length (signed_text x) = (if x < 0 then 1 else 0) + length (dec_text u)"
    unfolding signed_text_def u_def by simp
  show ?thesis
    using u(2) unfolding st Int64DigitCount_def Let_def u(1)
    by (cases "u < 10000000000") (simp_all add: digit_steps64 dec_text_count(2) not_le, auto simp: u_def)
qed

lemma Int64ToString_text:
  assumes "\<bar>x\<bar> \<le> 2 ^ 63"
  shows "Int64ToString x maxlen padmax = fit_padded (signed_text x) maxlen padmax" "length (dec_text (nat \<bar>x\<bar>)) \<le> 19"
proof -
  define u where "u = nat \<bar>x\<bar>"
  have st: "signed_text x = (if x < 0 then CHR ''-'' # dec_text u else dec_text u)"
    unfolding signed_text_def u_def by (rule refl)
  have u: "u < 10 ^ 19"
    using assms by (simp add: u_def)
  then have "dec_digits 21 u = dec_text u"
    by (simp add: dec_digits_eq dec_text_def)
  moreover show "length (dec_text u) \<le> 19"
    using dec_text_length [OF u] by simp
  ultimately show "Int64ToString x maxlen padmax = fit_padded (signed_text x) maxlen padmax"
    by (simp add: Int64ToString_def u_def [symmetric] st)
qed

text \<open>
  The digit count of a signed number, found by a tree of comparisons, is the length of the text the
  number is written as, sign included, for every 32-bit and every 64-bit value.
\<close>

lemma digit_counts:
  assumes "- (2 ^ 31) \<le> x" "x < 2 ^ 31" "- (2 ^ 63) \<le> y" "y < 2 ^ 63"
  shows "map_option length (Int32ToString x 12 0) = Some (Int32DigitCount x) \<and> map_option length (Int64ToString y 21 0) = Some (Int64DigitCount y)"
proof -
  have "\<bar>x\<bar> \<le> 2 ^ 31" "\<bar>y\<bar> \<le> 2 ^ 63"
    using assms by auto
  note x = Int32ToString_text [OF this(1)] and y = Int64ToString_text [OF this(2)]
  have "length (signed_text x) < 12" "length (signed_text y) < 21"
    using x(2) y(2) signed_text_length [of x] signed_text_length [of y] by simp_all
  then show ?thesis
    using assms by (simp add: x(1) y(1) fit_padded_def Int32DigitCount_text Int64DigitCount_text)
qed

section \<open>Hex digits\<close>

lemma hex_char_val: "n < 16 \<Longrightarrow> hex_val (hex_char cap n) = Some n"
  by (auto simp: hex_char_def hex_val_def Let_def)

lemma hex_pair_parts: "push_bit 4 (of_nat (unat (drop_bit 4 b AND 0x0F))) OR of_nat (unat (b AND 0x0F)) = (b :: u8)"
proof -
  have "x AND 0x0F = take_bit 4 x" for x :: u8
    by (simp add: take_bit_eq_mask mask_eq_exp_minus_1)
  then have "push_bit 4 (drop_bit 4 b AND 0x0F) OR (b AND 0x0F) = push_bit 4 (take_bit 4 (drop_bit 4 b)) OR take_bit 4 b"
    by (simp only:)
  also have "\<dots> = b"
    by (auto intro!: bit_word_eqI simp: bit_simps)
  finally show ?thesis
    by simp
qed

lemma nibble_bound: "unat (x AND 0x0F :: u8) < 16"
  using word_and_le1 [of x "0x0F"] by (simp add: word_le_nat_alt)

lemma hex_pair_read: "HexStringToBytes (hex_pair cap b @ s) (Suc n) = map_option (Cons b) (HexStringToBytes s n)"
  unfolding hex_pair_def append.simps HexStringToBytes.simps hex_char_val [OF nibble_bound] prod.case option.case hex_pair_parts
  by (rule refl)

lemma hex_pairs_read: "HexStringToBytes (concat (map (hex_pair cap) bs)) (length bs) = Some bs"
  by (induction bs) (simp_all add: hex_pair_read)

text \<open>
  Bytes written as hex digits and read back are the bytes.
\<close>

lemma hex_roundtrip:
  "Option.bind (BytesToHexString (Some bs)) (\<lambda>hex. HexStringToBytes hex (length bs)) = Some bs"
  by (simp add: BytesToHexString_def hex_pairs_read)

end
