(* ===== verification/Calendar.thy ===== *)
theory Calendar
  imports Convert
begin

text \<open>
  The calendar fields of an instant (\<open>EpochToDateTime\<close> of
  \<^verbatim>\<open>DataTypeConversions.cpp\<close>). The specification is the calendar itself: counting days from
  the first of January 1970 with months of their lengths and a leap day in February. Every date has a
  day number from the first of March of year 0, consecutive dates have consecutive numbers, and the
  arithmetic of the source takes a number back to its date.
\<close>

section \<open>The calendar\<close>

type_synonym date = "nat \<times> nat \<times> nat"

definition leap_year :: "nat \<Rightarrow> bool" where
  "leap_year y \<longleftrightarrow> 4 dvd y \<and> \<not> 100 dvd y \<or> 400 dvd y"

definition month_days :: "nat \<Rightarrow> nat \<Rightarrow> nat" where
  "month_days y m = (if m = 2 then (if leap_year y then 29 else 28) else if m \<in> {4, 6, 9, 11} then 30 else 31)"

fun next_day :: "date \<Rightarrow> date" where
  "next_day (y, m, d) = (if d < month_days y m then (y, m, d + 1) else if m < 12 then (y, m + 1, 1) else (y + 1, 1, 1))"

definition date_of_days :: "nat \<Rightarrow> date" where
  "date_of_days n = (next_day ^^ n) (1970, 1, 1)"

fun valid_date :: "date \<Rightarrow> bool" where
  "valid_date (y, m, d) \<longleftrightarrow> 0 < y \<and> 1 \<le> m \<and> m \<le> 12 \<and> 1 \<le> d \<and> d \<le> month_days y m"

lemma next_day_valid: "valid_date t \<Longrightarrow> valid_date (next_day t)"
  by (cases t) (auto simp: month_days_def)

section \<open>Day numbers\<close>

text \<open>Years and months are counted from March, so that the leap day is the last day of its year.\<close>

definition year_start :: "nat \<Rightarrow> nat" where
  "year_start y = 365 * y + y div 4 - y div 100 + y div 400"

fun day_number :: "date \<Rightarrow> nat" where
  "day_number (y, m, d) =
     (if m \<le> 2 then year_start (y - 1) + (153 * (m + 9) + 2) div 5 + d - 1 else year_start y + (153 * (m - 3) + 2) div 5 + d - 1)"

lemma div_pred: "0 < (y :: nat) \<Longrightarrow> y div n = (y - 1) div n + (if n dvd y then 1 else 0)"
  by (cases y) (simp_all add: div_Suc dvd_eq_mod_eq_0)

lemma year_start_next:
  assumes "0 < y"
  shows "year_start y = year_start (y - 1) + (if leap_year y then 366 else 365)"
proof -
  define a b c where "a = (y - 1) div 4" and "b = (y - 1) div 100" and "c = (y - 1) div 400"
  have "y div 4 = a + (if 4 dvd y then 1 else 0)" "y div 100 = b + (if 100 dvd y then 1 else 0)" "y div 400 = c + (if 400 dvd y then 1 else 0)"
    unfolding a_def b_def c_def by (rule div_pred [OF assms])+
  moreover have "b \<le> a"
    unfolding a_def b_def by (rule div_le_mono2) simp_all
  moreover have "100 dvd y \<longrightarrow> 4 dvd y" "400 dvd y \<longrightarrow> 100 dvd y"
    by (auto elim!: dvd_trans [rotated])
  moreover obtain k where "y = Suc k"
    using assms by (cases y) simp_all
  ultimately show ?thesis
    unfolding year_start_def leap_year_def a_def [symmetric] b_def [symmetric] c_def [symmetric]
    by (cases "4 dvd y"; cases "100 dvd y"; cases "400 dvd y") simp_all
qed

lemma month_range: "1 \<le> m \<Longrightarrow> m \<le> 12 \<Longrightarrow> m \<in> {1, 2, 3, 4, 5, 6, 7, 8, 9, 10, 11, 12 :: nat}"
  unfolding insert_iff empty_iff by presburger

lemma day_number_next:
  assumes "valid_date t"
  shows "day_number (next_day t) = day_number t + 1"
proof (cases t)
  case (fields y m d)
  then have v: "0 < y" "1 \<le> d" "d \<le> month_days y m" "m \<in> {1, 2, 3, 4, 5, 6, 7, 8, 9, 10, 11, 12}"
    using assms month_range by auto
  then show ?thesis
    using year_start_next [OF v(1)] fields
    by (elim insertE emptyE) (auto simp: month_days_def split: if_splits)
qed

lemma date_of_days_number: "valid_date (date_of_days n)" "day_number (date_of_days n) = n + 719468"
proof -
  have "valid_date (date_of_days n) \<and> day_number (date_of_days n) = n + 719468"
    by (induction n) (simp_all add: date_of_days_def month_days_def year_start_def next_day_valid day_number_next)
  then show "valid_date (date_of_days n)" "day_number (date_of_days n) = n + 719468"
    by simp_all
qed

section \<open>Back from day numbers\<close>

text \<open>A year of the era is a century, a leap cycle and a year of the cycle.\<close>

lemma era_year_split:
  fixes c q k doy :: nat
  assumes "c < 4" "q < 25" "k < 4" "doy \<le> 365" and leap: "doy = 365 \<Longrightarrow> k = 3 \<and> (q < 24 \<or> c = 3)"
  shows "era_year (36524 * c + 1461 * q + 365 * k + doy) = 100 * c + 4 * q + k"
proof -
  define doe where "doe = 36524 * c + 1461 * q + 365 * k + doy"
  define e where "e = (if 24 * c + q + 365 * k + doy \<ge> 1460 then 1 else (0 :: nat))"
  have "doe = 1460 * (25 * c + q) + (24 * c + q + 365 * k + doy)"
    by (simp add: doe_def)
  then have "doe div 1460 = 25 * c + q + (24 * c + q + 365 * k + doy) div 1460"
    by simp
  also have "(24 * c + q + 365 * k + doy) div 1460 = e"
    using assms(1-4) by (auto simp: e_def intro!: div_nat_eqI)
  finally have a: "doe div 1460 = 25 * c + q + e" .
  have b: "doe div 36524 = c + doe div 146096"
  proof (cases "1461 * q + 365 * k + doy < 36524")
    case True
    then have "doe div 36524 = c" "doe < 146096"
      using assms(1) by (auto simp: doe_def intro!: div_nat_eqI)
    then show ?thesis
      by simp
  next
    case False
    then have "q = 24" "k = 3" "doy = 365"
      using assms(2-4) by auto
    then show ?thesis
      using leap by (simp add: doe_def)
  qed
  have "e = 1 \<Longrightarrow> 0 < doy" "doy = 365 \<Longrightarrow> e = 1" "e \<le> 1"
    using assms by (auto simp: e_def split: if_splits)
  then have "365 * (100 * c + 4 * q + k) \<le> doe - (25 * c + q + e) + c" "doe - (25 * c + q + e) + c < 365 * (100 * c + 4 * q + k) + 365"
    using assms(4) by (cases "e = 1"; cases "doy = 365"; simp add: doe_def)+
  then have "(doe - (25 * c + q + e) + c) div 365 = 100 * c + 4 * q + k"
    by (intro div_nat_eqI) auto
  then show ?thesis
    unfolding era_year_def doe_def [symmetric] a b by (simp only: add.assoc [symmetric] add_diff_cancel_right')
qed

lemma civil_parts:
  assumes "c < 4" "q < 25" "k < 4" "doy \<le> 365" and leap: "doy = 365 \<Longrightarrow> k = 3 \<and> (q < 24 \<or> c = 3)"
    and mp: "(5 * doy + 2) div 153 = mp" and y: "y = 400 * era + 100 * c + 4 * q + k"
  shows "civil (year_start y + doy) = ((if mp < 10 then y else y + 1), (if mp < 10 then mp + 3 else mp - 9), doy - (153 * mp + 2) div 5 + 1)"
proof -
  define doe where "doe = 36524 * c + 1461 * q + 365 * k + doy"
  define yoe where "yoe = 100 * c + 4 * q + k"
  have yoe: "yoe div 4 = 25 * c + q" "yoe div 100 = c" "yoe < 400"
    using assms(1-3) by (auto simp: yoe_def intro!: div_nat_eqI)
  have y: "y = 400 * era + yoe"
    by (simp add: y yoe_def)
  have "y div 4 = 100 * era + yoe div 4" "y div 100 = 4 * era + yoe div 100" "y div 400 = era"
    using yoe(3) by (auto simp: y intro!: div_nat_eqI)
  then have z: "year_start y + doy = 146097 * era + doe"
    using yoe(1,2) by (simp add: year_start_def y doe_def yoe_def)
  moreover have "doe < 146097"
  proof (cases "doy = 365")
    case True
    then show ?thesis
      using leap assms(1,2) by (auto simp: doe_def)
  next
    case False
    then show ?thesis
      using assms(1-4) by (auto simp: doe_def)
  qed
  ultimately have era: "(year_start y + doy) div 146097 = era" "year_start y + doy - era * 146097 = doe"
    by (auto intro!: div_nat_eqI)
  have f: "era_year doe = yoe" "doe - (365 * yoe + yoe div 4 - yoe div 100) = doy"
    using era_year_split [OF assms(1-5)] unfolding yoe(1,2) by (simp_all add: doe_def yoe_def)
  have "mp \<le> 11"
    using assms(4) div_le_mono [of "5 * doy + 2" 1827 153] by (simp add: mp [symmetric])
  then have m: "(if mp < 10 then mp + 3 else mp - 9) \<le> 2 \<longleftrightarrow> \<not> mp < 10"
    by auto
  show ?thesis
    unfolding civil_def Let_def era f mp m by (simp add: y)
qed

lemma year_parts:
  obtains era c q k where "c < 4" "q < 25" "k < 4" "y = 400 * era + 100 * c + 4 * q + (k :: nat)"
proof -
  define n r where "n = y mod 400" and "r = n mod 100"
  have "y = 400 * (y div 400) + n" "n = 100 * (n div 100) + r" "r = 4 * (r div 4) + r mod 4"
    by (simp_all add: n_def r_def)
  then have "y = 400 * (y div 400) + 100 * (n div 100) + 4 * (r div 4) + r mod 4"
    by linarith
  moreover have "n < 400" "r < 100"
    by (simp_all add: n_def r_def)
  then have "n div 100 < 4" "r div 4 < 25"
    by (simp_all add: less_mult_imp_div_less)
  ultimately show thesis
    using that [of "n div 100" "r div 4" "r mod 4" "y div 400"] by simp
qed

lemma leap_parts:
  assumes "leap_year (Suc (400 * era + 100 * c + 4 * q + k))" "c < 4" "q < 25" "k < 4"
  shows "k = 3 \<and> (q < 24 \<or> c = 3)"
proof -
  let ?y = "Suc (400 * era + 100 * c + 4 * q + k)"
  have "4 dvd ?y"
    using assms(1) dvd_trans [of 4 400 ?y] by (auto simp: leap_year_def)
  then have k: "k = 3"
    using assms(4) by presburger
  moreover have "c = 3" if "q = 24"
  proof -
    have y: "?y = 400 * era + 100 * (c + 1)"
      using k that by simp
    then have "100 dvd ?y"
      by presburger
    then have "400 dvd ?y"
      using assms(1) by (simp add: leap_year_def)
    then show ?thesis
      unfolding y using assms(2) by presburger
  qed
  ultimately show ?thesis
    using assms(3) by (cases "q = 24") auto
qed

lemma civil_day_number:
  assumes "valid_date t"
  shows "civil (day_number t) = t"
proof (cases t)
  case (fields y m d)
  define y' mp where "y' = (if m \<le> 2 then y - 1 else y)" and "mp = (if m \<le> 2 then m + 9 else m - 3)"
  define doy where "doy = (153 * mp + 2) div 5 + d - 1"
  have v: "0 < y" "1 \<le> d" "d \<le> month_days y m" "m \<in> {1, 2, 3, 4, 5, 6, 7, 8, 9, 10, 11, 12}"
    using assms month_range fields by auto
  have doy: "doy \<le> 365" "(5 * doy + 2) div 153 = mp" "doy = 365 \<Longrightarrow> leap_year (Suc y')" "doy - (153 * mp + 2) div 5 + 1 = d"
    using v by (auto simp: doy_def mp_def y'_def month_days_def intro!: div_nat_eqI split: if_splits)
  obtain era c q k where p: "c < 4" "q < 25" "k < 4" "y' = 400 * era + 100 * c + 4 * q + k"
    by (rule year_parts)
  have leap: "k = 3 \<and> (q < 24 \<or> c = 3)" if "doy = 365"
    using leap_parts [OF _ p(1-3)] doy(3) [OF that] unfolding p(4) .
  have "civil (year_start y' + doy) = ((if mp < 10 then y' else y' + 1), (if mp < 10 then mp + 3 else mp - 9), d)"
    using civil_parts [OF p(1-3) doy(1) leap doy(2) p(4)] unfolding doy(4) .
  moreover have "day_number t = year_start y' + doy"
    using v(2) by (simp add: fields y'_def mp_def doy_def add.assoc)
  moreover have "(if mp < 10 then y' else y' + 1) = y" "(if mp < 10 then mp + 3 else mp - 9) = m"
    using v(1,4) by (auto simp: y'_def mp_def)
  ultimately show ?thesis
    by (simp add: fields)
qed

lemma civil_date: "civil (n + 719468) = date_of_days n"
  using civil_day_number date_of_days_number by metis

section \<open>The fields of an instant\<close>

lemma date_of_days_bound:
  assumes "date_of_days n = (y, m, d)"
  shows "365 * y \<le> n + 720000" "m \<le> 12" "d \<le> 31"
proof -
  have v: "valid_date (y, m, d)" "day_number (y, m, d) = n + 719468"
    using date_of_days_number [of n] assms by simp_all
  have "k div 100 \<le> k div 4" for k :: nat
    by (rule div_le_mono2) simp_all
  then have "365 * k \<le> year_start k" for k
    by (simp add: year_start_def)
  from this [of y] this [of "y - 1"] show "365 * y \<le> n + 720000"
    using v by (auto split: if_splits)
  show "m \<le> 12" "d \<le> 31"
    using v(1) by (auto simp: month_days_def split: if_splits)
qed

text \<open>
  C14: For every 32-bit instant the year, month and day are those the Gregorian calendar reaches by
  counting days from 1 January 1970, the weekday counts from that Thursday, and hour, minute and
  second are below 24, 60 and 60 and add up to the second of the day.
\<close>

theorem EpochToDateTime_calendar:
  "case date_of_days (unat epoch div 86400) of (y, m, d) \<Rightarrow> let t = EpochToDateTime epoch out in
     unat (m_year t) = y \<and> unat (m_month t) = m \<and> unat (m_day t) = d
     \<and> unat (m_weekday t) = (unat epoch div 86400 + 4) mod 7
     \<and> unat (m_hour t) < 24 \<and> unat (m_minute t) < 60 \<and> unat (m_second t) < 60
     \<and> unat (m_hour t) * 3600 + unat (m_minute t) * 60 + unat (m_second t) = unat epoch mod 86400"
proof -
  define n s where "n = unat epoch div 86400" and "s = unat epoch mod 86400"
  obtain y m d where t: "date_of_days n = (y, m, d)"
    by (metis prod_cases3)
  have "unat epoch < 2 ^ 32"
    using unsigned_less [of epoch] by simp
  then have "n \<le> 49710"
    by (simp add: n_def)
  then have b: "y < 2 ^ 16" "m < 2 ^ 8" "d < 2 ^ 8"
    using date_of_days_bound [OF t] by auto
  have s: "s < 86400"
    by (simp add: s_def)
  have w: "unat (of_nat k :: u8) = k" if "k < 2 ^ 8" for k
    using that by (simp add: unat_of_nat take_bit_nat_eq_self)
  have w7: "unat (of_nat ((n + 4) mod 7) :: u8) = (n + 4) mod 7" "unat (of_nat (s mod 60) :: u8) = s mod 60"
    by (rule w, rule less_trans [of _ 60], simp_all add: less_trans [OF mod_less_divisor [of 7]])+
  have w16: "unat (of_nat y :: u16) = y"
    using b(1) by (simp add: unat_of_nat take_bit_nat_eq_self)
  have h: "s div 3600 < 24" "s mod 3600 div 60 < 60" "s mod 60 < 60" "s mod 3600 mod 60 = s mod 60"
    using s by (auto simp: less_mult_imp_div_less mod_mod_cancel)
  have "s div 3600 * 3600 + s mod 3600 div 60 * 60 + s mod 60 = s"
    using h(4) by (metis add.assoc div_mult_mod_eq)
  then show ?thesis
    unfolding EpochToDateTime_def Let_def n_def [symmetric] s_def [symmetric] civil_date t
    using h b by (simp add: w w7 w16)
qed

end
