(* ===== verification/StrOps.thy ===== *)
theory StrOps
  imports Convert
begin

text \<open>
  Operations on C strings (\<^verbatim>\<open>src/src/utility/StringOperations.cpp\<close>), as functions of the
  characters before the terminator; \<open>None\<close> is the null pointer. The leading underscores of the
  names are dropped. The printf family is left out. Strings are shorter than \<open>2 ^ 16\<close>, the range of
  the counters of the trims, and an address text shorter than 256.
\<close>

section \<open>Searching\<close>

definition starts :: "string \<Rightarrow> string \<Rightarrow> bool" where
  "starts sub s \<longleftrightarrow> take (length sub) s = sub"

fun strstr_loop :: "string \<Rightarrow> int \<Rightarrow> nat \<Rightarrow> string \<Rightarrow> int" where
  "strstr_loop sub len n [] = -1"
| "strstr_loop sub len n (c # s) =
     (if int n < len then (if starts sub (c # s) then int n else strstr_loop sub len (n + 1) s) else -1)"

definition strstr :: "string option \<Rightarrow> string option \<Rightarrow> int \<Rightarrow> int" where
  "strstr str substr len =
     (case (str, substr) of
        (Some s, Some sub) \<Rightarrow> if s = [] \<or> sub = [] then -1 else strstr_loop sub len 0 s
      | _ \<Rightarrow> -1)"

fun unquoted_loop :: "string \<Rightarrow> int \<Rightarrow> bool \<Rightarrow> bool \<Rightarrow> nat \<Rightarrow> string \<Rightarrow> int" where
  "unquoted_loop sub len insingle indouble n [] = -1"
| "unquoted_loop sub len insingle indouble n (c # s) =
     (if int n < len then
        if c = CHR 0x27 \<and> \<not> indouble then unquoted_loop sub len (\<not> insingle) indouble (n + 1) s
        else if c = CHR 0x22 \<and> \<not> insingle then unquoted_loop sub len insingle (\<not> indouble) (n + 1) s
        else if \<not> insingle \<and> \<not> indouble \<and> starts sub (c # s) then int n
        else unquoted_loop sub len insingle indouble (n + 1) s
      else -1)"

definition strstr_unquoted :: "string option \<Rightarrow> string option \<Rightarrow> int \<Rightarrow> int" where
  "strstr_unquoted str substr len =
     (case (str, substr) of
        (Some s, Some sub) \<Rightarrow> if s = [] \<or> sub = [] then -1 else unquoted_loop sub len False False 0 s
      | _ \<Rightarrow> -1)"

text \<open>\<open>memchr\<close> within the first \<open>n\<close> characters.\<close>

definition memchr :: "string \<Rightarrow> char \<Rightarrow> nat \<Rightarrow> nat option" where
  "memchr s c n = List.find (\<lambda>i. s ! i = c) [0..<min n (length s)]"

function span_loop :: "string \<Rightarrow> string \<Rightarrow> nat \<Rightarrow> nat \<Rightarrow> int" where
  "span_loop s sub last_n n =
     (if n \<le> last_n
      then case memchr (drop n s) (sub ! 0) (last_n - n + 1) of
             None \<Rightarrow> -1
           | Some i \<Rightarrow> if starts sub (drop (n + i) s) then int (n + i) else span_loop s sub last_n (n + i + 1)
      else -1)"
  by pat_completeness auto
termination
  by (relation "measure (\<lambda>(s, sub, l, n). Suc l - n)") auto

declare span_loop.simps [simp del]

text \<open>The overload with explicit lengths; the text may hold terminators.\<close>

definition strstr_span :: "string option \<Rightarrow> string option \<Rightarrow> nat \<Rightarrow> int" where
  "strstr_span str substr n =
     (case (str, substr) of
        (Some s, Some sub) \<Rightarrow> if sub = [] \<or> length sub > length s then -1 else span_loop s sub (length s - length sub) n
      | _ \<Rightarrow> -1)"

section \<open>Padding, trimming and comparing\<close>

definition append_padded :: "string \<Rightarrow> string option \<Rightarrow> nat \<Rightarrow> bool \<Rightarrow> char \<Rightarrow> string" where
  "append_padded out str width prepad pad =
     (let s = (case str of None \<Rightarrow> [] | Some s \<Rightarrow> s) in
      if length s \<ge> width then out @ take width s
      else if prepad then out @ replicate (width - length s) pad @ s
      else out @ s @ replicate (width - length s) pad)"

definition append_padded_num :: "string \<Rightarrow> int \<Rightarrow> nat \<Rightarrow> bool \<Rightarrow> char \<Rightarrow> string" where
  "append_padded_num out value width prepad pad = append_padded out (Int64ToString value 24 0) width prepad pad"

text \<open>
  Dropping at the front and then at the back, together at most \<open>limit\<close> characters, and at the
  back of the whole string: of a string of nothing but the character the front takes all.
\<close>

fun trim_front :: "char \<Rightarrow> nat \<Rightarrow> string \<Rightarrow> nat \<times> string" where
  "trim_front v n [] = (n, [])"
| "trim_front v n (c # s) = (if c = v \<and> 0 < n then trim_front v (n - 1) s else (n, c # s))"

definition strtrim_val :: "string option \<Rightarrow> char \<Rightarrow> nat \<Rightarrow> string option" where
  "strtrim_val str v limit =
     (case str of
        None \<Rightarrow> None
      | Some s \<Rightarrow>
          if s = [] \<or> limit = 0 then None
          else case trim_front v limit s of (n, front) \<Rightarrow> Some (rev (snd (trim_front v n (rev front)))))"

definition is_alpha :: "char \<Rightarrow> bool" where
  "is_alpha c \<longleftrightarrow> (let n = of_char c :: nat in 97 \<le> n \<and> n \<le> 122 \<or> 65 \<le> n \<and> n \<le> 90)"

definition is_digit :: "char \<Rightarrow> bool" where
  "is_digit c \<longleftrightarrow> (let n = of_char c :: nat in 48 \<le> n \<and> n \<le> 57)"

definition is_alnum :: "char \<Rightarrow> bool" where
  "is_alnum c \<longleftrightarrow> is_alpha c \<or> is_digit c"

definition is_blank :: "char \<Rightarrow> bool" where
  "is_blank c \<longleftrightarrow> c = CHR '' '' \<or> c = CHR 0x09"

definition strtrim :: "string option \<Rightarrow> nat \<Rightarrow> string option" where
  "strtrim str limit = strtrim_val str (CHR '' '') limit"

text \<open>The first length is cut to 16 bits, the second is not.\<close>

definition are_str_equals :: "string option \<Rightarrow> string option \<Rightarrow> nat \<Rightarrow> bool" where
  "are_str_equals str1 str2 limit =
     (case (str1, str2) of
        (Some a, Some b) \<Rightarrow>
          let len = length a mod 2 ^ 16
          in len = length b \<and> (\<forall>i<min len limit. a ! i = b ! i)
      | _ \<Rightarrow> False)"

definition are_arrays_equal :: "string option \<Rightarrow> string option \<Rightarrow> nat \<Rightarrow> bool" where
  "are_arrays_equal array1 array2 len =
     (case (array1, array2) of (Some a, Some b) \<Rightarrow> \<forall>i<len. a ! i = b ! i | _ \<Rightarrow> False)"

section \<open>Addresses and numbers in text\<close>

definition uint_text :: "u32 \<Rightarrow> nat \<Rightarrow> string" where
  "uint_text v maxlen = (case Uint32ToString v maxlen 0 of None \<Rightarrow> [] | Some s \<Rightarrow> s)"

definition appendUintToBuff :: "string \<Rightarrow> string \<Rightarrow> u32 \<Rightarrow> nat \<Rightarrow> string" where
  "appendUintToBuff str fmt val len =
     (let lit = takeWhile (\<lambda>c. c \<noteq> CHR ''%'') fmt;
          value = take 19 lit;
          p = drop (length value) fmt;
          num = uint_text val 15;
          (value, p) =
            (if p \<noteq> [] \<and> hd p = CHR ''%''
             then let p = tl p
                  in if p \<noteq> [] \<and> hd p \<in> {CHR ''d'', CHR ''u''} then (value @ take (19 - length value) num, tl p) else (value, p)
             else (value, p));
          value = value @ take (19 - length value) p
      in str @ take len value)"

fun ip_loop :: "nat \<Rightarrow> u8 list \<Rightarrow> string \<Rightarrow> string" where
  "ip_loop len [] out = out"
| "ip_loop len (b # bs) out =
     (let num = uint_text (ucast b) 4; out = out @ take (len - 1 - length out) num
      in ip_loop len bs (if bs \<noteq> [] \<and> length out < len - 1 then out @ ''.'' else out))"

definition int_ip_to_str :: "u8 list \<Rightarrow> nat \<Rightarrow> string option" where
  "int_ip_to_str ip len = (if len = 0 then None else Some (ip_loop len (take 4 ip) []))"

fun ip_scan :: "nat \<Rightarrow> nat \<Rightarrow> string \<Rightarrow> u8 list \<Rightarrow> u8 list" where
  "ip_scan len i [] ip = ip"
| "ip_scan len i (c # s) ip =
     (if i < len
      then ip_scan len (i + 1) s (if c = CHR ''.'' \<and> length ip < 4 then ip @ [StringToUint8 (Some s) 3] else ip)
      else ip)"

text \<open>The bytes written; those of \<open>old\<close> the text does not reach are left.\<close>

definition str_ip_to_int :: "string \<Rightarrow> u8 list \<Rightarrow> nat \<Rightarrow> u8 list" where
  "str_ip_to_int str old len = (let ip = ip_scan len 0 str [StringToUint8 (Some str) 3] in ip @ drop (length ip) old)"

section \<open>Replacing\<close>

text \<open>Whether an occurrence was found, and the text built.\<close>

function replace_loop :: "string \<Rightarrow> string \<Rightarrow> nat \<Rightarrow> string \<Rightarrow> bool \<Rightarrow> string \<Rightarrow> bool \<times> string" where
  "replace_loop find_s rep occ s found buf =
     (if s \<noteq> [] \<and> 0 < occ \<and> find_s \<noteq> [] \<and> 0 \<le> strstr (Some s) (Some find_s) (int (length s))
      then let i = nat (strstr (Some s) (Some find_s) (int (length s)))
           in replace_loop find_s rep (occ - 1) (drop (i + length find_s) s) True (buf @ take i s @ rep)
      else (found, buf @ s))"
  by pat_completeness auto
termination
  by (relation "measure (\<lambda>(f, r, occ, s, found, buf). occ)") auto

declare replace_loop.simps [simp del]

definition find_and_replace :: "string \<Rightarrow> string \<Rightarrow> string \<Rightarrow> int \<Rightarrow> int \<Rightarrow> string" where
  "find_and_replace str find_s rep occ max_len =
     (if find_s = [] \<or> occ \<le> 0 then str
      else
        let max_len = (if max_len \<le> 0 then int (length str) + 1 else max_len)
        in case replace_loop find_s rep (nat occ) str False [] of
             (found, buf) \<Rightarrow> if found \<and> int (length buf) < max_len then buf else str)"

section \<open>Case and keys\<close>

definition tolowercase :: "string \<Rightarrow> nat \<Rightarrow> string" where
  "tolowercase s len = map (\<lambda>c. if 65 \<le> (of_char c :: nat) \<and> (of_char c :: nat) \<le> 90 then char_of ((of_char c :: nat) + 32) else c) (take len s) @ drop len s"

definition touppercase :: "string \<Rightarrow> nat \<Rightarrow> string" where
  "touppercase s len = map (\<lambda>c. if 97 \<le> (of_char c :: nat) \<and> (of_char c :: nat) \<le> 122 then char_of ((of_char c :: nat) - 32) else c) (take len s) @ drop len s"

definition get_iface_key_informat :: "string \<Rightarrow> u16 \<Rightarrow> nat \<Rightarrow> string \<times> string" where
  "get_iface_key_informat iface port maxlen =
     (appendUintToBuff (touppercase iface maxlen) ''%d'' (ucast port) (maxlen - 1),
      appendUintToBuff (tolowercase iface maxlen) ''%d'' (ucast port) (maxlen - 1))"

section \<open>Values of a JSON text\<close>

text \<open>
  The characters of the value after the colon: how many to take. \<open>back\<close> is the run of
  backslashes just before the next character.
\<close>

fun json_span :: "nat \<Rightarrow> bool \<Rightarrow> int \<Rightarrow> int \<Rightarrow> string \<Rightarrow> nat" where
  "json_span back quotes braces brackets [] = 0"
| "json_span back quotes braces brackets (c # s) =
     (let quotes' = (if c = CHR 0x22 \<and> even back then \<not> quotes else quotes);
          plain = (c \<noteq> CHR 0x22 \<and> \<not> quotes);
          braces' = (if plain \<and> c = CHR 0x7B then braces + 1 else if plain \<and> c = CHR 0x7D then braces - 1 else braces);
          brackets' = (if plain \<and> c = CHR ''['' then brackets + 1 else if plain \<and> c = CHR '']'' then brackets - 1 else brackets)
      in if plain \<and> c = CHR '','' \<and> braces = 0 \<and> brackets = 0 then 0
         else if braces' < 0 \<or> brackets' < 0 then 0
         else Suc (json_span (if c = CHR 0x5C then back + 1 else 0) quotes' braces' brackets' s))"

text \<open>A trim that answers the null pointer leaves the value as it is.\<close>

definition trim_in_place :: "char \<Rightarrow> nat \<Rightarrow> string \<Rightarrow> string" where
  "trim_in_place v limit s = (case strtrim_val (Some s) v limit of None \<Rightarrow> s | Some t \<Rightarrow> t)"

definition get_from_json :: "string option \<Rightarrow> string option \<Rightarrow> nat \<Rightarrow> string option" where
  "get_from_json str key max_len =
     (case (str, key) of
        (Some s, Some k) \<Rightarrow>
          if max_len = 0 then None
          else
            let ki = strstr (Some s) (Some k) (int (length s)) in
            if ki < 0 \<or> ki \<ge> int (length s) then None
            else
              let s = drop (nat ki) s; ci = strstr (Some s) (Some '':'') (int (length s)) in
              if ci < 0 then None
              else
                let s = dropWhile (\<lambda>c. c \<in> {CHR '' '', CHR 0x09, CHR 0x0A}) (drop (nat ci + 1) s);
                    value = take (min (json_span 0 False 0 0 s) (max_len - 1)) s
                in Some (trim_in_place (CHR 0x22) max_len (trim_in_place (CHR '' '') max_len (trim_in_place (CHR '','') max_len value)))
      | _ \<Rightarrow> None)"

definition get_iface_data_fromjson :: "string \<Rightarrow> u16 \<Rightarrow> string \<Rightarrow> nat \<Rightarrow> nat \<Rightarrow> string option" where
  "get_iface_data_fromjson iface port payload payloadlen maxlen =
     (case get_iface_key_informat iface port (length iface + 6) of
        (up, low) \<Rightarrow>
          if 0 \<le> strstr (Some payload) (Some up) (int payloadlen - int (length up))
             \<or> 0 \<le> strstr (Some payload) (Some low) (int payloadlen - int (length low))
          then (case get_from_json (Some payload) (Some up) maxlen of None \<Rightarrow> get_from_json (Some payload) (Some low) maxlen | v \<Rightarrow> v)
          else None)"

end
