(* ===== verification/StrProps.thy ===== *)
theory StrProps
  imports StrOps ConvertProps
begin

text \<open>
  Searching finds the first occurrence, replacing changes the leftmost occurrences and nothing else
  and never outgrows the buffer it is given, and a dotted address reads back as its four bytes.
\<close>

section \<open>Searching\<close>

lemma strstr_loop_first:
  "strstr_loop sub (int n + int (length s)) n s = (case List.find (\<lambda>i. starts sub (drop i s)) [0..<length s] of None \<Rightarrow> -1 | Some i \<Rightarrow> int (n + i))"
proof (induction s arbitrary: n)
  case (Cons c s)
  have "[0..<length (c # s)] = 0 # map Suc [0..<length s]"
    by (simp add: upt_conv_Cons map_Suc_upt del: upt_Suc)
  then have "List.find (\<lambda>i. starts sub (drop i (c # s))) [0..<length (c # s)] =
      (if starts sub (c # s) then Some 0 else map_option Suc (List.find (\<lambda>i. starts sub (drop i s)) [0..<length s]))"
    by (simp add: find_map_list comp_def)
  then show ?case
    using Cons.IH [of "n + 1"] by (auto simp: algebra_simps split: option.split)
qed simp

lemma strstr_first:
  assumes "sub \<noteq> []"
  shows "strstr (Some s) (Some sub) (int (length s)) = (case List.find (\<lambda>i. starts sub (drop i s)) [0..<length s] of None \<Rightarrow> -1 | Some i \<Rightarrow> int i)"
  using assms strstr_loop_first [of sub 0 s] by (simp add: strstr_def split: option.splits)

lemma strstr_found:
  assumes "sub \<noteq> []" and "0 \<le> strstr (Some s) (Some sub) (int (length s))"
  obtains i where "strstr (Some s) (Some sub) (int (length s)) = int i" "s = take i s @ sub @ drop (i + length sub) s"
    "i + length sub \<le> length s" "\<And>j. j < i \<Longrightarrow> \<not> starts sub (drop j s)"
proof -
  obtain i where i: "List.find (\<lambda>i. starts sub (drop i s)) [0..<length s] = Some i"
    using assms strstr_first [OF assms(1)] by (cases "List.find (\<lambda>i. starts sub (drop i s)) [0..<length s]") auto
  then have f: "i < length s" "starts sub (drop i s)" "\<And>j. j < i \<Longrightarrow> \<not> starts sub (drop j s)"
    by (auto simp: find_Some_iff)
  then have "drop i s = sub @ drop (i + length sub) s"
    by (metis add.commute append_take_drop_id drop_drop starts_def)
  then have "s = take i s @ sub @ drop (i + length sub) s"
    by (metis append_take_drop_id)
  moreover have "i + length sub \<le> length s"
    using f(1,2) by (metis add.commute le_diff_conv2 length_drop length_take less_imp_le min.cobounded1 min_def starts_def)
  ultimately show thesis
    using that f(3) i strstr_first [OF assms(1)] by simp
qed

section \<open>Replacing\<close>

fun join :: "string \<Rightarrow> string list \<Rightarrow> string" where
  "join sep [] = []"
| "join sep [p] = p"
| "join sep (p # ps) = p @ sep @ join sep ps"

text \<open>
  \<open>split_at sep n s ps\<close>: the pieces of \<open>s\<close> around its leftmost occurrences of
  \<open>sep\<close>, at most \<open>n\<close> of them.
\<close>

inductive split_at :: "string \<Rightarrow> nat \<Rightarrow> string \<Rightarrow> string list \<Rightarrow> bool" for sep where
  rest: "n = 0 \<or> (\<forall>j<length s. \<not> starts sep (drop j s)) \<Longrightarrow> split_at sep n s [s]"
| piece: "s = p @ sep @ t \<Longrightarrow> (\<forall>j<length p. \<not> starts sep (drop j s)) \<Longrightarrow> split_at sep n t ps \<Longrightarrow> split_at sep (Suc n) s (p # ps)"

lemma split_at_join: "split_at sep n s ps \<Longrightarrow> ps \<noteq> [] \<and> join sep ps = s \<and> length ps \<le> Suc n"
proof (induction rule: split_at.induct)
  case (piece s p t n ps)
  then show ?case
    by (cases ps) auto
qed simp

lemma join_length: "ps \<noteq> [] \<Longrightarrow> length (join rep ps) = length (concat ps) + (length ps - 1) * length rep"
  by (induction rep ps rule: join.induct) (simp_all add: algebra_simps)

lemma replace_loop_pieces:
  assumes "find_s \<noteq> []"
  shows "\<exists>ps. split_at find_s occ s ps \<and> replace_loop find_s rep occ s found buf = (found \<or> 1 < length ps, buf @ join rep ps)"
proof (induction occ arbitrary: s found buf)
  case 0
  have "replace_loop find_s rep 0 s found buf = (found, buf @ s)"
    by (subst replace_loop.simps) simp
  then show ?case
    by (intro exI [of _ "[s]"]) (simp add: split_at.rest)
next
  case (Suc occ)
  show ?case
  proof (cases "s \<noteq> [] \<and> 0 \<le> strstr (Some s) (Some find_s) (int (length s))")
    case True
    then obtain i where i: "strstr (Some s) (Some find_s) (int (length s)) = int i" "s = take i s @ find_s @ drop (i + length find_s) s"
      "i + length find_s \<le> length s" "\<And>j. j < i \<Longrightarrow> \<not> starts find_s (drop j s)"
      using strstr_found [OF assms] by metis
    let ?t = "drop (i + length find_s) s"
    have r: "replace_loop find_s rep (Suc occ) s found buf = replace_loop find_s rep occ ?t True (buf @ take i s @ rep)"
      using True assms i(1) by (subst replace_loop.simps) (simp add: Let_def)
    obtain ps where ps: "split_at find_s occ ?t ps" "replace_loop find_s rep occ ?t True (buf @ take i s @ rep) = (True, (buf @ take i s @ rep) @ join rep ps)"
      using Suc.IH [of ?t True "buf @ take i s @ rep"] by auto
    have "split_at find_s (Suc occ) s (take i s # ps)"
      by (rule split_at.piece [OF i(2) _ ps(1)]) (use i(3,4) in auto)
    moreover have "ps \<noteq> []"
      using split_at_join [OF ps(1)] by simp
    then have "join rep (take i s # ps) = take i s @ rep @ join rep ps" "1 < length (take i s # ps)"
      by (cases ps; simp)+
    ultimately show ?thesis
      using r ps(2) by (intro exI [of _ "take i s # ps"]) simp
  next
    case False
    then have "replace_loop find_s rep (Suc occ) s found buf = (found, buf @ s)"
      by (subst replace_loop.simps) auto
    moreover have "\<forall>j<length s. \<not> starts find_s (drop j s)"
      using False strstr_first [OF assms, of s] by (auto simp: find_None_iff split: option.splits)
    ultimately show ?thesis
      by (intro exI [of _ "[s]"]) (simp add: split_at.rest)
  qed
qed



section \<open>Addresses\<close>

lemma dec_all: "c \<in> set (dec u) \<Longrightarrow> is_dec c"
proof (induction u rule: dec.induct)
  case (1 u)
  then show ?case
    by (cases "u = 0") (auto simp: dec.simps [of u])
qed

lemma byte_text:
  fixes b :: u8
  shows "uint_text (ucast b) 4 = dec_text (unat b)" "length (dec_text (unat b)) \<le> 3" "CHR ''.'' \<notin> set (dec_text (unat b))"
proof -
  have "unat b < 2 ^ 8"
    using unsigned_less [of b] by simp
  then have b: "unat b < 10 ^ 3"
    by simp
  show len: "length (dec_text (unat b)) \<le> 3"
    using dec_text_length [OF b] by simp
  have "unat (ucast b :: u32) < 10 ^ 11"
    using b by simp
  then have "dec_digits 11 (unat (ucast b :: u32)) = dec_text (unat b)"
    by (simp add: dec_digits_eq dec_text_def)
  then show "uint_text (ucast b) 4 = dec_text (unat b)"
    using len by (simp add: uint_text_def Uint32ToString_def fit_padded_def)
  show "CHR ''.'' \<notin> set (dec_text (unat b))"
    using dec_all [of "CHR ''.''" "unat b"] by (auto simp: dec_text_def is_dec_def)
qed

lemma read_octet:
  fixes b :: u8
  assumes "s = [] \<or> hd s = CHR ''.''"
  shows "StringToUint8 (Some (dec_text (unat b) @ s)) 3 = b"
proof (cases "unat b = 0")
  case True
  then have "b = 0"
    by (simp add: unat_eq_0)
  then show ?thesis
    using assms by (cases s) (auto simp: StringToUint8_def string_to_word_def dec_text_def is_dec_def)
next
  case False
  then obtain k r where k: "dec (unat b) = dec_char k # r" "0 < k" "k < 10"
    by (rule dec_first)
  then have "skip_chars {CHR ''0'', CHR '' '', CHR 0x22} 3 (dec (unat b) @ s) = (3, dec (unat b) @ s)"
    using not_zero_digit [of k] by auto
  moreover have "read_digits n v s = v" for n and v :: u8
    using assms by (cases s) (auto simp: is_dec_def)
  moreover have "length (dec (unat b)) \<le> 3"
    using byte_text(2) [of b] False by (simp add: dec_text_def)
  ultimately show ?thesis
    using False by (simp add: StringToUint8_def string_to_word_def dec_text_def read_digits_dec)
qed

lemma ip_scan_skip:
  "CHR ''.'' \<notin> set d \<Longrightarrow> i + length d \<le> len \<Longrightarrow> ip_scan len i (d @ s) ip = ip_scan len (i + length d) s ip"
  by (induction d arbitrary: i) auto

lemma ip_scan_octet:
  assumes "i + 1 + length (dec_text (unat b)) \<le> len" "length ip < 4" "s = [] \<or> hd s = CHR ''.''"
  shows "ip_scan len i (''.'' @ dec_text (unat b) @ s) ip = ip_scan len (i + 1 + length (dec_text (unat b))) s (ip @ [b :: u8])"
  using assms ip_scan_skip [OF byte_text(3) [of b], of "i + 1" len s "ip @ [b]"] read_octet [OF assms(3), of b] by simp

lemma ip_loop_room:
  "length out + 4 * length bs \<le> len \<Longrightarrow> ip_loop len bs out = out @ join ''.'' (map (\<lambda>b. dec_text (unat b)) bs)"
proof (induction len bs out rule: ip_loop.induct)
  case (2 len b bs out)
  have l: "length (dec_text (unat b)) \<le> 3"
    by (rule byte_text(2))
  have "take (len - Suc (length out)) (dec_text (unat b)) = dec_text (unat b)"
    using l 2(2) by simp
  moreover have "join ''.'' (map (\<lambda>b. dec_text (unat b)) (b # bs)) =
      dec_text (unat b) @ (if bs = [] then [] else ''.'' @ join ''.'' (map (\<lambda>b. dec_text (unat b)) bs))"
    by (cases bs) simp_all
  moreover have "length out + length (dec_text (unat b)) < len - 1" if "bs \<noteq> []"
    using 2(2) l that by (cases bs) auto
  ultimately show ?case
    using 2 l by (cases "bs = []") (simp_all add: byte_text(1) Let_def)
qed simp

text \<open>
  A four-byte address written as dotted decimals into a buffer of at least 16 bytes reads back as
  its four bytes, whatever was in them before.
\<close>

lemma ip_roundtrip:
  assumes "length ip = 4" and "16 \<le> len"
  shows "\<exists>t. int_ip_to_str ip len = Some t \<and> length t < len \<and> str_ip_to_int t old len = ip @ drop 4 old"
proof -
  obtain a b c d where ip: "ip = [a, b, c, d]"
    using assms(1) by (auto simp: numeral_eq_Suc length_Suc_conv)
  let ?D = "\<lambda>b :: u8. dec_text (unat b)"
  let ?t = "?D a @ ''.'' @ ?D b @ ''.'' @ ?D c @ ''.'' @ ?D d"
  have len: "length ?t \<le> 15"
    using byte_text(2) [of a] byte_text(2) [of b] byte_text(2) [of c] byte_text(2) [of d] by simp
  have tx: "int_ip_to_str ip len = Some ?t"
    using ip_loop_room [of "[]" ip len] assms by (simp add: int_ip_to_str_def ip del: ip_loop.simps)
  define s3 s2 s1 where "s3 = ''.'' @ ?D d @ []" and "s2 = ''.'' @ ?D c @ s3" and "s1 = ''.'' @ ?D b @ s2"
  have hd: "hd s3 = CHR ''.''" "hd s2 = CHR ''.''"
    by (simp_all add: s3_def s2_def)
  define n1 n2 n3 where "n1 = length (?D a)" and "n2 = n1 + 1 + length (?D b)" and "n3 = n2 + 1 + length (?D c)"
  have n: "n3 + 1 + length (?D d) \<le> len" "n2 + 1 + length (?D c) \<le> len" "n1 + 1 + length (?D b) \<le> len" "n1 \<le> len"
    using len assms(2) by (simp_all add: n1_def n2_def n3_def)
  have "ip_scan len 0 ?t [a] = ip_scan len n1 s1 [a]"
    using ip_scan_skip [OF byte_text(3) [of a], of 0 len s1 "[a]"] n(4) by (simp add: s1_def s2_def s3_def n1_def del: ip_scan.simps)
  also have "\<dots> = ip_scan len n2 s2 [a, b]"
    using ip_scan_octet [OF n(3), of "[a]" s2] hd(2) by (simp add: s1_def n2_def del: ip_scan.simps)
  also have "\<dots> = ip_scan len n3 s3 [a, b, c]"
    using ip_scan_octet [OF n(2), of "[a, b]" s3] hd(1) by (simp add: s2_def n3_def del: ip_scan.simps)
  also have "\<dots> = ip_scan len (n3 + 1 + length (?D d)) [] [a, b, c, d]"
    using ip_scan_octet [OF n(1), of "[a, b, c]" "[]"] by (simp add: s3_def del: ip_scan.simps)
  finally have "ip_scan len 0 ?t [a] = [a, b, c, d]"
    by simp
  then have "str_ip_to_int ?t old len = ip @ drop 4 old"
    using read_octet [of "''.'' @ ?D b @ ''.'' @ ?D c @ ''.'' @ ?D d" a] by (simp add: str_ip_to_int_def Let_def ip numeral_eq_Suc del: ip_scan.simps)
  then show ?thesis
    using tx len assms(2) by (intro exI [of _ ?t]) simp
qed

end
