(* ===== verification/Cron.thy ===== *)
theory Cron
  imports StrOps ConvertProps
begin

text \<open>
  The table of timed jobs (\<^verbatim>\<open>src/src/service_provider/cron/CronServiceProvider.cpp\<close>): the grammar of
  one field, the reading of a row, and one pass over the table. The lines \<open>readLineInFile\<close> answers
  one after the other until it fails are the table, and \<open>None\<close> is a table file that does not exist.
\<close>

section \<open>Fields\<close>

definition parseNumber :: "string \<Rightarrow> u32 option" where
  "parseNumber s = (if s = [] \<or> \<not> list_all is_digit s then None else Some (StringToUint32 (Some s) (length s mod 256)))"

text \<open>The part before a separator, and what follows it when it is there.\<close>

definition cut_at :: "char \<Rightarrow> string \<Rightarrow> string \<times> string option" where
  "cut_at c s = (takeWhile (\<lambda>x. x \<noteq> c) s, case dropWhile (\<lambda>x. x \<noteq> c) s of [] \<Rightarrow> None | _ # r \<Rightarrow> Some r)"

lemma cut_at_shorter: "cut_at c s = (a, Some r) \<Longrightarrow> length r < length s"
  using length_dropWhile_le [of "\<lambda>x. x \<noteq> c" s] by (auto simp: cut_at_def split: list.splits)

text \<open>The first and the last value an item without its step names.\<close>

definition item_range :: "string \<Rightarrow> u8 \<Rightarrow> u8 \<Rightarrow> (u32 \<times> u32) option" where
  "item_range item lo hi =
     (if item = [] then None
      else if item = ''*'' then Some (ucast lo, ucast hi)
      else case cut_at (CHR ''-'') item of
             (lostr, Some histr) \<Rightarrow>
               (case (parseNumber lostr, parseNumber histr) of (Some a, Some b) \<Rightarrow> Some (a, b) | _ \<Rightarrow> None)
           | (_, None) \<Rightarrow> map_option (\<lambda>a. (a, a)) (parseNumber item))"

definition item_matches :: "string \<Rightarrow> u8 \<Rightarrow> u8 \<Rightarrow> u8 \<Rightarrow> bool" where
  "item_matches item value lo hi =
     (if item = [] then False
      else case cut_at (CHR 0x2F) item of (body, stepstr) \<Rightarrow>
        case (case stepstr of None \<Rightarrow> Some 1 | Some t \<Rightarrow> parseNumber t) of
          None \<Rightarrow> False
        | Some step \<Rightarrow>
            if step = 0 then False
            else case item_range body lo hi of
                   None \<Rightarrow> False
                 | Some (a, b) \<Rightarrow>
                     if a < ucast lo \<or> b > ucast hi \<or> a > b then False
                     else if ucast value < a \<or> ucast value > b then False
                     else (ucast value - a) mod step = 0)"

function field_loop :: "string \<Rightarrow> u8 \<Rightarrow> u8 \<Rightarrow> u8 \<Rightarrow> bool" where
  "field_loop spec value lo hi =
     (case cut_at (CHR '','') spec of
        (item, rest) \<Rightarrow>
          if item_matches item value lo hi then True
          else case rest of None \<Rightarrow> False | Some spec' \<Rightarrow> field_loop spec' value lo hi)"
  by pat_completeness auto
termination
  by (relation "measure (\<lambda>(spec, _). length spec)") (auto dest: cut_at_shorter [OF sym])

declare field_loop.simps [simp del]

definition fieldMatches :: "string \<Rightarrow> u8 \<Rightarrow> u8 \<Rightarrow> u8 \<Rightarrow> bool" where
  "fieldMatches spec value lo hi = (if spec = [] \<or> value < lo \<or> value > hi then False else field_loop spec value lo hi)"

section \<open>Rows and the table\<close>

fun row_fields :: "nat \<Rightarrow> string \<Rightarrow> (string list \<times> string) option" where
  "row_fields 0 s = Some ([], s)"
| "row_fields (Suc n) s =
     (let w = takeWhile (\<lambda>c. \<not> is_blank c) s
      in if w = [] then None
         else map_option (\<lambda>(ws, r). (w # ws, r)) (row_fields n (dropWhile is_blank (drop (length w) s))))"

definition parseRow :: "string \<Rightarrow> (string list \<times> string) option" where
  "parseRow line =
     (let s = dropWhile is_blank line
      in if s = [] \<or> hd s = CHR 0x23 then None
         else case row_fields 5 s of
                None \<Rightarrow> None
              | Some (specs, command) \<Rightarrow> if command = [] then None else Some (specs, command))"

definition rowMatches :: "string list \<Rightarrow> datetime_t \<Rightarrow> bool" where
  "rowMatches specs now \<longleftrightarrow>
     fieldMatches (specs ! 0) (m_minute now) 0 59 \<and> fieldMatches (specs ! 1) (m_hour now) 0 23
     \<and> fieldMatches (specs ! 2) (m_day now) 1 31 \<and> fieldMatches (specs ! 3) (m_month now) 1 12
     \<and> fieldMatches (specs ! 4) (m_weekday now) 0 6"

text \<open>What a pass does outside: a command started on its own as user 0, or a line on the terminal.\<close>

datatype cron_action = RunDetached string nat | Writeln string

definition CRON_MAX_ENTRIES :: nat where "CRON_MAX_ENTRIES = 8"

fun scan_rows :: "datetime_t \<Rightarrow> bool \<Rightarrow> bool \<Rightarrow> nat \<Rightarrow> nat \<Rightarrow> string list \<Rightarrow> nat \<times> cron_action list" where
  "scan_rows now dryrun term taken fired [] = (fired, [])"
| "scan_rows now dryrun term taken fired (line # table) =
     (if taken < CRON_MAX_ENTRIES
      then case parseRow line of
             None \<Rightarrow> scan_rows now dryrun term taken fired table
           | Some (specs, command) \<Rightarrow>
               if \<not> rowMatches specs now then scan_rows now dryrun term (taken + 1) fired table
               else case scan_rows now dryrun term (taken + 1) (fired + 1) table of
                      (n, acts) \<Rightarrow>
                        (n, (if dryrun then (if term then [Writeln command] else []) else [RunDetached command 0]) @ acts)
      else (fired, []))"

definition runDueJobs :: "datetime_t \<Rightarrow> bool \<Rightarrow> bool \<Rightarrow> string list option \<Rightarrow> nat \<times> cron_action list" where
  "runDueJobs now dryrun term table =
     (if \<not> m_valid now then (0, [])
      else case table of None \<Rightarrow> (0, []) | Some rows \<Rightarrow> scan_rows now dryrun term 0 0 rows)"

section \<open>The meaning of a field\<close>

text \<open>Fields as their grammar has them, and the values they stand for.\<close>

datatype cron_range = Any | At nat | Between nat nat

type_synonym cron_item = "cron_range \<times> nat option"

fun range_text :: "cron_range \<Rightarrow> string" where
  "range_text Any = ''*''"
| "range_text (At n) = dec_text n"
| "range_text (Between a b) = dec_text a @ ''-'' @ dec_text b"

fun item_text :: "cron_item \<Rightarrow> string" where
  "item_text (r, None) = range_text r"
| "item_text (r, Some s) = range_text r @ [CHR 0x2F] @ dec_text s"

fun field_text :: "cron_item list \<Rightarrow> string" where
  "field_text [] = []"
| "field_text [i] = item_text i"
| "field_text (i # is) = item_text i @ '','' @ field_text is"

fun range_bounds :: "nat \<Rightarrow> nat \<Rightarrow> cron_range \<Rightarrow> nat \<times> nat" where
  "range_bounds lo hi Any = (lo, hi)"
| "range_bounds lo hi (At n) = (n, n)"
| "range_bounds lo hi (Between a b) = (a, b)"

fun item_numbers :: "cron_item \<Rightarrow> nat set" where
  "item_numbers (r, st) = set_option st \<union> (case r of Any \<Rightarrow> {} | At n \<Rightarrow> {n} | Between a b \<Rightarrow> {a, b})"

text \<open>The values from the first on by steps up to the last; a range that leaves \<open>lo\<close> to \<open>hi\<close> has none.\<close>

fun item_values :: "nat \<Rightarrow> nat \<Rightarrow> cron_item \<Rightarrow> nat set" where
  "item_values lo hi (r, st) =
     (case range_bounds lo hi r of
        (a, b) \<Rightarrow> if lo \<le> a \<and> b \<le> hi then {v. \<exists>k. v = a + k * case_option 1 id st \<and> v \<le> b \<and> st \<noteq> Some 0} else {})"

lemma digit_facts:
  assumes "k < 10"
  shows "is_digit (dec_char k)" "dec_char k \<noteq> CHR '',''" "dec_char k \<noteq> CHR ''-''" "dec_char k \<noteq> CHR 0x2F" "dec_char k \<noteq> CHR ''*''"
proof -
  show "is_digit (dec_char k)"
    using assms by (simp add: is_digit_def of_char_dec)
  show "dec_char k \<noteq> CHR '',''" "dec_char k \<noteq> CHR ''-''" "dec_char k \<noteq> CHR 0x2F" "dec_char k \<noteq> CHR ''*''"
    using of_char_dec [OF assms] by (auto dest: arg_cong [where f = "of_char :: char \<Rightarrow> nat"])
qed

lemma dec_text_set: "c \<in> set (dec_text u) \<Longrightarrow> \<exists>k<10. c = dec_char k"
proof -
  have *: "c \<in> set (dec u) \<Longrightarrow> \<exists>k<10. c = dec_char k" for u
  proof (induction u rule: dec.induct)
    case (1 u)
    then show ?case
      by (subst (asm) dec.simps) (auto split: if_splits intro: exI [of _ "u mod 10"])
  qed
  show "c \<in> set (dec_text u) \<Longrightarrow> \<exists>k<10. c = dec_char k"
    using * [of u] dec_text_first [of u] by (auto simp: dec_text_def split: if_splits)
qed

lemma dec_text_free: "CHR '','' \<notin> set (dec_text u)" "CHR ''-'' \<notin> set (dec_text u)" "CHR 0x2F \<notin> set (dec_text u)" "dec_text u \<noteq> ''*''"
  using digit_facts dec_text_set [of _ u] by (metis, metis, metis, metis list.set_intros(1))

lemma dec_text_nonempty: "dec_text u \<noteq> []"
  by (rule dec_text_first [of u]) simp

lemma parseNumber_text [simp]:
  assumes "u < 2 ^ 32"
  shows "parseNumber (dec_text u) = Some (of_nat u)"
proof -
  have len: "length (dec_text u) \<le> 10"
    using assms by (intro dec_text_length) simp_all
  have "list_all is_digit (dec_text u)"
    using dec_text_set [of _ u] digit_facts(1) by (auto simp: list_all_iff)
  then show ?thesis
    using string_to_word_dec [of u "length (dec_text u)" 0] len dec_text_nonempty [of u] by (simp add: parseNumber_def StringToUint32_def)
qed

lemma cut_at_simps:
  assumes "c \<notin> set a"
  shows "cut_at c a = (a, None)" "cut_at c (a @ c # b) = (a, Some b)"
proof -
  have all: "takeWhile (\<lambda>x. x \<noteq> c) a = a" "dropWhile (\<lambda>x. x \<noteq> c) a = []"
    using assms by (auto simp: takeWhile_eq_all_conv dropWhile_eq_Nil_conv)
  then show "cut_at c a = (a, None)"
    by (simp only: cut_at_def list.case)
  have "takeWhile (\<lambda>x. x \<noteq> c) (a @ c # b) = a" "dropWhile (\<lambda>x. x \<noteq> c) (a @ c # b) = c # b"
    using assms by (subst takeWhile_append2 dropWhile_append2; auto)+
  then show "cut_at c (a @ c # b) = (a, Some b)"
    by (simp add: cut_at_def)
qed

lemma range_text_free: "CHR '','' \<notin> set (range_text r)" "CHR 0x2F \<notin> set (range_text r)" "range_text r \<noteq> []"
proof -
  show "CHR '','' \<notin> set (range_text r)" "CHR 0x2F \<notin> set (range_text r)"
    using dec_text_free by (cases r; simp)+
  show "range_text r \<noteq> []"
    using dec_text_nonempty by (cases r) auto
qed

lemma item_range_text:
  assumes "\<forall>n \<in> item_numbers (r, None). n < 2 ^ 32"
  shows "item_range (range_text r) lo hi = (case range_bounds (unat lo) (unat hi) r of (a, b) \<Rightarrow> Some (of_nat a, of_nat b))"
proof (cases r)
  case Any
  then show ?thesis
    by (simp add: item_range_def)
next
  case (At n)
  then have "n < 2 ^ 32"
    using assms by simp
  then show ?thesis
    using At range_text_free(3) [of r] dec_text_free [of n] by (simp add: item_range_def cut_at_simps)
next
  case (Between a b)
  have "a < 2 ^ 32" "b < 2 ^ 32"
    using assms Between by simp_all
  then show ?thesis
    using Between dec_text_free [of a] dec_text_free [of b] cut_at_simps(2) [of "CHR ''-''" "dec_text a" "dec_text b"]
    by (auto simp: item_range_def Cons_eq_append_conv append_eq_Cons_conv)
qed

lemma step_values:
  fixes v :: u8
  assumes "a < 2 ^ 32" "b < 2 ^ 32" "st < 2 ^ 32" "0 < st"
  shows "(\<not> (of_nat a < (ucast lo :: u32) \<or> of_nat b > (ucast (hi :: u8) :: u32) \<or> (of_nat a :: u32) > of_nat b)
      \<and> \<not> (ucast v < (of_nat a :: u32) \<or> ucast v > (of_nat b :: u32)) \<and> (ucast v - of_nat a) mod (of_nat st :: u32) = 0)
    \<longleftrightarrow> unat (lo :: u8) \<le> a \<and> b \<le> unat hi \<and> (\<exists>k. unat v = a + k * st \<and> unat v \<le> b)"
proof -
  have u: "unat (of_nat a :: u32) = a" "unat (of_nat b :: u32) = b" "unat (of_nat st :: u32) = st"
    using assms by (simp_all add: unat_of_nat)
  have c: "unat (ucast x :: u32) = unat (x :: u8)" for x
    by simp
  have diff: "(ucast v - of_nat a) mod (of_nat st :: u32) = 0 \<longleftrightarrow> (\<exists>k. unat v = a + k * st)" if "a \<le> unat v"
  proof -
    have "unat ((ucast v - of_nat a) mod (of_nat st :: u32)) = (unat v - a) mod st"
      using that by (simp add: unat_mod u c unat_sub word_le_nat_alt)
    then have "(ucast v - of_nat a) mod (of_nat st :: u32) = 0 \<longleftrightarrow> st dvd unat v - a"
      by (metis dvd_eq_mod_eq_0 unat_eq_zero)
    also have "\<dots> \<longleftrightarrow> (\<exists>k. unat v = a + k * st)"
      using that by (auto simp: dvd_def mult.commute) (metis le_add_diff_inverse)
    finally show ?thesis .
  qed
  show ?thesis
  proof (cases "a \<le> unat v")
    case True
    show ?thesis
      unfolding diff [OF True] using True by (auto simp: word_less_nat_alt u c not_less)
  next
    case False
    then show ?thesis
      by (auto simp: word_less_nat_alt u c not_less)
  qed
qed

lemma unat_u8_less: "unat (x :: u8) < 256"
  using unsigned_less [of x] by simp

lemma item_matches_text:
  assumes "\<forall>n \<in> item_numbers i. n < 2 ^ 32"
  shows "item_matches (item_text i) v lo hi \<longleftrightarrow> unat v \<in> item_values (unat lo) (unat hi) i"
proof -
  obtain r st where i: "i = (r, st)"
    by force
  obtain a b where ab: "range_bounds (unat lo) (unat hi) r = (a, b)"
    by force
  have small: "unat lo < 2 ^ 32" "unat hi < 2 ^ 32"
    using unat_u8_less [of lo] unat_u8_less [of hi] by simp_all
  then have num: "a < 2 ^ 32" "b < 2 ^ 32" "\<forall>n \<in> item_numbers (r, None). n < 2 ^ 32" "\<forall>n. st = Some n \<longrightarrow> n < 2 ^ 32"
    using assms ab i by (cases r; auto)+
  define k where "k = (case st of None \<Rightarrow> 1 | Some n \<Rightarrow> n)"
  have k: "k < 2 ^ 32"
    using num(4) by (simp add: k_def split: option.split)
  have cut: "cut_at (CHR 0x2F) (item_text i) = (range_text r, map_option dec_text st)"
    using range_text_free(2) [of r] by (cases st) (simp_all add: i cut_at_simps)
  have ne: "item_text i \<noteq> []"
    using range_text_free(3) [of r] by (cases st) (simp_all add: i)
  have step: "(case map_option dec_text st of None \<Rightarrow> Some 1 | Some t \<Rightarrow> parseNumber t) = Some (of_nat k)"
    using num(4) by (cases st) (simp_all add: k_def)
  have zero: "(of_nat k :: u32) = 0 \<longleftrightarrow> k = 0"
    using k word_of_nat_eq_0_iff [of k, where ?'a = 32] by (auto dest: dvd_imp_le)
  have split: "(if x then False else if p then False else if q then False else y) \<longleftrightarrow> \<not> x \<and> \<not> p \<and> \<not> q \<and> y" for x p q y
    by simp
  have "item_matches (item_text i) v lo hi \<longleftrightarrow> k \<noteq> 0 \<and> unat lo \<le> a \<and> b \<le> unat hi \<and> (\<exists>j. unat v = a + j * k \<and> unat v \<le> b)"
    by (simp only: item_matches_def ne cut step zero ab item_range_text [OF num(3), of lo hi] prod.case option.case if_False split neq0_conv)
      (rule conj_cong [OF refl step_values [OF num(1,2) k]])
  also have "\<dots> \<longleftrightarrow> unat v \<in> item_values (unat lo) (unat hi) i"
    by (auto simp: i ab k_def split: option.splits)
  finally show ?thesis .
qed

lemma item_text_free: "CHR '','' \<notin> set (item_text i)" "item_text i \<noteq> []"
  using range_text_free dec_text_free by (cases i rule: item_text.cases; simp)+

lemma field_loop_text:
  assumes "is \<noteq> []" "\<forall>i \<in> set is. \<forall>n \<in> item_numbers i. n < 2 ^ 32"
  shows "field_loop (field_text is) v lo hi \<longleftrightarrow> (\<exists>i \<in> set is. unat v \<in> item_values (unat lo) (unat hi) i)"
  using assms
proof (induction "is" rule: field_text.induct)
  case (2 i)
  then show ?case
    by (subst field_loop.simps) (simp add: cut_at_simps item_text_free item_matches_text del: item_text.simps item_values.simps)
next
  case (3 i j "is")
  have "cut_at (CHR '','') (field_text (i # j # is)) = (item_text i, Some (field_text (j # is)))"
    using cut_at_simps(2) [OF item_text_free(1)] by simp
  then show ?case
    using 3 by (subst field_loop.simps) (simp add: item_matches_text del: item_text.simps item_values.simps field_text.simps)
qed simp

lemma field_text_nonempty: "is \<noteq> [] \<Longrightarrow> field_text is \<noteq> []"
  using item_text_free(2) by (cases "is" rule: field_text.cases) (auto simp del: item_text.simps)


definition sample_items :: "cron_item list" where
  "sample_items = [(Between 10 30, Some 5), (At 7, None)]"


end
