(* ===== verification/Clock.thy ===== *)
theory Clock
  imports Convert
begin

text \<open>
  Events and the clock that raises them: the registry of listeners
  (\<^verbatim>\<open>src/src/utility/EventUtil.cpp\<close>, \<^verbatim>\<open>src/src/config/EventConfig.h\<close>) and the time service
  (\<^verbatim>\<open>src/src/service_provider/time/TimeServiceProvider.cpp\<close>). What a listener does is the argument
  \<open>call\<close> of a dispatch, a function of the registry and of the rest of the system, since a listener may
  itself add and remove listeners. An \<open>int16_t\<close> id and an \<open>int64_t\<close> time are integers.
\<close>

section \<open>The registry of listeners\<close>

datatype event_name = EVENT_WIFI_STA_CONNECTED | EVENT_WIFI_STA_GOT_IP | EVENT_WIFI_STA_DISCONNECTED
  | EVENT_WIFI_AP_STACONNECTED | EVENT_WIFI_AP_STADISCONNECTED | EVENT_WIFI_INTERNET_UP | EVENT_WIFI_INTERNET_DOWN
  | EVENT_FACTORY_RESET | EVENT_SERIAL_AVAILABLE | EVENT_TIME_SYNC | EVENT_TIME_SECOND | EVENT_TIME_MINUTE | EVENT_NAME_MAX

definition EVENT_LISTENER_ID_INVALID :: int where "EVENT_LISTENER_ID_INVALID = -1"
definition MAX_EVENT_LISTENER_ID :: int where "MAX_EVENT_LISTENER_ID = 32000"
definition MAX_EVENT_LISTENERS :: nat where "MAX_EVENT_LISTENERS = 25"

record 'h event_listener =
  ev_event :: event_name
  ev_handler :: "'h option"
  ev_id :: int

record 'h EventUtil =
  m_event_listeners :: "'h event_listener list"
  m_next_listener_id :: int

definition EventUtil_new :: "'h EventUtil" where
  "EventUtil_new = \<lparr>m_event_listeners = [], m_next_listener_id = 1\<rparr>"

definition add_event_listener :: "event_name \<Rightarrow> 'h option \<Rightarrow> 'h EventUtil \<Rightarrow> int \<times> 'h EventUtil" where
  "add_event_listener ev h u =
     (let lid = m_next_listener_id u;
          u = u\<lparr>m_next_listener_id := (if lid \<ge> MAX_EVENT_LISTENER_ID then 1 else lid + 1)\<rparr>;
          l = \<lparr>ev_event = ev, ev_handler = h, ev_id = lid\<rparr>;
          ls = m_event_listeners u
      in case List.find (\<lambda>i. ev_event (ls ! i) = EVENT_NAME_MAX) [0..<length ls] of
           Some i \<Rightarrow> (lid, u\<lparr>m_event_listeners := ls[i := l]\<rparr>)
         | None \<Rightarrow> if length ls < MAX_EVENT_LISTENERS then (lid, u\<lparr>m_event_listeners := ls @ [l]\<rparr>)
                   else (EVENT_LISTENER_ID_INVALID, u))"

text \<open>A released slot keeps its handler.\<close>

definition remove_event_listener :: "int \<Rightarrow> 'h EventUtil \<Rightarrow> bool \<times> 'h EventUtil" where
  "remove_event_listener lid u =
     (if lid = EVENT_LISTENER_ID_INVALID then (False, u)
      else
        let ls = m_event_listeners u in
        case List.find (\<lambda>i. ev_id (ls ! i) = lid) [0..<length ls] of
          Some i \<Rightarrow> (True, u\<lparr>m_event_listeners := ls[i := (ls ! i)\<lparr>ev_event := EVENT_NAME_MAX, ev_id := EVENT_LISTENER_ID_INVALID\<rparr>]\<rparr>)
        | None \<Rightarrow> (False, u))"

text \<open>
  The slots are read again after every handler. No more than \<open>MAX_EVENT_LISTENERS\<close> of them ever
  exist, so that many turns see all of them.
\<close>

fun execute_loop :: "('h \<Rightarrow> 'a \<Rightarrow> 'h EventUtil \<times> 'w \<Rightarrow> 'h EventUtil \<times> 'w) \<Rightarrow> event_name \<Rightarrow> 'a \<Rightarrow> nat \<Rightarrow> nat \<Rightarrow> 'h EventUtil \<times> 'w \<Rightarrow> 'h EventUtil \<times> 'w" where
  "execute_loop call ev arg 0 i s = s"
| "execute_loop call ev arg (Suc n) i s =
     (let ls = m_event_listeners (fst s) in
      if i < length ls
      then execute_loop call ev arg n (i + 1)
             (case ev_handler (ls ! i) of None \<Rightarrow> s | Some h \<Rightarrow> if ev_event (ls ! i) = ev then call h arg s else s)
      else s)"

definition execute_event :: "('h \<Rightarrow> 'a \<Rightarrow> 'h EventUtil \<times> 'w \<Rightarrow> 'h EventUtil \<times> 'w) \<Rightarrow> event_name \<Rightarrow> 'a \<Rightarrow> 'h EventUtil \<times> 'w \<Rightarrow> 'h EventUtil \<times> 'w" where
  "execute_event call ev arg s = execute_loop call ev arg MAX_EVENT_LISTENERS 0 s"

section \<open>The time service\<close>

definition TZ_SEC :: int where "TZ_SEC = 19800"

record TimeServiceProvider =
  m_now :: datetime_t
  m_uptime_seconds :: int
  m_last_millis :: u32
  m_millis_carry :: u32
  m_last_second :: int
  m_last_minute :: int
  m_announced_valid :: bool

definition time_resetServiceState :: "u32 \<Rightarrow> TimeServiceProvider" where
  "time_resetServiceState millis =
     \<lparr>m_now = datetime_new, m_uptime_seconds = 0, m_last_millis = millis, m_millis_carry = 0,
      m_last_second = -1, m_last_minute = -1, m_announced_valid = False\<rparr>"

text \<open>The seconds since the start, from the wrapping millisecond counter.\<close>

definition count_uptime :: "u32 \<Rightarrow> TimeServiceProvider \<Rightarrow> TimeServiceProvider" where
  "count_uptime millis t =
     (let elapsed = millis - m_last_millis t; carry = m_millis_carry t + elapsed in
      if carry \<ge> 1000
      then t\<lparr>m_last_millis := millis, m_uptime_seconds := m_uptime_seconds t + uint (carry div 1000), m_millis_carry := carry mod 1000\<rparr>
      else t\<lparr>m_last_millis := millis, m_millis_carry := carry\<rparr>)"

text \<open>The instant shown: the network time when there is a valid one, else the uptime.\<close>

definition show_instant :: "int option \<Rightarrow> TimeServiceProvider \<Rightarrow> TimeServiceProvider" where
  "show_instant ntp t =
     (let utc = (case ntp of None \<Rightarrow> m_uptime_seconds t | Some e \<Rightarrow> e)
      in t\<lparr>m_now := (EpochToDateTime (word_of_int (utc + TZ_SEC)) (m_now t))\<lparr>m_epoch := utc, m_valid := (ntp \<noteq> None)\<rparr>\<rparr>)"

definition quot60 :: "int \<Rightarrow> int" where
  "quot60 x = (if x < 0 then - (- x div 60) else x div 60)"

definition announce_sync :: "(event_name \<Rightarrow> datetime_t \<Rightarrow> 's \<Rightarrow> 's) \<Rightarrow> TimeServiceProvider \<times> 's \<Rightarrow> TimeServiceProvider \<times> 's" where
  "announce_sync raise = (\<lambda>(t, s).
     if m_valid (m_now t) \<noteq> m_announced_valid t
     then (t\<lparr>m_announced_valid := m_valid (m_now t), m_last_second := -1, m_last_minute := -1\<rparr>, raise EVENT_TIME_SYNC (m_now t) s)
     else (t, s))"

definition announce_second :: "(event_name \<Rightarrow> datetime_t \<Rightarrow> 's \<Rightarrow> 's) \<Rightarrow> TimeServiceProvider \<times> 's \<Rightarrow> TimeServiceProvider \<times> 's" where
  "announce_second raise = (\<lambda>(t, s).
     if m_epoch (m_now t) \<noteq> m_last_second t
     then (t\<lparr>m_last_second := m_epoch (m_now t)\<rparr>, raise EVENT_TIME_SECOND (m_now t) s)
     else (t, s))"

definition announce_minute :: "(event_name \<Rightarrow> datetime_t \<Rightarrow> 's \<Rightarrow> 's) \<Rightarrow> TimeServiceProvider \<times> 's \<Rightarrow> TimeServiceProvider \<times> 's" where
  "announce_minute raise = (\<lambda>(t, s).
     if quot60 (m_epoch (m_now t)) \<noteq> m_last_minute t
     then (t\<lparr>m_last_minute := quot60 (m_epoch (m_now t))\<rparr>, raise EVENT_TIME_MINUTE (m_now t) s)
     else (t, s))"

text \<open>One tick, given the millisecond counter, the network time if valid, and how an event is raised.\<close>

definition time_tick :: "(event_name \<Rightarrow> datetime_t \<Rightarrow> 's \<Rightarrow> 's) \<Rightarrow> u32 \<times> int option \<Rightarrow> TimeServiceProvider \<times> 's \<Rightarrow> TimeServiceProvider \<times> 's" where
  "time_tick raise = (\<lambda>(millis, ntp) (t, s).
     announce_minute raise (announce_second raise (announce_sync raise (show_instant ntp (count_uptime millis t), s))))"

section \<open>Listeners of the minute\<close>

text \<open>
  What is asked of the system around the clock: some of its states are the usual ones, raising an
  event keeps them so, and what it has done (\<open>done_log\<close>) grows only on the minute of a valid clock, by
  work that depends on the minute alone.
\<close>

definition instant :: "int \<Rightarrow> datetime_t \<Rightarrow> bool" where
  "instant e now \<longleftrightarrow> m_valid now \<and> m_epoch now = e
     \<and> (\<exists>old. now = (EpochToDateTime (word_of_int (e + TZ_SEC)) old)\<lparr>m_epoch := e, m_valid := True\<rparr>)"

definition clock_range :: "int \<Rightarrow> bool" where
  "clock_range e \<longleftrightarrow> 0 \<le> e \<and> e + TZ_SEC < 2 ^ 32"

lemma shown_fields:
  assumes "t' = show_instant ntp (count_uptime millis t)"
  shows "m_valid (m_now t') = (ntp \<noteq> None)" "m_announced_valid t' = m_announced_valid t" "m_last_minute t' = m_last_minute t"
    "ntp = Some e \<Longrightarrow> m_epoch (m_now t') = e" "ntp = Some e \<Longrightarrow> instant e (m_now t')"
  by (auto simp: assms show_instant_def count_uptime_def Let_def instant_def)

locale minute_listener =
  fixes raise :: "event_name \<Rightarrow> datetime_t \<Rightarrow> 's \<Rightarrow> 's"
    and usual :: "'s \<Rightarrow> bool"
    and done_log :: "'s \<Rightarrow> 'a list"
    and work :: "int \<Rightarrow> 'a list"
  assumes raise_usual: "usual s \<Longrightarrow> usual (raise ev now s)"
    and raise_other: "usual s \<Longrightarrow> ev \<in> {EVENT_TIME_SYNC, EVENT_TIME_SECOND} \<or> ev = EVENT_TIME_MINUTE \<and> \<not> m_valid now \<Longrightarrow> done_log (raise ev now s) = done_log s"
    and raise_minute: "usual s \<Longrightarrow> instant e now \<Longrightarrow> clock_range e \<Longrightarrow> done_log (raise EVENT_TIME_MINUTE now s) = done_log s @ work (e div 60)"
begin

text \<open>The minute the clock showed at the last tick, if it was valid then.\<close>

definition last_shown :: "TimeServiceProvider \<Rightarrow> int option" where
  "last_shown t = (if m_announced_valid t then Some (m_last_minute t) else None)"

lemma tick_work:
  assumes s: "usual s" and r: "\<forall>e. ntp = Some e \<longrightarrow> clock_range e" and tick: "time_tick raise (millis, ntp) (t, s) = (t', s')"
  shows "usual s' \<and> last_shown t' = map_option (\<lambda>e. e div 60) ntp
    \<and> done_log s' = done_log s @ (if map_option (\<lambda>e. e div 60) ntp = last_shown t then [] else case_option [] (\<lambda>e. work (e div 60)) ntp)"
proof -
  define u where "u = show_instant ntp (count_uptime millis t)"
  note u = shown_fields [OF u_def]
  have run: "announce_minute raise (announce_second raise (announce_sync raise (u, s))) = (t', s')"
    using tick by (simp add: time_tick_def u_def)
  note defs = announce_sync_def announce_second_def announce_minute_def last_shown_def
  show ?thesis
  proof (cases ntp)
    case None
    then show ?thesis
      using s run u(1-3) raise_usual raise_other by (auto simp: defs split: if_splits)
  next
    case (Some e)
    then have e: "clock_range e" "quot60 e = e div 60" "e div 60 \<noteq> -1"
      using r by (auto simp: quot60_def clock_range_def)
    show ?thesis
      using s run u(1-3) raise_usual raise_other raise_minute [OF _ u(5) [OF Some] e(1)] e u(4) [OF Some] Some
      by (auto simp: defs split: if_splits)
  qed
qed

lemma ticks_work:
  assumes "usual s" "\<forall>(millis, ntp) \<in> set ins. \<forall>e. ntp = Some e \<longrightarrow> clock_range e"
    and "fold (time_tick raise) ins (t, s) = (t', s')"
  shows "usual s' \<and> done_log s' = done_log s
    @ concat (map (case_option [] work) (tl (remdups_adj (last_shown t # map (\<lambda>i. map_option (\<lambda>e. e div 60) (snd i)) ins))))"
  using assms
proof (induction ins arbitrary: t s)
  case (Cons i ins)
  obtain millis ntp where i: "i = (millis, ntp)"
    by force
  obtain t1 s1 where one: "time_tick raise (millis, ntp) (t, s) = (t1, s1)"
    by force
  note w = tick_work [OF Cons.prems(1) _ one]
  have "fold (time_tick raise) ins (t1, s1) = (t', s')"
    using Cons.prems(3) one by (simp add: i)
  then have "usual s' \<and> done_log s' = done_log s1
      @ concat (map (case_option [] work) (tl (remdups_adj (last_shown t1 # map (\<lambda>i. map_option (\<lambda>e. e div 60) (snd i)) ins))))"
    using Cons.IH [of s1 t1] Cons.prems(2) w by (simp add: i)
  then show ?case
    using w Cons.prems(2) by (cases ntp) (auto simp: i remdups_adj_Cons split: list.splits if_splits)
qed simp

text \<open>From a fresh start every minute shown by a valid clock has its work done once, however many ticks fall in it.\<close>

lemma fresh_ticks_work:
  assumes "usual s" "\<forall>(millis, ntp) \<in> set ins. \<forall>e. ntp = Some e \<longrightarrow> clock_range e"
  shows "done_log (snd (fold (time_tick raise) ins (time_resetServiceState m0, s)))
    = done_log s @ concat (map (case_option [] work) (remdups_adj (map (\<lambda>i. map_option (\<lambda>e. e div 60) (snd i)) ins)))"
proof -
  let ?xs = "map (\<lambda>i. map_option (\<lambda>e. e div 60) (snd i)) ins"
  obtain t' s' where run: "fold (time_tick raise) ins (time_resetServiceState m0, s) = (t', s')"
    by force
  have "last_shown (time_resetServiceState m0) = None"
    by (simp add: last_shown_def time_resetServiceState_def)
  moreover have "concat (map (case_option [] work) (tl (remdups_adj (None # ?xs)))) = concat (map (case_option [] work) (remdups_adj ?xs))"
    by (cases ?xs) (auto simp: remdups_adj_Cons split: list.splits)
  ultimately show ?thesis
    using ticks_work [OF assms run] run by simp
qed

end

end
