(* ===== verification/CronRun.thy ===== *)
theory CronRun
  imports Cron Clock
begin

text \<open>
  The cron service on the event registry and the clock
  (\<^verbatim>\<open>src/src/service_provider/cron/CronServiceProvider.cpp\<close>): starting it, stopping it, and its handler
  of the minute event. The handlers of other services are the argument \<open>other\<close>; they work on the rest
  of the system, not on the table of jobs and not on the registry. Creating a missing table
  (\<open>ensureConfigFile\<close>) is the argument \<open>ensure\<close>, and the yields inside a pass are left out.
\<close>

section \<open>The service\<close>

datatype sys_handler = CronMinute | OtherHandler nat

record 'o cron_system =
  m_scanning :: bool
  m_listener_id :: int
  crontab :: "string list option"
  cron_log :: "cron_action list"
  others :: 'o

definition cron_minute :: "datetime_t \<Rightarrow> 'o cron_system \<Rightarrow> 'o cron_system" where
  "cron_minute now w =
     (if \<not> m_valid now \<or> m_scanning w then w
      else
        let w = w\<lparr>m_scanning := True\<rparr>;
            w = w\<lparr>cron_log := cron_log w @ snd (runDueJobs now False False (crontab w))\<rparr>
        in w\<lparr>m_scanning := False\<rparr>)"

definition sys_call :: "(nat \<Rightarrow> datetime_t \<Rightarrow> 'o \<Rightarrow> 'o) \<Rightarrow> sys_handler \<Rightarrow> datetime_t \<Rightarrow> sys_handler EventUtil \<times> 'o cron_system \<Rightarrow> sys_handler EventUtil \<times> 'o cron_system" where
  "sys_call other h now = (\<lambda>(u, w).
     case h of CronMinute \<Rightarrow> (u, cron_minute now w) | OtherHandler k \<Rightarrow> (u, w\<lparr>others := other k now (others w)\<rparr>))"

definition cron_initService :: "(string list option \<Rightarrow> string list option) \<Rightarrow> sys_handler EventUtil \<times> 'o cron_system \<Rightarrow> sys_handler EventUtil \<times> 'o cron_system" where
  "cron_initService ensure = (\<lambda>(u, w).
     case add_event_listener EVENT_TIME_MINUTE (Some CronMinute) u of
       (lid, u) \<Rightarrow> (u, w\<lparr>crontab := ensure (crontab w), m_listener_id := lid\<rparr>))"

definition cron_resetServiceState :: "'o cron_system \<Rightarrow> 'o cron_system" where
  "cron_resetServiceState w = w\<lparr>m_scanning := False, m_listener_id := EVENT_LISTENER_ID_INVALID\<rparr>"

definition cron_stopService :: "sys_handler EventUtil \<times> 'o cron_system \<Rightarrow> sys_handler EventUtil \<times> 'o cron_system" where
  "cron_stopService = (\<lambda>(u, w). (snd (remove_event_listener (m_listener_id w) u), cron_resetServiceState w))"

section \<open>The jobs of a minute\<close>

text \<open>The first rows of the table that read as jobs, those of them whose fields cover the minute.\<close>

definition minute_clock :: "int \<Rightarrow> datetime_t" where
  "minute_clock m = EpochToDateTime (word_of_int (m * 60 + TZ_SEC)) datetime_new"

definition due_jobs :: "string list option \<Rightarrow> int \<Rightarrow> cron_action list" where
  "due_jobs table m =
     (case table of
        None \<Rightarrow> []
      | Some rows \<Rightarrow>
          map (\<lambda>(specs, command). RunDetached command 0)
            (filter (\<lambda>(specs, command). rowMatches specs (minute_clock m)) (take CRON_MAX_ENTRIES (List.map_filter parseRow rows))))"

lemma scan_rows_jobs:
  "snd (scan_rows now False term taken fired rows) =
     map (\<lambda>(specs, command). RunDetached command 0)
       (filter (\<lambda>(specs, command). rowMatches specs now) (take (CRON_MAX_ENTRIES - taken) (List.map_filter parseRow rows)))"
proof (induction rows arbitrary: taken fired)
  case (Cons line rows)
  show ?case
  proof (cases "taken < CRON_MAX_ENTRIES")
    case True
    then have "CRON_MAX_ENTRIES - taken = Suc (CRON_MAX_ENTRIES - Suc taken)"
      by simp
    then show ?thesis
      using True Cons.IH by (auto simp: map_filter_simps case_prod_beta split: option.split)
  qed simp
qed (simp add: map_filter_simps)

text \<open>Hour, minute, day, month and weekday are the same through a minute.\<close>

lemma rowMatches_same:
  "m_minute now = m_minute now' \<Longrightarrow> m_hour now = m_hour now' \<Longrightarrow> m_day now = m_day now' \<Longrightarrow> m_month now = m_month now'
    \<Longrightarrow> m_weekday now = m_weekday now' \<Longrightarrow> rowMatches specs now = rowMatches specs now'"
  by (simp add: rowMatches_def)

lemma minute_parts:
  fixes y :: nat
  shows "y mod 86400 div 3600 = y div 60 mod 1440 div 60" "y mod 86400 mod 3600 div 60 = y div 60 mod 60" "y div 86400 = y div 60 div 1440"
proof -
  have "y mod 86400 = 60 * (y div 60 mod 1440) + y mod 60"
    using mod_mult2_eq [of y 60 1440] by simp
  then have "y mod 86400 div 60 = y div 60 mod 1440"
    by (metis div_mult_self4 mod_less_divisor div_less add_0_right zero_less_numeral zero_neq_numeral)
  then show "y mod 86400 div 3600 = y div 60 mod 1440 div 60"
    using div_mult2_eq [of "y mod 86400" 60 60] by simp
  have "y mod 86400 mod 3600 = 60 * (y div 60 mod 60) + y mod 60"
    using mod_mult2_eq [of y 60 60] by (simp add: mod_mod_cancel)
  then show "y mod 86400 mod 3600 div 60 = y div 60 mod 60"
    by simp
  show "y div 86400 = y div 60 div 1440"
    by (simp add: div_mult2_eq [symmetric])
qed

lemma unat_word_of_int: "0 \<le> z \<Longrightarrow> z < 2 ^ 32 \<Longrightarrow> unat (word_of_int z :: u32) = nat z"
  by (simp add: unsigned_of_int take_bit_int_eq_self)

lemma instant_row:
  assumes "instant e now" "clock_range e"
  shows "rowMatches specs now = rowMatches specs (minute_clock (e div 60))"
proof -
  obtain old where now: "now = (EpochToDateTime (word_of_int (e + TZ_SEC)) old)\<lparr>m_epoch := e, m_valid := True\<rparr>"
    using assms(1) by (auto simp: instant_def)
  define x y where "x = unat (word_of_int (e + TZ_SEC) :: u32)" and "y = unat (word_of_int (e div 60 * 60 + TZ_SEC) :: u32)"
  have e: "0 \<le> e" "e + TZ_SEC < 2 ^ 32"
    using assms(2) by (simp_all add: clock_range_def)
  have le: "0 \<le> e div 60 * 60" "e div 60 * 60 \<le> e"
    using e(1) by (simp_all add: pos_imp_zdiv_nonneg_iff)
  have "x = nat (e + TZ_SEC)" "y = nat (e div 60 * 60 + TZ_SEC)"
    unfolding x_def y_def using e le by (intro unat_word_of_int; simp add: TZ_SEC_def)+
  then have "int x = e + TZ_SEC" "int y = e div 60 * 60 + TZ_SEC"
    using e le by (simp_all add: TZ_SEC_def)
  moreover have "(e + TZ_SEC) div 60 = (e div 60 * 60 + TZ_SEC) div 60"
    by (simp add: TZ_SEC_def)
  ultimately have "int (x div 60) = int (y div 60)"
    by (simp only: zdiv_int of_nat_numeral)
  then have "x div 60 = y div 60"
    by (simp only: of_nat_eq_iff)
  then have eq: "x mod 86400 div 3600 = y mod 86400 div 3600" "x mod 86400 mod 3600 div 60 = y mod 86400 mod 3600 div 60" "x div 86400 = y div 86400"
    by (simp_all add: minute_parts)
  show ?thesis
    by (rule rowMatches_same; unfold now minute_clock_def EpochToDateTime_def Let_def x_def [symmetric] y_def [symmetric] eq)
      (simp_all split: prod.split)
qed

section \<open>Dispatch\<close>

text \<open>The cron handler is registered once, for the minute, and no pass is under way.\<close>

definition cron_slot :: "sys_handler event_listener \<Rightarrow> bool" where
  "cron_slot l \<longleftrightarrow> ev_event l = EVENT_TIME_MINUTE \<and> ev_handler l = Some CronMinute"

definition cron_ready :: "string list option \<Rightarrow> sys_handler EventUtil \<times> 'o cron_system \<Rightarrow> bool" where
  "cron_ready table = (\<lambda>(u, w).
     length (filter cron_slot (m_event_listeners u)) = 1 \<and> length (m_event_listeners u) \<le> MAX_EVENT_LISTENERS
     \<and> (\<forall>l \<in> set (m_event_listeners u). ev_handler l = Some CronMinute \<longrightarrow> ev_event l \<in> {EVENT_TIME_MINUTE, EVENT_NAME_MAX})
     \<and> \<not> m_scanning w \<and> crontab w = table)"

text \<open>A dispatch leaves the registry as it is and runs the pass once for every slot of the service it reaches.\<close>

lemma sys_call_log:
  assumes "\<not> m_scanning w"
  shows "\<exists>w'. sys_call other h now (u, w) = (u, w') \<and> \<not> m_scanning w' \<and> crontab w' = crontab w
    \<and> cron_log w' = cron_log w @ (if h = CronMinute then snd (runDueJobs now False False (crontab w)) else [])"
  using assms by (cases h) (auto simp: sys_call_def cron_minute_def runDueJobs_def)

lemma execute_loop_cron:
  assumes "length (m_event_listeners u) \<le> i + n" "\<not> m_scanning w"
  shows "\<exists>w'. execute_loop (sys_call other) ev now n i (u, w) = (u, w') \<and> \<not> m_scanning w' \<and> crontab w' = crontab w
    \<and> cron_log w' = cron_log w @ concat (replicate (length (filter (\<lambda>l. ev_event l = ev \<and> ev_handler l = Some CronMinute) (drop i (m_event_listeners u))))
        (snd (runDueJobs now False False (crontab w))))"
  using assms
proof (induction n arbitrary: i w)
  case (Suc n)
  show ?case
  proof (cases "i < length (m_event_listeners u)")
    case True
    define l where "l = m_event_listeners u ! i"
    have drop: "drop i (m_event_listeners u) = l # drop (Suc i) (m_event_listeners u)"
      using True by (simp add: l_def Cons_nth_drop_Suc)
    obtain w1 where w1: "(case ev_handler l of None \<Rightarrow> (u, w) | Some h \<Rightarrow> if ev_event l = ev then sys_call other h now (u, w) else (u, w)) = (u, w1)"
      "\<not> m_scanning w1" "crontab w1 = crontab w"
      "cron_log w1 = cron_log w @ (if ev_event l = ev \<and> ev_handler l = Some CronMinute then snd (runDueJobs now False False (crontab w)) else [])"
      using Suc.prems(2) sys_call_log [OF Suc.prems(2)] by (cases "ev_handler l"; cases "ev_event l = ev") (simp_all, metis)
    have "execute_loop (sys_call other) ev now (Suc n) i (u, w) = execute_loop (sys_call other) ev now n (Suc i) (u, w1)"
      using True w1(1) unfolding l_def by (simp add: Let_def)
    then show ?thesis
      using Suc.IH [of "Suc i" w1] Suc.prems(1) w1(2-4) drop by (auto simp: append_assoc)
  qed (use Suc.prems in simp)
qed simp

lemma cron_dispatch:
  assumes "cron_ready table (u, w)" "ev \<noteq> EVENT_NAME_MAX"
  shows "\<exists>w'. execute_event (sys_call other) ev now (u, w) = (u, w') \<and> cron_ready table (u, w')
    \<and> cron_log w' = cron_log w @ (if ev = EVENT_TIME_MINUTE then snd (runDueJobs now False False table) else [])"
proof -
  let ?n = "\<lambda>ev. length (filter (\<lambda>l. ev_event l = ev \<and> ev_handler l = Some CronMinute) (m_event_listeners u))"
  have r: "length (m_event_listeners u) \<le> 0 + MAX_EVENT_LISTENERS" "\<not> m_scanning w" "crontab w = table"
    using assms by (simp_all add: cron_ready_def)
  obtain w' where w': "execute_event (sys_call other) ev now (u, w) = (u, w')" "\<not> m_scanning w'" "crontab w' = table"
    "cron_log w' = cron_log w @ concat (replicate (?n ev) (snd (runDueJobs now False False table)))"
    using execute_loop_cron [OF r(1,2), of other ev now] r(3) by (auto simp: execute_event_def)
  have "?n EVENT_TIME_MINUTE = 1"
    using assms unfolding cron_ready_def cron_slot_def by simp
  moreover have "?n ev = 0" if "ev \<noteq> EVENT_TIME_MINUTE"
    using assms that by (auto simp: cron_ready_def filter_empty_conv)
  ultimately show ?thesis
    using w' assms by (auto simp: cron_ready_def)
qed

lemma runDueJobs_minute:
  assumes "instant e now" "clock_range e"
  shows "snd (runDueJobs now False False table) = due_jobs table (e div 60)"
  using assms instant_row [OF assms] by (auto simp: runDueJobs_def due_jobs_def scan_rows_jobs instant_def split: option.split)

text \<open>Events the clock raises.\<close>

definition raise_clock :: "(nat \<Rightarrow> datetime_t \<Rightarrow> 'o \<Rightarrow> 'o) \<Rightarrow> event_name \<Rightarrow> datetime_t \<Rightarrow> sys_handler EventUtil \<times> 'o cron_system \<Rightarrow> sys_handler EventUtil \<times> 'o cron_system" where
  "raise_clock other ev now s = (if ev = EVENT_NAME_MAX then s else execute_event (sys_call other) ev now s)"

interpretation cron_bus: minute_listener "raise_clock other" "cron_ready table" "\<lambda>s. cron_log (snd s)" "due_jobs table" for other table
proof
  fix s :: "sys_handler EventUtil \<times> 'a cron_system" and ev now e
  assume s: "cron_ready table s"
  obtain u w where uw: "s = (u, w)"
    by force
  note d = cron_dispatch [OF s [unfolded uw], of ev other now]
  show "cron_ready table (raise_clock other ev now s)"
    using d s uw by (auto simp: raise_clock_def)
  show "ev \<in> {EVENT_TIME_SYNC, EVENT_TIME_SECOND} \<or> ev = EVENT_TIME_MINUTE \<and> \<not> m_valid now
      \<Longrightarrow> cron_log (snd (raise_clock other ev now s)) = cron_log (snd s)"
    using d uw by (auto simp: raise_clock_def runDueJobs_def)
  show "instant e now \<Longrightarrow> clock_range e
      \<Longrightarrow> cron_log (snd (raise_clock other EVENT_TIME_MINUTE now s)) = cron_log (snd s) @ due_jobs table (e div 60)"
    using cron_dispatch [OF s [unfolded uw], of EVENT_TIME_MINUTE other now] uw runDueJobs_minute by (auto simp: raise_clock_def)
qed

lemma length_filter_update:
  assumes "i < length ls" "p l" "filter p ls = []"
  shows "length (filter p (ls[i := l])) = 1"
proof -
  have "filter p (take i ls) = []" "filter p (drop (Suc i) ls) = []"
    using assms(3) by (auto simp: filter_empty_conv dest: in_set_takeD in_set_dropD)
  then show ?thesis
    using assms(1,2) by (simp add: upd_conv_take_nth_drop)
qed

lemma cron_init_ready:
  assumes room: "length (m_event_listeners u) < MAX_EVENT_LISTENERS"
    and none: "\<forall>l \<in> set (m_event_listeners u). ev_handler l \<noteq> Some CronMinute" and idle: "\<not> m_scanning w"
  shows "cron_ready (ensure (crontab w)) (cron_initService ensure (u, w)) \<and> cron_log (snd (cron_initService ensure (u, w))) = cron_log w"
proof -
  let ?ls = "m_event_listeners u"
  have no: "filter cron_slot ?ls = []"
    using none by (auto simp: filter_empty_conv cron_slot_def)
  show ?thesis
  proof (cases "List.find (\<lambda>i. ev_event (?ls ! i) = EVENT_NAME_MAX) [0..<length ?ls]")
    case None
    then show ?thesis
      using room none no idle by (auto simp: cron_initService_def add_event_listener_def Let_def cron_ready_def cron_slot_def)
  next
    case (Some i)
    then have i: "i < length ?ls" "ev_event (?ls ! i) = EVENT_NAME_MAX"
      by (auto simp: find_Some_iff)
    then show ?thesis
      using room none no idle Some length_filter_update [OF i(1), of cron_slot]
      by (auto simp: cron_initService_def add_event_listener_def Let_def cron_ready_def cron_slot_def set_update_distinct dest!: set_update_subset_insert [THEN subsetD])
  qed
qed

section \<open>Every minute once\<close>

text \<open>
  C13: Once the service is started on a registry with room for its listener, whatever other listeners
  there are, the commands it starts over any run of ticks are, minute by minute as a valid clock shows
  them, the due ones: the first eight rows of the table that read as jobs, those whose five fields
  cover the minute, in the order of the table, once however many ticks fall into the minute. Ticks
  without a valid clock start nothing, and a minute that shows again after the clock was lost, or was
  set back, is run again.
\<close>

theorem cron_every_minute_once:
  assumes "length (m_event_listeners u) < MAX_EVENT_LISTENERS" "\<forall>l \<in> set (m_event_listeners u). ev_handler l \<noteq> Some CronMinute"
    and "\<not> m_scanning w" and "\<forall>(millis, ntp) \<in> set ins. \<forall>e. ntp = Some e \<longrightarrow> clock_range e"
  shows "cron_log (snd (snd (fold (time_tick (raise_clock other)) ins (time_resetServiceState m0, cron_initService ensure (u, w)))))
    = cron_log w @ concat (map (case_option [] (due_jobs (ensure (crontab w)))) (remdups_adj (map (\<lambda>i. map_option (\<lambda>e. e div 60) (snd i)) ins)))"
  using cron_bus.fresh_ticks_work [OF _ assms(4), of _ "cron_initService ensure (u, w)" other m0] cron_init_ready [OF assms(1-3), of ensure]
  by simp

definition sample_cron :: "unit cron_system" where
  "sample_cron = \<lparr>m_scanning = False, m_listener_id = -1, crontab = None, cron_log = [], others = ()\<rparr>"

definition sample_ticks :: "(u32 \<times> int option) list" where
  "sample_ticks = [(10, None), (20, Some 1200000000), (30, Some 1200000030), (40, Some 1200000061)]"

theorem cron_every_minute_once_witness:
  "cron_log (snd (snd (fold (time_tick (raise_clock (\<lambda>_ _ x. x))) sample_ticks
       (time_resetServiceState 0, cron_initService (\<lambda>_. Some [''* * * * * date'']) (EventUtil_new, sample_cron)))))
   = due_jobs (Some [''* * * * * date'']) 20000000 @ due_jobs (Some [''* * * * * date'']) 20000001"
  using cron_every_minute_once [of EventUtil_new sample_cron sample_ticks "\<lambda>_ _ x. x" 0 "\<lambda>_. Some [''* * * * * date'']"]
  by (simp add: EventUtil_new_def MAX_EVENT_LISTENERS_def sample_cron_def sample_ticks_def clock_range_def TZ_SEC_def)

end
