(* ===== verification/BigNum.thy ===== *)
theory BigNum
  imports PdiPrelude
begin

unbundle bit_operations_syntax

text \<open>
  Big numbers of fixed capacity (\<^verbatim>\<open>src/src/utility/crypto/asymmetric/rsa/bignum.cpp\<close>): little-endian
  32-bit words with a count of those in use. A function that answers \<open>false\<close> without a usable result
  is \<open>None\<close>; a result written through a pointer is returned. Allocation succeeds, and the calls of the
  yield hook are left out. A loop that ends only for some arguments is a \<open>partial_function\<close>, whose
  \<open>None\<close> is the run that does not end.
\<close>

section \<open>Numbers\<close>

definition BN_MAX_WORDS :: nat where "BN_MAX_WORDS = 132"
definition RSA_MAX_KEY_BITS :: nat where "RSA_MAX_KEY_BITS = 2048"

record bignum =
  bn_w :: "u32 list"
  bn_used :: nat

definition word_at :: "bignum \<Rightarrow> nat \<Rightarrow> u32" where
  "word_at a i = (if i < bn_used a then bn_w a ! i else 0)"

definition bn_zero :: bignum where
  "bn_zero = \<lparr>bn_w = replicate BN_MAX_WORDS 0, bn_used = 0\<rparr>"

definition bn_set_u32 :: "u32 \<Rightarrow> bignum" where
  "bn_set_u32 v = (if v \<noteq> 0 then bn_zero\<lparr>bn_w := (bn_w bn_zero)[0 := v], bn_used := 1\<rparr> else bn_zero)"

definition bn_norm :: "bignum \<Rightarrow> bignum" where
  "bn_norm a = a\<lparr>bn_used := length (dropWhile (\<lambda>x. x = 0) (rev (bn_w a)))\<rparr>"

definition bn_is_zero :: "bignum \<Rightarrow> bool" where
  "bn_is_zero a \<longleftrightarrow> bn_used a = 0"

definition bn_is_odd :: "bignum \<Rightarrow> bool" where
  "bn_is_odd a \<longleftrightarrow> bn_used a > 0 \<and> bn_w a ! 0 AND 1 \<noteq> 0"

text \<open>Words from the top.\<close>

fun cmp_words :: "u32 list \<Rightarrow> u32 list \<Rightarrow> int" where
  "cmp_words (x # xs) (y # ys) = (if x \<noteq> y then (if x > y then 1 else -1) else cmp_words xs ys)"
| "cmp_words xs ys = 0"

definition bn_cmp :: "bignum \<Rightarrow> bignum \<Rightarrow> int" where
  "bn_cmp a b =
     (if bn_used a \<noteq> bn_used b then (if bn_used a > bn_used b then 1 else -1)
      else cmp_words (rev (take (bn_used a) (bn_w a))) (rev (take (bn_used b) (bn_w b))))"

function word_bits :: "u32 \<Rightarrow> nat" where
  "word_bits hi = (if hi = 0 then 0 else Suc (word_bits (drop_bit 1 hi)))"
  by pat_completeness auto
termination
proof (relation "measure unat")
  fix hi :: u32
  assume "hi \<noteq> 0"
  then have "unat hi \<noteq> 0"
    by (simp add: unat_eq_zero)
  then show "(drop_bit 1 hi, hi) \<in> measure unat"
    by (simp add: drop_bit_Suc unat_div)
qed simp

declare word_bits.simps [simp del]

definition bn_bitlen :: "bignum \<Rightarrow> nat" where
  "bn_bitlen a = (if bn_used a = 0 then 0 else (bn_used a - 1) * 32 + word_bits (bn_w a ! (bn_used a - 1)))"

definition bn_test_bit :: "bignum \<Rightarrow> nat \<Rightarrow> bool" where
  "bn_test_bit a i = (if i div 32 \<ge> bn_used a then False else drop_bit (i mod 32) (bn_w a ! (i div 32)) AND 1 \<noteq> 0)"

section \<open>Bytes\<close>

text \<open>The bytes from the last one on.\<close>

fun bytes_loop :: "nat \<Rightarrow> u8 list \<Rightarrow> u32 list \<Rightarrow> u32 list option" where
  "bytes_loop pos [] ws = Some ws"
| "bytes_loop pos (b # bs) ws =
     (let wi = pos div 32 in
      if wi \<ge> BN_MAX_WORDS then None else bytes_loop (pos + 8) bs (ws[wi := ws ! wi OR push_bit (pos mod 32) (ucast b)]))"

definition bn_from_bytes :: "u8 list \<Rightarrow> bignum option" where
  "bn_from_bytes buf = map_option (\<lambda>ws. bn_norm (bn_zero\<lparr>bn_w := ws\<rparr>)) (bytes_loop 0 (rev buf) (bn_w bn_zero))"

definition bn_num_bytes :: "bignum \<Rightarrow> nat" where
  "bn_num_bytes a = (bn_bitlen a + 7) div 8"

definition bn_to_bytes :: "bignum \<Rightarrow> nat \<Rightarrow> u8 list option" where
  "bn_to_bytes a len =
     (if bn_num_bytes a > len then None
      else Some (map (\<lambda>i. let pos = (len - 1 - i) * 8 in ucast (drop_bit (pos mod 32) (word_at a (pos div 32)))) [0..<len]))"

section \<open>Sums, differences, shifts\<close>

fun add_words :: "u64 \<Rightarrow> u32 list \<Rightarrow> u32 list \<Rightarrow> u32 list \<times> u64" where
  "add_words carry (x # xs) (y # ys) =
     (let s = ucast x + ucast y + carry in
      case add_words (drop_bit 32 s) xs ys of (zs, carry) \<Rightarrow> (ucast s # zs, carry))"
| "add_words carry xs ys = ([], carry)"

definition bn_words :: "bignum \<Rightarrow> nat \<Rightarrow> u32 list" where
  "bn_words a n = map (word_at a) [0..<n]"

text \<open>The words of a result, the rest of the capacity cleared.\<close>

definition bn_fill :: "u32 list \<Rightarrow> bignum" where
  "bn_fill ws = bn_norm \<lparr>bn_w = ws @ replicate (BN_MAX_WORDS - length ws) 0, bn_used = length ws\<rparr>"

definition bn_add :: "bignum \<Rightarrow> bignum \<Rightarrow> bignum option" where
  "bn_add a b =
     (let n = max (bn_used a) (bn_used b) in
      if n > BN_MAX_WORDS then None
      else case add_words 0 (bn_words a n) (bn_words b n) of
             (ws, carry) \<Rightarrow>
               if carry \<noteq> 0 then (if n \<ge> BN_MAX_WORDS then None else Some (bn_fill (ws @ [ucast carry])))
               else Some (bn_fill ws))"

fun sub_words :: "int \<Rightarrow> u32 list \<Rightarrow> u32 list \<Rightarrow> u32 list \<times> int" where
  "sub_words borrow (x # xs) (y # ys) =
     (let d = uint x - uint y - borrow; d' = (if d < 0 then d + 2 ^ 32 else d) in
      case sub_words (if d < 0 then 1 else 0) xs ys of (zs, borrow) \<Rightarrow> (word_of_int d' # zs, borrow))"
| "sub_words borrow xs ys = ([], borrow)"

definition bn_sub :: "bignum \<Rightarrow> bignum \<Rightarrow> bool \<times> bignum" where
  "bn_sub a b =
     (case sub_words 0 (bn_words a (bn_used a)) (bn_words b (bn_used a)) of (ws, borrow) \<Rightarrow> (borrow = 0, bn_fill ws))"

text \<open>From the lowest word; the word that is pushed out at the top is returned.\<close>

fun shl_words :: "u32 \<Rightarrow> u32 list \<Rightarrow> u32 list \<times> u32" where
  "shl_words carry [] = ([], carry)"
| "shl_words carry (x # xs) = (case shl_words (drop_bit 31 x) xs of (zs, out) \<Rightarrow> ((push_bit 1 x OR carry) # zs, out))"

definition bn_shl1 :: "bignum \<Rightarrow> bignum" where
  "bn_shl1 a =
     (case shl_words 0 (take (bn_used a) (bn_w a)) of
        (zs, carry) \<Rightarrow>
          if carry \<noteq> 0 \<and> bn_used a < BN_MAX_WORDS
          then a\<lparr>bn_w := zs @ carry # drop (Suc (bn_used a)) (bn_w a), bn_used := bn_used a + 1\<rparr>
          else bn_norm (a\<lparr>bn_w := zs @ drop (bn_used a) (bn_w a)\<rparr>))"

text \<open>From the highest word, so the list is turned round.\<close>

fun shr_words :: "u32 \<Rightarrow> u32 list \<Rightarrow> u32 list" where
  "shr_words carry [] = []"
| "shr_words carry (x # xs) = (drop_bit 1 x OR push_bit 31 carry) # shr_words (x AND 1) xs"

definition bn_shr1 :: "bignum \<Rightarrow> bignum" where
  "bn_shr1 a = bn_norm (a\<lparr>bn_w := rev (shr_words 0 (rev (take (bn_used a) (bn_w a)))) @ drop (bn_used a) (bn_w a)\<rparr>)"

section \<open>Products and division\<close>

text \<open>One row of the product: the words of \<open>tmp\<close> from the row's place on.\<close>

fun mul_row :: "u64 \<Rightarrow> u64 \<Rightarrow> u32 list \<Rightarrow> u32 list \<Rightarrow> u32 list" where
  "mul_row ai carry (t # ts) (b # bs) =
     (let s = ucast t + ai * ucast b + carry in ucast s # mul_row ai (drop_bit 32 s) ts bs)"
| "mul_row ai carry (t # ts) [] = (t + ucast carry) # ts"
| "mul_row ai carry [] bs = []"

fun mul_loop :: "u32 list \<Rightarrow> u32 list \<Rightarrow> u32 list \<Rightarrow> u32 list" where
  "mul_loop [] bs tmp = tmp"
| "mul_loop (a # as) bs tmp = (case mul_row (ucast a) 0 tmp bs of [] \<Rightarrow> [] | t # ts \<Rightarrow> t # mul_loop as bs ts)"

definition bn_mul :: "bignum \<Rightarrow> bignum \<Rightarrow> bignum option" where
  "bn_mul a b =
     (if bn_used a + bn_used b > BN_MAX_WORDS then None
      else Some (bn_norm (bn_zero\<lparr>bn_w := mul_loop (take (bn_used a) (bn_w a)) (take (bn_used b) (bn_w b)) (replicate BN_MAX_WORDS 0)\<rparr>)))"

definition set_bit0 :: "bignum \<Rightarrow> bignum" where
  "set_bit0 R = R\<lparr>bn_w := (bn_w R)[0 := bn_w R ! 0 OR 1], bn_used := (if bn_used R = 0 then 1 else bn_used R)\<rparr>"

definition set_quotient_bit :: "bignum \<Rightarrow> nat \<Rightarrow> bignum" where
  "set_quotient_bit Q i =
     (let wi = i div 32
      in Q\<lparr>bn_w := (bn_w Q)[wi := bn_w Q ! wi OR push_bit (i mod 32) 1], bn_used := (if bn_used Q < wi + 1 then wi + 1 else bn_used Q)\<rparr>)"

fun div_loop :: "bignum \<Rightarrow> bignum \<Rightarrow> nat \<Rightarrow> bignum \<Rightarrow> bignum \<Rightarrow> bignum \<times> bignum" where
  "div_loop a b 0 R Q = (R, Q)"
| "div_loop a b (Suc i) R Q =
     (let R = bn_shl1 R; R = (if bn_test_bit a i then set_bit0 R else R)
      in if bn_cmp R b \<ge> 0 then div_loop a b i (snd (bn_sub R b)) (set_quotient_bit Q i) else div_loop a b i R Q)"

definition bn_divmod :: "bignum \<Rightarrow> bignum \<Rightarrow> (bignum \<times> bignum) option" where
  "bn_divmod a b =
     (if bn_is_zero b then None
      else if bn_cmp a b < 0 then Some (bn_zero, a)
      else case div_loop a b (bn_bitlen a) bn_zero bn_zero of (R, Q) \<Rightarrow> Some (bn_norm Q, bn_norm R))"

definition bn_mod :: "bignum \<Rightarrow> bignum \<Rightarrow> bignum option" where
  "bn_mod a m = map_option snd (bn_divmod a m)"

definition bn_mulmod :: "bignum \<Rightarrow> bignum \<Rightarrow> bignum \<Rightarrow> bignum option" where
  "bn_mulmod a b m = Option.bind (bn_mul a b) (\<lambda>t. bn_mod t m)"

section \<open>Montgomery multiplication and powers\<close>

definition mont_n0inv :: "u32 \<Rightarrow> u32" where
  "mont_n0inv m0 = 0 - ((\<lambda>inv. inv * (2 - m0 * inv)) ^^ 5) 1"

text \<open>\<open>t + x * bi\<close> word by word, with the carry in and out.\<close>

fun mac_words :: "u64 \<Rightarrow> u64 \<Rightarrow> u32 list \<Rightarrow> u32 list \<Rightarrow> u32 list \<times> u64" where
  "mac_words bi c (t # ts) (x # xs) =
     (let s = ucast t + ucast x * bi + c in case mac_words bi (drop_bit 32 s) ts xs of (us, c) \<Rightarrow> (ucast s # us, c))"
| "mac_words bi c ts xs = ([], c)"

text \<open>One turn on the \<open>k + 2\<close> words \<open>t\<close>: add \<open>a * bi\<close>, then a multiple of \<open>m\<close> that clears the lowest word, and drop it.\<close>

definition mont_turn :: "u32 list \<Rightarrow> u32 list \<Rightarrow> u32 \<Rightarrow> nat \<Rightarrow> u32 \<Rightarrow> u32 list \<Rightarrow> u32 list" where
  "mont_turn aw mw n0inv k bi t =
     (case mac_words (ucast bi) 0 (take k t) aw of
        (ts, c) \<Rightarrow>
          let s = ucast (t ! k) + c; tk = ucast s :: u32; tk1 = ucast (drop_bit 32 s) :: u32;
              mm = ucast (ucast (ts ! 0) * ucast n0inv :: u64) :: u32;
              s0 = ucast (ts ! 0) + ucast mm * ucast (mw ! 0) :: u64
          in case mac_words (ucast mm) (drop_bit 32 s0) (tl ts) (tl mw) of
               (us, c) \<Rightarrow> let sk = ucast tk + c in us @ [ucast sk, ucast (ucast tk1 + drop_bit 32 sk), 0])"

definition bn_montmul :: "bignum \<Rightarrow> bignum \<Rightarrow> bignum \<Rightarrow> u32 \<Rightarrow> nat \<Rightarrow> bignum" where
  "bn_montmul a b m n0inv k =
     (let t = fold (mont_turn (bn_words a k) (bn_words m k) n0inv k) (bn_words b k) (replicate (k + 2) 0);
          ws = take (min (k + 1) BN_MAX_WORDS) t;
          r = bn_norm \<lparr>bn_w = ws @ replicate (BN_MAX_WORDS - length ws) 0, bn_used = k + 1\<rparr>
      in if bn_cmp r m \<ge> 0 then snd (bn_sub r m) else r)"

fun rr_loop :: "bignum \<Rightarrow> nat \<Rightarrow> bignum \<Rightarrow> bignum" where
  "rr_loop m 0 r = r"
| "rr_loop m (Suc n) r = (let r = bn_shl1 r in rr_loop m n (if bn_cmp r m \<ge> 0 then snd (bn_sub r m) else r))"

fun exp_loop :: "(bignum \<Rightarrow> bignum \<Rightarrow> bignum) \<Rightarrow> bignum \<Rightarrow> bignum \<Rightarrow> nat \<Rightarrow> bignum \<Rightarrow> bignum" where
  "exp_loop mm base ex 0 r = r"
| "exp_loop mm base ex (Suc i) r =
     (let r = mm r r in exp_loop mm base ex i (if bn_test_bit ex i then mm r base else r))"

definition bn_modexp :: "bignum \<Rightarrow> bignum \<Rightarrow> bignum \<Rightarrow> bignum option" where
  "bn_modexp base ex m =
     (if bn_is_zero m \<or> bn_w m ! 0 AND 1 = 0 then None
      else
        let one = bn_set_u32 1 in
        if bn_cmp m one = 0 then Some bn_zero
        else if bn_is_zero ex then Some one
        else
          let k = bn_used m; n0inv = mont_n0inv (bn_w m ! 0); rr = rr_loop m (64 * k) (bn_set_u32 1);
              mm = (\<lambda>x y. bn_montmul x y m n0inv k);
              base_red = (case bn_mod base m of None \<Rightarrow> bn_zero | Some x \<Rightarrow> x);
              result = exp_loop mm (mm base_red rr) ex (bn_bitlen ex) (mm one rr)
          in Some (mm result one))"

section \<open>Divisors and inverses\<close>

text \<open>\<open>None\<close>: the loop does not end; \<open>Some None\<close>: a division was refused.\<close>

partial_function (option) gcd_loop :: "bignum \<Rightarrow> bignum \<Rightarrow> bignum option option" where
  "gcd_loop x y =
     (if bn_is_zero y then Some (Some x)
      else case bn_mod x y of None \<Rightarrow> Some None | Some t \<Rightarrow> gcd_loop y t)"

definition bn_gcd :: "bignum \<Rightarrow> bignum \<Rightarrow> bignum option option" where
  "bn_gcd a b = gcd_loop a b"

text \<open>The next coefficient \<open>(t0 - q * t1) mod m\<close>.\<close>

definition next_coeff :: "bignum \<Rightarrow> bignum \<Rightarrow> bignum \<Rightarrow> bignum \<Rightarrow> bignum option" where
  "next_coeff m q t0 t1 =
     Option.bind (bn_mulmod q t1 m) (\<lambda>qt.
       if bn_cmp t0 qt \<ge> 0 then Some (snd (bn_sub t0 qt))
       else Some (case bn_add t0 m of None \<Rightarrow> bn_zero | Some s \<Rightarrow> snd (bn_sub s qt)))"

partial_function (option) inv_loop :: "bignum \<Rightarrow> bignum \<Rightarrow> bignum \<Rightarrow> bignum \<Rightarrow> bignum \<Rightarrow> (bignum \<times> bignum) option option" where
  "inv_loop m r0 r1 t0 t1 =
     (if bn_is_zero r1 then Some (Some (r0, t0))
      else case bn_divmod r0 r1 of
             None \<Rightarrow> Some None
           | Some qr \<Rightarrow> (case next_coeff m (fst qr) t0 t1 of None \<Rightarrow> Some None | Some t \<Rightarrow> inv_loop m r1 (snd qr) t1 t))"

definition bn_modinv :: "bignum \<Rightarrow> bignum \<Rightarrow> bignum option option" where
  "bn_modinv a m =
     (case bn_mod a m of
        None \<Rightarrow> Some None
      | Some r1 \<Rightarrow>
          map_option (\<lambda>res. case res of
              None \<Rightarrow> None
            | Some (r0, t0) \<Rightarrow> if bn_cmp r0 (bn_set_u32 1) = 0 then Some t0 else None)
            (inv_loop m m r1 bn_zero (bn_set_u32 1)))"

section \<open>Random numbers and primes\<close>

text \<open>The source of random bytes is the argument \<open>rng\<close>, a function of its state and the count.\<close>

definition bn_mod_u32 :: "bignum \<Rightarrow> u32 \<Rightarrow> u32" where
  "bn_mod_u32 a m = ucast (fold (\<lambda>x rem. (push_bit 32 rem OR ucast x) mod ucast m) (rev (take (bn_used a) (bn_w a))) (0 :: u64))"

fun clear_bits :: "nat list \<Rightarrow> u32 list \<Rightarrow> u32 list" where
  "clear_bits [] ws = ws"
| "clear_bits (i # is) ws =
     clear_bits is (if i div 32 < BN_MAX_WORDS then ws[i div 32 := ws ! (i div 32) AND NOT (push_bit (i mod 32) 1)] else ws)"

definition set_word_bit :: "nat \<Rightarrow> u32 list \<Rightarrow> u32 list" where
  "set_word_bit i ws = ws[i div 32 := ws ! (i div 32) OR push_bit (i mod 32) 1]"

definition bn_rand_bits :: "('s \<Rightarrow> nat \<Rightarrow> u8 list \<times> 's) \<Rightarrow> nat \<Rightarrow> 's \<Rightarrow> bignum option \<times> 's" where
  "bn_rand_bits rng bits s =
     (if bits = 0 \<or> bits > RSA_MAX_KEY_BITS then (None, s)
      else
        let nbytes = (bits + 7) div 8 in
        case rng s nbytes of
          (buf, s) \<Rightarrow>
            (map_option (\<lambda>r. bn_norm (r\<lparr>bn_w := set_word_bit (bits - 1) (clear_bits [bits..<nbytes * 8] (bn_w r))\<rparr>)) (bn_from_bytes buf), s))"

definition s_small_primes :: "u32 list" where
  "s_small_primes =
    [3, 5, 7, 11, 13, 17, 19, 23, 29, 31, 37, 41, 43, 47, 53, 59, 61, 67, 71,
     73, 79, 83, 89, 97, 101, 103, 107, 109, 113, 127, 131, 137, 139, 149, 151,
     157, 163, 167, 173, 179, 181, 191, 193, 197, 199, 211, 223, 227, 229, 233,
     239, 241, 251, 257, 263, 269, 271, 277, 281, 283, 293, 307, 311, 313, 317,
     331, 337, 347, 349, 353, 359, 367, 373, 379, 383, 389, 397, 401, 409, 419,
     421, 431, 433, 439, 443, 449, 457, 461, 463, 467, 479, 487, 491, 499, 503,
     509, 521, 523, 541, 547, 557, 563, 569, 571, 577, 587, 593, 599, 601, 607,
     613, 617, 619, 631, 641, 643, 647, 653, 659, 661, 673, 677, 683, 691, 701,
     709, 719, 727, 733, 739, 743, 751, 757, 761, 769, 773, 787, 797, 809, 811,
     821, 823, 827, 829, 839, 853, 857, 859, 863, 877, 881, 883, 887, 907, 911,
     919, 929, 937, 941, 947, 953, 967, 971, 977, 983, 991, 997]"

text \<open>The odd part of \<open>a - 1\<close> and how often it was halved.\<close>

partial_function (option) halve_loop :: "bignum \<Rightarrow> nat \<Rightarrow> (bignum \<times> nat) option" where
  "halve_loop d s = (if bn_w d ! 0 AND 1 \<noteq> 0 then Some (d, s) else halve_loop (bn_shr1 d) (s + 1))"

text \<open>\<open>base mod (a - 3) + 2\<close>, or 2 for \<open>a = 3\<close>.\<close>

definition pick_base :: "bignum \<Rightarrow> bignum \<Rightarrow> bignum" where
  "pick_base a base =
     (let one = bn_set_u32 1; am2 = snd (bn_sub a (bn_set_u32 3)); up = (\<lambda>x. case bn_add x one of None \<Rightarrow> x | Some y \<Rightarrow> y)
      in if bn_is_zero am2 \<or> bn_cmp am2 one < 0 then bn_set_u32 2
         else up (up (case bn_mod base am2 of None \<Rightarrow> base | Some b \<Rightarrow> b)))"

text \<open>Whether repeated squaring misses \<open>a - 1\<close>.\<close>

fun square_loop :: "bignum \<Rightarrow> bignum \<Rightarrow> nat \<Rightarrow> bignum \<Rightarrow> bool" where
  "square_loop a n1 0 x = True"
| "square_loop a n1 (Suc n) x =
     (case bn_mulmod x x a of None \<Rightarrow> True | Some y \<Rightarrow> if bn_cmp y n1 = 0 then False else square_loop a n1 n y)"

fun prime_rounds :: "('s \<Rightarrow> nat \<Rightarrow> u8 list \<times> 's) \<Rightarrow> bignum \<Rightarrow> bignum \<Rightarrow> bignum \<Rightarrow> nat \<Rightarrow> nat \<Rightarrow> bignum \<Rightarrow> 's \<Rightarrow> bool \<times> 's" where
  "prime_rounds rng a n1 d s 0 old st = (True, st)"
| "prime_rounds rng a n1 d s (Suc n) old st =
     (case bn_rand_bits rng (bn_bitlen a) st of
        (rnd, st) \<Rightarrow>
          let base = pick_base a (case rnd of None \<Rightarrow> old | Some b \<Rightarrow> b) in
          case bn_modexp base d a of
            None \<Rightarrow> (False, st)
          | Some x \<Rightarrow>
              if bn_cmp x (bn_set_u32 1) = 0 \<or> bn_cmp x n1 = 0 then prime_rounds rng a n1 d s n base st
              else if square_loop a n1 (s - 1) x then (False, st)
              else prime_rounds rng a n1 d s n base st)"

text \<open>
  The answer and the state of the source, or \<open>None\<close> when the halving does not end. The base before the
  first round is what the storage held; a request for too many bits leaves it.
\<close>

definition bn_is_probable_prime :: "('s \<Rightarrow> nat \<Rightarrow> u8 list \<times> 's) \<Rightarrow> bignum \<Rightarrow> nat \<Rightarrow> 's \<Rightarrow> (bool \<times> 's) option" where
  "bn_is_probable_prime rng a rounds st =
     (if bn_used a = 0 then Some (False, st)
      else if bn_cmp a (bn_set_u32 2) < 0 then Some (False, st)
      else if bn_w a ! 0 AND 1 = 0 then Some (bn_cmp a (bn_set_u32 2) = 0, st)
      else case List.find (\<lambda>p. bn_mod_u32 a p = 0) s_small_primes of
             Some p \<Rightarrow> Some (bn_cmp a (bn_set_u32 p) = 0, st)
           | None \<Rightarrow>
               let n1 = snd (bn_sub a (bn_set_u32 1)) in
               map_option (\<lambda>(d, s). prime_rounds rng a n1 d s rounds bn_zero st) (halve_loop n1 0))"

text \<open>Odd candidates upward from \<open>r\<close>: the prime found, or \<open>None\<close> with the state reached.\<close>

fun scan_loop :: "('s \<Rightarrow> nat \<Rightarrow> u8 list \<times> 's) \<Rightarrow> nat \<Rightarrow> nat \<Rightarrow> bignum \<Rightarrow> 's \<Rightarrow> (bignum option \<times> 's) option" where
  "scan_loop rng bits 0 r st = Some (None, st)"
| "scan_loop rng bits (Suc n) r st =
     (if bn_bitlen r \<noteq> bits then Some (None, st)
      else case bn_is_probable_prime rng r 5 st of
             None \<Rightarrow> None
           | Some (prime, st) \<Rightarrow>
               if prime then Some (Some r, st)
               else scan_loop rng bits n (case bn_add r (bn_set_u32 2) of None \<Rightarrow> r | Some r' \<Rightarrow> r') st)"

definition odd_candidate :: "nat \<Rightarrow> bignum \<Rightarrow> bignum" where
  "odd_candidate bits r =
     (let ws = set_word_bit (bits - 1) ((bn_w r)[0 := bn_w r ! 0 OR 1])
      in bn_norm (r\<lparr>bn_w := (if bits \<ge> 2 then set_word_bit (bits - 2) ws else ws)\<rparr>))"

fun gen_loop :: "('s \<Rightarrow> nat \<Rightarrow> u8 list \<times> 's) \<Rightarrow> nat \<Rightarrow> nat \<Rightarrow> 's \<Rightarrow> (bignum option \<times> 's) option" where
  "gen_loop rng bits 0 st = Some (None, st)"
| "gen_loop rng bits (Suc n) st =
     (case bn_rand_bits rng bits st of
        (None, st) \<Rightarrow> Some (None, st)
      | (Some r, st) \<Rightarrow>
          (case scan_loop rng bits 4096 (odd_candidate bits r) st of
             None \<Rightarrow> None
           | Some (Some p, st) \<Rightarrow> Some (Some p, st)
           | Some (None, st) \<Rightarrow> gen_loop rng bits n st))"

definition bn_gen_prime :: "('s \<Rightarrow> nat \<Rightarrow> u8 list \<times> 's) \<Rightarrow> nat \<Rightarrow> 's \<Rightarrow> (bignum option \<times> 's) option" where
  "bn_gen_prime rng bits st = gen_loop rng bits 100000 st"

end
