(* ===== verification/BigNumFacts.thy ===== *)
theory BigNumFacts
  imports BigNum
begin

unbundle bit_operations_syntax

text \<open>
  The numbers the words stand for, and what each operation of \<open>BigNum\<close> does to them. A number is well
  formed when it has its full capacity of words and counts exactly those up to the highest that is
  not zero.
\<close>

section \<open>Words\<close>

definition WB :: nat where "WB = 2 ^ 32"

lemma WB_pos [simp]: "0 < WB" "WB \<noteq> 0" "1 < WB" "2 \<le> WB" "Suc 0 \<le> WB" "Suc 0 < WB" "WB \<noteq> Suc 0"
  by (simp_all add: WB_def)

lemma unat_WB [simp]: "unat (x :: u32) < WB"
  unfolding WB_def using unsigned_less [of x] by simp

lemma unat_WB_le: "unat (x :: u32) \<le> WB - 1"
  using unat_WB [of x] WB_pos(1) by linarith

lemma unat_low: "unat (ucast (s :: u64) :: u32) = unat s mod WB"
  by (simp add: WB_def unsigned_ucast_eq take_bit_eq_mod)

lemma unat_high: "unat (drop_bit 32 (s :: u64)) = unat s div WB"
  by (simp add: WB_def drop_bit_eq_div unat_div)

lemma unat_split: "unat (ucast (s :: u64) :: u32) + WB * unat (drop_bit 32 s) = unat s"
  by (simp add: unat_low unat_high)

lemma unat_sum64: "unat x + unat y < 2 ^ 64 \<Longrightarrow> unat (x + y :: u64) = unat x + unat y"
  by (simp add: unat_word_ariths)

lemma unat_mult64: "unat x * unat y < 2 ^ 64 \<Longrightarrow> unat (x * y :: u64) = unat x * unat y"
  by (simp add: unat_word_ariths)

lemma WB_square: "WB * WB = 2 ^ 64"
  by (simp add: WB_def)

lemma mac_bound: "t < WB \<Longrightarrow> x < WB \<Longrightarrow> b < WB \<Longrightarrow> c < WB \<Longrightarrow> t + x * b + c < WB * WB"
proof -
  assume *: "t < WB" "x < WB" "b < WB" "c < WB"
  obtain v where v: "WB = Suc v"
    by (cases WB) simp_all
  have "x * b \<le> v * v"
    using * v by (intro mult_le_mono) simp_all
  moreover have "WB * WB = v * v + v + v + 1"
    by (simp add: v)
  ultimately show ?thesis
    using * v by linarith
qed

lemma unat_mac:
  fixes t x :: u32 and b c :: u64
  assumes "unat b < WB" "unat c < WB"
  shows "unat (ucast t + ucast x * b + c) = unat t + unat x * unat b + unat c"
proof -
  have b: "unat t + unat x * unat b + unat c < 2 ^ 64"
    using mac_bound [OF unat_WB unat_WB assms] WB_square by simp
  have "unat (ucast x * b) = unat x * unat b"
    using b by (subst unat_mult64) simp_all
  then have "unat (ucast t + ucast x * b) = unat t + unat x * unat b"
    using b by (subst unat_sum64) simp_all
  then show ?thesis
    using b by (subst unat_sum64) simp_all
qed

lemma unat_mac_high: "unat b < WB \<Longrightarrow> unat c < WB \<Longrightarrow> unat (drop_bit 32 (ucast (t :: u32) + ucast (x :: u32) * b + c :: u64)) < WB"
  using mac_bound [OF unat_WB [of t] unat_WB [of x], of "unat b" "unat c"]
  by (simp add: unat_high unat_mac less_mult_imp_div_less)

section \<open>Values\<close>

primrec limbs :: "u32 list \<Rightarrow> nat" where
  "limbs [] = 0"
| "limbs (x # xs) = unat x + WB * limbs xs"

lemma limbs_append [simp]: "limbs (xs @ ys) = limbs xs + WB ^ length xs * limbs ys"
  by (induction xs) (simp_all add: algebra_simps)

lemma limbs_zeros [simp]: "limbs (replicate n 0) = 0"
  by (induction n) simp_all

lemma limbs_less: "limbs xs < WB ^ length xs"
proof (induction xs)
  case (Cons x xs)
  have "WB * Suc (limbs xs) \<le> WB * WB ^ length xs"
    using Cons.IH by (intro mult_le_mono) simp_all
  then show ?case
    using unat_WB [of x] by (simp add: algebra_simps del: unat_WB)
qed simp

lemma digit_unique:
  fixes a :: nat
  assumes "a < b" "c < b" "a + b * x = c + b * y"
  shows "a = c \<and> x = y"
proof -
  have "(a + b * x) mod b = (c + b * y) mod b"
    using assms(3) by simp
  then have "a = c"
    using assms(1,2) by simp
  then show ?thesis
    using assms by simp
qed

lemma limbs_eq: "length xs = length ys \<Longrightarrow> limbs xs = limbs ys \<Longrightarrow> xs = ys"
proof (induction xs ys rule: list_induct2)
  case (Cons x xs y ys)
  have "unat x + WB * limbs xs = unat y + WB * limbs ys"
    using Cons.prems by simp
  then have "unat x = unat y" "limbs xs = limbs ys"
    using digit_unique [OF unat_WB unat_WB] by blast+
  then show ?case
    using Cons.IH by (simp add: word_unat_eq_iff)
qed simp

definition bn_val :: "bignum \<Rightarrow> nat" where
  "bn_val a = limbs (bn_w a)"

text \<open>The count of words up to the highest that is not zero.\<close>

definition top_words :: "u32 list \<Rightarrow> nat" where
  "top_words ws = length (dropWhile (\<lambda>x. x = 0) (rev ws))"

definition bn_ok :: "bignum \<Rightarrow> bool" where
  "bn_ok a \<longleftrightarrow> length (bn_w a) = BN_MAX_WORDS \<and> bn_used a = top_words (bn_w a)"

lemma top_words_split: "\<exists>k. ws = take (top_words ws) ws @ replicate k 0"
proof -
  let ?r = "rev ws"
  have "?r = takeWhile (\<lambda>x. x = 0) ?r @ dropWhile (\<lambda>x. x = 0) ?r"
    by simp
  then have "ws = rev (dropWhile (\<lambda>x. x = 0) ?r) @ rev (takeWhile (\<lambda>x. x = 0) ?r)"
    by (metis rev_append rev_rev_ident)
  moreover have "rev (takeWhile (\<lambda>x. x = 0) ?r) = replicate (length (takeWhile (\<lambda>x. x = 0) ?r)) 0"
    by (intro replicate_eqI) (auto dest: set_takeWhileD)
  ultimately show ?thesis
    by (metis append_eq_conv_conj length_rev top_words_def)
qed

lemma top_words_le: "top_words ws \<le> length ws"
  using length_dropWhile_le [of "\<lambda>x. x = 0" "rev ws"] by (simp add: top_words_def)

lemma top_words_last: "0 < top_words ws \<Longrightarrow> ws ! (top_words ws - 1) \<noteq> 0"
proof -
  assume *: "0 < top_words ws"
  let ?d = "dropWhile (\<lambda>x. x = 0) (rev ws)"
  have d: "?d \<noteq> []" "hd ?d \<noteq> 0"
    using * hd_dropWhile [of "\<lambda>x. x = 0" "rev ws"] by (auto simp: top_words_def)
  have "length (takeWhile (\<lambda>x. x = 0) (rev ws)) + top_words ws = length ws"
    unfolding top_words_def length_append [symmetric] takeWhile_dropWhile_id by simp
  then have "?d = drop (length ws - top_words ws) (rev ws)"
    by (metis add_diff_cancel_right' dropWhile_eq_drop)
  then have "hd ?d = rev ws ! (length ws - top_words ws)"
    using * top_words_le [of ws] by (simp add: hd_drop_conv_nth)
  also have "\<dots> = ws ! (top_words ws - 1)"
    using * top_words_le [of ws] by (simp add: rev_nth)
  finally show ?thesis
    using d(2) by simp
qed

lemma limbs_ge: "xs \<noteq> [] \<Longrightarrow> last xs \<noteq> 0 \<Longrightarrow> WB ^ (length xs - 1) \<le> limbs xs"
proof (induction xs rule: rev_induct)
  case (snoc x xs)
  have "1 \<le> unat x"
    using snoc.prems(2) by (simp add: Suc_le_eq unat_gt_0)
  then have "WB ^ length xs * 1 \<le> WB ^ length xs * unat x"
    by (rule mult_le_mono2)
  then show ?case
    by (simp only: limbs_append limbs.simps length_append_singleton diff_Suc_1 mult_0_right add_0_right mult_1_right)
qed simp

lemma top_words_val: "limbs ws < WB ^ top_words ws" "0 < top_words ws \<Longrightarrow> WB ^ (top_words ws - 1) \<le> limbs ws"
proof -
  obtain k where k: "ws = take (top_words ws) ws @ replicate k 0"
    using top_words_split by blast
  then have v: "limbs ws = limbs (take (top_words ws) ws)"
    by (metis add_0_right limbs_append limbs_zeros mult_0_right)
  have len: "length (take (top_words ws) ws) = top_words ws"
    using top_words_le by simp
  show "limbs ws < WB ^ top_words ws"
    using v limbs_less [of "take (top_words ws) ws"] len by simp
  assume *: "0 < top_words ws"
  then have "take (top_words ws) ws \<noteq> []"
    using len by (metis length_greater_0_conv)
  moreover from this have "last (take (top_words ws) ws) \<noteq> 0"
    using top_words_last [OF *] * top_words_le [of ws] by (simp add: last_conv_nth min_absorb2 del: take_eq_Nil)
  ultimately show "WB ^ (top_words ws - 1) \<le> limbs ws"
    using limbs_ge len v by metis
qed

lemma top_words_0: "top_words ws = 0 \<longleftrightarrow> limbs ws = 0"
  using top_words_val [of ws] by (metis One_nat_def WB_pos(1) gr0I leD less_one power_0 zero_less_power)

lemma limbs_take_top: "top_words ws \<le> n \<Longrightarrow> limbs (take n ws) = limbs ws"
proof -
  assume n: "top_words ws \<le> n"
  obtain k where k: "ws = take (top_words ws) ws @ replicate k 0"
    using top_words_split by blast
  have "take n ws = take (top_words ws) ws @ replicate (min (n - top_words ws) k) 0"
    using n top_words_le [of ws] by (subst k) (simp add: min_absorb2)
  then show ?thesis
    using k by (metis add_0_right limbs_append limbs_zeros mult_0_right)
qed

lemma nth_above_top: "top_words ws \<le> i \<Longrightarrow> i < length ws \<Longrightarrow> ws ! i = 0"
proof -
  assume i: "top_words ws \<le> i" "i < length ws"
  obtain k where k: "ws = take (top_words ws) ws @ replicate k 0"
    using top_words_split by blast
  then have "length ws = top_words ws + k"
    by (metis length_append length_replicate length_take min_absorb2 top_words_le)
  then show ?thesis
    using i by (subst k) (simp add: nth_append min_absorb2)
qed

lemma limbs_take: "limbs (take n ws) = limbs ws mod WB ^ n"
proof (cases "n \<le> length ws")
  case True
  have "limbs ws = limbs (take n ws) + WB ^ n * limbs (drop n ws)"
    using limbs_append [of "take n ws" "drop n ws"] True by simp
  then show ?thesis
    using limbs_less [of "take n ws"] True by simp
next
  case False
  then have "WB ^ length ws \<le> WB ^ n"
    by (intro power_increasing) simp_all
  then have "limbs ws < WB ^ n"
    by (rule order_less_le_trans [OF limbs_less])
  then show ?thesis
    using False by simp
qed

section \<open>Well-formed numbers\<close>

named_theorems bn_facts

lemma bn_norm_ok [bn_facts]: "length (bn_w a) = BN_MAX_WORDS \<Longrightarrow> bn_ok (bn_norm a)" "bn_val (bn_norm a) = bn_val a"
  by (simp_all add: bn_norm_def bn_ok_def bn_val_def top_words_def)

lemma bn_norm_same: "bn_ok a \<Longrightarrow> bn_norm a = a"
  by (simp add: bn_ok_def bn_norm_def top_words_def [symmetric])

lemma bn_ok_bounds:
  assumes "bn_ok a"
  shows "bn_val a < WB ^ bn_used a" "0 < bn_used a \<Longrightarrow> WB ^ (bn_used a - 1) \<le> bn_val a" "bn_used a \<le> BN_MAX_WORDS"
    "length (bn_w a) = BN_MAX_WORDS"
  using assms top_words_val [of "bn_w a"] top_words_le [of "bn_w a"] by (simp_all add: bn_ok_def bn_val_def)

lemma bn_used_le: "bn_ok a \<Longrightarrow> bn_used a \<le> n \<longleftrightarrow> bn_val a < WB ^ n"
proof
  assume "bn_ok a" "bn_used a \<le> n"
  moreover have "WB ^ bn_used a \<le> WB ^ n"
    using \<open>bn_used a \<le> n\<close> by (intro power_increasing) simp_all
  ultimately show "bn_val a < WB ^ n"
    using bn_ok_bounds(1) by (meson order_less_le_trans)
next
  assume *: "bn_ok a" "bn_val a < WB ^ n"
  show "bn_used a \<le> n"
  proof (rule ccontr)
    assume n: "\<not> bn_used a \<le> n"
    then have "WB ^ n \<le> WB ^ (bn_used a - 1)"
      by (intro power_increasing) simp_all
    then show False
      using bn_ok_bounds(2) [OF *(1)] *(2) n by linarith
  qed
qed

lemma bn_used_less: "bn_ok a \<Longrightarrow> bn_ok b \<Longrightarrow> bn_used a < bn_used b \<Longrightarrow> bn_val a < bn_val b"
  using bn_used_le [of b "bn_used a"] bn_ok_bounds(1) [of a] by simp

lemma bn_used_0: "bn_ok a \<Longrightarrow> bn_used a = 0 \<longleftrightarrow> bn_val a = 0"
  by (simp add: bn_ok_def bn_val_def top_words_0)

lemma bn_is_zero_val: "bn_ok a \<Longrightarrow> bn_is_zero a \<longleftrightarrow> bn_val a = 0"
  by (simp add: bn_is_zero_def bn_used_0)

lemma bn_val_less: "bn_ok a \<Longrightarrow> bn_val a < WB ^ BN_MAX_WORDS"
  using bn_used_le bn_ok_bounds(3) by blast

lemma bn_val_eq: "bn_ok a \<Longrightarrow> bn_ok b \<Longrightarrow> bn_val a = bn_val b \<Longrightarrow> a = b"
proof -
  assume *: "bn_ok a" "bn_ok b" "bn_val a = bn_val b"
  then have "bn_w a = bn_w b"
    by (intro limbs_eq) (simp_all add: bn_ok_def bn_val_def)
  then show ?thesis
    using * by (simp add: bn_ok_def)
qed

lemma bn_zero_ok [simp, bn_facts]: "bn_ok bn_zero" "bn_val bn_zero = 0" "length (bn_w bn_zero) = BN_MAX_WORDS"
proof -
  show "bn_val bn_zero = 0" "length (bn_w bn_zero) = BN_MAX_WORDS"
    by (simp_all add: bn_val_def bn_zero_def)
  show "bn_ok bn_zero"
    using top_words_0 [of "replicate BN_MAX_WORDS 0"] by (simp add: bn_ok_def bn_zero_def)
qed

lemma MAX_pos [simp]: "0 < BN_MAX_WORDS"
  by (simp add: BN_MAX_WORDS_def)

lemma bn_set_u32_ok [simp, bn_facts]: "bn_ok (bn_set_u32 v)" "bn_val (bn_set_u32 v) = unat v"
proof -
  define ws where "ws = (replicate BN_MAX_WORDS (0 :: u32))[0 := v]"
  obtain n where n: "BN_MAX_WORDS = Suc n"
    using MAX_pos gr0_conv_Suc by blast
  have ws: "ws = [v] @ replicate n 0"
    by (simp add: ws_def n)
  then have val: "limbs ws = unat v"
    by simp
  then show "bn_val (bn_set_u32 v) = unat v"
    by (simp add: bn_set_u32_def bn_val_def bn_zero_def ws_def)
  have "top_words ws = 1" if "v \<noteq> 0"
  proof -
    have "dropWhile (\<lambda>x. x = 0) (rev ws) = [v]"
      using that unfolding ws by (simp, subst dropWhile_append2) auto
    then show ?thesis
      by (simp add: top_words_def)
  qed
  then show "bn_ok (bn_set_u32 v)"
    by (simp add: bn_set_u32_def bn_ok_def bn_zero_def ws_def) (metis bn_ok_def bn_zero_def bn_zero_ok(1) bignum.select_convs(1,2))
qed

lemma bn_fill_ok [bn_facts]:
  assumes "length ws \<le> BN_MAX_WORDS"
  shows "bn_ok (bn_fill ws)" "bn_val (bn_fill ws) = limbs ws"
  using assms by (simp_all add: bn_fill_def bn_norm_ok) (simp add: bn_val_def)

lemma bn_words_take: "bn_ok a \<Longrightarrow> n \<le> BN_MAX_WORDS \<Longrightarrow> bn_words a n = take n (bn_w a)"
  using nth_above_top [of "bn_w a"] by (auto simp: bn_words_def word_at_def bn_ok_def intro!: nth_equalityI)

lemma bn_words_length [simp]: "length (bn_words a n) = n"
  by (simp add: bn_words_def)

lemma bn_words_val: "bn_ok a \<Longrightarrow> n \<le> BN_MAX_WORDS \<Longrightarrow> limbs (bn_words a n) = bn_val a mod WB ^ n"
  by (simp add: bn_words_take limbs_take bn_val_def)

lemma bn_words_used: "bn_ok a \<Longrightarrow> bn_used a \<le> n \<Longrightarrow> n \<le> BN_MAX_WORDS \<Longrightarrow> limbs (bn_words a n) = bn_val a"
  by (simp add: bn_words_val bn_used_le)

section \<open>Comparison\<close>

lemma sgn_nat: "a < b \<Longrightarrow> sgn (int a - int b) = -1" "b < a \<Longrightarrow> sgn (int a - int b) = 1"
  by (simp_all add: sgn_if)

lemma cmp_words_val:
  "length us = length vs \<Longrightarrow> cmp_words us vs = sgn (int (limbs (rev us)) - int (limbs (rev vs)))"
proof (induction us vs rule: list_induct2)
  case (Cons u us v vs)
  let ?B = "WB ^ length us"
  have less: "limbs (rev xs) + ?B * unat x < limbs (rev ys) + ?B * unat y"
    if "length xs = length us" "length ys = length us" "x < y" for xs ys and x y :: u32
  proof -
    have "?B * Suc (unat x) \<le> ?B * unat y"
      using that(3) by (intro mult_le_mono2) (simp add: word_less_nat_alt Suc_le_eq)
    then show ?thesis
      using limbs_less [of "rev xs"] that by simp
  qed
  consider "u = v" | "u < v" | "v < u"
    by fastforce
  then show ?case
  proof cases
    case 1
    then show ?thesis
      using Cons by simp
  next
    case 2
    have "limbs (rev (u # us)) < limbs (rev (v # vs))"
      using less [OF refl Cons.hyps [symmetric] 2] by (simp add: Cons.hyps)
    moreover have "cmp_words (u # us) (v # vs) = -1"
      using 2 by auto
    ultimately show ?thesis
      by (simp only: sgn_nat)
  next
    case 3
    have "limbs (rev (v # vs)) < limbs (rev (u # us))"
      using less [OF Cons.hyps [symmetric] refl 3] by (simp add: Cons.hyps)
    moreover have "cmp_words (u # us) (v # vs) = 1"
      using 3 by auto
    ultimately show ?thesis
      by (simp only: sgn_nat)
  qed
qed simp

lemma bn_cmp_val:
  assumes "bn_ok a" "bn_ok b"
  shows "bn_cmp a b = sgn (int (bn_val a) - int (bn_val b))"
proof (cases "bn_used a = bn_used b")
  case True
  then show ?thesis
    using cmp_words_val [of "rev (take (bn_used a) (bn_w a))" "rev (take (bn_used b) (bn_w b))"] assms limbs_take_top [of "bn_w a" "bn_used a"]
      limbs_take_top [of "bn_w b" "bn_used b"] by (simp add: bn_cmp_def bn_ok_def bn_val_def)
next
  case False
  then consider "bn_used a < bn_used b" | "bn_used b < bn_used a"
    by linarith
  then show ?thesis
    by cases (simp_all add: bn_cmp_def sgn_nat bn_used_less assms)
qed

lemma bn_cmp_iff:
  assumes "bn_ok a" "bn_ok b"
  shows "bn_cmp a b \<ge> 0 \<longleftrightarrow> bn_val b \<le> bn_val a" "bn_cmp a b < 0 \<longleftrightarrow> bn_val a < bn_val b" "bn_cmp a b = 0 \<longleftrightarrow> bn_val a = bn_val b"
  using bn_cmp_val [OF assms] by (auto simp: sgn_if)

end
