(* ===== verification/BigNumArith.thy ===== *)
theory BigNumArith
  imports BigNumFacts
begin

unbundle bit_operations_syntax

text \<open>What the operations of \<open>BigNum\<close> compute: sums, differences, shifts, products, bits, bytes and division.\<close>

section \<open>Sums and differences\<close>

lemma carry_step:
  fixes lo :: "'a::comm_ring_1"
  assumes "lo + b * hi = s" "z + q * out = t + hi"
  shows "(lo + b * z) + b * q * out = s + b * t"
proof -
  have "(lo + b * z) + b * q * out = lo + b * (z + q * out)"
    by (simp add: algebra_simps)
  also have "\<dots> = (lo + b * hi) + b * t"
    unfolding assms(2) by (simp add: algebra_simps)
  finally show ?thesis
    unfolding assms(1) .
qed

lemma carry_step_nat:
  fixes lo :: nat
  assumes "lo + b * hi = s" "z + q * out = t + hi"
  shows "(lo + b * z) + b * q * out = s + b * t"
  using carry_step [of "int lo" "int b" "int hi" "int s" "int z" "int q" "int out" "int t"] assms
  by (simp flip: of_nat_add of_nat_mult)

lemma unat_sum3:
  fixes x y :: u32 and c :: u64
  assumes "unat c \<le> 1"
  shows "unat (ucast x + ucast y + c) = unat x + unat y + unat c"
proof -
  have b: "unat x + unat y + unat c < 2 ^ 64"
    using unat_WB [of x] unat_WB [of y] assms by (simp add: WB_def del: unat_WB)
  have "unat (ucast x + ucast y :: u64) = unat x + unat y"
    using b by (subst unat_sum64) simp_all
  then show ?thesis
    using b by (subst unat_sum64) simp_all
qed

lemma add_words_val:
  assumes "length xs = length ys" "unat carry \<le> 1" "add_words carry xs ys = (zs, out)"
  shows "length zs = length xs \<and> unat out \<le> 1 \<and> limbs zs + WB ^ length xs * unat out = limbs xs + limbs ys + unat carry"
  using assms
proof (induction xs ys arbitrary: carry zs out rule: list_induct2)
  case (Cons x xs y ys)
  define s where "s = ucast x + ucast y + carry"
  obtain zs' where rest: "add_words (drop_bit 32 s) xs ys = (zs', out)" and zs: "zs = ucast s # zs'"
    using Cons.prems(2) by (auto simp: s_def Let_def split: prod.splits)
  have s: "unat s = unat x + unat y + unat carry"
    unfolding s_def by (rule unat_sum3 [OF Cons.prems(1)])
  have "unat s < WB * 2"
    using s unat_WB [of x] unat_WB [of y] Cons.prems(1) by linarith
  then have "unat (drop_bit 32 s) \<le> 1"
    by (simp add: unat_high less_mult_imp_div_less mult.commute flip: less_Suc_eq_le)
  then have rest: "length zs' = length xs" "unat out \<le> 1" "limbs zs' + WB ^ length xs * unat out = (limbs xs + limbs ys) + unat (drop_bit 32 s)"
    using Cons.IH [OF _ rest] by simp_all
  show ?case
    using carry_step_nat [OF unat_split [of s] rest(3)] rest(1,2) s by (simp add: zs algebra_simps)
qed simp

lemma bn_add_val [bn_facts]:
  assumes "bn_ok a" "bn_ok b" "bn_val a + bn_val b < WB ^ BN_MAX_WORDS"
  shows "\<exists>r. bn_add a b = Some r \<and> bn_ok r \<and> bn_val r = bn_val a + bn_val b"
proof -
  define n where "n = max (bn_used a) (bn_used b)"
  have n: "n \<le> BN_MAX_WORDS" "bn_used a \<le> n" "bn_used b \<le> n"
    using bn_ok_bounds(3) [OF assms(1)] bn_ok_bounds(3) [OF assms(2)] by (simp_all add: n_def)
  obtain ws c where aw: "add_words 0 (bn_words a n) (bn_words b n) = (ws, c)"
    by force
  then have ws: "length ws = n" "unat c \<le> 1" "limbs ws + WB ^ n * unat c = bn_val a + bn_val b"
    using add_words_val [OF _ _ aw] assms n by (simp_all add: bn_words_used)
  show ?thesis
  proof (cases "c = 0")
    case True
    then show ?thesis
      using ws n aw assms by (auto simp: bn_add_def n_def [symmetric] bn_fill_ok)
  next
    case False
    then have c: "unat c = 1"
      using ws(2) by (metis le_neq_implies_less less_one unat_eq_zero)
    then have "WB ^ n < WB ^ BN_MAX_WORDS"
      using ws(3) assms(3) unfolding c by linarith
    then have "n < BN_MAX_WORDS"
      by (rule power_less_imp_less_exp [rotated]) simp
    moreover have "unat (ucast c :: u32) = 1"
      by (simp add: unat_low c)
    ultimately have "bn_add a b = Some (bn_fill (ws @ [ucast c]))" "bn_ok (bn_fill (ws @ [ucast c]))" "bn_val (bn_fill (ws @ [ucast c])) = bn_val a + bn_val b"
      using ws(1,3) n(1) aw False by (simp_all add: bn_add_def n_def [symmetric] bn_fill_ok c)
    then show ?thesis
      by blast
  qed
qed

lemma uint_WB: "uint (x :: u32) < int WB" "0 \<le> uint x"
proof -
  have "uint x < 2 ^ 32"
    using unsigned_less [of x] by simp
  then show "uint x < int WB" "0 \<le> uint x"
    by (simp_all add: WB_def)
qed

lemma borrow_range:
  fixes x y b :: int
  assumes "0 \<le> x" "x < int WB" "0 \<le> y" "y < int WB" "b \<in> {0, 1}"
  shows "0 \<le> (if x - y - b < 0 then x - y - b + int WB else x - y - b)" "(if x - y - b < 0 then x - y - b + int WB else x - y - b) < int WB"
  using assms by (auto split: if_splits)

lemma sub_words_val:
  assumes "length xs = length ys" "borrow \<in> {0, 1}" "sub_words borrow xs ys = (zs, out)"
  shows "length zs = length xs \<and> out \<in> {0, 1} \<and> int (limbs zs) - int (WB ^ length xs) * out = int (limbs xs) - int (limbs ys) - borrow"
  using assms
proof (induction xs ys arbitrary: borrow zs out rule: list_induct2)
  case (Cons x xs y ys)
  define d where "d = uint x - uint y - borrow"
  define d' where "d' = (if d < 0 then d + 2 ^ 32 else d)"
  define o' where "o' = (if d < 0 then 1 else 0 :: int)"
  obtain zs' where rest: "sub_words o' xs ys = (zs', out)" and zs: "zs = word_of_int d' # zs'"
    using Cons.prems(2) by (auto simp: d_def d'_def o'_def Let_def split: prod.splits)
  have d': "0 \<le> d'" "d' < 2 ^ 32" "d' = d + int WB * o'"
    using borrow_range [OF uint_WB(2) uint_WB(1) uint_WB(2) uint_WB(1) Cons.prems(1), of x y]
    unfolding d_def [symmetric] WB_def by (auto simp: d'_def o'_def split: if_splits)
  have "uint (word_of_int d' :: u32) = d'"
    using d'(1,2) by (simp add: unsigned_of_int take_bit_int_eq_self)
  then have val: "int (limbs zs) = d' + int WB * int (limbs zs')"
    by (simp add: zs)
  have ih: "int (limbs zs') - int (WB ^ length xs) * out = int (limbs xs) - int (limbs ys) - o'" "out \<in> {0, 1}" "length zs' = length xs"
    using Cons.IH [OF _ rest] by (auto simp: o'_def)
  have "(d' + int WB * int (limbs zs')) + int WB * (- int (WB ^ length xs)) * out = d + int WB * (int (limbs xs) - int (limbs ys))"
    by (rule carry_step [of d' "int WB" "- o'"]) (use d'(3) ih(1) in simp_all)
  then have "int (limbs zs) - int (WB ^ length (x # xs)) * out = int (limbs (x # xs)) - int (limbs (y # ys)) - borrow"
    unfolding val by (simp add: d_def algebra_simps)
  then show ?case
    using ih(2,3) by (simp add: zs)
qed simp

lemma bn_sub_val [bn_facts]:
  assumes "bn_ok a" "bn_ok b" "bn_val b \<le> bn_val a"
  shows "fst (bn_sub a b)" "bn_ok (snd (bn_sub a b))" "bn_val (snd (bn_sub a b)) = bn_val a - bn_val b"
proof -
  let ?n = "bn_used a"
  have n: "?n \<le> BN_MAX_WORDS" "bn_used b \<le> ?n"
    using bn_ok_bounds [OF assms(1)] bn_used_le [OF assms(2), of ?n] assms(3) by simp_all
  obtain ws out where sw: "sub_words 0 (bn_words a ?n) (bn_words b ?n) = (ws, out)"
    by force
  have ws: "length ws = ?n" "out \<in> {0, 1}" "int (limbs ws) - int (WB ^ ?n) * out = int (bn_val a) - int (bn_val b)"
    using sub_words_val [OF _ _ sw] n assms by (simp_all add: bn_words_used)
  have "out = 0"
  proof (rule ccontr)
    assume "out \<noteq> 0"
    then have "int (limbs ws) \<ge> int (WB ^ ?n)"
      using ws(2,3) assms(3) by (auto simp flip: of_nat_power)
    then show False
      using limbs_less [of ws] ws(1) by (simp add: not_less [symmetric] del: of_nat_power)
  qed
  then have "limbs ws = bn_val a - bn_val b"
    using ws(3) by simp
  then show "fst (bn_sub a b)" "bn_ok (snd (bn_sub a b))" "bn_val (snd (bn_sub a b)) = bn_val a - bn_val b"
    using sw ws(1) n(1) \<open>out = 0\<close> by (simp_all add: bn_sub_def bn_fill_ok)
qed

section \<open>Shifts\<close>

lemma shl_word:
  fixes x c :: u32
  assumes "unat c \<le> 1"
  shows "unat (push_bit 1 x OR c) + WB * unat (drop_bit 31 x) = 2 * unat x + unat c" "unat (drop_bit 31 x) \<le> 1"
proof -
  have even: "c = 0 \<or> c = 1"
    using assms by (metis One_nat_def le_Suc_eq le_zero_eq unat_1 unat_eq_zero word_unat_eq_iff)
  define m where "m = unat x mod 2 ^ 31"
  have x: "unat x < 2 * 2 ^ 31"
    using unat_WB [of x] by (simp add: WB_def del: unat_WB)
  have d: "unat (drop_bit 31 x) = unat x div 2 ^ 31"
    by (simp add: drop_bit_eq_div unat_div)
  have "push_bit 1 x OR c = push_bit 1 x + c"
    using even by (intro disjunctive_add [symmetric]) (auto simp only: bit_push_bit_iff bit_1_iff bit_0_eq bot_apply bot_bool_def)
  moreover have "unat (push_bit 1 x) = 2 * m"
    unfolding m_def mult_mod_right by (simp add: push_bit_eq_mult unat_word_ariths mult.commute)
  moreover have "2 * m + unat c < 2 ^ 32"
    using assms mod_less_divisor [of "2 ^ 31" "unat x"] by (simp add: m_def)
  ultimately have "unat (push_bit 1 x OR c) = 2 * m + unat c"
    by (simp only: unat_word_ariths len_num0 len_bit0 len_num1) (simp add: mod_less)
  moreover have "2 ^ 31 * (unat x div 2 ^ 31) + m = unat x"
    unfolding m_def by (rule mult_div_mod_eq)
  moreover have "WB * (unat x div 2 ^ 31) = 2 * (2 ^ 31 * (unat x div 2 ^ 31))"
    by (simp add: WB_def)
  ultimately show "unat (push_bit 1 x OR c) + WB * unat (drop_bit 31 x) = 2 * unat x + unat c"
    unfolding d by linarith
  show "unat (drop_bit 31 x) \<le> 1"
    using x d by (simp add: less_mult_imp_div_less flip: less_Suc_eq_le)
qed

lemma shl_words_val:
  assumes "unat c \<le> 1" "shl_words c xs = (zs, out)"
  shows "length zs = length xs \<and> unat out \<le> 1 \<and> limbs zs + WB ^ length xs * unat out = 2 * limbs xs + unat c"
  using assms
proof (induction xs arbitrary: c zs out)
  case (Cons x xs)
  obtain zs' where rest: "shl_words (drop_bit 31 x) xs = (zs', out)" and zs: "zs = (push_bit 1 x OR c) # zs'"
    using Cons.prems(2) by (auto split: prod.splits)
  note w = shl_word [OF Cons.prems(1), of x]
  have ih: "length zs' = length xs" "unat out \<le> 1" "limbs zs' + WB ^ length xs * unat out = 2 * limbs xs + unat (drop_bit 31 x)"
    using Cons.IH [OF w(2) rest] by simp_all
  show ?case
    using carry_step_nat [OF w(1) ih(3)] ih(1,2) by (simp add: zs algebra_simps)
qed simp

lemma top_words_le_iff: "top_words ws \<le> n \<longleftrightarrow> limbs ws < WB ^ n"
proof
  assume "top_words ws \<le> n"
  then have "WB ^ top_words ws \<le> WB ^ n"
    by (intro power_increasing) simp_all
  then show "limbs ws < WB ^ n"
    by (rule order_less_le_trans [OF top_words_val(1)])
next
  assume *: "limbs ws < WB ^ n"
  show "top_words ws \<le> n"
  proof (rule ccontr)
    assume "\<not> top_words ws \<le> n"
    then have "0 < top_words ws" "WB ^ n \<le> WB ^ (top_words ws - 1)"
      by (auto intro: power_increasing)
    then show False
      using top_words_val(2) [of ws] * by linarith
  qed
qed

lemma top_wordsI: "limbs ws < WB ^ n \<Longrightarrow> (0 < n \<Longrightarrow> WB ^ (n - 1) \<le> limbs ws) \<Longrightarrow> top_words ws = n"
  using top_words_le_iff [of ws n] top_words_le_iff [of ws "n - 1"] by fastforce

lemma bn_shl1_val [bn_facts]:
  assumes "bn_ok a" "2 * bn_val a < WB ^ BN_MAX_WORDS"
  shows "bn_ok (bn_shl1 a)" "bn_val (bn_shl1 a) = 2 * bn_val a"
proof -
  let ?n = "bn_used a" and ?w = "bn_w a"
  note b = bn_ok_bounds [OF assms(1)]
  obtain zs c where sw: "shl_words 0 (take ?n ?w) = (zs, c)"
    by force
  have zs: "length zs = ?n" "unat c \<le> 1" "limbs zs + WB ^ ?n * unat c = 2 * bn_val a"
    using shl_words_val [OF _ sw] b assms(1) limbs_take_top [of ?w ?n] by (simp_all add: bn_val_def bn_ok_def)
  have rest: "limbs (drop m ?w) = 0" if "?n \<le> m" for m
  proof -
    have "limbs ?w = limbs (take m ?w) + WB ^ length (take m ?w) * limbs (drop m ?w)"
      using limbs_append [of "take m ?w" "drop m ?w"] by simp
    then show ?thesis
      using limbs_take_top [of ?w m] that assms(1) by (simp add: bn_ok_def)
  qed
  have "bn_ok (bn_shl1 a) \<and> bn_val (bn_shl1 a) = 2 * bn_val a"
  proof (cases "c = 0")
    case True
    then show ?thesis
      using sw zs b rest [of ?n] by (simp add: bn_shl1_def bn_norm_ok) (simp add: bn_val_def)
  next
    case False
    then have c: "unat c = 1"
      using zs(2) by (metis le_neq_implies_less less_one unat_eq_zero)
    have "WB ^ ?n < WB ^ BN_MAX_WORDS"
      using zs(3) assms(2) unfolding c by linarith
    then have n: "?n < BN_MAX_WORDS"
      by (rule power_less_imp_less_exp [rotated]) simp
    define ws where "ws = zs @ c # drop (Suc ?n) ?w"
    have ws: "bn_shl1 a = a\<lparr>bn_w := ws, bn_used := Suc ?n\<rparr>"
      using sw False n by (simp add: bn_shl1_def ws_def)
    have v: "limbs ws = 2 * bn_val a"
      using zs rest [of "Suc ?n"] by (simp add: ws_def c)
    have "2 * bn_val a < 2 * WB ^ ?n"
      using b(1) by simp
    also have "\<dots> \<le> WB ^ Suc ?n"
      using WB_pos(4) mult_le_mono1 by (simp only: power_Suc)
    finally have "top_words ws = Suc ?n"
      using v zs(3) c by (intro top_wordsI) (simp_all flip: power_Suc)
    then show ?thesis
      using ws v n b(4) zs(1) by (simp add: bn_ok_def bn_val_def) (simp add: ws_def)
  qed
  then show "bn_ok (bn_shl1 a)" "bn_val (bn_shl1 a) = 2 * bn_val a"
    by simp_all
qed

lemma low_bit: "unat (x AND 1 :: u32) = unat x mod 2"
  by (simp add: and_one_eq unat_mod)

lemma shr_word:
  fixes x c :: u32
  assumes "unat c \<le> 1"
  shows "unat (drop_bit 1 x OR push_bit 31 c) = (unat c * WB + unat x) div 2"
proof -
  have even: "c = 0 \<or> c = 1"
    using assms by (metis One_nat_def le_Suc_eq le_zero_eq unat_1 unat_eq_zero word_unat_eq_iff)
  have d: "unat (drop_bit 1 x) = unat x div 2" "unat x < 2 * 2 ^ 31"
    using unat_WB [of x] by (simp_all add: drop_bit_eq_div unat_div WB_def del: unat_WB)
  have "drop_bit 1 x OR push_bit 31 c = drop_bit 1 x + push_bit 31 c"
  proof (rule disjunctive_add [symmetric])
    fix n
    show "\<not> bit (drop_bit 1 x) n \<or> \<not> bit (push_bit 31 c) n"
    proof (cases "n < 31")
      case False
      then have "\<not> bit x (1 + n)"
        by (simp add: bit_word.rep_eq)
      then show ?thesis
        by (simp only: bit_drop_bit_eq comp_def) simp
    qed (simp add: bit_push_bit_iff)
  qed
  moreover have "unat (push_bit 31 c) = unat c * 2 ^ 31"
    using even by (auto simp: push_bit_eq_mult)
  moreover have "unat x div 2 + unat c * 2 ^ 31 < 2 ^ 32"
    using d(2) even by auto
  ultimately have "unat (drop_bit 1 x OR push_bit 31 c) = unat x div 2 + unat c * 2 ^ 31"
    using d(1) by (simp only: unat_word_ariths len_num0 len_bit0 len_num1) (simp add: mod_less)
  then show ?thesis
    using even by (auto simp: WB_def)
qed

lemma shr_words_val:
  "unat c \<le> 1 \<Longrightarrow> length (shr_words c us) = length us \<and> limbs (rev (shr_words c us)) = (unat c * WB ^ length us + limbs (rev us)) div 2"
proof (induction us arbitrary: c)
  case (Cons u us)
  let ?P = "WB ^ length us" and ?q = "(unat c * WB + unat u) div 2"
  have "unat (u AND 1) \<le> 1"
    by (simp add: low_bit)
  then have ih: "length (shr_words (u AND 1) us) = length us" "limbs (rev (shr_words (u AND 1) us)) = (unat u mod 2 * ?P + limbs (rev us)) div 2"
    using Cons.IH by (simp_all add: low_bit)
  have "even WB"
    by (simp add: WB_def)
  then have "unat c * WB + unat u = 2 * ?q + unat u mod 2"
    by (simp add: mod2_eq_if)
  then have "(unat c * WB + unat u) * ?P = (2 * ?q + unat u mod 2) * ?P"
    by (rule arg_cong)
  then have "(unat c * WB + unat u) * ?P + limbs (rev us) = 2 * (?q * ?P) + (unat u mod 2 * ?P + limbs (rev us))"
    by (simp only: distrib_right mult.assoc add.assoc)
  then have "((unat c * WB + unat u) * ?P + limbs (rev us)) div 2 = ?q * ?P + (unat u mod 2 * ?P + limbs (rev us)) div 2"
    by simp
  then show ?case
    using ih shr_word [OF Cons.prems, of u] by (simp add: algebra_simps)
qed simp

lemma bn_shr1_val [bn_facts]:
  assumes "bn_ok a"
  shows "bn_ok (bn_shr1 a)" "bn_val (bn_shr1 a) = bn_val a div 2"
proof -
  let ?n = "bn_used a" and ?w = "bn_w a"
  let ?zs = "rev (shr_words 0 (rev (take ?n ?w)))"
  note b = bn_ok_bounds [OF assms(1)]
  have zs: "length ?zs = ?n" "limbs ?zs = bn_val a div 2"
    using shr_words_val [of 0 "rev (take ?n ?w)"] b limbs_take_top [of ?w ?n] assms by (simp_all add: bn_val_def bn_ok_def)
  have "limbs ?w = limbs (take ?n ?w) + WB ^ length (take ?n ?w) * limbs (drop ?n ?w)"
    using limbs_append [of "take ?n ?w" "drop ?n ?w"] by simp
  then have "limbs (drop ?n ?w) = 0"
    using limbs_take_top [of ?w ?n] assms by (simp add: bn_ok_def)
  then show "bn_ok (bn_shr1 a)" "bn_val (bn_shr1 a) = bn_val a div 2"
    using zs b by (simp_all add: bn_shr1_def bn_norm_ok) (simp add: bn_val_def)
qed

section \<open>Products\<close>

lemma mul_row_val:
  assumes "length bs < length ts" "ts ! length bs = 0" "unat ai < WB" "unat c < WB"
  shows "length (mul_row ai c ts bs) = length ts \<and> limbs (mul_row ai c ts bs) = limbs ts + unat ai * limbs bs + unat c
    \<and> (\<forall>j. length bs < j \<longrightarrow> mul_row ai c ts bs ! j = ts ! j)"
  using assms
proof (induction ai c ts bs rule: mul_row.induct)
  case (1 ai c t ts b bs)
  define s where "s = ucast t + ai * ucast b + c"
  have s: "unat s = unat t + unat b * unat ai + unat c" "unat (drop_bit 32 s) < WB"
    using unat_mac [OF 1(4,5), of t b] unat_mac_high [OF 1(4,5), of t b] by (simp_all add: s_def mult.commute)
  have ih: "length (mul_row ai (drop_bit 32 s) ts bs) = length ts"
    "limbs (mul_row ai (drop_bit 32 s) ts bs) = limbs ts + unat ai * limbs bs + unat (drop_bit 32 s)"
    "\<forall>j. length bs < j \<longrightarrow> mul_row ai (drop_bit 32 s) ts bs ! j = ts ! j"
    using 1(1) [OF s_def] 1(2-5) s(2) by simp_all
  have row: "mul_row ai c (t # ts) (b # bs) = ucast s # mul_row ai (drop_bit 32 s) ts bs"
    by (simp add: s_def Let_def)
  have "unat (ucast s :: u32) + WB * limbs (mul_row ai (drop_bit 32 s) ts bs) = unat s + WB * (limbs ts + unat ai * limbs bs)"
    using carry_step_nat [OF unat_split [of s], of "limbs (mul_row ai (drop_bit 32 s) ts bs)" 0 0] ih(2) by simp
  then have "limbs (mul_row ai c (t # ts) (b # bs)) = limbs (t # ts) + unat ai * limbs (b # bs) + unat c"
    unfolding row s(1) by (simp add: algebra_simps)
  then show ?case
    unfolding row using ih(1,3) by (simp add: nth_Cons split: nat.split)
next
  case (2 ai c t ts)
  then have "unat (ucast c :: u32) = unat c"
    by (simp add: unat_low)
  then show ?case
    using 2 by (auto simp: nth_Cons split: nat.split)
qed simp

lemma mul_loop_val:
  assumes "length xs + length bs \<le> length tmp" "\<forall>j. length bs \<le> j \<longrightarrow> j < length tmp \<longrightarrow> tmp ! j = 0"
  shows "length (mul_loop xs bs tmp) = length tmp \<and> limbs (mul_loop xs bs tmp) = limbs tmp + limbs xs * limbs bs"
  using assms
proof (induction xs bs tmp rule: mul_loop.induct)
  case (2 a xs bs tmp)
  note row = mul_row_val [of bs tmp "ucast a" 0]
  have r: "length (mul_row (ucast a) 0 tmp bs) = length tmp" "limbs (mul_row (ucast a) 0 tmp bs) = limbs tmp + unat a * limbs bs"
    "\<forall>j. length bs < j \<longrightarrow> mul_row (ucast a) 0 tmp bs ! j = tmp ! j"
    using row 2(2,3) by simp_all
  obtain t ts where ts: "mul_row (ucast a) 0 tmp bs = t # ts"
    using r(1) 2(2) by (cases "mul_row (ucast a) 0 tmp bs") auto
  have z: "ts ! j = 0" if "length bs \<le> j" "j < length ts" for j
    using r(1,3) [unfolded ts] 2(3) that by (metis Suc_le_mono Suc_less_eq le_imp_less_Suc length_Cons less_imp_le nth_Cons_Suc)
  have "length (mul_loop xs bs ts) = length ts \<and> limbs (mul_loop xs bs ts) = limbs ts + limbs xs * limbs bs"
    using 2(1) [OF ts] 2(2) r(1) ts z by simp
  then show ?case
    using r(1,2) ts by (simp add: algebra_simps)
qed simp

lemma bn_mul_val [bn_facts]:
  assumes "bn_ok a" "bn_ok b" "bn_used a + bn_used b \<le> BN_MAX_WORDS"
  shows "\<exists>r. bn_mul a b = Some r \<and> bn_ok r \<and> bn_val r = bn_val a * bn_val b"
proof -
  let ?a = "take (bn_used a) (bn_w a)" and ?b = "take (bn_used b) (bn_w b)" and ?z = "replicate BN_MAX_WORDS 0"
  have "limbs ?a = bn_val a" "limbs ?b = bn_val b" "length ?a + length ?b \<le> BN_MAX_WORDS"
    using assms limbs_take_top [of "bn_w a" "bn_used a"] limbs_take_top [of "bn_w b" "bn_used b"] by (simp_all add: bn_ok_def bn_val_def)
  then have "length (mul_loop ?a ?b ?z) = BN_MAX_WORDS" "limbs (mul_loop ?a ?b ?z) = bn_val a * bn_val b"
    using mul_loop_val [of ?a ?b ?z] by simp_all
  then show ?thesis
    using assms(3) by (simp add: bn_mul_def bn_norm_ok) (simp add: bn_val_def)
qed

section \<open>Bits\<close>

lemma WB_power: "WB ^ n = 2 ^ (n * 32)"
  unfolding WB_def power_mult [symmetric] by (simp add: mult.commute)

lemma word_bits_Suc: "x \<noteq> 0 \<Longrightarrow> \<exists>k. word_bits x = Suc k"
  by (subst word_bits.simps) simp

lemma word_bits_val: "unat hi < 2 ^ word_bits hi" "hi \<noteq> 0 \<Longrightarrow> 2 ^ (word_bits hi - 1) \<le> unat hi"
proof (induction hi rule: word_bits.induct)
  case (1 hi)
  have half: "unat (drop_bit 1 hi) = unat hi div 2"
    by (simp add: drop_bit_eq_div unat_div)
  {
    case 1
    show ?case
    proof (cases "hi = 0")
      case False
      then have "unat hi div 2 < 2 ^ word_bits (drop_bit 1 hi)"
        using "1.IH"(1) half by simp
      then show ?thesis
        using False by (subst word_bits.simps) simp
    qed (subst word_bits.simps, simp)
  next
    case 2
    show ?case
    proof (cases "drop_bit 1 hi = 0")
      case True
      then have "word_bits (drop_bit 1 hi) = 0"
        by (subst word_bits.simps) simp
      then show ?thesis
        using 2 by (subst word_bits.simps) (simp add: Suc_le_eq unat_gt_0)
    next
      case False
      then obtain k where k: "word_bits (drop_bit 1 hi) = Suc k"
        using word_bits_Suc by blast
      then have "2 ^ k \<le> unat hi div 2"
        using "1.IH"(2) [OF 2 False] half by simp
      then show ?thesis
        using 2 k by (subst word_bits.simps) simp
    qed
  }
qed

lemma bn_bitlen_val:
  assumes "bn_ok a"
  shows "bn_val a < 2 ^ bn_bitlen a" "bn_val a \<noteq> 0 \<Longrightarrow> 2 ^ (bn_bitlen a - 1) \<le> bn_val a"
proof -
  note b = bn_ok_bounds [OF assms]
  have "bn_val a < 2 ^ bn_bitlen a \<and> (bn_val a \<noteq> 0 \<longrightarrow> 2 ^ (bn_bitlen a - 1) \<le> bn_val a)"
  proof (cases "bn_used a")
    case 0
    then show ?thesis
      using bn_used_0 [OF assms] by (simp add: bn_bitlen_def)
  next
    case (Suc n)
    define lo hi where "lo = limbs (take n (bn_w a))" and "hi = bn_w a ! n"
    have hi: "hi \<noteq> 0"
      unfolding hi_def using assms Suc by (metis bn_ok_def diff_Suc_1 top_words_last zero_less_Suc)
    have "take (Suc n) (bn_w a) = take n (bn_w a) @ [hi]"
      using Suc b(3,4) by (simp add: take_Suc_conv_app_nth hi_def)
    then have val: "bn_val a = lo + WB ^ n * unat hi"
      using limbs_take_top [of "bn_w a" "Suc n"] assms Suc b(3,4) by (simp add: bn_ok_def bn_val_def lo_def)
    have lo: "lo < WB ^ n"
      using limbs_less [of "take n (bn_w a)"] Suc b(3,4) by (simp add: lo_def)
    note P = WB_power [of n]
    obtain k where k: "word_bits hi = Suc k"
      using word_bits_Suc [OF hi] by blast
    have len: "bn_bitlen a = n * 32 + Suc k"
      using Suc k by (simp add: bn_bitlen_def hi_def)
    have "Suc (unat hi) \<le> 2 ^ Suc k" "2 ^ k \<le> unat hi"
      using word_bits_val [of hi] hi k by simp_all
    then have "WB ^ n * Suc (unat hi) \<le> WB ^ n * 2 ^ Suc k" "WB ^ n * 2 ^ k \<le> WB ^ n * unat hi"
      by (simp_all only: mult_le_mono2)
    moreover have "2 ^ bn_bitlen a = WB ^ n * 2 ^ Suc k" "2 ^ (bn_bitlen a - 1) = WB ^ n * 2 ^ k"
      by (simp_all add: len power_add P)
    moreover have "WB ^ n * Suc (unat hi) = WB ^ n + WB ^ n * unat hi"
      by simp
    ultimately show ?thesis
      using lo val by linarith
  qed
  then show "bn_val a < 2 ^ bn_bitlen a" "bn_val a \<noteq> 0 \<Longrightarrow> 2 ^ (bn_bitlen a - 1) \<le> bn_val a"
    by simp_all
qed

lemma limbs_drop: "n \<le> length ws \<Longrightarrow> limbs (drop n ws) = limbs ws div WB ^ n"
proof -
  assume n: "n \<le> length ws"
  have "limbs ws = limbs (take n ws) + WB ^ n * limbs (drop n ws)"
    using limbs_append [of "take n ws" "drop n ws"] n by simp
  then show ?thesis
    using limbs_less [of "take n ws"] n by simp
qed

lemma odd_word:
  assumes "r < 32"
  shows "odd ((unat (x :: u32) + WB * v) div 2 ^ r) \<longleftrightarrow> drop_bit r x AND 1 \<noteq> 0"
proof -
  have W: "WB = 2 ^ r * 2 ^ (32 - r)"
    using assms by (simp add: WB_def flip: power_add)
  have "(unat x + WB * v) div 2 ^ r = unat x div 2 ^ r + 2 ^ (32 - r) * v"
    unfolding W mult.assoc by simp
  moreover have "even ((2 :: nat) ^ (32 - r))"
    using assms by simp
  moreover have "drop_bit r x AND 1 \<noteq> 0 \<longleftrightarrow> odd (unat (drop_bit r x))"
    using low_bit [of "drop_bit r x"] by (metis odd_iff_mod_2_eq_one unat_eq_zero zero_neq_one even_iff_mod_2_eq_zero)
  moreover have "unat (drop_bit r x) = unat x div 2 ^ r"
    using unat_WB [of x] by (subst unsigned_drop_bit_eq) (simp add: drop_bit_eq_div take_bit_nat_eq_self WB_def del: unat_WB)
  ultimately show ?thesis
    by simp
qed

lemma bn_test_bit_val:
  assumes "bn_ok a"
  shows "bn_test_bit a i \<longleftrightarrow> odd (bn_val a div 2 ^ i)"
proof -
  define q r where "q = i div 32" and "r = i mod 32"
  have i: "i = q * 32 + r" "r < 32"
    by (simp_all add: q_def r_def)
  note b = bn_ok_bounds [OF assms]
  have pow: "bn_val a div 2 ^ i = bn_val a div WB ^ q div 2 ^ r"
    by (simp add: i(1) power_add WB_power div_mult2_eq)
  show ?thesis
  proof (cases "q < bn_used a")
    case True
    then have "drop q (bn_w a) = bn_w a ! q # drop (Suc q) (bn_w a)"
      using b by (simp add: Cons_nth_drop_Suc)
    then have "bn_val a div WB ^ q = unat (bn_w a ! q) + WB * limbs (drop (Suc q) (bn_w a))"
      using limbs_drop [of q "bn_w a"] True b by (simp add: bn_val_def)
    then show ?thesis
      using odd_word [OF i(2), of "bn_w a ! q"] True pow by (simp add: bn_test_bit_def q_def r_def)
  next
    case False
    then have "bn_val a div WB ^ q = 0"
      using bn_used_le [OF assms, of q] by simp
    then show ?thesis
      using False pow by (simp add: bn_test_bit_def q_def)
  qed
qed

end
