(* ===== verification/BigNumDiv.thy ===== *)
theory BigNumDiv
  imports BigNumArith
begin

unbundle bit_operations_syntax

text \<open>Division of the numbers of \<open>BigNum\<close>, the remainders built on it, and their bytes.\<close>

section \<open>Setting bits\<close>

lemma or_bit_unat:
  fixes x :: u32
  assumes "r < 32" "even (unat x div 2 ^ r)"
  shows "unat (x OR push_bit r 1) = unat x + 2 ^ r"
proof -
  have "bit (unat x) r \<longleftrightarrow> bit x r"
    by (simp add: bit_unsigned_iff)
  then have "\<not> bit x r"
    using assms(2) unfolding bit_iff_odd by simp
  then have "x OR push_bit r 1 = x + push_bit r 1"
    by (intro disjunctive_add [symmetric]) (auto simp only: bit_push_bit_iff bit_1_iff, simp)
  moreover have p: "unat (push_bit r 1 :: u32) = 2 ^ r"
  proof -
    have "(2 :: nat) ^ r < 2 ^ 32"
      using assms(1) by (intro power_strict_increasing) simp_all
    then show ?thesis
      using assms(1) by (subst unsigned_push_bit_eq) (simp add: push_bit_eq_mult take_bit_nat_eq_self)
  qed
  moreover have "unat x + 2 ^ r < 2 ^ 32"
  proof -
    have "unat (x OR push_bit r 1) < WB"
      by simp
    define q where "q = unat x div 2 ^ r"
    have "q < 2 ^ (32 - r)"
      unfolding q_def using unat_WB [of x] assms(1)
      by (intro less_mult_imp_div_less) (simp add: WB_def flip: power_add del: unat_WB)
    moreover have "even q" "even ((2 :: nat) ^ (32 - r))"
      using assms by (simp_all add: q_def)
    ultimately have "q + 1 < 2 ^ (32 - r)"
      by (metis Suc_eq_plus1 Suc_lessI even_Suc)
    then have "(q + 2) * 2 ^ r \<le> 2 ^ (32 - r) * 2 ^ r"
      by (intro mult_le_mono1) simp
    moreover have "unat x < (q + 1) * 2 ^ r"
      using dividend_less_div_times [of "2 ^ r" "unat x"] by (simp add: q_def)
    ultimately show ?thesis
      using assms(1) by (simp add: algebra_simps flip: power_add)
  qed
  ultimately show ?thesis
    by (simp only: unat_word_ariths len_num0 len_bit0 len_num1) (simp add: mod_less)
qed

lemma limbs_update:
  assumes "i < length ws"
  shows "limbs (ws[i := y]) + WB ^ i * unat (ws ! i) = limbs ws + WB ^ i * unat y"
proof -
  have "limbs (ws[i := y]) = limbs (take i ws) + WB ^ i * (unat y + WB * limbs (drop (Suc i) ws))"
    using assms by (simp add: upd_conv_take_nth_drop min_absorb2)
  moreover have "ws = take i ws @ ws ! i # drop (Suc i) ws"
    using assms by (rule id_take_nth_drop)
  then have "limbs ws = limbs (take i ws) + WB ^ i * (unat (ws ! i) + WB * limbs (drop (Suc i) ws))"
    using assms by (metis limbs.simps(2) limbs_append length_take min_absorb2 less_imp_le)
  ultimately show ?thesis
    by (simp add: algebra_simps)
qed

lemma limbs_set_bit:
  assumes "i div 32 < length ws" "even (limbs ws div 2 ^ i)"
  shows "limbs (ws[i div 32 := ws ! (i div 32) OR push_bit (i mod 32) 1]) = limbs ws + 2 ^ i"
proof -
  let ?q = "i div 32" and ?r = "i mod 32"
  have i: "2 ^ i = WB ^ ?q * 2 ^ ?r"
    by (simp add: WB_power flip: power_add)
  have "limbs ws div WB ^ ?q = unat (ws ! ?q) + WB * limbs (drop (Suc ?q) ws)"
    using limbs_drop [of ?q ws] assms(1) by (simp flip: Cons_nth_drop_Suc)
  then have "limbs ws div 2 ^ i = (unat (ws ! ?q) + WB * limbs (drop (Suc ?q) ws)) div 2 ^ ?r"
    by (simp add: i div_mult2_eq)
  then have "drop_bit ?r (ws ! ?q) AND 1 = 0"
    using odd_word [of ?r "ws ! ?q" "limbs (drop (Suc ?q) ws)"] assms(2) by simp
  then have "even (unat (ws ! ?q) div 2 ^ ?r)"
    using odd_word [of ?r "ws ! ?q" 0] by simp
  then have "unat (ws ! ?q OR push_bit ?r 1) = unat (ws ! ?q) + 2 ^ ?r"
    by (intro or_bit_unat) simp_all
  then show ?thesis
    using limbs_update [OF assms(1), of "ws ! ?q OR push_bit ?r 1"] by (simp add: i algebra_simps)
qed

lemma set_bit0_val:
  assumes "bn_ok R" "even (bn_val R)"
  shows "bn_ok (set_bit0 R)" "bn_val (set_bit0 R) = bn_val R + 1"
proof -
  let ?n = "if bn_used R = 0 then 1 else bn_used R"
  define ws where "ws = (bn_w R)[0 := bn_w R ! 0 OR 1]"
  note b = bn_ok_bounds [OF assms(1)]
  have ws: "set_bit0 R = R\<lparr>bn_w := ws, bn_used := ?n\<rparr>"
    by (simp add: set_bit0_def ws_def)
  have v: "limbs ws = bn_val R + 1"
    using limbs_set_bit [of 0 "bn_w R"] assms(2) b(4) by (simp add: ws_def bn_val_def)
  have "even (WB ^ ?n)"
    by (simp add: WB_def)
  moreover have "bn_val R < WB ^ ?n"
    using b(1) bn_used_0 [OF assms(1)] by simp
  ultimately have "bn_val R + 1 < WB ^ ?n"
    using assms(2) by (metis Suc_eq_plus1 Suc_lessI even_Suc)
  moreover have "WB ^ (?n - 1) \<le> bn_val R + 1"
    using b(2) by (auto intro: le_SucI)
  ultimately have "top_words ws = ?n"
    using v by (intro top_wordsI) simp_all
  then show "bn_ok (set_bit0 R)" "bn_val (set_bit0 R) = bn_val R + 1"
    using ws v b(4) by (simp_all add: bn_ok_def bn_val_def) (simp add: ws_def)
qed

lemma set_quotient_bit_val:
  assumes "length (bn_w Q) = BN_MAX_WORDS" "i < 32 * BN_MAX_WORDS" "2 ^ Suc i dvd bn_val Q"
  shows "length (bn_w (set_quotient_bit Q i)) = BN_MAX_WORDS" "bn_val (set_quotient_bit Q i) = bn_val Q + 2 ^ i"
proof -
  have "even (bn_val Q div 2 ^ i)"
    using assms(3) by (auto elim!: dvdE)
  then show "length (bn_w (set_quotient_bit Q i)) = BN_MAX_WORDS" "bn_val (set_quotient_bit Q i) = bn_val Q + 2 ^ i"
    using assms limbs_set_bit [of i "bn_w Q"] by (simp_all add: set_quotient_bit_def Let_def bn_val_def less_mult_imp_div_less mult.commute)
qed

section \<open>Division\<close>

lemma div_step:
  fixes a b q r i :: nat
  assumes "a div 2 ^ Suc i = b * (q div 2 ^ Suc i) + r" "2 ^ Suc i dvd q"
  shows "a div 2 ^ i = b * (q div 2 ^ i) + (2 * r + a div 2 ^ i mod 2)"
    and "a div 2 ^ i = b * ((q + 2 ^ i) div 2 ^ i) + (2 * r + a div 2 ^ i mod 2) - b"
proof -
  obtain k where k: "q = 2 ^ Suc i * k"
    using assms(2) by blast
  have "a div 2 ^ Suc i = a div 2 ^ i div 2"
    by (simp only: power_Suc2 div_mult2_eq)
  then have "a div 2 ^ i = 2 * (b * (q div 2 ^ Suc i) + r) + a div 2 ^ i mod 2"
    using assms(1) by (metis mult_div_mod_eq)
  then show "a div 2 ^ i = b * (q div 2 ^ i) + (2 * r + a div 2 ^ i mod 2)"
    by (simp add: k algebra_simps)
  then show "a div 2 ^ i = b * ((q + 2 ^ i) div 2 ^ i) + (2 * r + a div 2 ^ i mod 2) - b"
    by (simp add: k algebra_simps)
qed

lemma div_loop_val:
  assumes a: "bn_ok a" and b: "bn_ok b" "0 < bn_val b" "2 * bn_val b \<le> WB ^ BN_MAX_WORDS" and i: "i \<le> 32 * BN_MAX_WORDS"
    and R: "bn_ok R" "bn_val R < bn_val b" and Q: "length (bn_w Q) = BN_MAX_WORDS" "2 ^ i dvd bn_val Q"
    and inv: "bn_val a div 2 ^ i = bn_val b * (bn_val Q div 2 ^ i) + bn_val R" and run: "div_loop a b i R Q = (R', Q')"
  shows "bn_ok R' \<and> bn_val R' < bn_val b \<and> length (bn_w Q') = BN_MAX_WORDS \<and> bn_val a = bn_val b * bn_val Q' + bn_val R'"
  using i R Q inv run
proof (induction i arbitrary: R Q)
  case (Suc i)
  let ?bit = "bn_val a div 2 ^ i mod 2"
  define R1 where "R1 = (if bn_test_bit a i then set_bit0 (bn_shl1 R) else bn_shl1 R)"
  have sh: "bn_ok (bn_shl1 R)" "bn_val (bn_shl1 R) = 2 * bn_val R"
    using Suc.prems(2,3) b(3) by (auto intro!: bn_shl1_val)
  have R1: "bn_ok R1" "bn_val R1 = 2 * bn_val R + ?bit"
    using sh set_bit0_val [OF sh(1)] bn_test_bit_val [OF a, of i] by (auto simp: R1_def mod2_eq_if)
  note step = div_step [OF Suc.prems(6,5)]
  have dvd: "2 ^ i dvd bn_val Q"
    using Suc.prems(5) by (auto elim!: dvdE)
  show ?case
  proof (cases "bn_val b \<le> bn_val R1")
    case True
    note sub = bn_sub_val [OF R1(1) b(1) True]
    note set = set_quotient_bit_val [OF Suc.prems(4) _ Suc.prems(5)]
    have run: "div_loop a b i (snd (bn_sub R1 b)) (set_quotient_bit Q i) = (R', Q')"
      using Suc.prems(7) True bn_cmp_iff [OF R1(1) b(1)] by (simp add: R1_def [symmetric] Let_def)
    show ?thesis
    proof (rule Suc.IH [OF _ sub(2) _ set(1) _ _ run])
      show "bn_val (snd (bn_sub R1 b)) < bn_val b"
        using sub(3) R1(2) Suc.prems(3) mod_less_divisor [of 2 "bn_val a div 2 ^ i"] by simp
      show "2 ^ i dvd bn_val (set_quotient_bit Q i)"
        using set(2) dvd Suc.prems(1) by simp
      show "bn_val a div 2 ^ i = bn_val b * (bn_val (set_quotient_bit Q i) div 2 ^ i) + bn_val (snd (bn_sub R1 b))"
        using step(2) sub(3) R1(2) set(2) Suc.prems(1) True by simp
    qed (use Suc.prems(1) in simp_all)
  next
    case False
    have run: "div_loop a b i R1 Q = (R', Q')"
      using Suc.prems(7) False bn_cmp_iff [OF R1(1) b(1)] by (simp add: R1_def [symmetric] Let_def)
    show ?thesis
      by (rule Suc.IH [OF _ R1(1) _ Suc.prems(4) dvd _ run]) (use step(1) R1(2) False Suc.prems(1) in simp_all)
  qed
qed simp

lemma bn_bitlen_le: "bn_ok a \<Longrightarrow> bn_bitlen a \<le> 32 * BN_MAX_WORDS"
proof -
  assume a: "bn_ok a"
  show ?thesis
  proof (cases "bn_val a = 0")
    case True
    then show ?thesis
      using a by (simp add: bn_bitlen_def bn_used_0)
  next
    case False
    then have "2 ^ (bn_bitlen a - 1) < (2 :: nat) ^ (BN_MAX_WORDS * 32)"
      using bn_bitlen_val(2) [OF a False] bn_val_less [OF a] by (simp only: WB_power)
    then have "bn_bitlen a - 1 < BN_MAX_WORDS * 32"
      by (rule power_less_imp_less_exp [rotated]) simp
    then show ?thesis
      by simp
  qed
qed

lemma bn_divmod_val:
  assumes "bn_ok a" "bn_ok b" "0 < bn_val b" "2 * bn_val b \<le> WB ^ BN_MAX_WORDS"
  shows "\<exists>q r. bn_divmod a b = Some (q, r) \<and> bn_ok q \<and> bn_ok r \<and> bn_val q = bn_val a div bn_val b \<and> bn_val r = bn_val a mod bn_val b"
proof (cases "bn_val a < bn_val b")
  case True
  then show ?thesis
    using assms bn_cmp_iff [OF assms(1,2)] by (simp add: bn_divmod_def bn_is_zero_val)
next
  case False
  obtain R Q where run: "div_loop a b (bn_bitlen a) bn_zero bn_zero = (R, Q)"
    by force
  have "bn_val a div 2 ^ bn_bitlen a = 0"
    using bn_bitlen_val(1) [OF assms(1)] by simp
  then have l: "bn_ok R" "bn_val R < bn_val b" "length (bn_w Q) = BN_MAX_WORDS" "bn_val a = bn_val b * bn_val Q + bn_val R"
    using div_loop_val [OF assms bn_bitlen_le [OF assms(1)] _ _ _ _ _ run] assms(3) by simp_all
  then have "bn_val a div bn_val b = bn_val Q" "bn_val a mod bn_val b = bn_val R"
    by simp_all
  then show ?thesis
    using assms False run l bn_cmp_iff [OF assms(1,2)] by (simp add: bn_divmod_def bn_is_zero_val bn_norm_ok bn_norm_same)
qed

lemma bn_mod_val:
  assumes "bn_ok a" "bn_ok m" "0 < bn_val m" "2 * bn_val m \<le> WB ^ BN_MAX_WORDS"
  shows "\<exists>r. bn_mod a m = Some r \<and> bn_ok r \<and> bn_val r = bn_val a mod bn_val m"
  using bn_divmod_val [OF assms] by (auto simp: bn_mod_def)

lemma bn_mulmod_val:
  assumes "bn_ok a" "bn_ok b" "bn_used a + bn_used b \<le> BN_MAX_WORDS" "bn_ok m" "0 < bn_val m" "2 * bn_val m \<le> WB ^ BN_MAX_WORDS"
  shows "\<exists>r. bn_mulmod a b m = Some r \<and> bn_ok r \<and> bn_val r = bn_val a * bn_val b mod bn_val m"
proof -
  obtain t where t: "bn_mul a b = Some t" "bn_ok t" "bn_val t = bn_val a * bn_val b"
    using bn_mul_val [OF assms(1-3)] by blast
  then show ?thesis
    using bn_mod_val [OF t(2) assms(4-6)] by (simp add: bn_mulmod_def)
qed

end
