(* ===== verification/BigNumBytes.thy ===== *)
theory BigNumBytes
  imports BigNumDiv
begin

unbundle bit_operations_syntax

text \<open>Big numbers as big-endian bytes: reading, writing, and that one undoes the other.\<close>

primrec le_val :: "u8 list \<Rightarrow> nat" where
  "le_val [] = 0"
| "le_val (b # bs) = unat b + 256 * le_val bs"

definition be_val :: "u8 list \<Rightarrow> nat" where
  "be_val bs = le_val (rev bs)"

lemma unat_256 [simp]: "unat (b :: u8) < 256"
  using unsigned_less [of b] by simp

lemma le_val_append: "le_val (xs @ ys) = le_val xs + 256 ^ length xs * le_val ys"
  by (induction xs) (simp_all add: algebra_simps)

lemma le_val_less: "le_val bs < 256 ^ length bs"
proof (induction bs)
  case (Cons b bs)
  have "256 * Suc (le_val bs) \<le> 256 * 256 ^ length bs"
    using Cons.IH by (intro mult_le_mono) simp_all
  then show ?case
    using unat_256 [of b] by (simp del: unat_256)
qed simp

lemma le_val_eq: "length xs = length ys \<Longrightarrow> le_val xs = le_val ys \<Longrightarrow> xs = ys"
proof (induction xs ys rule: list_induct2)
  case (Cons x xs y ys)
  have "unat x + 256 * le_val xs = unat y + 256 * le_val ys"
    using Cons.prems by simp
  then have "unat x = unat y" "le_val xs = le_val ys"
    using digit_unique [OF unat_256 unat_256] by blast+
  then show ?case
    using Cons.IH by (simp add: word_unat_eq_iff)
qed simp

lemma be_val_eq: "length xs = length ys \<Longrightarrow> be_val xs = be_val ys \<Longrightarrow> xs = ys"
  using le_val_eq [of "rev xs" "rev ys"] by (simp add: be_val_def)

lemma be_val_less: "be_val bs < 256 ^ length bs"
  using le_val_less [of "rev bs"] by (simp add: be_val_def)

section \<open>Reading\<close>

lemma or_byte_unat:
  fixes x :: u32
  assumes "r \<le> 24" "unat x < 2 ^ r"
  shows "unat (x OR push_bit r (ucast (b :: u8))) = unat x + 2 ^ r * unat b"
proof -
  have r: "(2 :: nat) ^ r \<le> 2 ^ 24"
    using assms(1) by (intro power_increasing) simp_all
  have p: "unat (push_bit r (ucast b :: u32)) = 2 ^ r * unat b"
  proof -
    have "2 ^ r * unat b < 2 ^ 24 * 256"
      by (rule mult_le_less_imp_less [OF r unat_256]) simp_all
    then show ?thesis
      by (subst unsigned_push_bit_eq) (simp add: push_bit_eq_mult take_bit_nat_eq_self mult.commute)
  qed
  have "\<not> bit x n" if "r \<le> n" for n
  proof -
    have "unat x < 2 ^ n"
      using assms(2) that by (meson order_less_le_trans one_le_numeral power_increasing)
    then have "\<not> bit (unat x) n"
      by (simp add: bit_iff_odd)
    then show ?thesis
      by (simp add: bit_unsigned_iff)
  qed
  then have "x OR push_bit r (ucast b) = x + push_bit r (ucast b)"
    by (intro disjunctive_add [symmetric]) (auto simp only: bit_push_bit_iff)
  moreover have "unat x + 2 ^ r * unat b < 2 ^ 32"
  proof -
    have "2 ^ r * Suc (unat b) \<le> 2 ^ 24 * 256"
      using unat_256 [of b] by (intro mult_le_mono r) (simp add: Suc_le_eq del: unat_256)
    then show ?thesis
      using assms(2) by simp
  qed
  ultimately show ?thesis
    using p by (simp only: unat_word_ariths len_num0 len_bit0 len_num1) (simp add: mod_less)
qed

lemma bytes_loop_val:
  assumes "length ws = BN_MAX_WORDS" "limbs ws < 2 ^ (8 * n)" "n + length bs \<le> 4 * BN_MAX_WORDS"
  shows "\<exists>ws'. bytes_loop (8 * n) bs ws = Some ws' \<and> length ws' = BN_MAX_WORDS \<and> limbs ws' = limbs ws + 2 ^ (8 * n) * le_val bs"
  using assms
proof (induction bs arbitrary: n ws)
  case (Cons b bs)
  let ?q = "8 * n div 32" and ?r = "8 * n mod 32"
  have q: "?q < BN_MAX_WORDS"
    using Cons.prems(3) by (simp add: div_less_iff_less_mult)
  have r: "?r \<le> 24"
    by presburger
  have pow: "2 ^ (8 * n) = WB ^ ?q * 2 ^ ?r"
    unfolding WB_power power_add [symmetric] div_mult_mod_eq by (rule refl)
  have "limbs ws div WB ^ ?q < 2 ^ ?r"
    using Cons.prems(2) unfolding pow by (intro less_mult_imp_div_less) (simp only: mult.commute)
  moreover have "limbs ws div WB ^ ?q = unat (ws ! ?q) + WB * limbs (drop (Suc ?q) ws)"
    using limbs_drop [of ?q ws] q Cons.prems(1) by (simp flip: Cons_nth_drop_Suc)
  ultimately have "unat (ws ! ?q) < 2 ^ ?r"
    by linarith
  note byte = or_byte_unat [OF r this, of b]
  define ws1 where "ws1 = ws[?q := ws ! ?q OR push_bit ?r (ucast b)]"
  have ws1: "length ws1 = BN_MAX_WORDS" "limbs ws1 = limbs ws + 2 ^ (8 * n) * unat b"
    using limbs_update [of ?q ws "ws ! ?q OR push_bit ?r (ucast b)"] byte q Cons.prems(1) unfolding pow ws1_def by (simp_all add: algebra_simps)
  have "2 ^ (8 * n) * Suc (unat b) \<le> 2 ^ (8 * n) * 256"
    using unat_256 [of b] by (intro mult_le_mono2) (simp add: Suc_le_eq del: unat_256)
  moreover have "(2 :: nat) ^ (8 * Suc n) = 2 ^ (8 * n) * 256" "2 ^ (8 * n) * Suc (unat b) = 2 ^ (8 * n) + 2 ^ (8 * n) * unat b"
    by (simp_all add: power_add)
  ultimately have "limbs ws1 < 2 ^ (8 * Suc n)"
    using ws1(2) Cons.prems(2) by linarith
  then obtain ws' where ws': "bytes_loop (8 * Suc n) bs ws1 = Some ws'" "length ws' = BN_MAX_WORDS" "limbs ws' = limbs ws1 + 2 ^ (8 * Suc n) * le_val bs"
    using Cons.IH [OF ws1(1), of "Suc n"] Cons.prems(3) by auto
  have "bytes_loop (8 * n) (b # bs) ws = bytes_loop (8 * Suc n) bs ws1"
    using q by (simp add: ws1_def Let_def add.commute)
  then show ?case
    using ws' ws1(2) by (simp add: power_add algebra_simps)
qed simp

lemma bn_from_bytes_val:
  assumes "length buf \<le> 4 * BN_MAX_WORDS"
  shows "\<exists>r. bn_from_bytes buf = Some r \<and> bn_ok r \<and> bn_val r = be_val buf"
proof -
  have z: "limbs (bn_w bn_zero) = 0"
    using bn_zero_ok(2) by (simp add: bn_val_def)
  obtain ws where "bytes_loop 0 (rev buf) (bn_w bn_zero) = Some ws" "length ws = BN_MAX_WORDS" "limbs ws = be_val buf"
    using bytes_loop_val [of "bn_w bn_zero" 0 "rev buf"] assms by (auto simp: be_val_def z)
  then show ?thesis
    by (simp add: bn_from_bytes_def bn_norm_ok) (simp add: bn_val_def)
qed

section \<open>Writing\<close>

lemma bn_bitlen_le_iff: "bn_ok a \<Longrightarrow> bn_bitlen a \<le> n \<longleftrightarrow> bn_val a < 2 ^ n"
proof
  assume "bn_ok a" "bn_bitlen a \<le> n"
  then show "bn_val a < 2 ^ n"
    using bn_bitlen_val(1) [of a] by (meson one_le_numeral order_less_le_trans power_increasing)
next
  assume *: "bn_ok a" "bn_val a < 2 ^ n"
  show "bn_bitlen a \<le> n"
  proof (cases "bn_val a = 0")
    case True
    then show ?thesis
      using * by (simp add: bn_bitlen_def bn_used_0)
  next
    case False
    then have "(2 :: nat) ^ (bn_bitlen a - 1) < 2 ^ n"
      using bn_bitlen_val(2) [OF *(1) False] *(2) by linarith
    then have "bn_bitlen a - 1 < n"
      by (rule power_less_imp_less_exp [rotated]) simp
    then show ?thesis
      by simp
  qed
qed

lemma bn_num_bytes_le: "bn_ok a \<Longrightarrow> bn_num_bytes a \<le> len \<longleftrightarrow> bn_val a < 256 ^ len"
proof -
  assume a: "bn_ok a"
  have "256 ^ len = (2 :: nat) ^ (8 * len)"
    by (simp add: power_mult)
  moreover have "bn_num_bytes a \<le> len \<longleftrightarrow> bn_bitlen a \<le> 8 * len"
    using div_less_iff_less_mult [of 8 "bn_bitlen a + 7" "Suc len"] by (auto simp: bn_num_bytes_def less_Suc_eq_le)
  ultimately show ?thesis
    using bn_bitlen_le_iff [OF a] by simp
qed

lemma unat_word_at:
  assumes "bn_ok a"
  shows "unat (word_at a i) = bn_val a div WB ^ i mod WB"
proof (cases "i < bn_used a")
  case True
  note b = bn_ok_bounds [OF assms]
  have "bn_val a div WB ^ i = unat (bn_w a ! i) + WB * limbs (drop (Suc i) (bn_w a))"
    using limbs_drop [of i "bn_w a"] True b(3,4) by (simp add: bn_val_def flip: Cons_nth_drop_Suc)
  then show ?thesis
    using True by (simp add: word_at_def)
next
  case False
  then show ?thesis
    using bn_used_le [OF assms, of i] by (simp add: word_at_def)
qed

lemma byte_of_word:
  fixes x :: u32
  assumes "r \<le> 24" "unat x = v mod WB"
  shows "unat (ucast (drop_bit r x) :: u8) = v div 2 ^ r mod 256"
proof -
  have "unat (drop_bit r x) = unat x div 2 ^ r"
    using unat_WB [of x] by (subst unsigned_drop_bit_eq) (simp add: drop_bit_eq_div take_bit_nat_eq_self WB_def del: unat_WB)
  then have "unat (ucast (drop_bit r x) :: u8) = unat x div 2 ^ r mod 256"
    by (simp add: unsigned_ucast_eq take_bit_eq_mod)
  also have "\<dots> = v mod WB div 2 ^ r mod 256"
    by (simp add: assms(2))
  also have "WB = 2 ^ r * (256 * 2 ^ (24 - r))"
    using assms(1) by (simp add: WB_def flip: power_add)
  also have "v mod (2 ^ r * (256 * 2 ^ (24 - r))) div 2 ^ r = v div 2 ^ r mod (256 * 2 ^ (24 - r))"
    by (simp add: mod_mult2_eq)
  also have "\<dots> mod 256 = v div 2 ^ r mod 256"
    by (simp add: mod_mod_cancel)
  finally show ?thesis .
qed

lemma be_val_digits: "be_val (map f [0..<len]) = (\<Sum>j<len. unat (f (len - 1 - j)) * 256 ^ j)"
proof -
  have "le_val (map g [0..<len]) = (\<Sum>j<len. unat (g j) * 256 ^ j)" for g
    by (induction len) (simp_all add: le_val_append mult.commute)
  moreover have "rev (map f [0..<len]) = map (\<lambda>j. f (len - 1 - j)) [0..<len]"
    by (rule nth_equalityI) (simp_all add: rev_nth)
  ultimately show ?thesis
    by (simp add: be_val_def)
qed

lemma digits_sum: "(\<Sum>j<len. v div 256 ^ j mod 256 * 256 ^ j) = v mod 256 ^ len" for v :: nat
proof (induction len)
  case (Suc len)
  have "v mod 256 ^ Suc len = 256 ^ len * (v div 256 ^ len mod 256) + v mod 256 ^ len"
    unfolding power_Suc2 by (rule mod_mult2_eq)
  then show ?case
    using Suc.IH by (simp add: mult.commute)
qed simp

lemma bn_to_bytes_val:
  assumes "bn_ok a" "bn_val a < 256 ^ len"
  shows "\<exists>buf. bn_to_bytes a len = Some buf \<and> length buf = len \<and> be_val buf = bn_val a"
proof -
  let ?f = "\<lambda>i. let pos = (len - 1 - i) * 8 in ucast (drop_bit (pos mod 32) (word_at a (pos div 32))) :: u8"
  have byte: "unat (?f (len - 1 - j)) = bn_val a div 256 ^ j mod 256" if "j < len" for j
  proof -
    have j: "len - 1 - (len - 1 - j) = j"
      using that by simp
    have "unat (?f (len - 1 - j)) = bn_val a div WB ^ (j * 8 div 32) div 2 ^ (j * 8 mod 32) mod 256"
      unfolding Let_def j by (rule byte_of_word [OF _ unat_word_at [OF assms(1)]]) presburger
    also have "bn_val a div WB ^ (j * 8 div 32) div 2 ^ (j * 8 mod 32) = bn_val a div 2 ^ (j * 8)"
      unfolding div_mult2_eq [symmetric] WB_power power_add [symmetric] div_mult_mod_eq by (rule refl)
    also have "(2 :: nat) ^ (j * 8) = 256 ^ j"
      using power_mult [of "2 :: nat" 8 j] by (simp add: mult.commute)
    finally show ?thesis .
  qed
  have "be_val (map ?f [0..<len]) = (\<Sum>j<len. bn_val a div 256 ^ j mod 256 * 256 ^ j)"
    unfolding be_val_digits using byte by (intro sum.cong) simp_all
  also have "\<dots> = bn_val a"
    using digits_sum assms(2) by simp
  finally show ?thesis
    using bn_num_bytes_le [OF assms(1), of len] assms(2) by (simp add: bn_to_bytes_def)
qed

end
