(* ===== verification/Montgomery.thy ===== *)
theory Montgomery
  imports BigNumDiv
begin

unbundle bit_operations_syntax

text \<open>
  Montgomery multiplication and the power built on it compute products and powers modulo an odd
  number. \<open>R\<close> is \<open>WB ^ k\<close> for a modulus of \<open>k\<close> words.
\<close>

section \<open>The inverse of the lowest word\<close>

lemma newton_step:
  fixes m x :: "'a::comm_ring_1"
  shows "1 - m * (x * (2 - m * x)) = (1 - m * x) ^ 2"
  by (simp add: power2_eq_square algebra_simps)

lemma newton_steps:
  fixes m x :: "'a::comm_ring_1"
  shows "1 - m * ((\<lambda>x. x * (2 - m * x)) ^^ n) x = (1 - m * x) ^ (2 ^ n)"
proof (induction n)
  case (Suc n)
  then show ?case
    using newton_step [of m "((\<lambda>x. x * (2 - m * x)) ^^ n) x"] by (simp add: mult.commute flip: power_mult)
qed simp

lemma mont_n0inv_val:
  assumes "m0 AND 1 \<noteq> (0 :: u32)"
  shows "mont_n0inv m0 * m0 = - 1"
proof -
  have "odd (unat m0)"
    using assms low_bit [of m0] by (metis even_iff_mod_2_eq_zero unat_eq_zero)
  then obtain y where "unat m0 = 2 * y + 1"
    by (elim oddE)
  then have "(of_nat (unat m0) :: u32) = of_nat (2 * y + 1)"
    by (rule arg_cong)
  then have "m0 = 2 * of_nat y + 1"
    by simp
  then have "(1 - m0 * 1) ^ (2 ^ 5) = (2 :: u32) ^ 32 * (- of_nat y) ^ 32"
    by (simp add: power_mult_distrib)
  also have "(2 :: u32) ^ 32 = 0"
    by code_simp
  finally have "1 - m0 * ((\<lambda>x. x * (2 - m0 * x)) ^^ 5) 1 = 0"
    using newton_steps [of m0 5 1] by simp
  then show ?thesis
    by (simp add: mont_n0inv_def mult.commute)
qed

section \<open>One turn\<close>

lemma mac_words_val:
  assumes "length ts = length xs" "unat b < WB" "unat c < WB" "mac_words b c ts xs = (us, out)"
  shows "length us = length ts \<and> unat out < WB \<and> limbs us + WB ^ length ts * unat out = limbs ts + limbs xs * unat b + unat c"
  using assms
proof (induction ts xs arbitrary: c us out rule: list_induct2)
  case (Cons t ts x xs)
  define s where "s = ucast t + ucast x * b + c"
  obtain us' where rest: "mac_words b (drop_bit 32 s) ts xs = (us', out)" and us: "us = ucast s # us'"
    using Cons.prems(3) by (auto simp: s_def Let_def split: prod.splits)
  have s: "unat s = unat t + unat x * unat b + unat c" "unat (drop_bit 32 s) < WB"
    using unat_mac [OF Cons.prems(1,2), of t x] unat_mac_high [OF Cons.prems(1,2), of t x] by (simp_all add: s_def)
  have ih: "length us' = length ts" "unat out < WB" "limbs us' + WB ^ length ts * unat out = limbs ts + limbs xs * unat b + unat (drop_bit 32 s)"
    using Cons.IH [OF Cons.prems(1) s(2) rest] by simp_all
  show ?case
    using carry_step_nat [OF unat_split [of s] ih(3)] ih(1,2) s(1) by (simp add: us algebra_simps)
qed simp

lemma down_mult: "ucast (x * y :: u64) = (ucast x * ucast y :: u32)"
  by (simp add: word_unat_eq_iff unat_low unat_word_ariths WB_def mod_mult_eq mod_mod_cancel)

lemma down_up: "ucast (ucast (x :: u32) :: u64) = x"
  by (simp add: word_unat_eq_iff unat_low)

lemma down_add: "ucast (x + y :: u64) = (ucast x + ucast y :: u32)"
  by (simp add: word_unat_eq_iff unat_low unat_word_ariths WB_def mod_add_eq mod_mod_cancel)

text \<open>The multiple of the modulus that clears the lowest word.\<close>

lemma clear_low_word:
  fixes t0 m0 mm n0inv :: u32
  assumes "n0inv * m0 = - 1" "mm = ucast (ucast t0 * ucast n0inv :: u64)"
  shows "WB * unat (drop_bit 32 (ucast t0 + ucast mm * ucast m0 :: u64)) = unat t0 + unat mm * unat m0"
proof -
  let ?s = "ucast t0 + ucast mm * ucast m0 :: u64"
  have mm: "mm = t0 * n0inv"
    by (simp add: assms(2) down_mult down_up)
  have "ucast ?s = t0 + mm * m0"
    by (simp add: down_add down_mult down_up)
  also have "\<dots> = t0 + t0 * (n0inv * m0)"
    by (simp add: mm mult.assoc)
  also have "\<dots> = 0"
    by (simp add: assms(1))
  finally have "WB * unat (drop_bit 32 ?s) = unat ?s"
    using unat_split [of ?s] by simp
  also have "\<dots> = unat t0 + unat mm * unat m0"
    using unat_mac [of "ucast m0" 0 t0 mm] by simp
  finally show ?thesis .
qed

lemma sum_split:
  fixes x :: u32 and c :: u64
  assumes "unat c < WB"
  shows "unat (ucast (ucast x + c) :: u32) + WB * unat (drop_bit 32 (ucast x + c)) = unat x + unat c" "unat (drop_bit 32 (ucast x + c)) \<le> 1"
proof -
  have s: "unat (ucast x + c) = unat x + unat c"
    using assms unat_WB [of x] by (subst unat_sum64) (simp_all add: WB_def del: unat_WB)
  then show "unat (ucast (ucast x + c) :: u32) + WB * unat (drop_bit 32 (ucast x + c)) = unat x + unat c"
    using unat_split [of "ucast x + c"] by simp
  have "unat x + unat c < WB * 2"
    using assms unat_WB [of x] by linarith
  then show "unat (drop_bit 32 (ucast x + c)) \<le> 1"
    by (simp add: unat_high s less_mult_imp_div_less mult.commute flip: less_Suc_eq_le)
qed

lemma small_down: "unat (c :: u64) \<le> 2 \<Longrightarrow> unat (ucast c :: u32) = unat c"
  by (simp add: unat_low WB_def)

lemma limbs_take_Suc: "n < length ws \<Longrightarrow> limbs (take (Suc n) ws) = limbs (take n ws) + WB ^ n * unat (ws ! n)"
  by (simp add: take_Suc_conv_app_nth)

lemma mont_turn_val:
  assumes len: "length aw = k" "length mw = k" "length t = k + 2" "0 < k" and top: "t ! (k + 1) = 0" and inv: "n0inv * mw ! 0 = - 1"
    and turn: "mont_turn aw mw n0inv k bi t = t'"
  shows "\<exists>z < WB. WB * limbs t' = limbs t + limbs aw * unat bi + z * limbs mw" "length t' = k + 2" "t' ! (k + 1) = 0"
proof -
  obtain ts c where m1: "mac_words (ucast bi) 0 (take k t) aw = (ts, c)"
    by force
  define s where "s = ucast (t ! k) + c"
  define tk tk1 :: u32 where "tk = ucast s" and "tk1 = ucast (drop_bit 32 s)"
  define mm :: u32 where "mm = ucast (ucast (ts ! 0) * ucast n0inv :: u64)"
  define c0 :: u64 where "c0 = drop_bit 32 (ucast (ts ! 0) + ucast mm * ucast (mw ! 0))"
  obtain us c2 where m2: "mac_words (ucast mm) c0 (tl ts) (tl mw) = (us, c2)"
    by force
  define sk where "sk = ucast tk + c2"
  have t': "t' = us @ [ucast sk, ucast (ucast tk1 + drop_bit 32 sk), 0]"
    using turn by (simp add: mont_turn_def m1 m2 Let_def flip: s_def tk_def tk1_def mm_def c0_def sk_def)
  have ts: "length ts = k" "unat c < WB" "limbs ts + WB ^ k * unat c = limbs (take k t) + limbs aw * unat bi"
    using mac_words_val [OF _ _ _ m1] len by simp_all
  have c0: "unat c0 < WB" "WB * unat c0 = unat (ts ! 0) + unat mm * unat (mw ! 0)"
    using unat_mac_high [of "ucast (mw ! 0)" 0 "ts ! 0" mm] clear_low_word [OF inv mm_def] by (simp_all add: c0_def)
  have us: "length us = k - 1" "unat c2 < WB" "limbs us + WB ^ (k - 1) * unat c2 = limbs (tl ts) + limbs (tl mw) * unat mm + unat c0"
    using mac_words_val [OF _ _ c0(1) m2] len ts(1) by simp_all
  show "length t' = k + 2" "t' ! (k + 1) = 0"
    using len(4) us(1) by (auto simp: t' nth_append)
  have s: "unat tk + WB * unat tk1 = unat (t ! k) + unat c" "unat tk1 \<le> 1"
    using sum_split [OF ts(2), of "t ! k"] small_down [of "drop_bit 32 s"] by (simp_all add: tk_def tk1_def s_def)
  have sk: "unat (ucast sk :: u32) + WB * unat (drop_bit 32 sk) = unat tk + unat c2" "unat (drop_bit 32 sk) \<le> 1"
    using sum_split [OF us(2), of tk] by (simp_all add: sk_def)
  have up: "unat (ucast (ucast tk1 + drop_bit 32 sk) :: u32) = unat tk1 + unat (drop_bit 32 sk)"
    using s(2) sk(2) small_down [of "ucast tk1 + drop_bit 32 sk"] by (simp add: unat_sum64)
  obtain j where k: "k = Suc j"
    using len(4) gr0_conv_Suc by blast
  have "limbs t = limbs (take k t) + WB ^ k * unat (t ! k)"
    using limbs_take_Suc [of k t] limbs_take_Suc [of "Suc k" t] len(3) top by simp
  then have S: "limbs ts + WB ^ k * (unat tk + WB * unat tk1) = limbs t + limbs aw * unat bi"
    using ts(3) s(1) by (simp add: algebra_simps)
  have hd: "limbs ts = unat (ts ! 0) + WB * limbs (tl ts)" "limbs mw = unat (mw ! 0) + WB * limbs (tl mw)"
    using ts(1) len(2,4) by (cases ts; cases mw; simp)+
  have v: "limbs t' = limbs us + WB ^ j * (unat tk + unat c2 + WB * unat tk1)"
    unfolding sk(1) [symmetric] t' using us(1) by (simp add: k up algebra_simps)
  have "WB * limbs t' = WB * (limbs us + WB ^ j * unat c2) + WB ^ k * (unat tk + WB * unat tk1)"
    unfolding v by (simp add: k algebra_simps)
  also have "\<dots> = limbs ts + limbs mw * unat mm + WB ^ k * (unat tk + WB * unat tk1)"
    using us(3) c0(2) hd by (simp add: k algebra_simps)
  also have "\<dots> = limbs t + limbs aw * unat bi + unat mm * limbs mw"
    using S by (simp add: algebra_simps)
  finally show "\<exists>z < WB. WB * limbs t' = limbs t + limbs aw * unat bi + z * limbs mw"
    using unat_WB [of mm] by blast
qed

section \<open>The product\<close>

lemma turn_bound:
  assumes "WB * t' = t + a * b + z * m" "t < 2 * m" "a \<le> m" "b < WB" "z < WB"
  shows "t' < 2 * (m :: nat)"
proof -
  obtain v where v: "WB = Suc v"
    by (cases WB) simp_all
  have "a * b \<le> m * v" "z * m \<le> v * m"
    using assms v by (auto intro: mult_le_mono)
  moreover have "WB * (2 * m) = m * v + v * m + 2 * m"
    unfolding v by (simp add: algebra_simps)
  ultimately have "WB * t' < WB * (2 * m)"
    using assms(1,2) by linarith
  then show ?thesis
    by simp
qed

lemma mont_turns_val:
  assumes len: "length aw = k" "length mw = k" "0 < k" and inv: "n0inv * mw ! 0 = - 1" and a: "limbs aw \<le> limbs mw"
    and t: "length t = k + 2" "t ! (k + 1) = 0" "limbs t < 2 * limbs mw"
  shows "\<exists>t' z. fold (mont_turn aw mw n0inv k) bs t = t' \<and> length t' = k + 2 \<and> t' ! (k + 1) = 0 \<and> limbs t' < 2 * limbs mw
    \<and> WB ^ length bs * limbs t' = limbs t + limbs aw * limbs bs + z * limbs mw"
  using t
proof (induction bs arbitrary: t)
  case Nil
  then show ?case
    by (auto intro!: exI [of _ 0])
next
  case (Cons b bs)
  define t1 where "t1 = mont_turn aw mw n0inv k b t"
  note turn = mont_turn_val [OF len(1,2) Cons.prems(1) len(3) Cons.prems(2) inv t1_def [symmetric]]
  obtain z where z: "z < WB" "WB * limbs t1 = limbs t + limbs aw * unat b + z * limbs mw"
    using turn(1) by blast
  have "limbs t1 < 2 * limbs mw"
    using turn_bound [OF z(2) Cons.prems(3) a unat_WB z(1)] .
  then obtain t' z' where t': "fold (mont_turn aw mw n0inv k) bs t1 = t'" "length t' = k + 2" "t' ! (k + 1) = 0" "limbs t' < 2 * limbs mw"
    "WB ^ length bs * limbs t' = limbs t1 + limbs aw * limbs bs + z' * limbs mw"
    using Cons.IH [OF turn(2,3)] by blast
  have "WB ^ length (b # bs) * limbs t' = WB * limbs t1 + WB * (limbs aw * limbs bs + z' * limbs mw)"
    using t'(5) by (simp add: mult.assoc algebra_simps)
  also have "\<dots> = limbs t + limbs aw * limbs (b # bs) + (z + WB * z') * limbs mw"
    unfolding z(2) by (simp add: algebra_simps)
  finally show ?case
    using t' by (auto simp: t1_def [symmetric])
qed

definition mont_modulus :: "bignum \<Rightarrow> bool" where
  "mont_modulus m \<longleftrightarrow> bn_ok m \<and> odd (bn_val m) \<and> bn_used m < BN_MAX_WORDS"

lemma mont_modulus_facts:
  assumes "mont_modulus m"
  shows "bn_ok m" "0 < bn_used m" "bn_used m < BN_MAX_WORDS" "bn_val m < WB ^ bn_used m" "bn_w m ! 0 AND 1 \<noteq> 0" "2 * bn_val m \<le> WB ^ BN_MAX_WORDS"
    "bn_val m \<noteq> 0" "coprime (WB ^ n) (bn_val m)"
proof -
  show ok: "bn_ok m" "bn_used m < BN_MAX_WORDS"
    using assms by (simp_all add: mont_modulus_def)
  have odd: "odd (bn_val m)"
    using assms by (simp add: mont_modulus_def)
  then show nz: "bn_val m \<noteq> 0"
    by (metis even_zero)
  then show used: "0 < bn_used m"
    using bn_used_0 [OF ok(1)] by simp
  show lt: "bn_val m < WB ^ bn_used m"
    by (rule bn_ok_bounds(1) [OF ok(1)])
  show "bn_w m ! 0 AND 1 \<noteq> 0"
    using bn_test_bit_val [OF ok(1), of 0] odd used by (simp add: bn_test_bit_def)
  have "2 * bn_val m \<le> WB * WB ^ bn_used m"
    using lt by (intro mult_le_mono) simp_all
  also have "\<dots> = WB ^ Suc (bn_used m)"
    by simp
  also have "\<dots> \<le> WB ^ BN_MAX_WORDS"
    using ok(2) by (intro power_increasing) simp_all
  finally show "2 * bn_val m \<le> WB ^ BN_MAX_WORDS" .
  show "coprime (WB ^ n) (bn_val m)"
    using odd by (simp only: WB_power coprime_power_left_iff coprime_left_2_iff_odd simp_thms)
qed

lemma bn_montmul_val:
  assumes m: "mont_modulus m" and a: "bn_ok a" "bn_val a < bn_val m" and b: "bn_ok b" "bn_val b < bn_val m"
    and k: "k = bn_used m" and inv: "n0inv = mont_n0inv (bn_w m ! 0)"
  shows "bn_ok (bn_montmul a b m n0inv k) \<and> bn_val (bn_montmul a b m n0inv k) < bn_val m
    \<and> (WB ^ k * bn_val (bn_montmul a b m n0inv k)) mod bn_val m = (bn_val a * bn_val b) mod bn_val m"
proof -
  note f = mont_modulus_facts [OF m]
  let ?M = "bn_val m"
  have w: "limbs (bn_words m k) = ?M" "limbs (bn_words a k) = bn_val a" "limbs (bn_words b k) = bn_val b"
    using f a b k bn_used_le [OF a(1), of k] bn_used_le [OF b(1), of k] by (simp_all add: bn_words_used)
  have hd: "bn_words m k ! 0 = bn_w m ! 0"
    using f(2) k by (simp add: bn_words_def word_at_def)
  have inv': "n0inv * bn_words m k ! 0 = - 1"
    using mont_n0inv_val [OF f(5)] by (simp add: hd inv)
  define t where "t = fold (mont_turn (bn_words a k) (bn_words m k) n0inv k) (bn_words b k) (replicate (k + 2) 0)"
  have "\<exists>z. length t = k + 2 \<and> t ! (k + 1) = 0 \<and> limbs t < 2 * ?M \<and> WB ^ k * limbs t = bn_val a * bn_val b + z * ?M"
    using mont_turns_val [of "bn_words a k" k "bn_words m k" n0inv "replicate (k + 2) 0" "bn_words b k"] w f(2,7) k inv' a(2)
    by (simp add: t_def del: replicate_Suc)
  then obtain z where t: "length t = k + 2" "t ! (k + 1) = 0" "limbs t < 2 * ?M" "WB ^ k * limbs t = bn_val a * bn_val b + z * ?M"
    by blast
  have val: "limbs (take (k + 1) t) = limbs t"
    using limbs_take_Suc [of "k + 1" t] t(1,2) by simp
  define r where "r = bn_norm \<lparr>bn_w = take (k + 1) t @ replicate (BN_MAX_WORDS - (k + 1)) 0, bn_used = k + 1\<rparr>"
  have r: "bn_ok r" "bn_val r = limbs t"
    unfolding r_def using t(1) f(3) k val by (simp_all add: bn_norm_ok) (simp add: bn_val_def)
  have len: "min (k + 1) BN_MAX_WORDS = k + 1" "length (take (k + 1) t) = k + 1"
    using f(3) k t(1) by simp_all
  have eq: "bn_montmul a b m n0inv k = (if ?M \<le> bn_val r then snd (bn_sub r m) else r)"
    unfolding bn_montmul_def t_def [symmetric] Let_def len r_def [symmetric] bn_cmp_iff(1) [OF r(1) f(1)] by (rule refl)
  have mod: "(WB ^ k * (limbs t - c * ?M)) mod ?M = (bn_val a * bn_val b) mod ?M" if le: "c * ?M \<le> limbs t" for c
  proof -
    obtain d where d: "limbs t = c * ?M + d"
      using le_Suc_ex [OF le] by blast
    have "WB ^ k * d + (WB ^ k * c) * ?M = bn_val a * bn_val b + z * ?M"
      using t(4) unfolding d by (simp add: algebra_simps)
    then have "(WB ^ k * d + (WB ^ k * c) * ?M) mod ?M = (bn_val a * bn_val b + z * ?M) mod ?M"
      by (rule arg_cong)
    then show ?thesis
      unfolding d by (simp only: mod_mult_self1 add_diff_cancel_left')
  qed
  show ?thesis
    unfolding eq using r t(3) bn_sub_val [OF r(1) f(1)] mod [of 0] mod [of 1] by auto
qed

section \<open>Powers\<close>

lemma mod_cancel:
  fixes r u v m :: nat
  assumes "coprime r m" "(r * u) mod m = (r * v) mod m"
  shows "u mod m = v mod m"
proof -
  have le: "u mod m = v mod m" if "u \<le> v" "(r * v) mod m = (r * u) mod m" for u v
  proof -
    have "m dvd r * v - r * u"
      using that mod_eq_dvd_iff_nat [of "r * u" "r * v" m] by simp
    then have "m dvd v - u"
      using assms(1) by (metis coprime_commute coprime_dvd_mult_right_iff diff_mult_distrib2)
    then show ?thesis
      using that(1) mod_eq_dvd_iff_nat [of u v m] by simp
  qed
  show ?thesis
  proof (cases "u \<le> v")
    case True
    then show ?thesis
      by (rule le [OF _ assms(2) [symmetric]])
  next
    case False
    then have "v \<le> u"
      by simp
    then show ?thesis
      by (rule le [OF _ assms(2), symmetric])
  qed
qed

text \<open>\<open>x\<close> stands for \<open>X\<close>: it is \<open>X\<close> times \<open>R\<close>.\<close>

definition stands_for :: "bignum \<Rightarrow> bignum \<Rightarrow> nat \<Rightarrow> bool" where
  "stands_for m x X \<longleftrightarrow> bn_ok x \<and> bn_val x = (X * WB ^ bn_used m) mod bn_val m"

definition montmul :: "bignum \<Rightarrow> bignum \<Rightarrow> bignum \<Rightarrow> bignum" where
  "montmul m x y = bn_montmul x y m (mont_n0inv (bn_w m ! 0)) (bn_used m)"

lemma montmul_val:
  assumes "mont_modulus m" "bn_ok a" "bn_val a < bn_val m" "bn_ok b" "bn_val b < bn_val m"
    and "(bn_val a * bn_val b) mod bn_val m = (WB ^ bn_used m * c) mod bn_val m"
  shows "bn_ok (montmul m a b)" "bn_val (montmul m a b) = c mod bn_val m"
proof -
  note v = bn_montmul_val [OF assms(1-5) refl refl, folded montmul_def]
  have "bn_val (montmul m a b) mod bn_val m = c mod bn_val m"
    using mod_cancel [OF mont_modulus_facts(8) [OF assms(1)], of "bn_used m" "bn_val (montmul m a b)" c] v assms(6) by simp
  then show "bn_ok (montmul m a b)" "bn_val (montmul m a b) = c mod bn_val m"
    using v by simp_all
qed

lemma montmul_stands:
  assumes "mont_modulus m" "stands_for m x X" "stands_for m y Y"
  shows "stands_for m (montmul m x y) (X * Y)"
proof -
  let ?M = "bn_val m" and ?R = "WB ^ bn_used m"
  have x: "bn_ok x" "bn_val x < ?M" "bn_ok y" "bn_val y < ?M"
    using assms mont_modulus_facts(7) [OF assms(1)] by (simp_all add: stands_for_def)
  have "(bn_val x * bn_val y) mod ?M = ((X * ?R) * (Y * ?R)) mod ?M"
    using assms(2,3) by (simp add: stands_for_def mod_mult_eq)
  then have "(bn_val x * bn_val y) mod ?M = (?R * (X * Y * ?R)) mod ?M"
    by (simp add: mult.assoc mult.left_commute)
  then show ?thesis
    using montmul_val [OF assms(1) x] by (simp add: stands_for_def)
qed

lemma rr_loop_val:
  assumes "mont_modulus m" "bn_ok r" "bn_val r < bn_val m"
  shows "bn_ok (rr_loop m n r) \<and> bn_val (rr_loop m n r) = (2 ^ n * bn_val r) mod bn_val m"
  using assms(2,3)
proof (induction n arbitrary: r)
  case (Suc n)
  note f = mont_modulus_facts [OF assms(1)]
  define r1 where "r1 = (if bn_cmp (bn_shl1 r) m \<ge> 0 then snd (bn_sub (bn_shl1 r) m) else bn_shl1 r)"
  have sh: "bn_ok (bn_shl1 r)" "bn_val (bn_shl1 r) = 2 * bn_val r"
    using Suc.prems f(6) by (auto intro!: bn_shl1_val)
  have r1: "bn_ok r1" "bn_val r1 < bn_val m" "bn_val r1 = (2 * bn_val r) mod bn_val m"
    using sh bn_sub_val [OF sh(1) f(1)] bn_cmp_iff [OF sh(1) f(1)] Suc.prems(2) by (auto simp: r1_def mod_if)
  have "rr_loop m (Suc n) r = rr_loop m n r1"
    by (simp add: r1_def Let_def)
  moreover have "(2 ^ n * bn_val r1) mod bn_val m = (2 ^ Suc n * bn_val r) mod bn_val m"
    by (simp add: r1(3) mod_mult_right_eq mult.assoc mult.left_commute)
  ultimately show ?case
    using Suc.IH [OF r1(1,2)] by simp
qed simp

lemma exp_loop_stands:
  assumes m: "mont_modulus m" and b: "stands_for m base B" and e: "bn_ok ex"
  shows "stands_for m r (B ^ (bn_val ex div 2 ^ i)) \<Longrightarrow> stands_for m (exp_loop (montmul m) base ex i r) (B ^ bn_val ex)"
proof (induction i arbitrary: r)
  case (Suc i)
  let ?e = "bn_val ex div 2 ^ Suc i"
  have div: "bn_val ex div 2 ^ i = 2 * ?e + bn_val ex div 2 ^ i mod 2"
    unfolding power_Suc2 div_mult2_eq by simp
  have sq: "stands_for m (montmul m r r) (B ^ (2 * ?e))"
    using montmul_stands [OF m Suc.prems Suc.prems] by (simp add: mult_2 power_add)
  have "stands_for m (if bn_test_bit ex i then montmul m (montmul m r r) base else montmul m r r) (B ^ (bn_val ex div 2 ^ i))"
  proof (cases "bn_test_bit ex i")
    case True
    then have "bn_val ex div 2 ^ i = Suc (2 * ?e)"
      using div bn_test_bit_val [OF e, of i] by (simp add: mod2_eq_if)
    then show ?thesis
      using True montmul_stands [OF m sq b] by (simp add: mult.commute)
  next
    case False
    then have "bn_val ex div 2 ^ i = 2 * ?e"
      using div bn_test_bit_val [OF e, of i] by (simp add: mod2_eq_if)
    then show ?thesis
      using False sq by simp
  qed
  then show ?case
    using Suc.IH by (simp add: Let_def)
qed simp

lemma bn_modexp_val:
  assumes m: "mont_modulus m" and b: "bn_ok base" and e: "bn_ok ex"
  shows "\<exists>r. bn_modexp base ex m = Some r \<and> bn_ok r \<and> bn_val r = bn_val base ^ bn_val ex mod bn_val m"
proof -
  note f = mont_modulus_facts [OF m]
  let ?M = "bn_val m" and ?R = "WB ^ bn_used m" and ?one = "bn_set_u32 1"
  have z: "\<not> (bn_is_zero m \<or> bn_w m ! 0 AND 1 = 0)"
    using f(1,5,7) by (simp add: bn_is_zero_val)
  have one: "bn_cmp m ?one = 0 \<longleftrightarrow> ?M = 1"
    using bn_cmp_iff(3) [OF f(1) bn_set_u32_ok(1), of 1] by simp
  consider "?M = 1" | "?M \<noteq> 1" "bn_val ex = 0" | "?M \<noteq> 1" "bn_val ex \<noteq> 0"
    by blast
  then show ?thesis
  proof cases
    case 1
    then show ?thesis
      using z one by (simp add: bn_modexp_def)
  next
    case 2
    then show ?thesis
      using z one e f(7) by (simp add: bn_modexp_def bn_is_zero_val mod_if)
  next
    case 3
    then have M: "1 < ?M"
      using f(7) by linarith
    obtain red where red: "bn_mod base m = Some red" "bn_ok red" "bn_val red = bn_val base mod ?M"
      using bn_mod_val [OF b f(1) _ f(6)] f(7) by auto
    define rr where "rr = rr_loop m (64 * bn_used m) ?one"
    have "2 ^ (64 * bn_used m) = ?R * ?R"
      by (simp add: WB_power flip: power_add)
    then have rr: "bn_ok rr" "bn_val rr = (?R * ?R) mod ?M" "bn_val rr < ?M"
      using rr_loop_val [OF m bn_set_u32_ok(1), of 1 "64 * bn_used m"] M by (simp_all add: rr_def)
    have st: "stands_for m (montmul m x rr) X" if "bn_ok x" "bn_val x = X mod ?M" for x X
    proof -
      have "(bn_val x * bn_val rr) mod ?M = (X * (?R * ?R)) mod ?M"
        unfolding that(2) rr(2) by (rule mod_mult_eq)
      also have "X * (?R * ?R) = ?R * (X * ?R)"
        by simp
      finally show ?thesis
        using montmul_val [OF m that(1) _ rr(1,3)] that(2) M by (simp add: stands_for_def)
    qed
    define res where "res = exp_loop (montmul m) (montmul m red rr) ex (bn_bitlen ex) (montmul m ?one rr)"
    have "bn_val ex div 2 ^ bn_bitlen ex = 0"
      using bn_bitlen_val(1) [OF e] by simp
    then have "stands_for m res (bn_val base ^ bn_val ex)"
      unfolding res_def using st [OF red(2,3)] st [OF bn_set_u32_ok(1), of 1 1] M by (intro exp_loop_stands [OF m _ e]) simp_all
    then have "bn_ok res" "bn_val res = (bn_val base ^ bn_val ex * ?R) mod ?M"
      by (simp_all add: stands_for_def)
    then have "bn_ok (montmul m res ?one)" "bn_val (montmul m res ?one) = bn_val base ^ bn_val ex mod ?M"
      using montmul_val [OF m _ _ bn_set_u32_ok(1), of res 1 "bn_val base ^ bn_val ex"] M by (simp_all add: mult.commute)
    moreover have "bn_modexp base ex m = Some (montmul m res ?one)"
      using z one 3 e red(1)
      by (simp add: bn_modexp_def Let_def bn_is_zero_val montmul_def [abs_def] res_def rr_def)
    ultimately show ?thesis
      by blast
  qed
qed

text \<open>
  C20: Modular powers. For an odd modulus with a spare word, the Montgomery ladder of \<open>bn_modexp\<close>
  answers \<open>base ^ ex mod m\<close> in normal form; it refuses exactly the zero and the even modulus.
\<close>

theorem bn_modexp_power:
  assumes "bn_ok base" "bn_ok ex" "bn_ok m" "bn_used m < BN_MAX_WORDS"
  shows "if odd (bn_val m)
     then \<exists>r. bn_modexp base ex m = Some r \<and> bn_ok r \<and> bn_val r = bn_val base ^ bn_val ex mod bn_val m
     else bn_modexp base ex m = None"
proof (cases "odd (bn_val m)")
  case True
  then have "mont_modulus m"
    using assms by (simp add: mont_modulus_def)
  then show ?thesis
    using bn_modexp_val assms True by simp
next
  case False
  then show ?thesis
    using bn_test_bit_val [OF assms(3), of 0] by (auto simp: bn_modexp_def bn_test_bit_def bn_is_zero_def split: if_splits)
qed

theorem bn_modexp_power_witness:
  "\<exists>r. bn_modexp (bn_set_u32 3) (bn_set_u32 5) (bn_set_u32 7) = Some r \<and> bn_val r = 5"
proof -
  have "bn_used (bn_set_u32 7) < BN_MAX_WORDS"
    by (simp add: bn_set_u32_def BN_MAX_WORDS_def)
  then show ?thesis
    using bn_modexp_power [of "bn_set_u32 3" "bn_set_u32 5" "bn_set_u32 7"] by auto
qed

end
