(* ===== verification/BigEuclid.thy ===== *)
theory BigEuclid
  imports BigNumDiv
begin

text \<open>
  The loops of Euclid's algorithm on big numbers end, with the greatest common divisor and, where there
  is one, the inverse modulo a number.
\<close>

section \<open>Greatest common divisor\<close>

lemma gcd_loop_val:
  "bn_ok x \<Longrightarrow> bn_ok y \<Longrightarrow> 2 * bn_val y \<le> WB ^ BN_MAX_WORDS
    \<Longrightarrow> \<exists>r. gcd_loop x y = Some (Some r) \<and> bn_ok r \<and> bn_val r = gcd (bn_val x) (bn_val y)"
proof (induction "bn_val y" arbitrary: x y rule: less_induct)
  case less
  show ?case
  proof (cases "bn_val y = 0")
    case True
    then show ?thesis
      using less.prems by (subst gcd_loop.simps) (simp add: bn_is_zero_val)
  next
    case False
    then obtain t where t: "bn_mod x y = Some t" "bn_ok t" "bn_val t = bn_val x mod bn_val y"
      using bn_mod_val [OF less.prems(1,2) _ less.prems(3)] by auto
    have "bn_val t < bn_val y"
      using False t(3) by simp
    then obtain r where "gcd_loop y t = Some (Some r)" "bn_ok r" "bn_val r = gcd (bn_val y) (bn_val t)"
      using less.hyps [OF _ less.prems(2) t(2)] less.prems(3) by auto
    then show ?thesis
      using less.prems False t by (subst gcd_loop.simps) (simp add: bn_is_zero_val gcd.commute flip: gcd_red_nat)
  qed
qed

section \<open>Inverse\<close>

lemma half_room:
  assumes "bn_ok m" "2 * bn_used m \<le> BN_MAX_WORDS" "0 < bn_val m" "x \<le> bn_val m"
  shows "2 * x \<le> WB ^ BN_MAX_WORDS"
proof -
  have "x < WB ^ bn_used m"
    using assms(4) bn_ok_bounds(1) [OF assms(1)] by linarith
  then have "2 * x \<le> WB ^ Suc (bn_used m)"
    unfolding power_Suc by (intro mult_le_mono) simp_all
  also have "\<dots> \<le> WB ^ BN_MAX_WORDS"
    using assms(2,3) bn_used_0 [OF assms(1)] by (intro power_increasing) simp_all
  finally show ?thesis .
qed

lemma next_coeff_val:
  assumes m: "bn_ok m" "2 * bn_used m \<le> BN_MAX_WORDS" "0 < bn_val m" and q: "bn_ok q" "bn_val q \<le> bn_val m"
    and t: "bn_ok t0" "bn_val t0 < bn_val m" "bn_ok t1" "bn_val t1 < bn_val m"
  shows "\<exists>t. next_coeff m q t0 t1 = Some t \<and> bn_ok t \<and> bn_val t < bn_val m
    \<and> int (bn_val m) dvd int (bn_val t) - (int (bn_val t0) - int (bn_val q) * int (bn_val t1))"
proof -
  let ?M = "bn_val m"
  have lt: "?M < WB ^ bn_used m"
    by (rule bn_ok_bounds(1) [OF m(1)])
  have "bn_used q \<le> bn_used m" "bn_used t1 \<le> bn_used m"
    using lt q t by (simp_all add: bn_used_le)
  then have used: "bn_used q + bn_used t1 \<le> BN_MAX_WORDS"
    using m(2) by linarith
  have big: "2 * ?M \<le> WB ^ BN_MAX_WORDS"
    using half_room [OF m order_refl] .
  obtain qt where qt: "bn_mulmod q t1 m = Some qt" "bn_ok qt" "bn_val qt = bn_val q * bn_val t1 mod ?M"
    using bn_mulmod_val [OF q(1) t(3) used m(1,3) big] by blast
  have qt_lt: "bn_val qt < ?M"
    using qt(3) m(3) by simp
  have dvd: "int ?M dvd int (bn_val q) * int (bn_val t1) - int (bn_val qt)"
    unfolding qt(3) by (simp add: zmod_int minus_mod_eq_mult_div)
  show ?thesis
  proof (cases "bn_val qt \<le> bn_val t0")
    case True
    note s = bn_sub_val [OF t(1) qt(2) True]
    have "int (bn_val (snd (bn_sub t0 qt))) - (int (bn_val t0) - int (bn_val q) * int (bn_val t1)) = int (bn_val q) * int (bn_val t1) - int (bn_val qt)"
      using s(3) True by simp
    then show ?thesis
      using s qt(1,2) dvd t(1,2) True bn_cmp_iff [OF t(1) qt(2)] by (simp add: next_coeff_def)
  next
    case False
    have "bn_val t0 + ?M < WB ^ BN_MAX_WORDS"
      using big t(2) by linarith
    then obtain s where s: "bn_add t0 m = Some s" "bn_ok s" "bn_val s = bn_val t0 + ?M"
      using bn_add_val [OF t(1) m(1)] by blast
    note d = bn_sub_val [OF s(2) qt(2)]
    have le: "bn_val qt \<le> bn_val s"
      using qt_lt s(3) by simp
    have "int (bn_val (snd (bn_sub s qt))) - (int (bn_val t0) - int (bn_val q) * int (bn_val t1))
        = int ?M + (int (bn_val q) * int (bn_val t1) - int (bn_val qt))"
      using d(3) [OF le] le s(3) by simp
    then have "int ?M dvd int (bn_val (snd (bn_sub s qt))) - (int (bn_val t0) - int (bn_val q) * int (bn_val t1))"
      using dvd by (metis dvd_add dvd_refl)
    moreover have "bn_val t0 + ?M - bn_val qt < ?M"
      using False m(3) by linarith
    ultimately show ?thesis
      using d [OF le] s qt(1,2) False bn_cmp_iff [OF t(1) qt(2)] by (simp add: next_coeff_def)
  qed
qed

lemma inv_loop_val:
  assumes m: "bn_ok m" "2 * bn_used m \<le> BN_MAX_WORDS" "0 < bn_val m"
  shows "bn_ok r0 \<Longrightarrow> bn_ok r1 \<Longrightarrow> bn_ok t0 \<Longrightarrow> bn_ok t1 \<Longrightarrow> bn_val r0 \<le> bn_val m \<Longrightarrow> bn_val r1 < bn_val m
    \<Longrightarrow> bn_val t0 < bn_val m \<Longrightarrow> bn_val r1 = 0 \<or> bn_val t1 < bn_val m
    \<Longrightarrow> int (bn_val m) dvd int (bn_val r0) - int (bn_val t0) * int A \<Longrightarrow> int (bn_val m) dvd int (bn_val r1) - int (bn_val t1) * int A
    \<Longrightarrow> \<exists>r t. inv_loop m r0 r1 t0 t1 = Some (Some (r, t)) \<and> bn_ok r \<and> bn_ok t \<and> bn_val r = gcd (bn_val r0) (bn_val r1)
      \<and> bn_val t < bn_val m \<and> int (bn_val m) dvd int (bn_val r) - int (bn_val t) * int A"
proof (induction "bn_val r1" arbitrary: r0 r1 t0 t1 rule: less_induct)
  case less
  show ?case
  proof (cases "bn_val r1 = 0")
    case True
    then show ?thesis
      using less.prems by (subst inv_loop.simps) (simp add: bn_is_zero_val)
  next
    case False
    have "2 * bn_val r1 \<le> WB ^ BN_MAX_WORDS"
      using half_room [OF m] less.prems(6) by simp
    then obtain q rem where qr: "bn_divmod r0 r1 = Some (q, rem)" "bn_ok q" "bn_ok rem" "bn_val q = bn_val r0 div bn_val r1" "bn_val rem = bn_val r0 mod bn_val r1"
      using bn_divmod_val [OF less.prems(1,2)] False by auto
    have t1: "bn_val t1 < bn_val m" "bn_val q \<le> bn_val m" "bn_val rem < bn_val r1"
      using less.prems(5,8) False qr(4,5) order_trans [OF div_le_dividend [of "bn_val r0" "bn_val r1"]] by auto
    then obtain t where t: "next_coeff m q t0 t1 = Some t" "bn_ok t" "bn_val t < bn_val m"
      "int (bn_val m) dvd int (bn_val t) - (int (bn_val t0) - int (bn_val q) * int (bn_val t1))"
      using next_coeff_val [OF m qr(2) _ less.prems(3,7,4)] by blast
    have "int (bn_val q) * int (bn_val r1) + int (bn_val rem) = int (bn_val r0)"
      unfolding qr(4,5) of_nat_mult [symmetric] of_nat_add [symmetric] by simp
    then have "int (bn_val rem) = int (bn_val r0) - int (bn_val q) * int (bn_val r1)"
      by linarith
    then have "int (bn_val rem) - int (bn_val t) * int A = (int (bn_val r0) - int (bn_val t0) * int A)
        - int (bn_val q) * (int (bn_val r1) - int (bn_val t1) * int A)
        - (int (bn_val t) - (int (bn_val t0) - int (bn_val q) * int (bn_val t1))) * int A"
      by (simp add: algebra_simps)
    then have "int (bn_val m) dvd int (bn_val rem) - int (bn_val t) * int A"
      using less.prems(9,10) t(4) by (simp add: dvd_diff dvd_mult dvd_mult2)
    then obtain r u where "inv_loop m r1 rem t1 t = Some (Some (r, u))" "bn_ok r" "bn_ok u" "bn_val r = gcd (bn_val r1) (bn_val rem)"
      "bn_val u < bn_val m" "int (bn_val m) dvd int (bn_val r) - int (bn_val u) * int A"
      using less.hyps [OF t1(3) less.prems(2) qr(3) less.prems(4) t(2)] less.prems(6,10) t1 t(3) by auto
    then show ?thesis
      using less.prems(2) False qr(1,5) t(1) by (subst inv_loop.simps) (simp add: bn_is_zero_val gcd.commute flip: gcd_red_nat)
  qed
qed

lemma bn_modinv_val:
  assumes a: "bn_ok a" and m: "bn_ok m" "2 * bn_used m \<le> BN_MAX_WORDS" "0 < bn_val m"
  shows "if coprime (bn_val a) (bn_val m)
    then \<exists>r. bn_modinv a m = Some (Some r) \<and> bn_ok r \<and> bn_val r < bn_val m \<and> (bn_val a * bn_val r) mod bn_val m = 1 mod bn_val m
    else bn_modinv a m = Some None"
proof -
  let ?A = "bn_val a" and ?M = "bn_val m"
  obtain r1 where r1: "bn_mod a m = Some r1" "bn_ok r1" "bn_val r1 = ?A mod ?M"
    using bn_mod_val [OF a m(1,3) half_room [OF m order_refl]] by blast
  have "int ?M dvd int (bn_val r1) - int (bn_val (bn_set_u32 1)) * int ?A"
    unfolding r1(3) zmod_int by (subst dvd_diff_commute) (simp add: dvd_minus_mod)
  moreover have "bn_val r1 = 0 \<or> bn_val (bn_set_u32 1) < ?M"
    using r1(3) m(3) by (cases "?M = 1") auto
  ultimately obtain r t where l: "inv_loop m m r1 bn_zero (bn_set_u32 1) = Some (Some (r, t))" "bn_ok r" "bn_ok t" "bn_val r = gcd ?M (bn_val r1)"
    "bn_val t < ?M" "int ?M dvd int (bn_val r) - int (bn_val t) * int ?A"
    using inv_loop_val [OF m m(1) r1(2) bn_zero_ok(1) bn_set_u32_ok(1), of 1 ?A] r1(3) m(3) by auto
  have g: "bn_val r = gcd ?A ?M"
    using l(4) r1(3) by (simp add: gcd.commute flip: gcd_red_nat)
  have eq: "bn_modinv a m = Some (if coprime ?A ?M then Some t else None)"
    using l(1) r1(1) g bn_cmp_iff(3) [OF l(2) bn_set_u32_ok(1), of 1] by (simp add: bn_modinv_def coprime_iff_gcd_eq_1)
  have "(?A * bn_val t) mod ?M = 1 mod ?M" if "coprime ?A ?M"
  proof -
    have "bn_val r = 1"
      using g that by simp
    then have "int 1 mod int ?M = (int (?A * bn_val t)) mod int ?M"
      using l(6) by (simp add: mod_eq_dvd_iff mult.commute)
    then show ?thesis
      unfolding zmod_int [symmetric] of_nat_eq_iff by simp
  qed
  then show ?thesis
    using eq l(3,5) by simp
qed

text \<open>
  C22: The two loops of Euclid's algorithm end for all well-formed numbers with room for the division:
  \<open>bn_gcd\<close> answers the greatest common divisor, and \<open>bn_modinv\<close> answers the inverse below the modulus
  when the two numbers have no common divisor and refuses otherwise.
\<close>

theorem euclid_loops_end:
  assumes "bn_ok a" "bn_ok m" "2 * bn_used m \<le> BN_MAX_WORDS" "0 < bn_val m"
  shows "(\<exists>g. bn_gcd a m = Some (Some g) \<and> bn_ok g \<and> bn_val g = gcd (bn_val a) (bn_val m))
    \<and> (\<exists>res. bn_modinv a m = Some res
        \<and> (case res of
             None \<Rightarrow> \<not> coprime (bn_val a) (bn_val m)
           | Some r \<Rightarrow> bn_ok r \<and> bn_val r < bn_val m \<and> (bn_val a * bn_val r) mod bn_val m = 1 mod bn_val m))"
  using gcd_loop_val [OF assms(1,2) half_room [OF assms(2-4) order_refl]] bn_modinv_val [OF assms]
  by (auto simp: bn_gcd_def split: if_splits)

theorem euclid_loops_end_witness:
  "\<exists>g res. bn_gcd (bn_set_u32 35) (bn_set_u32 12) = Some (Some g) \<and> bn_val g = 1 \<and> bn_modinv (bn_set_u32 35) (bn_set_u32 12) = Some res"
proof -
  have "bn_used (bn_set_u32 12) = 1"
    by (simp add: bn_set_u32_def)
  moreover have "gcd (35 :: nat) 12 = 1"
    by code_simp
  ultimately show ?thesis
    using euclid_loops_end [of "bn_set_u32 35" "bn_set_u32 12"] by (auto simp: BN_MAX_WORDS_def)
qed

end
