(* ===== verification/BlockHash.thy ===== *)
theory BlockHash
  imports PdiPrelude
begin

text \<open>
  What a streaming hash (\<^verbatim>\<open>sha512.cpp\<close>) is built on: a compression function folded over
  whole blocks, and a buffer that holds the unfinished block. \<open>block_rep\<close> says that a chaining value and a
  buffer stand for the message absorbed so far; the ways a buffer can be filled keep it.
\<close>

section \<open>Definitions\<close>

fun md_blocks :: "('s \<Rightarrow> bytes \<Rightarrow> 's) \<Rightarrow> nat \<Rightarrow> 's \<Rightarrow> bytes \<Rightarrow> 's" where
  "md_blocks f n st xs =
     (if n = 0 \<or> length xs < n then st else md_blocks f n (f st (take n xs)) (drop n xs))"

declare md_blocks.simps [simp del]

definition block_rep :: "('s \<Rightarrow> bytes \<Rightarrow> 's) \<Rightarrow> nat \<Rightarrow> 's \<Rightarrow> bytes \<Rightarrow> nat \<Rightarrow> 's \<Rightarrow> bytes \<Rightarrow> bool" where
  "block_rep f n H buf cur st msg \<longleftrightarrow>
     length buf = n \<and> cur < n \<and> n dvd length msg - cur \<and> cur \<le> length msg
     \<and> take cur buf = drop (length msg - cur) msg
     \<and> st = md_blocks f n H (take (length msg - cur) msg)"

section \<open>Blocks\<close>

lemma md_blocks_Nil [simp]: "md_blocks f n st [] = st"
  by (subst md_blocks.simps) (cases n; simp)

lemma md_blocks_one: "length xs = n \<Longrightarrow> 0 < n \<Longrightarrow> md_blocks f n st xs = f st xs"
  by (subst md_blocks.simps) simp

lemma md_blocks_append:
  assumes "n dvd length xs"
  shows "md_blocks f n st (xs @ ys) = md_blocks f n (md_blocks f n st xs) ys"
  using assms
proof (induction f n st xs rule: md_blocks.induct)
  case (1 f n st xs)
  show ?case
  proof (cases "xs = [] \<or> n = 0")
    case True
    with "1.prems" have "xs = []"
      by auto
    then show ?thesis
      by simp
  next
    case False
    with "1.prems" have len: "n \<le> length xs" "0 < n"
      by (auto dest: dvd_imp_le)
    with "1.prems" have "n dvd length (drop n xs)"
      by (simp add: dvd_minus_self)
    then show ?thesis
      using 1 len by (simp add: md_blocks.simps [of f n st "xs @ ys"] md_blocks.simps [of f n st xs])
  qed
qed

lemma md_blocks_snoc:
  assumes "n dvd length xs" "length ys = n" "0 < n"
  shows "md_blocks f n st (xs @ ys) = f (md_blocks f n st xs) ys"
  using assms by (simp add: md_blocks_append md_blocks_one)

section \<open>The buffer\<close>

lemma block_rep_init: "length buf = n \<Longrightarrow> 0 < n \<Longrightarrow> block_rep f n H buf 0 H []"
  by (simp add: block_rep_def)

lemma block_rep_mod: "block_rep f n H buf cur st msg \<Longrightarrow> length msg mod n = cur"
  unfolding block_rep_def by (auto elim!: dvdE simp: le_imp_diff_is_add)

text \<open>The three ways on: a part of a block, the rest of a block, a whole block from elsewhere.\<close>

lemma block_rep_part:
  assumes "block_rep f n H buf cur st msg" "cur + length p < n"
  shows "block_rep f n H (take cur buf @ p @ drop (cur + length p) buf) (cur + length p) st (msg @ p)"
  using assms unfolding block_rep_def by simp

lemma block_rep_close:
  assumes "block_rep f n H buf cur st msg" "cur + length p = n" "length buf' = n"
  shows "block_rep f n H buf' 0 (f st (take cur buf @ p)) (msg @ p)"
proof -
  let ?k = "length msg - cur"
  have rep: "length buf = n" "cur < n" "n dvd ?k" "cur \<le> length msg" "take cur buf = drop ?k msg"
      "st = md_blocks f n H (take ?k msg)"
    using assms(1) unfolding block_rep_def by simp_all
  have "md_blocks f n H (take ?k msg @ drop ?k msg @ p) = f st (take cur buf @ p)"
    using rep assms(2) by (subst md_blocks_snoc) simp_all
  moreover have "n dvd length msg + length p"
  proof -
    have "length msg + length p = ?k + n"
      using rep(4) assms(2) by simp
    then show ?thesis
      using rep(3) by simp
  qed
  ultimately show ?thesis
    using rep(2) assms(3) by (simp add: block_rep_def flip: append_assoc)
qed

lemma block_rep_whole:
  assumes "block_rep f n H buf 0 st msg" "length p = n"
  shows "block_rep f n H buf 0 (f st p) (msg @ p)"
  using block_rep_close [OF assms(1), of p buf] assms unfolding block_rep_def by simp

text \<open>What is left of the message when the buffer is closed with a tail.\<close>

lemma block_rep_tail:
  assumes "block_rep f n H buf cur st msg" "n dvd cur + length tail"
  shows "md_blocks f n H (msg @ tail) = md_blocks f n st (take cur buf @ tail)"
proof -
  let ?k = "length msg - cur"
  have rep: "n dvd ?k" "take cur buf = drop ?k msg" "st = md_blocks f n H (take ?k msg)"
    using assms(1) unfolding block_rep_def by simp_all
  have "md_blocks f n H (take ?k msg @ drop ?k msg @ tail) = md_blocks f n st (take cur buf @ tail)"
    using rep by (subst md_blocks_append) simp_all
  then show ?thesis
    by (simp flip: append_assoc)
qed

end
