(* ===== verification/Sha512.thy ===== *)
theory Sha512
  imports Sha256 BlockHash
begin

unbundle bit_operations_syntax

text \<open>
  SHA-512 (\<^verbatim>\<open>src/src/utility/crypto/hash/sha512.cpp\<close>): rounds that rename the eight registers instead of
  moving them, choice and majority with fewer operations than FIPS 180-4 prints, and a context that takes
  whole blocks straight from the input. The published algorithm stands beside it in its printed form.
  A non-zero return is \<open>None\<close>; the pointers are not null.
\<close>

section \<open>Definitions\<close>

definition K512 :: "u64 list" where
  "K512 = concat [
    [0x428a2f98d728ae22, 0x7137449123ef65cd, 0xb5c0fbcfec4d3b2f, 0xe9b5dba58189dbbc],
    [0x3956c25bf348b538, 0x59f111f1b605d019, 0x923f82a4af194f9b, 0xab1c5ed5da6d8118],
    [0xd807aa98a3030242, 0x12835b0145706fbe, 0x243185be4ee4b28c, 0x550c7dc3d5ffb4e2],
    [0x72be5d74f27b896f, 0x80deb1fe3b1696b1, 0x9bdc06a725c71235, 0xc19bf174cf692694],
    [0xe49b69c19ef14ad2, 0xefbe4786384f25e3, 0x0fc19dc68b8cd5b5, 0x240ca1cc77ac9c65],
    [0x2de92c6f592b0275, 0x4a7484aa6ea6e483, 0x5cb0a9dcbd41fbd4, 0x76f988da831153b5],
    [0x983e5152ee66dfab, 0xa831c66d2db43210, 0xb00327c898fb213f, 0xbf597fc7beef0ee4],
    [0xc6e00bf33da88fc2, 0xd5a79147930aa725, 0x06ca6351e003826f, 0x142929670a0e6e70],
    [0x27b70a8546d22ffc, 0x2e1b21385c26c926, 0x4d2c6dfc5ac42aed, 0x53380d139d95b3df],
    [0x650a73548baf63de, 0x766a0abb3c77b2a8, 0x81c2c92e47edaee6, 0x92722c851482353b],
    [0xa2bfe8a14cf10364, 0xa81a664bbc423001, 0xc24b8b70d0f89791, 0xc76c51a30654be30],
    [0xd192e819d6ef5218, 0xd69906245565a910, 0xf40e35855771202a, 0x106aa07032bbd1b8],
    [0x19a4c116b8d2d0c8, 0x1e376c085141ab53, 0x2748774cdf8eeb99, 0x34b0bcb5e19b48a8],
    [0x391c0cb3c5c95a63, 0x4ed8aa4ae3418acb, 0x5b9cca4f7763e373, 0x682e6ff3d6b2b8a3],
    [0x748f82ee5defb2fc, 0x78a5636f43172f60, 0x84c87814a1f0ab72, 0x8cc702081a6439ec],
    [0x90befffa23631e28, 0xa4506cebde82bde9, 0xbef9a3f7b2c67915, 0xc67178f2e372532b],
    [0xca273eceea26619c, 0xd186b8c721c0c207, 0xeada7dd6cde0eb1e, 0xf57d4f7fee6ed178],
    [0x06f067aa72176fba, 0x0a637dc5a2c898a6, 0x113f9804bef90dae, 0x1b710b35131c471b],
    [0x28db77f523047d84, 0x32caab7b40c72493, 0x3c9ebe0a15c9bebc, 0x431d67c49c100d4c],
    [0x4cc5d4becb3e42b6, 0x597f299cfc657e2a, 0x5fcb6fab3ad6faec, 0x6c44198c4a475817]]"

definition ROR64c :: "u64 \<Rightarrow> nat \<Rightarrow> u64" where
  "ROR64c x y = (drop_bit (y mod 64) x OR push_bit (64 - y mod 64) x)"

definition Ch512 :: "u64 \<Rightarrow> u64 \<Rightarrow> u64 \<Rightarrow> u64" where
  "Ch512 x y z = (z XOR (x AND (y XOR z)))"

definition Maj512 :: "u64 \<Rightarrow> u64 \<Rightarrow> u64 \<Rightarrow> u64" where
  "Maj512 x y z = (((x OR y) AND z) OR (x AND y))"

definition Sigma0 :: "u64 \<Rightarrow> u64" where
  "Sigma0 x = (ROR64c x 28 XOR ROR64c x 34 XOR ROR64c x 39)"

definition Sigma1 :: "u64 \<Rightarrow> u64" where
  "Sigma1 x = (ROR64c x 14 XOR ROR64c x 18 XOR ROR64c x 41)"

definition Gamma0 :: "u64 \<Rightarrow> u64" where
  "Gamma0 x = (ROR64c x 1 XOR ROR64c x 8 XOR drop_bit 7 x)"

definition Gamma1 :: "u64 \<Rightarrow> u64" where
  "Gamma1 x = (ROR64c x 19 XOR ROR64c x 61 XOR drop_bit 6 x)"

record sha512_context =
  s5_length :: u64
  s5_state :: "u64 list"
  s5_curlen :: nat
  s5_buf :: bytes

definition LOAD64H :: "bytes \<Rightarrow> nat \<Rightarrow> u64" where
  "LOAD64H y k = push_bit 56 (ucast (y ! k)) OR push_bit 48 (ucast (y ! (k + 1)))
     OR push_bit 40 (ucast (y ! (k + 2))) OR push_bit 32 (ucast (y ! (k + 3)))
     OR push_bit 24 (ucast (y ! (k + 4))) OR push_bit 16 (ucast (y ! (k + 5)))
     OR push_bit 8 (ucast (y ! (k + 6))) OR ucast (y ! (k + 7))"

definition STORE64H :: "u64 \<Rightarrow> bytes \<Rightarrow> nat \<Rightarrow> bytes" where
  "STORE64H x y k = foldl (\<lambda>y j. y[k + j := ucast (drop_bit (56 - 8 * j) x)]) y [0..<8]"

definition schedule512_step :: "u64 list \<Rightarrow> u64 list" where
  "schedule512_step W = (let i = length W in
     W @ [Gamma1 (W ! (i - 2)) + W ! (i - 7) + Gamma0 (W ! (i - 15)) + W ! (i - 16)])"

definition schedule512 :: "bytes \<Rightarrow> u64 list" where
  "schedule512 buf = (schedule512_step ^^ 64) (map (\<lambda>i. LOAD64H buf (8 * i)) [0..<16])"

text \<open>One round on the array of registers; the eight names are places in it.\<close>

definition RND :: "u64 list \<Rightarrow> nat \<Rightarrow> nat \<Rightarrow> nat \<Rightarrow> nat \<Rightarrow> nat \<Rightarrow> nat \<Rightarrow> nat \<Rightarrow> nat \<Rightarrow> nat \<Rightarrow> u64 list \<Rightarrow> u64 list" where
  "RND W a b c d e f g h i S =
     (let t0 = S ! h + Sigma1 (S ! e) + Ch512 (S ! e) (S ! f) (S ! g) + K512 ! i + W ! i;
          t1 = Sigma0 (S ! a) + Maj512 (S ! a) (S ! b) (S ! c)
      in S[d := S ! d + t0, h := t0 + t1])"

definition RND_eight :: "u64 list \<Rightarrow> nat \<Rightarrow> u64 list \<Rightarrow> u64 list" where
  "RND_eight W i S =
     (let S = RND W 0 1 2 3 4 5 6 7 (i + 0) S;
          S = RND W 7 0 1 2 3 4 5 6 (i + 1) S;
          S = RND W 6 7 0 1 2 3 4 5 (i + 2) S;
          S = RND W 5 6 7 0 1 2 3 4 (i + 3) S;
          S = RND W 4 5 6 7 0 1 2 3 (i + 4) S;
          S = RND W 3 4 5 6 7 0 1 2 (i + 5) S;
          S = RND W 2 3 4 5 6 7 0 1 (i + 6) S
      in RND W 1 2 3 4 5 6 7 0 (i + 7) S)"

definition sha512_compress :: "u64 list \<Rightarrow> bytes \<Rightarrow> u64 list" where
  "sha512_compress st buf =
     map2 (+) st (fold (RND_eight (schedule512 buf)) [0, 8, 16, 24, 32, 40, 48, 56, 64, 72] st)"

definition sha512_H0 :: "u64 list" where
  "sha512_H0 = [0x6a09e667f3bcc908, 0xbb67ae8584caa73b, 0x3c6ef372fe94f82b, 0xa54ff53a5f1d36f1,
     0x510e527fade682d1, 0x9b05688c2b3e6c1f, 0x1f83d9abfb41bd6b, 0x5be0cd19137e2179]"

definition sha512_init :: "sha512_context \<Rightarrow> sha512_context" where
  "sha512_init md = md\<lparr>s5_curlen := 0, s5_length := 0, s5_state := sha512_H0\<rparr>"

text \<open>A part of a block goes into the buffer, and a full buffer into the state.\<close>

definition sha512_absorb :: "sha512_context \<Rightarrow> bytes \<Rightarrow> sha512_context" where
  "sha512_absorb md p =
     (let cur = s5_curlen md; buf = take cur (s5_buf md) @ p @ drop (cur + length p) (s5_buf md);
          md = md\<lparr>s5_buf := buf, s5_curlen := cur + length p\<rparr>
      in if s5_curlen md = 128
         then md\<lparr>s5_state := sha512_compress (s5_state md) buf, s5_length := s5_length md + 8 * 128, s5_curlen := 0\<rparr>
         else md)"

text \<open>The test at the entry of \<open>sha512_update\<close> holds at every turn.\<close>

function sha512_loop :: "sha512_context \<Rightarrow> bytes \<Rightarrow> sha512_context" where
  "sha512_loop md inp =
     (if inp = [] \<or> s5_curlen md > 128 then md
      else if s5_curlen md = 0 \<and> length inp \<ge> 128
      then sha512_loop (md\<lparr>s5_state := sha512_compress (s5_state md) (take 128 inp), s5_length := s5_length md + 128 * 8\<rparr>)
             (drop 128 inp)
      else let n = min (length inp) (128 - s5_curlen md) in sha512_loop (sha512_absorb md (take n inp)) (drop n inp))"
  by pat_completeness auto
termination
  by (relation "measures [\<lambda>(md, inp). length inp, \<lambda>(md, inp). s5_curlen md]")
    (auto simp: sha512_absorb_def Let_def min_def)

declare sha512_loop.simps [simp del]

definition sha512_update :: "sha512_context \<Rightarrow> bytes \<Rightarrow> sha512_context option" where
  "sha512_update md inp = (if s5_curlen md > 128 then None else Some (sha512_loop md inp))"

definition sha512_digest :: "u64 list \<Rightarrow> bytes" where
  "sha512_digest st = concat (map be64 st)"

definition sha512_final :: "sha512_context \<Rightarrow> bytes option" where
  "sha512_final md =
     (if s5_curlen md \<ge> 128 then None
      else
        let len = s5_length md + of_nat (s5_curlen md) * 8;
            buf = (s5_buf md)[s5_curlen md := 0x80];
            cur = s5_curlen md + 1;
            (st, buf, cur) =
              (if cur > 112
               then (let buf = fill_zero buf cur (128 - cur) in (sha512_compress (s5_state md) buf, buf, 0))
               else (s5_state md, buf, cur));
            buf = STORE64H len (fill_zero buf cur (120 - cur)) 120
        in Some (sha512_digest (sha512_compress st buf)))"

text \<open>\<open>ctx\<close> is the uninitialised context on the stack.\<close>

definition sha512 :: "sha512_context \<Rightarrow> bytes \<Rightarrow> bytes option" where
  "sha512 ctx message = Option.bind (sha512_update (sha512_init ctx) message) sha512_final"

section \<open>The published algorithm\<close>

text \<open>FIPS 180-4, sections 4.1.3, 5.1.2 and 6.4.\<close>

definition Ch_fips :: "u64 \<Rightarrow> u64 \<Rightarrow> u64 \<Rightarrow> u64" where
  "Ch_fips x y z = ((x AND y) XOR (NOT x AND z))"

definition Maj_fips :: "u64 \<Rightarrow> u64 \<Rightarrow> u64 \<Rightarrow> u64" where
  "Maj_fips x y z = ((x AND y) XOR (x AND z) XOR (y AND z))"

definition rotr3 :: "nat \<Rightarrow> nat \<Rightarrow> nat \<Rightarrow> u64 \<Rightarrow> u64" where
  "rotr3 i j k x = (word_rotr i x XOR word_rotr j x XOR word_rotr k x)"

fun W_fips :: "bytes \<Rightarrow> nat \<Rightarrow> u64" where
  "W_fips buf t =
     (if t < 16 then foldl (\<lambda>w b. 256 * w + ucast b) 0 (take 8 (drop (8 * t) buf))
      else (word_rotr 19 (W_fips buf (t - 2)) XOR word_rotr 61 (W_fips buf (t - 2)) XOR drop_bit 6 (W_fips buf (t - 2)))
         + W_fips buf (t - 7)
         + (word_rotr 1 (W_fips buf (t - 15)) XOR word_rotr 8 (W_fips buf (t - 15)) XOR drop_bit 7 (W_fips buf (t - 15)))
         + W_fips buf (t - 16))"

declare W_fips.simps [simp del]

fun round_fips :: "(nat \<Rightarrow> u64) \<Rightarrow> nat \<Rightarrow> u64 list \<Rightarrow> u64 list" where
  "round_fips W t [a, b, c, d, e, f, g, h] =
     (let T1 = h + rotr3 14 18 41 e + Ch_fips e f g + K512 ! t + W t; T2 = rotr3 28 34 39 a + Maj_fips a b c
      in [T1 + T2, a, b, c, d + T1, e, f, g])"
| "round_fips W t v = v"

definition compress_fips :: "u64 list \<Rightarrow> bytes \<Rightarrow> u64 list" where
  "compress_fips H M = map2 (+) H (fold (round_fips (W_fips M)) [0..<80] H)"

definition pad512 :: "bytes \<Rightarrow> bytes" where
  "pad512 msg = msg @ [0x80] @ replicate ((239 - length msg mod 128) mod 128) 0
     @ be64 (of_nat (8 * length msg div 2 ^ 64)) @ be64 (of_nat (8 * length msg))"

definition SHA512_spec :: "bytes \<Rightarrow> bytes" where
  "SHA512_spec msg = sha512_digest (md_blocks compress_fips 128 sha512_H0 (pad512 msg))"

end
