(* ===== verification/Sha512Props.thy ===== *)
theory Sha512Props
  imports Sha512
begin

unbundle bit_operations_syntax

text \<open>
  The SHA-512 of the source is the one of FIPS 180-4: its logical functions, its message schedule and its
  register-renaming rounds are the printed ones, and the context absorbs a message in any pieces.
\<close>

section \<open>Logical functions\<close>

lemma ROR64c_rotr:
  assumes "0 < n" "n < 64"
  shows "ROR64c x n = word_rotr n x"
proof (rule bit_word_eqI)
  fix i
  assume i: "i < LENGTH(64)"
  show "bit (ROR64c x n) i = bit (word_rotr n x) i"
  proof (cases "i + n < 64")
    case True
    then have "\<not> 64 - n \<le> i"
      by simp
    then show ?thesis
      using True assms i by (simp add: ROR64c_def bit_simps bit_word_rotr_iff ac_simps)
  next
    case False
    then have "(i + n) mod 64 = i + n - 64"
      using assms i by (simp add: mod_if)
    moreover have "i - (64 - n) = i + n - 64" "64 - n \<le> i"
      using False assms by simp_all
    moreover have "\<not> bit x (i + n)"
      using False by (auto dest: bit_imp_le_length)
    ultimately show ?thesis
      using assms i by (simp add: ROR64c_def bit_simps bit_word_rotr_iff ac_simps)
  qed
qed

lemma Ch512_fips [simp]: "Ch512 x y z = Ch_fips x y z"
  unfolding Ch512_def Ch_fips_def by (rule bit_word_eqI) (auto simp: bit_simps)

lemma Maj512_fips [simp]: "Maj512 x y z = Maj_fips x y z"
  unfolding Maj512_def Maj_fips_def by (rule bit_word_eqI) (auto simp: bit_simps)

lemma Sigma_fips [simp]: "Sigma0 x = rotr3 28 34 39 x" "Sigma1 x = rotr3 14 18 41 x"
  by (simp_all add: Sigma0_def Sigma1_def rotr3_def ROR64c_rotr)

lemma Gamma_fips:
  "Gamma0 x = (word_rotr 1 x XOR word_rotr 8 x XOR drop_bit 7 x)"
  "Gamma1 x = (word_rotr 19 x XOR word_rotr 61 x XOR drop_bit 6 x)"
  by (simp_all add: Gamma0_def Gamma1_def ROR64c_rotr)

section \<open>Message schedule\<close>

lemma push_or_byte: "push_bit 8 w OR ucast (b :: u8) = 256 * w + (ucast b :: u64)"
proof -
  have "push_bit 8 w + ucast b = (push_bit 8 w OR ucast b :: u64)"
    by (rule disjunctive_add) (auto simp: bit_simps dest: bit_imp_le_length)
  then show ?thesis
    by (simp add: push_bit_eq_mult mult.commute)
qed

lemma LOAD64H_value:
  assumes "k + 8 \<le> length buf"
  shows "LOAD64H buf k = foldl (\<lambda>w b. 256 * w + ucast b) 0 (take 8 (drop k buf))"
proof -
  have "take 8 (drop k buf) = map (\<lambda>j. buf ! (k + j)) [0..<8]"
    using assms by (intro nth_equalityI) simp_all
  also have "\<dots> = [buf ! k, buf ! (k + 1), buf ! (k + 2), buf ! (k + 3), buf ! (k + 4), buf ! (k + 5), buf ! (k + 6), buf ! (k + 7)]"
    by (simp add: upt_rec eval_nat_numeral)
  finally show ?thesis
    by (simp add: LOAD64H_def push_bit_or or.assoc flip: push_or_byte)
qed

lemma schedule512_prefix:
  assumes "length buf = 128"
  shows "let W = (schedule512_step ^^ n) (map (\<lambda>i. LOAD64H buf (8 * i)) [0..<16])
    in length W = 16 + n \<and> (\<forall>t < 16 + n. W ! t = W_fips buf t)"
proof (induction n)
  case 0
  show ?case
    using assms by (simp add: W_fips.simps LOAD64H_value)
next
  case (Suc n)
  define W where "W = (schedule512_step ^^ n) (map (\<lambda>i. LOAD64H buf (8 * i)) [0..<16])"
  have W: "length W = 16 + n" "\<And>t. t < 16 + n \<Longrightarrow> W ! t = W_fips buf t"
    using Suc.IH by (simp_all add: W_def Let_def)
  have "Gamma1 (W ! (14 + n)) + W ! (9 + n) + Gamma0 (W ! (1 + n)) + W ! n = W_fips buf (16 + n)"
    using W by (subst W_fips.simps) (simp add: Gamma_fips)
  moreover have "t < 17 + n \<longleftrightarrow> t < 16 + n \<or> t = 16 + n" for t
    by auto
  ultimately show ?case
    using W unfolding funpow.simps o_apply W_def [symmetric]
    by (auto simp: schedule512_step_def Let_def nth_append less_Suc_eq)
qed

lemma schedule512_fips: "length buf = 128 \<Longrightarrow> t < 80 \<Longrightarrow> schedule512 buf ! t = W_fips buf t"
  using schedule512_prefix [of buf 64] by (simp add: schedule512_def Let_def)

section \<open>Rounds\<close>

text \<open>After \<open>j\<close> rounds the register with the first name stands at place \<open>8 - j\<close>.\<close>

definition named :: "nat \<Rightarrow> u64 list \<Rightarrow> u64 list" where
  "named j S = rotate ((8 - j) mod 8) S"

lemma eight_registers:
  assumes "length S = 8"
  obtains a b c d e f g h where "S = [a, b, c, d, e, f, g, h]"
proof -
  have "S = map ((!) S) [0..<8]"
    using assms by (intro nth_equalityI) simp_all
  then show ?thesis
    using that by (simp add: upt_rec)
qed

lemma list_update_numeral: "(x # xs)[numeral k := v] = x # xs[pred_numeral k := v]"
  by (simp add: numeral_eq_Suc)

lemma rotate_numeral: "rotate (numeral k) xs = rotate (pred_numeral k) (rotate1 xs)"
  by (simp add: numeral_eq_Suc rotate_def funpow_swap1)

lemma RND_named:
  assumes "length S = 8"
  shows "named 1 (RND W 0 1 2 3 4 5 6 7 i S) = round_fips ((!) W) i (named 0 S)"
    "named 2 (RND W 7 0 1 2 3 4 5 6 i S) = round_fips ((!) W) i (named 1 S)"
    "named 3 (RND W 6 7 0 1 2 3 4 5 i S) = round_fips ((!) W) i (named 2 S)"
    "named 4 (RND W 5 6 7 0 1 2 3 4 i S) = round_fips ((!) W) i (named 3 S)"
    "named 5 (RND W 4 5 6 7 0 1 2 3 i S) = round_fips ((!) W) i (named 4 S)"
    "named 6 (RND W 3 4 5 6 7 0 1 2 i S) = round_fips ((!) W) i (named 5 S)"
    "named 7 (RND W 2 3 4 5 6 7 0 1 i S) = round_fips ((!) W) i (named 6 S)"
    "named 0 (RND W 1 2 3 4 5 6 7 0 i S) = round_fips ((!) W) i (named 7 S)"
  by (rule eight_registers [OF assms]; simp add: named_def RND_def Let_def list_update_numeral rotate_numeral ac_simps)+

lemma length_RND [simp]: "length (RND W a b c d e f g h i S) = length S"
  by (simp add: RND_def Let_def)

lemma RND_eight_fips:
  assumes "length S = 8"
  shows "RND_eight W i S = fold (round_fips ((!) W)) [i..<i + 8] S"
proof -
  have "fold (round_fips ((!) W)) [i + 0, i + 1, i + 2, i + 3, i + 4, i + 5, i + 6, i + 7] (named 0 S)
      = named 0 (RND_eight W i S)"
    unfolding RND_eight_def Let_def using assms by (simp only: RND_named length_RND fold_simps)
  moreover have "named 0 S = S" for S
    by (simp add: named_def)
  moreover have "[i..<i + 8] = [i + 0, i + 1, i + 2, i + 3, i + 4, i + 5, i + 6, i + 7]"
    by (simp add: upt_rec)
  ultimately show ?thesis
    by simp
qed

lemma length_round_fips [simp]: "length (round_fips W t v) = length v"
  by (cases "(W, t, v)" rule: round_fips.cases) (simp_all add: Let_def)

lemma length_rounds_fips [simp]: "length (fold (round_fips W) ts v) = length v"
  by (induction ts arbitrary: v) simp_all

lemma round_fips_cong: "W t = W' t \<Longrightarrow> round_fips W t v = round_fips W' t v"
  by (cases "(W, t, v)" rule: round_fips.cases) (simp_all add: Let_def)

lemma RND_eights_fips:
  "length S = 8 \<Longrightarrow> fold (RND_eight W) (map ((*) 8) [0..<n]) S = fold (round_fips ((!) W)) [0..<8 * n] S"
proof (induction n)
  case (Suc n)
  have "[0..<8 * Suc n] = [0..<8 * n] @ [8 * n..<8 * n + 8]"
    by (metis le0 mult_Suc_right add.commute upt_add_eq_append)
  moreover have "fold (RND_eight W) (map ((*) 8) [0..<Suc n]) S
      = RND_eight W (8 * n) (fold (RND_eight W) (map ((*) 8) [0..<n]) S)"
    by simp
  ultimately show ?case
    using Suc by (simp add: RND_eight_fips del: upt_Suc)
qed simp

lemma sha512_compress_fips:
  assumes "length st = 8" "length buf = 128"
  shows "sha512_compress st buf = compress_fips st buf"
proof -
  have "[0, 8, 16, 24, 32, 40, 48, 56, 64, 72] = map ((*) 8) [0..<10 :: nat]"
    by (simp add: upt_rec)
  moreover have "fold (round_fips ((!) (schedule512 buf))) [0..<80] st = fold (round_fips (W_fips buf)) [0..<80] st"
    using schedule512_fips [OF assms(2)] by (intro fold_cong) (auto intro!: round_fips_cong)
  ultimately show ?thesis
    using RND_eights_fips [OF assms(1), of "schedule512 buf" 10]
    by (simp add: sha512_compress_def compress_fips_def)
qed

lemma length_compress_fips [simp]: "length (compress_fips st buf) = length st"
  by (simp add: compress_fips_def)

lemma length_blocks_fips [simp]: "length (md_blocks compress_fips n st xs) = length st"
proof (induction compress_fips n st xs rule: md_blocks.induct)
  case (1 n st xs)
  then show ?case
    by (subst md_blocks.simps) simp
qed

section \<open>The running context\<close>

definition s5_rep :: "sha512_context \<Rightarrow> bytes \<Rightarrow> bool" where
  "s5_rep md msg \<longleftrightarrow>
     block_rep compress_fips 128 sha512_H0 (s5_buf md) (s5_curlen md) (s5_state md) msg
     \<and> s5_length md = of_nat (8 * (length msg - s5_curlen md))"

lemma s5_repD:
  assumes "s5_rep md msg"
  shows "length (s5_buf md) = 128" "s5_curlen md < 128" "length (s5_state md) = 8" "s5_curlen md \<le> length msg"
  using assms by (auto simp: s5_rep_def block_rep_def sha512_H0_def)

lemma s5_rep_init: "length (s5_buf ctx) = 128 \<Longrightarrow> s5_rep (sha512_init ctx) []"
  by (simp add: s5_rep_def sha512_init_def block_rep_init)

lemma s5_rep_whole:
  assumes "s5_rep md msg" "s5_curlen md = 0" "length p = 128"
  shows "s5_rep (md\<lparr>s5_state := sha512_compress (s5_state md) p, s5_length := s5_length md + 128 * 8\<rparr>) (msg @ p)"
  using assms s5_repD [OF assms(1)] block_rep_whole [of compress_fips 128 sha512_H0 "s5_buf md" "s5_state md" msg p]
  by (simp add: s5_rep_def sha512_compress_fips)

lemma s5_rep_absorb:
  assumes "s5_rep md msg" "s5_curlen md + length p \<le> 128"
  shows "s5_rep (sha512_absorb md p) (msg @ p)"
proof -
  note d = s5_repD [OF assms(1)]
  have rep: "block_rep compress_fips 128 sha512_H0 (s5_buf md) (s5_curlen md) (s5_state md) msg"
    and len: "s5_length md = of_nat (8 * (length msg - s5_curlen md))"
    using assms(1) by (simp_all add: s5_rep_def)
  show ?thesis
  proof (cases "s5_curlen md + length p = 128")
    case True
    let ?b = "take (s5_curlen md) (s5_buf md) @ p"
    have "block_rep compress_fips 128 sha512_H0 ?b 0 (compress_fips (s5_state md) ?b) (msg @ p)"
      using block_rep_close [OF rep True, of ?b] True d by simp
    moreover have "of_nat (8 * (length msg + length p)) = s5_length md + 1024"
    proof -
      have "8 * (length msg + length p) = 8 * (length msg - s5_curlen md) + 1024"
        using True d by simp
      then show ?thesis
        using len by (simp only: of_nat_add of_nat_numeral)
    qed
    ultimately show ?thesis
      using True d by (simp add: s5_rep_def sha512_absorb_def Let_def sha512_compress_fips)
  next
    case False
    then show ?thesis
      using block_rep_part [OF rep, of p] assms(2) d len by (simp add: s5_rep_def sha512_absorb_def Let_def)
  qed
qed

lemma s5_rep_loop: "s5_rep md msg \<Longrightarrow> s5_rep (sha512_loop md inp) (msg @ inp)"
proof (induction md inp arbitrary: msg rule: sha512_loop.induct)
  case (1 md inp)
  note d = s5_repD [OF "1.prems"]
  let ?n = "min (length inp) (128 - s5_curlen md)"
  consider "inp = []" | "inp \<noteq> []" "s5_curlen md = 0" "128 \<le> length inp"
    | "inp \<noteq> []" "\<not> (s5_curlen md = 0 \<and> 128 \<le> length inp)"
    by (cases "inp = []"; cases "s5_curlen md = 0 \<and> 128 \<le> length inp") auto
  then show ?case
  proof cases
    case 1
    then show ?thesis
      using "1.prems" by (simp add: sha512_loop.simps [of md])
  next
    case 2
    then show ?thesis
      using "1.IH"(1) [OF _ _ s5_rep_whole [OF "1.prems" 2(2), of "take 128 inp"]] d
      by (simp add: sha512_loop.simps [of md])
  next
    case 3
    then show ?thesis
      using "1.IH"(2) [OF _ _ refl s5_rep_absorb [OF "1.prems", of "take ?n inp"]] d
      by (subst sha512_loop.simps) (auto simp: Let_def)
  qed
qed

section \<open>Finishing\<close>

lemma foldl_store:
  "k + n \<le> length y \<Longrightarrow> foldl (\<lambda>y j. y[k + j := f j]) y [0..<n] = take k y @ map f [0..<n] @ drop (k + n) y"
proof (induction n)
  case (Suc n)
  then have "drop (k + n) y = y ! (k + n) # drop (k + Suc n) y"
    by (simp add: Cons_nth_drop_Suc)
  then show ?case
    using Suc by (simp add: list_update_append)
qed simp

lemma STORE64H_eq: "length y = 128 \<Longrightarrow> STORE64H x y 120 = take 120 y @ be64 x"
  using foldl_store [of 120 8 y "\<lambda>j. ucast (drop_bit (56 - 8 * j) x)"] by (simp add: STORE64H_def be64_def)

lemma be64_0: "be64 0 = replicate 8 0"
  by (simp add: be64_def map_replicate_const)

text \<open>What the padding adds to a message whose last \<open>cur\<close> bytes are in the buffer.\<close>

definition tail512 :: "nat \<Rightarrow> u64 \<Rightarrow> bytes" where
  "tail512 cur len = [0x80] @ replicate (if cur < 112 then 119 - cur else 247 - cur) 0 @ be64 len"

lemma pad512_tail:
  assumes "length msg < 2 ^ 61"
  shows "pad512 msg = msg @ tail512 (length msg mod 128) (of_nat (8 * length msg))"
proof -
  let ?cur = "length msg mod 128"
  have "8 * length msg div 2 ^ 64 = 0"
    using assms by simp
  moreover have "(239 - cur) mod 128 + 8 = (if cur < 112 then 119 - cur else 247 - cur)" if "cur < 128" for cur :: nat
    using that by (cases "cur < 112") (simp_all add: le_mod_geq)
  ultimately show ?thesis
    by (simp add: pad512_def tail512_def be64_0 flip: replicate_add append_assoc)
qed

lemma final_blocks:
  assumes "length buf = 128" "cur < 128" "length st = 8"
  shows "(let buf = buf[cur := 0x80]; cur = cur + 1;
            (st, buf, cur) =
              (if cur > 112
               then (let buf = fill_zero buf cur (128 - cur) in (sha512_compress st buf, buf, 0))
               else (st, buf, cur))
          in sha512_compress st (STORE64H len (fill_zero buf cur (120 - cur)) 120))
    = md_blocks compress_fips 128 st (take cur buf @ tail512 cur len)"
proof (cases "cur < 112")
  case True
  have "take (Suc cur) (buf[cur := 0x80]) = take cur buf @ [0x80]"
    using assms by (simp add: take_Suc_conv_app_nth)
  then have "STORE64H len (fill_zero (buf[cur := 0x80]) (Suc cur) (119 - cur)) 120 = take cur buf @ tail512 cur len"
    using assms True by (simp add: STORE64H_eq fill_zero_eq tail512_def take_Cons')
  then show ?thesis
    using assms True by (simp add: sha512_compress_fips md_blocks_one tail512_def)
next
  case False
  let ?b = "take cur buf @ 0x80 # replicate (127 - cur) 0"
  have "take (Suc cur) (buf[cur := 0x80]) = take cur buf @ [0x80]"
    using assms by (simp add: take_Suc_conv_app_nth)
  then have b: "fill_zero (buf[cur := 0x80]) (Suc cur) (127 - cur) = ?b"
    using assms by (simp add: fill_zero_eq)
  have "take cur buf @ tail512 cur len = ?b @ replicate 120 0 @ be64 len"
    using assms(2) False by (simp add: tail512_def flip: replicate_add)
  moreover have "md_blocks compress_fips 128 st (?b @ replicate 120 0 @ be64 len)
      = compress_fips (compress_fips st ?b) (replicate 120 0 @ be64 len)"
    using assms by (subst md_blocks_append) (simp_all add: md_blocks_one)
  ultimately show ?thesis
    using assms False by (simp add: b Let_def sha512_compress_fips STORE64H_eq fill_zero_eq)
qed

lemma sha512_final_rep:
  assumes "s5_rep md msg" "length msg < 2 ^ 61"
  shows "sha512_final md = Some (SHA512_spec msg)"
proof -
  note d = s5_repD [OF assms(1)]
  have rep: "block_rep compress_fips 128 sha512_H0 (s5_buf md) (s5_curlen md) (s5_state md) msg"
    and bits: "s5_length md = of_nat (8 * (length msg - s5_curlen md))"
    using assms(1) by (simp_all add: s5_rep_def)
  have len: "s5_length md + of_nat (s5_curlen md) * 8 = of_nat (8 * length msg)"
  proof -
    have "8 * length msg = 8 * (length msg - s5_curlen md) + s5_curlen md * 8"
      using d(4) by simp
    then show ?thesis
      using bits by (metis of_nat_add of_nat_mult of_nat_numeral)
  qed
  have "md_blocks compress_fips 128 sha512_H0 (pad512 msg)
      = md_blocks compress_fips 128 (s5_state md) (take (s5_curlen md) (s5_buf md) @ tail512 (s5_curlen md) (of_nat (8 * length msg)))"
    using pad512_tail [OF assms(2)] block_rep_mod [OF rep] block_rep_tail [OF rep, of "tail512 (s5_curlen md) (of_nat (8 * length msg))"] d(2)
    by (simp add: tail512_def)
  then show ?thesis
    using final_blocks [OF d(1,2,3), of "of_nat (8 * length msg)"] d(2)
    by (simp add: sha512_final_def SHA512_spec_def len Let_def split: prod.splits if_splits)
qed

lemma sha512_two_pieces:
  assumes "length (s5_buf ctx) = 128" "length xs + length ys < 2 ^ 61"
  shows "Option.bind (sha512_update (sha512_init ctx) xs) (\<lambda>md. Option.bind (sha512_update md ys) sha512_final)
    = Some (SHA512_spec (xs @ ys))"
proof -
  have xs: "s5_rep (sha512_loop (sha512_init ctx) xs) xs"
    using s5_rep_loop [OF s5_rep_init [OF assms(1)], of xs] by simp
  moreover have "s5_curlen (sha512_init ctx) = 0"
    by (simp add: sha512_init_def)
  ultimately show ?thesis
    using sha512_final_rep [OF s5_rep_loop [OF xs, of ys]] assms(2) s5_repD(2) [OF xs] by (simp add: sha512_update_def)
qed

lemma sha512_loop_Nil [simp]: "sha512_loop md [] = md"
  by (simp add: sha512_loop.simps)

lemma sha512_spec:
  "length (s5_buf ctx) = 128 \<Longrightarrow> length msg < 2 ^ 61 \<Longrightarrow> sha512 ctx msg = Some (SHA512_spec msg)"
  using sha512_final_rep [OF s5_rep_loop [OF s5_rep_init], of ctx msg]
  by (simp add: sha512_def sha512_update_def sha512_init_def)

lemma length_SHA512 [simp]: "length (SHA512_spec msg) = 64"
proof -
  have "length (sha512_digest st) = 8 * length st" for st
    by (induction st) (simp_all add: sha512_digest_def)
  then show ?thesis
    by (simp add: SHA512_spec_def sha512_H0_def)
qed

text \<open>
  C24: fed in any two pieces, starting from a context with arbitrary stale contents, the implementation of
  SHA-512 with its renamed registers computes the printed algorithm of FIPS 180-4, for every message whose
  bit count fits the 64-bit counter.
\<close>

theorem sha512_streaming:
  assumes "length (s5_buf ctx) = 128" "length xs + length ys < 2 ^ 61"
  shows "Option.bind (sha512_update (sha512_init ctx) xs) (\<lambda>md. Option.bind (sha512_update md ys) sha512_final)
    = Some (SHA512_spec (xs @ ys))"
  using sha512_two_pieces [OF assms] .

theorem sha512_streaming_witness:
  "Option.bind (sha512_update (sha512_init \<lparr>s5_length = 3, s5_state = [], s5_curlen = 130, s5_buf = replicate 128 9\<rparr>) [1])
      (\<lambda>md. Option.bind (sha512_update md [2, 3]) sha512_final) = Some (SHA512_spec [1, 2, 3])"
  using sha512_streaming [of "\<lparr>s5_length = 3, s5_state = [], s5_curlen = 130, s5_buf = replicate 128 9\<rparr>" "[1]" "[2, 3]"]
  by simp

end
