(* ===== verification/PrimeFacts.thy ===== *)
theory PrimeFacts
  imports PdiPrelude
begin

text \<open>
  The number theory behind the RSA signatures: primes, Fermat's theorem, congruences modulo a product,
  and the square roots of one modulo a prime.
\<close>

definition is_prime :: "nat \<Rightarrow> bool" where
  "is_prime p \<longleftrightarrow> 1 < p \<and> (\<forall>d. d dvd p \<longrightarrow> d = 1 \<or> d = p)"

lemma is_prime_small: "is_prime p \<longleftrightarrow> 1 < p \<and> list_all (\<lambda>d. \<not> d dvd p) [2..<p]"
proof -
  have "d = 1 \<or> d = p" if "d dvd p" "1 < p" "\<forall>d\<in>{2..<p}. \<not> d dvd p" for d
  proof -
    have "d \<le> p" "d \<noteq> 0"
      using that(1,2) by (auto intro: dvd_imp_le intro!: Nat.gr0I)
    then show ?thesis
      using that(1,3) by (cases "d = 1 \<or> d = p") auto
  qed
  then show ?thesis
    unfolding is_prime_def list_all_iff by auto
qed

lemma prime_gt_1: "is_prime p \<Longrightarrow> 1 < p"
  by (simp add: is_prime_def)

lemma prime_coprime: "is_prime p \<Longrightarrow> \<not> p dvd a \<Longrightarrow> coprime p a"
proof -
  assume p: "is_prime p" "\<not> p dvd a"
  then have "gcd p a = 1"
    unfolding is_prime_def by (metis gcd_dvd1 gcd_dvd2)
  then show ?thesis
    by (simp add: coprime_iff_gcd_eq_1)
qed

lemma prime_dvd_mult: "is_prime p \<Longrightarrow> p dvd a * b \<longleftrightarrow> p dvd a \<or> p dvd b"
  using prime_coprime [of p a] by (cases "p dvd a") (simp_all add: coprime_dvd_mult_right_iff)

lemma primes_coprime: "is_prime p \<Longrightarrow> is_prime q \<Longrightarrow> p \<noteq> q \<Longrightarrow> coprime p q"
  by (rule prime_coprime) (auto simp: is_prime_def)

lemma prime_not_dvd_prod:
  assumes "is_prime p" "finite A" "\<And>x. x \<in> A \<Longrightarrow> \<not> p dvd f x"
  shows "\<not> p dvd prod f A"
  using assms(2,3)
proof (induction A rule: finite_induct)
  case empty
  then show ?case
    using prime_gt_1 [OF assms(1)] by simp
qed (simp add: prime_dvd_mult [OF assms(1)])

section \<open>Fermat's theorem\<close>

lemma dvd_diff_mod: "u \<le> v \<Longrightarrow> u mod p = v mod p \<longleftrightarrow> (p :: nat) dvd v - u"
  using mod_eq_dvd_iff_nat [of u v p] by auto

lemma cancel_mod:
  assumes "is_prime p" "\<not> p dvd a" "a * x mod p = a * y mod p"
  shows "x mod p = (y :: nat) mod p"
proof -
  have le: "u mod p = v mod p" if "u \<le> v" "a * u mod p = a * v mod p" for u v :: nat
  proof -
    have "p dvd a * v - a * u"
      using that dvd_diff_mod [of "a * u" "a * v" p] by simp
    then have "p dvd v - u"
      using assms(1,2) by (simp add: prime_dvd_mult flip: right_diff_distrib')
    then show ?thesis
      using that(1) by (simp add: dvd_diff_mod)
  qed
  show ?thesis
    by (metis assms(3) le nat_le_linear)
qed

lemma multiples_permute:
  assumes "is_prime p" "\<not> p dvd a"
  shows "bij_betw (\<lambda>x. a * x mod p) {1..<p} {1..<p}"
proof -
  let ?f = "\<lambda>x. a * x mod p"
  have nd: "\<not> p dvd x" if "x \<in> {1..<p}" for x
    using that by (auto dest: dvd_imp_le)
  have "?f ` {1..<p} \<subseteq> {1..<p}"
  proof
    fix y
    assume "y \<in> ?f ` {1..<p}"
    then obtain x where x: "x \<in> {1..<p}" "y = a * x mod p"
      by blast
    then have "y \<noteq> 0"
      using nd [OF x(1)] assms by (simp add: prime_dvd_mult mod_eq_0_iff_dvd)
    then show "y \<in> {1..<p}"
      using x(2) prime_gt_1 [OF assms(1)] by simp
  qed
  moreover have "inj_on ?f {1..<p}"
  proof (rule inj_onI)
    fix x y
    assume "x \<in> {1..<p}" "y \<in> {1..<p}" "a * x mod p = a * y mod p"
    then show "x = y"
      using cancel_mod [OF assms, of x y] by simp
  qed
  ultimately show ?thesis
    by (simp add: bij_betw_def endo_inj_surj)
qed

lemma fermat:
  assumes "is_prime p" "\<not> p dvd a"
  shows "a ^ (p - 1) mod p = 1"
proof -
  let ?P = "\<Prod>{1..<p}"
  have "(\<Prod>x\<in>{1..<p}. a * x mod p) = ?P"
    by (rule prod.reindex_bij_betw [OF multiples_permute [OF assms]])
  then have "?P mod p = (\<Prod>x\<in>{1..<p}. a * x) mod p"
    using mod_prod_eq [of "\<lambda>x. a * x" p "{1..<p}"] by simp
  also have "(\<Prod>x\<in>{1..<p}. a * x) = a ^ (p - 1) * ?P"
    by (simp add: prod.distrib)
  finally have "?P * a ^ (p - 1) mod p = ?P * 1 mod p"
    by (simp add: mult.commute)
  moreover have "\<not> p dvd ?P"
    using assms(1) by (rule prime_not_dvd_prod) (auto dest: dvd_imp_le)
  ultimately have "a ^ (p - 1) mod p = 1 mod p"
    by (metis cancel_mod [OF assms(1)])
  then show ?thesis
    using prime_gt_1 [OF assms(1)] by simp
qed

lemma fermat_power:
  assumes "is_prime p" "e mod (p - 1) = 1 mod (p - 1)" "0 < e"
  shows "a ^ e mod p = a mod p"
proof (cases "p dvd a")
  case True
  then show ?thesis
    using assms(3) by (simp add: mod_eq_0_iff_dvd dvd_power_le) (metis dvd_power dvd_trans mod_0_imp_dvd dvd_imp_mod_0)
next
  case False
  have "p - 1 dvd e - 1"
    using assms(2,3) mod_eq_dvd_iff_nat [of 1 e "p - 1"] by simp
  then obtain k where k: "e - 1 = (p - 1) * k" ..
  then have "a ^ e = a * (a ^ (p - 1)) ^ k"
    using assms(3) by (metis power_mult power_Suc Suc_diff_1)
  then have "a ^ e mod p = a * ((a ^ (p - 1)) mod p) ^ k mod p"
    by (metis mod_mult_right_eq power_mod)
  then show ?thesis
    using fermat [OF assms(1) False] by simp
qed

section \<open>Two moduli\<close>

lemma mod_product:
  assumes "coprime p q" "x mod p = y mod p" "x mod q = (y :: nat) mod q"
  shows "x mod (p * q) = y mod (p * q)"
proof -
  have le: "u mod (p * q) = v mod (p * q)" if "u \<le> v" "u mod p = v mod p" "u mod q = v mod q" for u v :: nat
  proof -
    have "p dvd v - u" "q dvd v - u"
      using that by (simp_all add: dvd_diff_mod)
    then have "p * q dvd v - u"
      using assms(1) by (intro divides_mult)
    then show ?thesis
      using that(1) by (simp add: dvd_diff_mod)
  qed
  show ?thesis
    by (metis assms(2,3) le nat_le_linear)
qed

text \<open>Powers with an exponent that is one modulo \<open>p - 1\<close> and \<open>q - 1\<close> change nothing.\<close>

lemma rsa_inverts:
  assumes "is_prime p" "is_prime q" "p \<noteq> q"
    and "x mod (p - 1) = 1 mod (p - 1)" "x mod (q - 1) = 1 mod (q - 1)" "0 < x"
  shows "m ^ x mod (p * q) = m mod (p * q)"
  using mod_product [OF primes_coprime [OF assms(1-3)]] fermat_power assms by blast

section \<open>Square roots of one\<close>

lemma root_of_one:
  assumes "is_prime p" "y * y mod p = 1"
  shows "y mod p = 1 \<or> y mod p = p - 1"
proof (cases "y = 0")
  case True
  then show ?thesis
    using assms(2) by simp
next
  case False
  have p: "1 < p"
    using prime_gt_1 [OF assms(1)] .
  have "1 \<le> y * y"
    using False by simp
  then have "p dvd y * y - 1"
    using assms(2) p mod_eq_dvd_iff_nat [of 1 "y * y" p] by simp
  moreover have "y * y - 1 = (y - 1) * (y + 1)"
    using False by (cases y) (simp_all add: algebra_simps)
  ultimately have "p dvd (y - 1) * (y + 1)"
    by metis
  then consider "p dvd y - 1" | "p dvd y + 1"
    using prime_dvd_mult [OF assms(1)] by blast
  then show ?thesis
  proof cases
    case 1
    then have "1 mod p = y mod p"
      using False dvd_diff_mod [of 1 y p] by simp
    then show ?thesis
      using p by simp
  next
    case 2
    then have "p dvd y mod p + 1"
      by (metis mod_0_imp_dvd mod_add_left_eq dvd_imp_mod_0)
    then have "p \<le> y mod p + 1"
      by (rule dvd_imp_le) simp
    moreover have "y mod p < p"
      using p by simp
    ultimately show ?thesis
      by linarith
  qed
qed

end
