(* ===== verification/Rsa.thy ===== *)
theory Rsa
  imports BigNum Sha512
begin

text \<open>
  RSA signatures of PKCS 1 (\<^verbatim>\<open>src/src/utility/crypto/asymmetric/rsa/rsa.cpp\<close>): key generation, the private
  operation by the Chinese remainder theorem, signing and verification. A result \<open>false\<close> is \<open>None\<close> where the
  output then has no meaning. Allocation succeeds.
\<close>

section \<open>Definitions\<close>

definition RSA_PUBLIC_EXPONENT :: u32 where "RSA_PUBLIC_EXPONENT = 65537"

datatype rsa_hash_alg = RSA_HASH_SHA256 | RSA_HASH_SHA512

record rsa_key =
  rk_n :: bignum
  rk_e :: bignum
  rk_d :: bignum
  rk_p :: bignum
  rk_q :: bignum
  rk_dp :: bignum
  rk_dq :: bignum
  rk_qinv :: bignum
  rk_has_private :: bool
  rk_has_crt :: bool

definition s_digestinfo_sha256 :: bytes where
  "s_digestinfo_sha256 = [0x30, 0x31, 0x30, 0x0d, 0x06, 0x09, 0x60, 0x86, 0x48, 0x01, 0x65,
     0x03, 0x04, 0x02, 0x01, 0x05, 0x00, 0x04, 0x20]"

definition s_digestinfo_sha512 :: bytes where
  "s_digestinfo_sha512 = [0x30, 0x51, 0x30, 0x0d, 0x06, 0x09, 0x60, 0x86, 0x48, 0x01, 0x65,
     0x03, 0x04, 0x02, 0x03, 0x05, 0x00, 0x04, 0x40]"

text \<open>
  The hash and its prefix. \<open>stk\<close> are the contexts on the stack of the hash functions; the length is cut to
  32 bits on the way. A fresh context is never refused, so the buffer is always written.
\<close>

definition hash_msg :: "sha256_context \<times> sha512_context \<Rightarrow> rsa_hash_alg \<Rightarrow> bytes \<Rightarrow> bytes \<times> bytes" where
  "hash_msg stk alg msg =
     (let msg = take (length msg mod 2 ^ 32) msg in
      case alg of
        RSA_HASH_SHA256 \<Rightarrow> (sha256 (fst stk) msg, s_digestinfo_sha256)
      | RSA_HASH_SHA512 \<Rightarrow>
          ((case sha512 (snd stk) msg of None \<Rightarrow> replicate 64 0 | Some h \<Rightarrow> h), s_digestinfo_sha512))"

definition build_emsa_pkcs1 :: "sha256_context \<times> sha512_context \<Rightarrow> rsa_hash_alg \<Rightarrow> bytes \<Rightarrow> nat \<Rightarrow> bytes option" where
  "build_emsa_pkcs1 stk alg msg k =
     (case hash_msg stk alg msg of
        (hash, prefix) \<Rightarrow>
          let t_len = length prefix + length hash in
          if k < t_len + 11 then None
          else Some ([0x00, 0x01] @ replicate (k - t_len - 3) 0xFF @ [0x00] @ prefix @ hash))"

definition rsa_key_init :: rsa_key where
  "rsa_key_init =
     \<lparr>rk_n = bn_zero, rk_e = bn_zero, rk_d = bn_zero, rk_p = bn_zero, rk_q = bn_zero, rk_dp = bn_zero,
      rk_dq = bn_zero, rk_qinv = bn_zero, rk_has_private = False, rk_has_crt = False\<rparr>"

section \<open>Keys\<close>

text \<open>\<open>None\<close>: a loop does not end; \<open>Some None\<close>: a step answered \<open>false\<close>.\<close>

definition and_then :: "'a option option \<Rightarrow> ('a \<Rightarrow> 'b option option) \<Rightarrow> 'b option option" where
  "and_then x f = (case x of None \<Rightarrow> None | Some None \<Rightarrow> Some None | Some (Some y) \<Rightarrow> f y)"

text \<open>What one attempt derives from its two primes; \<open>Some None\<close> goes on to the next attempt.\<close>

definition derive_key :: "nat \<Rightarrow> rsa_key \<Rightarrow> rsa_key option option" where
  "derive_key bits key =
     (let one = bn_set_u32 1; p = rk_p key; q = rk_q key; e = rk_e key in
      if bn_cmp p q = 0 then Some None
      else and_then (Some (bn_mul p q)) (\<lambda>n.
        if bn_bitlen n \<noteq> bits then Some None
        else
          let p1 = snd (bn_sub p one); q1 = snd (bn_sub q one) in
          and_then (bn_gcd p1 q1) (\<lambda>g.
          and_then (Some (bn_mul p1 q1)) (\<lambda>tmp.
          and_then (Some (bn_divmod tmp g)) (\<lambda>qr.
          let lam = fst qr in
          and_then (bn_gcd e lam) (\<lambda>g.
          if bn_cmp g one \<noteq> 0 then Some None
          else and_then (bn_modinv e lam) (\<lambda>d.
          and_then (Some (bn_mod d p1)) (\<lambda>dp.
          and_then (Some (bn_mod d q1)) (\<lambda>dq.
          and_then (bn_modinv q p) (\<lambda>qinv.
          Some (Some (key\<lparr>rk_n := n, rk_d := d, rk_dp := dp, rk_dq := dq, rk_qinv := qinv,
                          rk_has_private := True, rk_has_crt := True\<rparr>))))))))))))"

text \<open>The key of the first attempt that succeeds; the fields of failed attempts are overwritten.\<close>

fun key_loop :: "('s \<Rightarrow> nat \<Rightarrow> u8 list \<times> 's) \<Rightarrow> nat \<Rightarrow> nat \<Rightarrow> rsa_key \<Rightarrow> 's \<Rightarrow> (rsa_key option \<times> 's) option" where
  "key_loop rng bits 0 key st = Some (None, st)"
| "key_loop rng bits (Suc n) key st =
     (case bn_gen_prime rng (bits div 2) st of
        None \<Rightarrow> None
      | Some (None, st) \<Rightarrow> Some (None, st)
      | Some (Some p, st) \<Rightarrow>
          (case bn_gen_prime rng (bits - bits div 2) st of
             None \<Rightarrow> None
           | Some (None, st) \<Rightarrow> Some (None, st)
           | Some (Some q, st) \<Rightarrow>
               (case derive_key bits (key\<lparr>rk_p := p, rk_q := q\<rparr>) of
                  None \<Rightarrow> None
                | Some None \<Rightarrow> key_loop rng bits n key st
                | Some (Some key) \<Rightarrow> Some (Some key, st))))"

definition rsa_generate_keypair :: "('s \<Rightarrow> nat \<Rightarrow> u8 list \<times> 's) \<Rightarrow> nat \<Rightarrow> 's \<Rightarrow> (rsa_key option \<times> 's) option" where
  "rsa_generate_keypair rng bits st =
     (if bits < 512 \<or> bits > RSA_MAX_KEY_BITS then Some (None, st)
      else key_loop rng bits 64 (rsa_key_init\<lparr>rk_e := bn_set_u32 RSA_PUBLIC_EXPONENT\<rparr>) st)"

section \<open>Signatures\<close>

text \<open>
  \<open>m1 - m2\<close>, with \<open>p\<close> added first when it would be negative. The answers of the two routines are not looked
  at; a sum beyond the capacity would leave the storage as it was.
\<close>

definition crt_diff :: "bignum \<Rightarrow> bignum \<Rightarrow> bignum \<Rightarrow> bignum" where
  "crt_diff p m1 m2 =
     (if bn_cmp m1 m2 \<ge> 0 then snd (bn_sub m1 m2)
      else case bn_add m1 p of None \<Rightarrow> bn_zero | Some t \<Rightarrow> snd (bn_sub t m2))"

definition rsa_private_op :: "rsa_key \<Rightarrow> bignum \<Rightarrow> bignum option" where
  "rsa_private_op key m =
     (if \<not> rk_has_crt key then bn_modexp m (rk_d key) (rk_n key)
      else
        Option.bind (bn_modexp m (rk_dp key) (rk_p key)) (\<lambda>m1.
        Option.bind (bn_modexp m (rk_dq key) (rk_q key)) (\<lambda>m2.
        Option.bind (bn_mulmod (rk_qinv key) (crt_diff (rk_p key) m1 m2) (rk_p key)) (\<lambda>h.
        Option.bind (bn_mul h (rk_q key)) (\<lambda>t. bn_add m2 t)))))"

definition rsa_sign_pkcs1 :: "sha256_context \<times> sha512_context \<Rightarrow> rsa_key \<Rightarrow> rsa_hash_alg \<Rightarrow> bytes \<Rightarrow> bytes option" where
  "rsa_sign_pkcs1 stk key alg msg =
     (if \<not> rk_has_private key then None
      else
        let k = bn_num_bytes (rk_n key) in
        if k = 0 \<or> k > RSA_MAX_KEY_BITS div 8 then None
        else
          Option.bind (build_emsa_pkcs1 stk alg msg k) (\<lambda>em.
          Option.bind (bn_from_bytes em) (\<lambda>m.
          Option.bind (rsa_private_op key m) (\<lambda>s. bn_to_bytes s k))))"

definition rsa_verify_pkcs1 :: "sha256_context \<times> sha512_context \<Rightarrow> rsa_key \<Rightarrow> rsa_hash_alg \<Rightarrow> bytes \<Rightarrow> bytes \<Rightarrow> bool" where
  "rsa_verify_pkcs1 stk key alg msg sig =
     (let k = bn_num_bytes (rk_n key) in
      if k = 0 \<or> k > RSA_MAX_KEY_BITS div 8 then False
      else if length sig \<noteq> k then False
      else case build_emsa_pkcs1 stk alg msg k of
             None \<Rightarrow> False
           | Some expected \<Rightarrow>
               Option.bind (bn_from_bytes sig) (\<lambda>s.
               Option.bind (bn_modexp s (rk_e key) (rk_n key)) (\<lambda>m. bn_to_bytes m k)) = Some expected)"

end
