(* ===== verification/RsaProps.thy ===== *)
theory RsaProps
  imports Rsa PrimeFacts BigNumBytes BigEuclid Montgomery Sha512Props
begin

text \<open>
  The RSA signatures verify: the private operation with a valid key is the power \<open>m ^ d mod n\<close>, by the
  Chinese remainder theorem or directly, and the public exponent undoes it. The recombination is correct only
  when the second prime is the smaller one.
\<close>

section \<open>Room\<close>

text \<open>Numbers with at most half the words leave room for sums, products and divisions.\<close>

definition roomy :: "bignum \<Rightarrow> bool" where
  "roomy a \<longleftrightarrow> bn_ok a \<and> bn_used a \<le> 66"

lemma roomy_iff: "roomy a \<longleftrightarrow> bn_ok a \<and> bn_val a < WB ^ 66"
  using bn_used_le [of a 66] by (auto simp: roomy_def)

lemma WB_ge_2: "2 \<le> WB"
  by (simp add: WB_def)

lemma roomy_sum:
  assumes "x < WB ^ 66" "y < WB ^ 66"
  shows "x + y < WB ^ BN_MAX_WORDS"
proof -
  have "x + y < 2 * WB ^ 66"
    using assms by simp
  also have "\<dots> \<le> WB * WB ^ 66"
    using WB_ge_2 by (rule mult_le_mono1)
  also have "\<dots> = WB ^ 67"
    by (simp flip: power_Suc)
  also have "\<dots> \<le> WB ^ BN_MAX_WORDS"
    using WB_ge_2 by (intro power_increasing) (simp_all add: BN_MAX_WORDS_def)
  finally show ?thesis .
qed

lemma roomyD:
  assumes "roomy a"
  shows "bn_ok a" "bn_val a < WB ^ 66" "2 * bn_val a \<le> WB ^ BN_MAX_WORDS" "roomy b \<Longrightarrow> bn_used a + bn_used b \<le> BN_MAX_WORDS"
    "bn_used a < BN_MAX_WORDS"
proof -
  show "bn_ok a" and lt: "bn_val a < WB ^ 66"
    using assms by (simp_all add: roomy_iff)
  show "2 * bn_val a \<le> WB ^ BN_MAX_WORDS"
    using roomy_sum [OF lt lt] by simp
  show "roomy b \<Longrightarrow> bn_used a + bn_used b \<le> BN_MAX_WORDS" "bn_used a < BN_MAX_WORDS"
    using assms by (simp_all add: roomy_def BN_MAX_WORDS_def)
qed

section \<open>Valid keys\<close>

definition rsa_key_ok :: "rsa_key \<Rightarrow> bool" where
  "rsa_key_ok key \<longleftrightarrow>
     (let p = bn_val (rk_p key); q = bn_val (rk_q key); x = bn_val (rk_e key) * bn_val (rk_d key) in
      bn_ok (rk_n key) \<and> bn_used (rk_n key) \<le> 64 \<and> bn_ok (rk_e key) \<and> bn_ok (rk_d key)
      \<and> bn_ok (rk_p key) \<and> bn_ok (rk_q key) \<and> bn_ok (rk_dp key) \<and> bn_ok (rk_dq key) \<and> bn_ok (rk_qinv key)
      \<and> is_prime p \<and> is_prime q \<and> odd p \<and> odd q \<and> p \<noteq> q \<and> bn_val (rk_n key) = p * q
      \<and> x mod (p - 1) = 1 \<and> x mod (q - 1) = 1
      \<and> bn_val (rk_dp key) = bn_val (rk_d key) mod (p - 1) \<and> bn_val (rk_dq key) = bn_val (rk_d key) mod (q - 1)
      \<and> bn_val (rk_qinv key) < p \<and> bn_val (rk_q key) * bn_val (rk_qinv key) mod p = 1)"

lemma rsa_key_okD:
  assumes "rsa_key_ok key"
  shows "roomy (rk_n key)" "roomy (rk_p key)" "roomy (rk_q key)" "roomy (rk_qinv key)"
    "mont_modulus (rk_n key)" "mont_modulus (rk_p key)" "mont_modulus (rk_q key)"
    "bn_val (rk_p key) + bn_val (rk_p key) < WB ^ 66"
proof -
  let ?p = "bn_val (rk_p key)" and ?q = "bn_val (rk_q key)"
  have k: "bn_ok (rk_n key)" "bn_used (rk_n key) \<le> 64" "bn_ok (rk_p key)" "bn_ok (rk_q key)" "bn_ok (rk_qinv key)"
      "is_prime ?p" "is_prime ?q" "odd ?p" "odd ?q" "bn_val (rk_n key) = ?p * ?q" "bn_val (rk_qinv key) < ?p"
    using assms unfolding rsa_key_ok_def Let_def by blast+
  have n: "?p * ?q < WB ^ 64"
    using k(1,2,10) bn_used_le [of "rk_n key" 64] by simp
  have "?p \<le> ?p * ?q" "?q \<le> ?p * ?q"
    using prime_gt_1 [OF k(6)] prime_gt_1 [OF k(7)] by simp_all
  then have pq: "?p < WB ^ 64" "?q < WB ^ 64"
    using n by linarith+
  have step: "WB ^ 64 + WB ^ 64 \<le> WB ^ 66"
  proof -
    have "WB ^ 64 + WB ^ 64 \<le> WB * WB ^ 64"
      using mult_le_mono1 [OF WB_ge_2, of "WB ^ 64"] by linarith
    also have "\<dots> = WB ^ 65"
      by (simp flip: power_Suc)
    also have "\<dots> \<le> WB ^ 66"
      using WB_ge_2 by (intro power_increasing) simp_all
    finally show ?thesis .
  qed
  then show "bn_val (rk_p key) + bn_val (rk_p key) < WB ^ 66"
    using pq by linarith
  show r: "roomy (rk_n key)" "roomy (rk_p key)" "roomy (rk_q key)" "roomy (rk_qinv key)"
    using k n pq step by (auto simp: roomy_iff)
  show "mont_modulus (rk_n key)" "mont_modulus (rk_p key)" "mont_modulus (rk_q key)"
    using k r(1-3) [THEN roomyD(5)] by (simp_all add: mont_modulus_def)
qed

section \<open>The private operation\<close>

lemma power_reduce:
  assumes "is_prime p" "d mod (p - 1) \<noteq> 0"
  shows "m ^ (d mod (p - 1)) mod p = m ^ d mod p"
proof (cases "p dvd m")
  case True
  have "0 < d"
    using assms(2) by (cases d) simp_all
  then have "p dvd m ^ (d mod (p - 1))" "p dvd m ^ d"
    using True assms(2) by (simp_all add: dvd_power_le dvd_trans [OF _ dvd_power])
  then show ?thesis
    by (simp add: dvd_imp_mod_0)
next
  case False
  have "m ^ d = (m ^ (p - 1)) ^ (d div (p - 1)) * m ^ (d mod (p - 1))"
    by (simp flip: power_mult power_add)
  then have "m ^ d mod p = (m ^ (p - 1) mod p) ^ (d div (p - 1)) * m ^ (d mod (p - 1)) mod p"
    by (metis mod_mult_left_eq power_mod)
  then show ?thesis
    using fermat [OF assms(1) False] by simp
qed

lemma inverse_not_0:
  assumes "e * d mod k = (1 :: nat)"
  shows "d mod k \<noteq> 0"
proof
  assume "d mod k = 0"
  then have "e * d mod k = 0"
    by (metis mod_mult_right_eq mult_0_right mod_0)
  then show False
    using assms by simp
qed

text \<open>Garner's recombination.\<close>

lemma garner:
  assumes "1 < p" "m1 < p" "m2 < q" "(t + m2) mod p = m1" "q * qinv mod p = (1 :: nat)"
  shows "(m2 + qinv * t mod p * q) mod p = m1" "(m2 + qinv * t mod p * q) mod q = m2"
    "m2 + qinv * t mod p * q < p * q"
proof -
  have "(m2 + qinv * t mod p * q) mod p = (m2 + (q * qinv mod p) * t) mod p"
    by (metis (no_types, lifting) mod_add_right_eq mod_mult_left_eq mult.assoc mult.commute)
  then show "(m2 + qinv * t mod p * q) mod p = m1"
    using assms(4,5) by (simp add: add.commute)
  show "(m2 + qinv * t mod p * q) mod q = m2"
    using assms(3) by simp
  have "qinv * t mod p \<le> p - 1"
    using assms(1) by (simp add: less_Suc_eq_le [symmetric])
  then have "qinv * t mod p * q \<le> (p - 1) * q"
    by (rule mult_le_mono1)
  moreover have "(p - 1) * q + q = p * q"
    using assms(1) by (cases p) simp_all
  ultimately show "m2 + qinv * t mod p * q < p * q"
    using assms(3) by linarith
qed

lemma crt_diff_val:
  assumes "bn_ok p" "bn_ok m1" "bn_ok m2" "bn_val m2 \<le> bn_val m1 + bn_val p" "bn_val m1 + bn_val p < WB ^ 66"
  shows "roomy (crt_diff p m1 m2)"
    "bn_val (crt_diff p m1 m2) + bn_val m2 = bn_val m1 + (if bn_val m2 \<le> bn_val m1 then 0 else bn_val p)"
proof -
  obtain s where "bn_add m1 p = Some s" "bn_ok s" "bn_val s = bn_val m1 + bn_val p"
    using bn_add_val [OF assms(2,1)] assms(5) roomy_sum [of "bn_val m1" "bn_val p"] by force
  then show "roomy (crt_diff p m1 m2)"
      "bn_val (crt_diff p m1 m2) + bn_val m2 = bn_val m1 + (if bn_val m2 \<le> bn_val m1 then 0 else bn_val p)"
    using bn_sub_val [OF assms(2,3)] bn_sub_val [of s m2] assms by (auto simp: crt_diff_def bn_cmp_iff roomy_iff)
qed

lemma rsa_private_op_val:
  assumes key: "rsa_key_ok key" and q: "rk_has_crt key \<Longrightarrow> bn_val (rk_q key) \<le> bn_val (rk_p key)" and m: "bn_ok m"
  shows "\<exists>s. rsa_private_op key m = Some s \<and> bn_ok s \<and> bn_val s = bn_val m ^ bn_val (rk_d key) mod bn_val (rk_n key)"
proof (cases "rk_has_crt key")
  case False
  then show ?thesis
    using bn_modexp_val [OF rsa_key_okD(5) [OF key] m] key by (simp add: rsa_private_op_def rsa_key_ok_def Let_def)
next
  case True
  let ?p = "bn_val (rk_p key)" and ?q = "bn_val (rk_q key)" and ?d = "bn_val (rk_d key)" and ?M = "bn_val m"
  note r = rsa_key_okD [OF key]
  have k: "bn_ok (rk_dp key)" "bn_ok (rk_dq key)" "is_prime ?p" "is_prime ?q" "?p \<noteq> ?q" "bn_val (rk_n key) = ?p * ?q"
      "bn_val (rk_e key) * ?d mod (?p - 1) = 1" "bn_val (rk_e key) * ?d mod (?q - 1) = 1"
      "bn_val (rk_dp key) = ?d mod (?p - 1)" "bn_val (rk_dq key) = ?d mod (?q - 1)" "?q * bn_val (rk_qinv key) mod ?p = 1"
    using key unfolding rsa_key_ok_def Let_def by blast+
  have p1: "1 < ?p" "1 < ?q"
    using prime_gt_1 [OF k(3)] prime_gt_1 [OF k(4)] by blast+
  obtain m1 where m1: "bn_modexp m (rk_dp key) (rk_p key) = Some m1" "bn_ok m1" "bn_val m1 = ?M ^ ?d mod ?p"
    using bn_modexp_val [OF r(6) m k(1)] power_reduce [OF k(3) inverse_not_0 [OF k(7)]] k(9) by auto
  obtain m2 where m2: "bn_modexp m (rk_dq key) (rk_q key) = Some m2" "bn_ok m2" "bn_val m2 = ?M ^ ?d mod ?q"
    using bn_modexp_val [OF r(7) m k(2)] power_reduce [OF k(4) inverse_not_0 [OF k(8)]] k(10) by auto
  have lt: "bn_val m1 < ?p" "bn_val m2 < ?q"
    using m1(3) m2(3) p1 by simp_all
  let ?t = "crt_diff (rk_p key) m1 m2"
  have t: "roomy ?t" "(bn_val ?t + bn_val m2) mod ?p = bn_val m1"
  proof -
    have "bn_val m2 \<le> bn_val m1 + ?p" "bn_val m1 + ?p < WB ^ 66"
      using lt r(8) q [OF True] by linarith+
    note c = crt_diff_val [OF roomyD(1) [OF r(2)] m1(2) m2(2) this]
    show "roomy ?t"
      by (fact c(1))
    show "(bn_val ?t + bn_val m2) mod ?p = bn_val m1"
      unfolding c(2) using lt(1) by simp
  qed
  obtain h where h: "bn_mulmod (rk_qinv key) ?t (rk_p key) = Some h" "bn_ok h" "bn_val h = bn_val (rk_qinv key) * bn_val ?t mod ?p"
    using bn_mulmod_val [OF roomyD(1) [OF r(4)] roomyD(1) [OF t(1)] roomyD(4) [OF r(4) t(1)] roomyD(1) [OF r(2)] _ roomyD(3) [OF r(2)]] p1
    by auto
  note g = garner [OF p1(1) lt t(2) k(11)]
  have hr: "roomy h"
    using h(2,3) p1(1) roomyD(2) [OF r(2)] by (simp add: roomy_iff order_less_trans [of _ ?p])
  obtain u where u: "bn_mul h (rk_q key) = Some u" "bn_ok u" "bn_val u = bn_val h * ?q"
    using bn_mul_val [OF h(2) roomyD(1) [OF r(3)] roomyD(4) [OF hr r(3)]] by auto
  have "bn_val m2 + bn_val u < WB ^ BN_MAX_WORDS"
    using g(3) u(3) h(3) k(6) bn_val_less [OF roomyD(1) [OF r(1)]] by simp
  then obtain s where s: "bn_add m2 u = Some s" "bn_ok s" "bn_val s = bn_val m2 + bn_val u"
    using bn_add_val [OF m2(2) u(2)] by auto
  have "bn_val s mod (?p * ?q) = ?M ^ ?d mod (?p * ?q)"
    using g(1,2) s(3) u(3) h(3) m1(3) m2(3) by (intro mod_product primes_coprime k) simp_all
  then have "bn_val s = ?M ^ ?d mod bn_val (rk_n key)"
    using g(3) s(3) u(3) h(3) k(6) by simp
  then show ?thesis
    using True m1(1) m2(1) h(1) u(1) s(1,2) by (simp add: rsa_private_op_def)
qed

section \<open>The encoded message\<close>

definition stack_ok :: "sha256_context \<times> sha512_context \<Rightarrow> bool" where
  "stack_ok stk \<longleftrightarrow> length (sh_data (fst stk)) = 64 \<and> length (s5_buf (snd stk)) = 128"

definition emsa_hash :: "rsa_hash_alg \<Rightarrow> bytes \<Rightarrow> bytes" where
  "emsa_hash alg msg =
     (let msg = take (length msg mod 2 ^ 32) msg in
      case alg of
        RSA_HASH_SHA256 \<Rightarrow> s_digestinfo_sha256 @ SHA256_spec msg
      | RSA_HASH_SHA512 \<Rightarrow> s_digestinfo_sha512 @ SHA512_spec msg)"

definition emsa :: "rsa_hash_alg \<Rightarrow> bytes \<Rightarrow> nat \<Rightarrow> bytes" where
  "emsa alg msg k = [0, 1] @ replicate (k - length (emsa_hash alg msg) - 3) 0xFF @ [0] @ emsa_hash alg msg"

lemma length_emsa_hash: "length (emsa_hash alg msg) = (case alg of RSA_HASH_SHA256 \<Rightarrow> 51 | RSA_HASH_SHA512 \<Rightarrow> 83)"
  by (cases alg) (simp_all add: emsa_hash_def s_digestinfo_sha256_def s_digestinfo_sha512_def)

lemma build_emsa_spec:
  assumes "stack_ok stk"
  shows "build_emsa_pkcs1 stk alg msg k =
    (if k < length (emsa_hash alg msg) + 11 then None else Some (emsa alg msg k))"
proof -
  have "length msg mod 2 ^ 32 < (2 ^ 61 :: nat)"
    by (rule order_less_trans [of _ "2 ^ 32"]) simp_all
  then have "length (take (length msg mod 2 ^ 32) msg) < 2 ^ 61"
    by simp
  then have "sha512 (snd stk) (take (length msg mod 2 ^ 32) msg) = Some (SHA512_spec (take (length msg mod 2 ^ 32) msg))"
    using assms by (intro sha512_spec) (simp_all add: stack_ok_def)
  moreover have "sha256 (fst stk) (take (length msg mod 2 ^ 32) msg) = SHA256_spec (take (length msg mod 2 ^ 32) msg)"
    using assms by (intro sha256_spec) (simp add: stack_ok_def)
  ultimately show ?thesis
    by (cases alg) (simp_all add: build_emsa_pkcs1_def hash_msg_def emsa_def emsa_hash_def Let_def)
qed

lemma be_val_Cons: "be_val (b # bs) = unat b * 256 ^ length bs + be_val bs"
  by (simp add: be_val_def le_val_append)

lemma emsa_facts:
  assumes "length (emsa_hash alg msg) + 11 \<le> k"
  shows "length (emsa alg msg k) = k" "be_val (emsa alg msg k) < 256 ^ (k - 1)"
proof -
  show len: "length (emsa alg msg k) = k"
    using assms by (simp add: emsa_def)
  obtain em where em: "emsa alg msg k = 0 # em"
    by (simp add: emsa_def)
  then have "be_val (emsa alg msg k) = be_val em"
    by (simp add: be_val_Cons)
  moreover have "length em = k - 1"
    using len em by (metis diff_Suc_1 length_Cons)
  ultimately show "be_val (emsa alg msg k) < 256 ^ (k - 1)"
    using be_val_less [of em] by simp
qed

lemma modulus_bytes:
  assumes "rsa_key_ok key"
  defines "k \<equiv> bn_num_bytes (rk_n key)" and "n \<equiv> bn_val (rk_n key)"
  shows "n < 256 ^ k" "0 < k \<Longrightarrow> 256 ^ (k - 1) \<le> n" "k \<le> 256"
proof -
  have ok: "bn_ok (rk_n key)" "bn_used (rk_n key) \<le> 64"
    using assms(1) by (simp_all add: rsa_key_ok_def Let_def)
  show "n < 256 ^ k"
    using bn_num_bytes_le [OF ok(1), of k] by (simp add: n_def k_def)
  show "256 ^ (k - 1) \<le> n" if "0 < k"
    using bn_num_bytes_le [OF ok(1), of "k - 1"] that unfolding n_def k_def by linarith
  have "WB = 256 ^ 4"
    by (simp add: WB_def)
  then have "WB ^ 64 = 256 ^ (4 * 64)"
    by (simp only: power_mult)
  moreover have "bn_val (rk_n key) < WB ^ 64"
    using bn_used_le [OF ok(1), of 64] ok(2) by blast
  ultimately have "bn_num_bytes (rk_n key) \<le> 4 * 64"
    using bn_num_bytes_le [OF ok(1), of "4 * 64"] by metis
  then show "k \<le> 256"
    by (simp add: k_def)
qed

section \<open>Signing and verifying\<close>

lemma key_exponents:
  assumes "rsa_key_ok key"
  defines "n \<equiv> bn_val (rk_n key)"
  shows "m ^ (bn_val (rk_e key) * bn_val (rk_d key)) mod n = m mod n"
proof -
  let ?x = "bn_val (rk_e key) * bn_val (rk_d key)"
  have k: "is_prime (bn_val (rk_p key))" "is_prime (bn_val (rk_q key))" "bn_val (rk_p key) \<noteq> bn_val (rk_q key)"
      "n = bn_val (rk_p key) * bn_val (rk_q key)" "?x mod (bn_val (rk_p key) - 1) = 1" "?x mod (bn_val (rk_q key) - 1) = 1"
    using assms unfolding rsa_key_ok_def Let_def by blast+
  have one: "x mod j = 1 \<Longrightarrow> x mod j = 1 mod j" for x j :: nat
    by (metis mod_mod_trivial)
  have "0 < ?x"
    using k(5) by (cases "?x = 0") (metis mod_0 zero_neq_one, simp)
  then show ?thesis
    unfolding k(4) using k(1-3) one [OF k(5)] one [OF k(6)] by (intro rsa_inverts)
qed

lemma verify_iff:
  assumes "rsa_key_ok key" "stack_ok stk"
  defines "k \<equiv> bn_num_bytes (rk_n key)"
  assumes k: "length (emsa_hash alg msg) + 11 \<le> k"
  shows "rsa_verify_pkcs1 stk key alg msg sig \<longleftrightarrow>
    length sig = k \<and> be_val sig ^ bn_val (rk_e key) mod bn_val (rk_n key) = be_val (emsa alg msg k)"
proof (cases "length sig = k")
  case True
  note f = modulus_bytes [OF assms(1), folded k_def]
  have e: "bn_ok (rk_e key)"
    using assms(1) by (simp add: rsa_key_ok_def Let_def)
  obtain s where s: "bn_from_bytes sig = Some s" "bn_ok s" "bn_val s = be_val sig"
    using bn_from_bytes_val [of sig] True f(3) by (auto simp: BN_MAX_WORDS_def)
  obtain m where m: "bn_modexp s (rk_e key) (rk_n key) = Some m" "bn_ok m"
      "bn_val m = be_val sig ^ bn_val (rk_e key) mod bn_val (rk_n key)"
    using bn_modexp_val [OF rsa_key_okD(5) [OF assms(1)] s(2) e] s(3) by auto
  have "0 < bn_val (rk_n key)"
    using rsa_key_okD(5) [OF assms(1)] by (auto simp: mont_modulus_def intro: Nat.gr0I)
  then have "bn_val m < 256 ^ k"
    using m(3) f(1) mod_less_divisor [of "bn_val (rk_n key)"] by (metis order_less_trans)
  then obtain em where em: "bn_to_bytes m k = Some em" "length em = k" "be_val em = bn_val m"
    using bn_to_bytes_val [OF m(2)] by auto
  have "em = emsa alg msg k \<longleftrightarrow> be_val em = be_val (emsa alg msg k)"
    using be_val_eq [of em "emsa alg msg k"] em(2) emsa_facts(1) [OF k] by auto
  then show ?thesis
    using True k f(3) s(1) m(1,3) em(1,3) build_emsa_spec [OF assms(2), of alg msg k]
    by (auto simp: rsa_verify_pkcs1_def Let_def RSA_MAX_KEY_BITS_def simp flip: k_def)
qed (simp add: rsa_verify_pkcs1_def Let_def k_def)

lemma sign_val:
  assumes "rsa_key_ok key" "rk_has_private key" "rk_has_crt key \<Longrightarrow> bn_val (rk_q key) \<le> bn_val (rk_p key)" "stack_ok stk"
  defines "k \<equiv> bn_num_bytes (rk_n key)"
  assumes k: "length (emsa_hash alg msg) + 11 \<le> k"
  shows "\<exists>sig. rsa_sign_pkcs1 stk key alg msg = Some sig \<and> length sig = k
    \<and> be_val sig = be_val (emsa alg msg k) ^ bn_val (rk_d key) mod bn_val (rk_n key)"
proof -
  note f = modulus_bytes [OF assms(1), folded k_def]
  obtain m where m: "bn_from_bytes (emsa alg msg k) = Some m" "bn_ok m" "bn_val m = be_val (emsa alg msg k)"
    using bn_from_bytes_val [of "emsa alg msg k"] emsa_facts(1) [OF k] f(3) by (auto simp: BN_MAX_WORDS_def)
  obtain s where s: "rsa_private_op key m = Some s" "bn_ok s"
      "bn_val s = be_val (emsa alg msg k) ^ bn_val (rk_d key) mod bn_val (rk_n key)"
    using rsa_private_op_val [OF assms(1,3) m(2)] m(3) by auto
  have "0 < bn_val (rk_n key)"
    using rsa_key_okD(5) [OF assms(1)] by (auto simp: mont_modulus_def intro: Nat.gr0I)
  then have "bn_val s < 256 ^ k"
    using s(3) f(1) mod_less_divisor [of "bn_val (rk_n key)"] by (metis order_less_trans)
  then obtain sig where "bn_to_bytes s k = Some sig" "length sig = k" "be_val sig = bn_val s"
    using bn_to_bytes_val [OF s(2)] by auto
  then show ?thesis
    using assms(2) k f(3) m(1) s(1,3) build_emsa_spec [OF assms(4), of alg msg k]
    by (auto simp: rsa_sign_pkcs1_def Let_def RSA_MAX_KEY_BITS_def simp flip: k_def)
qed

lemma signature_iff:
  assumes "rsa_key_ok key" "M < bn_val (rk_n key)"
  defines "n \<equiv> bn_val (rk_n key)" and "e \<equiv> bn_val (rk_e key)" and "d \<equiv> bn_val (rk_d key)"
  shows "x ^ e mod n = M \<longleftrightarrow> x mod n = M ^ d mod n"
proof
  have both: "(y ^ e) ^ d mod n = y mod n" "(y ^ d) ^ e mod n = y mod n" for y
    using key_exponents [OF assms(1), of y] unfolding n_def e_def d_def
    by (simp_all add: mult.commute flip: power_mult)
  show "x mod n = M ^ d mod n" if "x ^ e mod n = M"
    using both(1) [of x] that by (metis power_mod)
  show "x ^ e mod n = M" if "x mod n = M ^ d mod n"
    using both(2) [of M] that assms(2) unfolding n_def by (metis mod_less power_mod)
qed

text \<open>
  C11: Signatures verify, and only those. With a valid key whose second prime is not the larger one, signing
  any message answers a signature as long as the modulus, and a byte string verifies exactly when it has
  that length and is this signature modulo \<open>n\<close>; a modulus too short for the encoding is refused by both.
\<close>

theorem rsa_sign_verify:
  assumes "rsa_key_ok key" "rk_has_private key" "rk_has_crt key \<longrightarrow> bn_val (rk_q key) \<le> bn_val (rk_p key)"
    and "stack_ok stk" "stack_ok stk'"
  shows "if bn_num_bytes (rk_n key) < length (emsa_hash alg msg) + 11
    then rsa_sign_pkcs1 stk key alg msg = None \<and> \<not> rsa_verify_pkcs1 stk' key alg msg sig'
    else \<exists>sig. rsa_sign_pkcs1 stk key alg msg = Some sig \<and> length sig = bn_num_bytes (rk_n key)
      \<and> rsa_verify_pkcs1 stk' key alg msg sig
      \<and> (rsa_verify_pkcs1 stk' key alg msg sig' \<longleftrightarrow>
           length sig' = bn_num_bytes (rk_n key) \<and> be_val sig' mod bn_val (rk_n key) = be_val sig)"
proof (cases "bn_num_bytes (rk_n key) < length (emsa_hash alg msg) + 11")
  case True
  then show ?thesis
    by (auto simp: rsa_sign_pkcs1_def rsa_verify_pkcs1_def Let_def build_emsa_spec [OF assms(4)] build_emsa_spec [OF assms(5)])
next
  case False
  let ?k = "bn_num_bytes (rk_n key)" and ?n = "bn_val (rk_n key)"
  have k: "length (emsa_hash alg msg) + 11 \<le> ?k"
    using False by simp
  have M: "be_val (emsa alg msg ?k) < ?n"
    using emsa_facts(2) [OF k] modulus_bytes(2) [OF assms(1)] k by linarith
  obtain sig where sig: "rsa_sign_pkcs1 stk key alg msg = Some sig" "length sig = ?k"
      "be_val sig = be_val (emsa alg msg ?k) ^ bn_val (rk_d key) mod ?n"
    using sign_val [OF assms(1,2) _ assms(4) k] assms(3) by auto
  have "rsa_verify_pkcs1 stk' key alg msg x \<longleftrightarrow> length x = ?k \<and> be_val x mod ?n = be_val sig" for x
    unfolding verify_iff [OF assms(1,5) k] signature_iff [OF assms(1) M] sig(3) ..
  then show ?thesis
    using False sig by auto
qed

section \<open>Small keys\<close>

definition small_key :: "u32 \<Rightarrow> u32 \<Rightarrow> u32 \<Rightarrow> u32 \<Rightarrow> u32 \<Rightarrow> u32 \<Rightarrow> u32 \<Rightarrow> u32 \<Rightarrow> rsa_key" where
  "small_key n e d p q dp dq qinv =
     \<lparr>rk_n = bn_set_u32 n, rk_e = bn_set_u32 e, rk_d = bn_set_u32 d, rk_p = bn_set_u32 p, rk_q = bn_set_u32 q,
      rk_dp = bn_set_u32 dp, rk_dq = bn_set_u32 dq, rk_qinv = bn_set_u32 qinv, rk_has_private = True, rk_has_crt = True\<rparr>"

lemma prime_5: "is_prime 5" and prime_11: "is_prime 11"
  by (simp_all add: is_prime_small upt_rec)

lemma used_set_u32: "bn_used (bn_set_u32 v) \<le> 64"
  by (simp add: bn_set_u32_def bn_zero_def)

lemma small_key_ok: "rsa_key_ok (small_key 55 3 7 11 5 7 3 9)"
  using prime_5 prime_11 used_set_u32 by (simp add: rsa_key_ok_def small_key_def)

theorem rsa_sign_verify_witness:
  "let key = small_key 55 3 7 11 5 7 3 9; stk = (\<lparr>sh_data = replicate 64 0, sh_datalen = 0, sh_bitlen = 0, sh_state = []\<rparr>,
         \<lparr>s5_length = 0, s5_state = [], s5_curlen = 0, s5_buf = replicate 128 0\<rparr>)
   in rsa_key_ok key \<and> rsa_sign_pkcs1 stk key RSA_HASH_SHA256 [1, 2] = None \<and> \<not> rsa_verify_pkcs1 stk key RSA_HASH_SHA256 [1, 2] [3]"
proof -
  let ?key = "small_key 55 3 7 11 5 7 3 9"
  let ?stk = "(\<lparr>sh_data = replicate 64 0, sh_datalen = 0, sh_bitlen = 0, sh_state = []\<rparr>,
         \<lparr>s5_length = 0, s5_state = [], s5_curlen = 0, s5_buf = replicate 128 0\<rparr>)"
  have "stack_ok ?stk"
    by (simp add: stack_ok_def)
  moreover have "bn_num_bytes (rk_n ?key) \<le> 1"
    using bn_num_bytes_le [of "rk_n ?key" 1] by (simp add: small_key_def)
  moreover have "length (emsa_hash RSA_HASH_SHA256 [1, 2]) = 51"
    by (simp add: length_emsa_hash)
  moreover have "rk_has_private ?key" "bn_val (rk_q ?key) \<le> bn_val (rk_p ?key)"
    by (simp_all add: small_key_def)
  ultimately show ?thesis
    using rsa_sign_verify [of ?key ?stk ?stk RSA_HASH_SHA256 "[1, 2]" "[3]"] small_key_ok
    by (simp add: Let_def)
qed

text \<open>
  With the larger prime second, the difference of the two halves can stay negative after one addition of
  \<open>p\<close>; the borrow is ignored and the result is not the power.
\<close>

lemma bn_eq_u32: "bn_ok a \<Longrightarrow> bn_val a = unat v \<Longrightarrow> a = bn_set_u32 v"
  by (rule bn_val_eq) simp_all

lemma roomy_u32: "roomy (bn_set_u32 v)"
  using used_set_u32 [of v] by (simp add: roomy_def)

lemma bn_add_u32: "unat x + unat y = unat z \<Longrightarrow> bn_add (bn_set_u32 x) (bn_set_u32 y) = Some (bn_set_u32 z)"
  using bn_add_val [of "bn_set_u32 x" "bn_set_u32 y"] bn_eq_u32 [of _ z] bn_val_less [of "bn_set_u32 z"] by auto

lemma bn_mul_u32: "unat x * unat y = unat z \<Longrightarrow> bn_mul (bn_set_u32 x) (bn_set_u32 y) = Some (bn_set_u32 z)"
  using bn_mul_val [of "bn_set_u32 x" "bn_set_u32 y"] bn_eq_u32 [of _ z] roomyD(4) [OF roomy_u32 roomy_u32, of x y] by auto

lemma bn_mulmod_u32:
  "unat x * unat y mod unat m = unat z \<Longrightarrow> 0 < unat m
    \<Longrightarrow> bn_mulmod (bn_set_u32 x) (bn_set_u32 y) (bn_set_u32 m) = Some (bn_set_u32 z)"
  using bn_mulmod_val [of "bn_set_u32 x" "bn_set_u32 y" "bn_set_u32 m"] bn_eq_u32 [of _ z]
    roomyD(4) [OF roomy_u32 roomy_u32, of x y] roomyD(3) [OF roomy_u32, of m] by auto

lemma bn_modexp_u32:
  "unat x ^ unat y mod unat m = unat z \<Longrightarrow> odd (unat m)
    \<Longrightarrow> bn_modexp (bn_set_u32 x) (bn_set_u32 y) (bn_set_u32 m) = Some (bn_set_u32 z)"
  using bn_modexp_val [of "bn_set_u32 m" "bn_set_u32 x" "bn_set_u32 y"] bn_eq_u32 [of _ z] roomyD(5) [OF roomy_u32, of m]
  by (auto simp: mont_modulus_def)

lemma crt_diff_underflow: "crt_diff (bn_set_u32 5) (bn_set_u32 0) (bn_set_u32 10) = bn_set_u32 4294967291"
proof -
  have "bn_add (bn_set_u32 0) (bn_set_u32 5) = Some (bn_set_u32 5)"
    by (rule bn_add_u32) simp
  moreover have "bn_sub (bn_set_u32 5) (bn_set_u32 10) = (False, bn_fill [4294967291])"
    by (simp add: bn_sub_def bn_set_u32_def bn_words_def word_at_def bn_zero_def BN_MAX_WORDS_def)
  moreover have "bn_fill [4294967291] = bn_set_u32 4294967291"
    using bn_fill_ok [of "[4294967291]"] by (intro bn_eq_u32) (simp_all add: BN_MAX_WORDS_def)
  moreover have "bn_cmp (bn_set_u32 0) (bn_set_u32 10) < 0"
    by (simp add: bn_cmp_iff)
  ultimately show ?thesis
    by (simp add: crt_diff_def)
qed

lemma rsa_private_op_wrong:
  "rsa_key_ok (small_key 55 3 7 5 11 3 7 1)
   \<and> rsa_private_op (small_key 55 3 7 5 11 3 7 1) (bn_set_u32 10) = Some (bn_set_u32 21)
   \<and> 10 ^ 7 mod 55 \<noteq> (21 :: nat)"
proof (intro conjI)
  show "rsa_key_ok (small_key 55 3 7 5 11 3 7 1)"
    using prime_5 prime_11 used_set_u32 by (simp add: rsa_key_ok_def small_key_def)
  have "bn_modexp (bn_set_u32 10) (bn_set_u32 3) (bn_set_u32 5) = Some (bn_set_u32 0)"
    "bn_modexp (bn_set_u32 10) (bn_set_u32 7) (bn_set_u32 11) = Some (bn_set_u32 10)"
    by (rule bn_modexp_u32; simp)+
  moreover have "bn_mulmod (bn_set_u32 1) (bn_set_u32 4294967291) (bn_set_u32 5) = Some (bn_set_u32 1)"
    by (rule bn_mulmod_u32) simp_all
  moreover have "bn_mul (bn_set_u32 1) (bn_set_u32 11) = Some (bn_set_u32 11)"
    by (rule bn_mul_u32) simp
  moreover have "bn_add (bn_set_u32 10) (bn_set_u32 11) = Some (bn_set_u32 21)"
    by (rule bn_add_u32) simp
  ultimately show "rsa_private_op (small_key 55 3 7 5 11 3 7 1) (bn_set_u32 10) = Some (bn_set_u32 21)"
    by (simp add: rsa_private_op_def small_key_def crt_diff_underflow)
qed simp

end
