(* ===== verification/RsaKeys.thy ===== *)
theory RsaKeys
  imports RsaProps
begin

unbundle bit_operations_syntax

text \<open>
  The primality test and the keys made with it: the test ends, accepts every prime and refuses what a small
  prime divides; a generated key satisfies the equations that the signatures rely on.
\<close>

section \<open>Remainders by a small number\<close>

lemma mod_word_step:
  fixes rem :: u64 and x m :: u32
  assumes "unat rem < WB"
  shows "unat ((push_bit 32 rem OR ucast x) mod (ucast m :: u64)) = (unat rem * WB + unat x) mod unat m"
proof -
  have "push_bit 32 rem OR ucast x = push_bit 32 rem + (ucast x :: u64)"
    by (rule disjunctive_add [symmetric]) (auto simp: bit_simps dest: bit_imp_le_length)
  moreover have "unat (push_bit 32 rem + ucast x :: u64) = unat rem * WB + unat x"
  proof -
    have "unat rem * WB + unat x < WB * WB"
    proof -
      have "unat x < WB"
        using unsigned_less [of x] by (simp add: WB_def)
      moreover have "Suc (unat rem) * WB \<le> WB * WB"
        using assms by (intro mult_le_mono1) simp
      ultimately show ?thesis
        unfolding mult_Suc by linarith
    qed
    then have lt: "unat rem * 2 ^ 32 + unat x < 2 ^ 64"
      by (simp add: WB_def)
    then have "unat (push_bit 32 rem) = unat rem * 2 ^ 32"
      by (simp add: push_bit_eq_mult unat_word_ariths)
    then show ?thesis
      using lt by (simp add: unat_word_ariths WB_def)
  qed
  ultimately show ?thesis
    by (simp add: unat_mod)
qed

lemma bn_mod_u32_val:
  assumes "bn_ok a" "m \<noteq> 0"
  shows "unat (bn_mod_u32 a m) = bn_val a mod unat m"
proof -
  let ?f = "\<lambda>x rem. (push_bit 32 rem OR ucast x) mod ucast m :: u64"
  have m: "0 < unat m" "unat m < WB"
    using assms(2) unsigned_less [of m] by (simp_all add: WB_def unat_gt_0)
  have fold: "unat (fold ?f (rev ws) 0) = limbs ws mod unat m" for ws :: "u32 list"
  proof (induction ws)
    case (Cons x ws)
    have "unat (fold ?f (rev ws) 0) < WB"
      using Cons.IH m mod_less_divisor [of "unat m" "limbs ws"] by linarith
    moreover have "(unat x + WB * (v mod k)) mod k = (unat x + WB * v) mod k" for v k
      by (metis mod_add_right_eq mod_mult_right_eq)
    ultimately show ?case
      using mod_word_step [of "fold ?f (rev ws) 0" x m] Cons.IH
      by (simp add: add.commute mult.commute)
  qed simp
  have "bn_val a = limbs (take (bn_used a) (bn_w a))"
    using bn_words_take [OF assms(1), of "bn_used a"] bn_words_used [OF assms(1) order_refl] bn_ok_bounds(3) [OF assms(1)] by simp
  moreover have "unat (ucast w :: u32) = unat w" if "unat w < WB" for w :: u64
    using that by (simp add: unsigned_ucast_eq take_bit_nat_eq_self_iff WB_def)
  moreover have "bn_val a mod unat m < WB"
    using m mod_less_divisor [of "unat m" "bn_val a"] by linarith
  ultimately show ?thesis
    using fold [of "take (bn_used a) (bn_w a)"] by (simp add: bn_mod_u32_def)
qed

section \<open>The test\<close>

lemma odd_first_word: "bn_ok a \<Longrightarrow> bn_w a ! 0 AND 1 \<noteq> 0 \<longleftrightarrow> odd (bn_val a)"
proof -
  assume a: "bn_ok a"
  show ?thesis
  proof (cases "bn_used a = 0")
    case True
    then have "bn_w a ! 0 = 0"
      using bn_words_take [OF a, of 1] bn_ok_bounds(4) [OF a]
      by (cases "bn_w a") (simp_all add: bn_words_def word_at_def BN_MAX_WORDS_def)
    then show ?thesis
      using True bn_used_0 [OF a] by simp
  next
    case False
    then show ?thesis
      using bn_test_bit_val [OF a, of 0] by (simp add: bn_test_bit_def)
  qed
qed

lemma halve_loop_ends:
  "bn_ok d \<Longrightarrow> 0 < bn_val d
    \<Longrightarrow> \<exists>d' t. halve_loop d s = Some (d', s + t) \<and> bn_ok d' \<and> odd (bn_val d') \<and> bn_val d = 2 ^ t * bn_val d'"
proof (induction "bn_val d" arbitrary: d s rule: less_induct)
  case less
  show ?case
  proof (cases "odd (bn_val d)")
    case True
    then show ?thesis
      using less.prems odd_first_word [OF less.prems(1)] by (intro exI [of _ d] exI [of _ 0]) (simp add: halve_loop.simps)
  next
    case False
    note h = bn_shr1_val [OF less.prems(1)]
    have pos: "bn_val (bn_shr1 d) < bn_val d" "0 < bn_val (bn_shr1 d)" "bn_val d = 2 * bn_val (bn_shr1 d)"
      using False less.prems(2) h(2) by (auto elim: evenE)
    obtain d' t where "halve_loop (bn_shr1 d) (s + 1) = Some (d', s + 1 + t)" "bn_ok d'" "odd (bn_val d')"
        "bn_val (bn_shr1 d) = 2 ^ t * bn_val d'"
      using less.hyps [OF pos(1) h(1) pos(2)] by blast
    then show ?thesis
      using False odd_first_word [OF less.prems(1)] pos(3)
      by (intro exI [of _ d'] exI [of _ "Suc t"]) (simp add: halve_loop.simps [of d])
  qed
qed

lemma bn_sub_small:
  assumes "bn_ok a" "unat v \<le> bn_val a"
  shows "bn_ok (snd (bn_sub a (bn_set_u32 v)))" "bn_val (snd (bn_sub a (bn_set_u32 v))) = bn_val a - unat v"
  using bn_sub_val [of a "bn_set_u32 v"] assms by simp_all

lemma pick_base_val:
  assumes "roomy a" "5 \<le> bn_val a" "bn_ok base"
  shows "bn_ok (pick_base a base)" "2 \<le> bn_val (pick_base a base)" "bn_val (pick_base a base) \<le> bn_val a - 2"
proof -
  let ?m = "snd (bn_sub a (bn_set_u32 3))" and ?one = "bn_set_u32 1"
  have m: "bn_ok ?m" "bn_val ?m = bn_val a - 3"
    using bn_sub_small [of a 3] roomyD(1) [OF assms(1)] assms(2) by simp_all
  have room: "2 * bn_val ?m \<le> WB ^ BN_MAX_WORDS"
    using m(2) roomyD(3) [OF assms(1)] by linarith
  have mpos: "0 < bn_val ?m"
    using m(2) assms(2) by simp
  obtain b where b: "bn_mod base ?m = Some b" "bn_ok b" "bn_val b = bn_val base mod bn_val ?m"
    using bn_mod_val [OF assms(3) m(1) mpos room] by blast
  have lt: "bn_val b < bn_val a - 3"
    using b(3) m(2) mpos mod_less_divisor [of "bn_val ?m" "bn_val base"] by simp
  have fits: "x < bn_val a \<Longrightarrow> x + 1 < WB ^ BN_MAX_WORDS" for x
    using roomyD(3) [OF assms(1)] assms(2) by linarith
  obtain c where c: "bn_add b ?one = Some c" "bn_ok c" "bn_val c = bn_val b + 1"
    using bn_add_val [OF b(2), of ?one] fits [of "bn_val b"] lt by auto
  obtain e where e: "bn_add c ?one = Some e" "bn_ok e" "bn_val e = bn_val b + 2"
    using bn_add_val [OF c(2), of ?one] fits [of "bn_val c"] lt c(3) by auto
  have "\<not> (bn_is_zero ?m \<or> bn_cmp ?m ?one < 0)"
    using m assms(2) by (simp add: bn_is_zero_val bn_cmp_iff)
  then have "pick_base a base = e"
    using b(1) c(1) e(1) by (simp add: pick_base_def Let_def)
  then show "bn_ok (pick_base a base)" "2 \<le> bn_val (pick_base a base)" "bn_val (pick_base a base) \<le> bn_val a - 2"
    using e lt by simp_all
qed

lemma square_loop_finds:
  assumes "is_prime (bn_val a)" "roomy a" "bn_ok n1" "bn_val n1 = bn_val a - 1"
  shows "bn_ok x \<Longrightarrow> bn_val x < bn_val a \<Longrightarrow> bn_val x \<noteq> 1 \<Longrightarrow> bn_val x \<noteq> bn_val a - 1
    \<Longrightarrow> bn_val x ^ 2 ^ Suc n mod bn_val a = 1 \<Longrightarrow> \<not> square_loop a n1 n x"
proof (induction n arbitrary: x)
  case 0
  then show ?case
    using root_of_one [OF assms(1), of "bn_val x"] by (simp add: power2_eq_square)
next
  case (Suc n)
  let ?P = "bn_val a"
  have P: "0 < ?P" "1 < ?P"
    using prime_gt_1 [OF assms(1)] by simp_all
  have "roomy x"
    using Suc.prems(1,2) roomyD(2) [OF assms(2)] by (simp add: roomy_iff)
  then obtain y where y: "bn_mulmod x x a = Some y" "bn_ok y" "bn_val y = bn_val x * bn_val x mod ?P"
    using bn_mulmod_val [OF Suc.prems(1) Suc.prems(1) _ roomyD(1) [OF assms(2)] P(1) roomyD(3) [OF assms(2)]] roomyD(4) by blast
  have "bn_val y \<noteq> 1"
    using root_of_one [OF assms(1), of "bn_val x"] Suc.prems(2-4) y(3) by auto
  moreover have "bn_val y ^ 2 ^ Suc n mod ?P = 1"
  proof -
    have "bn_val y ^ 2 ^ Suc n mod ?P = (bn_val x * bn_val x) ^ 2 ^ Suc n mod ?P"
      unfolding y(3) by (rule power_mod)
    also have "(bn_val x * bn_val x) ^ 2 ^ Suc n = bn_val x ^ 2 ^ Suc (Suc n)"
      by (simp only: power_Suc [of 2 "Suc n"] power_mult power2_eq_square)
    finally show ?thesis
      using Suc.prems(5) by simp
  qed
  moreover have "bn_val y < ?P"
    using y(3) P(1) by simp
  ultimately have "bn_val y \<noteq> bn_val n1 \<Longrightarrow> \<not> square_loop a n1 n y"
    using Suc.IH [OF y(2)] assms(4) by simp
  then show ?case
    using y(1) bn_cmp_iff(3) [OF y(2) assms(3)] by simp
qed

text \<open>A source of random bytes writes as many as it is asked for.\<close>

definition rng_ok :: "('s \<Rightarrow> nat \<Rightarrow> u8 list \<times> 's) \<Rightarrow> bool" where
  "rng_ok rng \<longleftrightarrow> (\<forall>s n. length (fst (rng s n)) = n)"

lemma length_clear_bits [simp]: "length (clear_bits is ws) = length ws"
  by (induction "is" arbitrary: ws) simp_all

lemma length_set_word_bit [simp]: "length (set_word_bit i ws) = length ws"
  by (simp add: set_word_bit_def)

lemma bn_rand_bits_ok:
  assumes "rng_ok rng" "bn_rand_bits rng bits st = (Some r, st')"
  shows "bn_ok r"
proof -
  let ?n = "(bits + 7) div 8"
  have bits: "0 < bits" "bits \<le> 2048"
    using assms(2) by (auto simp: bn_rand_bits_def RSA_MAX_KEY_BITS_def split: if_splits)
  obtain buf st1 where buf: "rng st ?n = (buf, st1)"
    by fastforce
  then have "length buf = ?n"
    using assms(1) unfolding rng_ok_def by (metis fst_conv)
  moreover have "?n \<le> 256"
    using bits(2) div_le_mono [of "bits + 7" 2055 8] by simp
  ultimately obtain b where b: "bn_from_bytes buf = Some b" "bn_ok b"
    using bn_from_bytes_val [of buf] by (auto simp: BN_MAX_WORDS_def)
  then have "length (bn_w b) = BN_MAX_WORDS"
    by (simp add: bn_ok_bounds)
  then show ?thesis
    using assms(2) buf b(1) by (auto simp: bn_rand_bits_def Let_def intro!: bn_norm_ok split: if_splits)
qed

text \<open>What the rounds of the test are given: \<open>a - 1\<close> and its odd part.\<close>

definition test_args :: "bignum \<Rightarrow> bignum \<Rightarrow> bignum \<Rightarrow> nat \<Rightarrow> bool" where
  "test_args a n1 d s \<longleftrightarrow> roomy a \<and> 5 \<le> bn_val a \<and> odd (bn_val a) \<and> bn_ok n1 \<and> bn_val n1 = bn_val a - 1
     \<and> bn_ok d \<and> bn_val a - 1 = 2 ^ s * bn_val d \<and> 0 < s"

lemma prime_rounds_accept:
  assumes "rng_ok rng" "test_args a n1 d s" "is_prime (bn_val a)"
  shows "bn_ok old \<Longrightarrow> fst (prime_rounds rng a n1 d s n old st)"
proof (induction n arbitrary: old st)
  case (Suc n)
  let ?P = "bn_val a"
  note t = assms(2) [unfolded test_args_def]
  obtain rnd st1 where rnd: "bn_rand_bits rng (bn_bitlen a) st = (rnd, st1)"
    by fastforce
  define base where "base = pick_base a (case rnd of None \<Rightarrow> old | Some b \<Rightarrow> b)"
  have "bn_ok (case rnd of None \<Rightarrow> old | Some b \<Rightarrow> b)"
    using bn_rand_bits_ok [OF assms(1)] rnd Suc.prems by (auto split: option.splits)
  then have base: "bn_ok base" "2 \<le> bn_val base" "bn_val base \<le> ?P - 2"
    using pick_base_val [of a] t unfolding base_def by blast+
  have "mont_modulus a"
    using t roomyD [of a] by (simp add: mont_modulus_def)
  then obtain x where x: "bn_modexp base d a = Some x" "bn_ok x" "bn_val x = bn_val base ^ bn_val d mod ?P"
    using bn_modexp_val [OF _ base(1)] t by blast
  have "\<not> ?P dvd bn_val base"
    using base t by (auto dest: dvd_imp_le)
  then have "bn_val base ^ (2 ^ s * bn_val d) mod ?P = 1"
    using fermat [OF assms(3)] t by simp
  then have "bn_val x ^ 2 ^ s mod ?P = 1"
    unfolding x(3) by (simp add: power_mod mult.commute flip: power_mult)
  moreover have "Suc (s - 1) = s" "bn_val x < ?P"
    using t x(3) by simp_all
  ultimately have "bn_val x \<noteq> 1 \<Longrightarrow> bn_val x \<noteq> ?P - 1 \<Longrightarrow> \<not> square_loop a n1 (s - 1) x"
    using square_loop_finds [OF assms(3), of n1 x "s - 1"] t x(2) by metis
  then show ?case
    using rnd x(1) Suc.IH [OF base(1)] bn_cmp_iff(3) [OF x(2)] t
    by (simp add: base_def [symmetric] Let_def)
qed simp

lemma small_primes_ok: "list_all (\<lambda>p. 1 < p) s_small_primes" "3 \<in> set s_small_primes"
  by (simp_all add: s_small_primes_def)

lemma find_small_prime:
  assumes "bn_ok a"
  shows "List.find (\<lambda>p. bn_mod_u32 a p = 0) s_small_primes = Some p \<Longrightarrow> 1 < unat p \<and> unat p dvd bn_val a"
    "List.find (\<lambda>p. bn_mod_u32 a p = 0) s_small_primes = None \<Longrightarrow> p \<in> set s_small_primes \<Longrightarrow> \<not> unat p dvd bn_val a"
proof -
  have "1 < unat p \<and> (bn_mod_u32 a p = 0 \<longleftrightarrow> unat p dvd bn_val a)" if "p \<in> set s_small_primes" for p
  proof -
    have p: "1 < p"
      using small_primes_ok(1) that by (simp add: list_all_iff)
    then have "p \<noteq> 0" "1 < unat p"
      by (auto simp: word_less_nat_alt)
    then show ?thesis
      using bn_mod_u32_val [OF assms, of p] by (simp add: dvd_eq_mod_eq_0 unat_eq_zero [symmetric])
  qed
  then show "List.find (\<lambda>p. bn_mod_u32 a p = 0) s_small_primes = Some p \<Longrightarrow> 1 < unat p \<and> unat p dvd bn_val a"
      "List.find (\<lambda>p. bn_mod_u32 a p = 0) s_small_primes = None \<Longrightarrow> p \<in> set s_small_primes \<Longrightarrow> \<not> unat p dvd bn_val a"
    by (auto simp: find_Some_iff find_None_iff)
qed

text \<open>The rounds are reached by odd numbers from five on that no small prime divides.\<close>

lemma test_args_reached:
  assumes "roomy a" "bn_used a \<noteq> 0" "\<not> bn_cmp a (bn_set_u32 2) < 0" "bn_w a ! 0 AND 1 \<noteq> 0"
    and "List.find (\<lambda>p. bn_mod_u32 a p = 0) s_small_primes = None"
  shows "\<exists>d s. halve_loop (snd (bn_sub a (bn_set_u32 1))) 0 = Some (d, s) \<and> test_args a (snd (bn_sub a (bn_set_u32 1))) d s"
proof -
  note ok = roomyD(1) [OF assms(1)]
  have a: "2 \<le> bn_val a" "odd (bn_val a)"
    using assms(3,4) by (simp_all add: bn_cmp_iff ok odd_first_word)
  have "\<not> 3 dvd bn_val a"
    using find_small_prime(2) [OF ok assms(5) small_primes_ok(2)] by simp
  then have "bn_val a \<noteq> 3" "bn_val a \<noteq> 2" "bn_val a \<noteq> 4"
    using a(2) by auto
  then have five: "5 \<le> bn_val a"
    using a(1) by linarith
  have n1: "bn_ok (snd (bn_sub a (bn_set_u32 1)))" "bn_val (snd (bn_sub a (bn_set_u32 1))) = bn_val a - 1"
    using bn_sub_small [OF ok, of 1] five by simp_all
  then obtain d t where d: "halve_loop (snd (bn_sub a (bn_set_u32 1))) 0 = Some (d, t)" "bn_ok d" "odd (bn_val d)" "bn_val a - 1 = 2 ^ t * bn_val d"
    using halve_loop_ends [OF n1(1), of 0] five by auto
  have "even (bn_val a - 1)"
    using a(2) by simp
  then have "0 < t"
    unfolding d(4) using d(3) by (cases t) simp_all
  then show ?thesis
    using d n1 five a(2) assms(1) unfolding test_args_def by blast
qed

lemma probable_prime_cases:
  assumes "rng_ok rng" "roomy a"
  shows "\<exists>b st'. bn_is_probable_prime rng a rounds st = Some (b, st') \<and> (is_prime (bn_val a) \<longrightarrow> b)
    \<and> (b \<longrightarrow> bn_val a = 2 \<or> odd (bn_val a) \<and> 2 \<le> bn_val a)
    \<and> (\<forall>p\<in>set s_small_primes. b \<longrightarrow> unat p dvd bn_val a \<longrightarrow> (\<exists>p\<in>set s_small_primes. bn_val a = unat p))"
proof -
  note ok = roomyD(1) [OF assms(2)]
  have two: "bn_cmp a (bn_set_u32 2) < 0 \<longleftrightarrow> bn_val a < 2" "bn_cmp a (bn_set_u32 2) = 0 \<longleftrightarrow> bn_val a = 2"
    by (simp_all add: bn_cmp_iff ok)
  have word: "bn_w a ! 0 AND 1 = 0 \<longleftrightarrow> even (bn_val a)"
    using odd_first_word [OF ok] by simp
  note unfold = bn_is_probable_prime_def two word
  consider (small) "bn_val a < 2" | (even) "2 \<le> bn_val a" "even (bn_val a)"
    | (divided) p where "2 \<le> bn_val a" "odd (bn_val a)" "List.find (\<lambda>p. bn_mod_u32 a p = 0) s_small_primes = Some p"
    | (rounds) "2 \<le> bn_val a" "odd (bn_val a)" "List.find (\<lambda>p. bn_mod_u32 a p = 0) s_small_primes = None"
    by (meson not_le option.exhaust)
  then show ?thesis
  proof cases
    case small
    then show ?thesis
      by (auto simp: unfold is_prime_def)
  next
    case even
    then have "bn_used a \<noteq> 0"
      using bn_used_0 [OF ok] by auto
    moreover have "is_prime (bn_val a) \<longrightarrow> bn_val a = 2"
      using even(2) by (auto simp: is_prime_def)
    moreover have "\<not> unat p dvd 2" if "p \<in> set s_small_primes" for p
      using that by (auto simp: s_small_primes_def)
    ultimately show ?thesis
      using even by (auto simp: unfold)
  next
    case divided
    then have "bn_used a \<noteq> 0"
      using bn_used_0 [OF ok] by auto
    moreover have "is_prime (bn_val a) \<longrightarrow> bn_val a = unat p"
      using find_small_prime(1) [OF ok divided(3)] by (auto simp: is_prime_def)
    moreover have "p \<in> set s_small_primes"
      using divided(3) by (auto simp: find_Some_iff)
    ultimately show ?thesis
      using divided by (auto simp: unfold bn_cmp_iff ok)
  next
    case rounds
    then have used: "bn_used a \<noteq> 0"
      using bn_used_0 [OF ok] by auto
    obtain d s where d: "halve_loop (snd (bn_sub a (bn_set_u32 1))) 0 = Some (d, s)" "test_args a (snd (bn_sub a (bn_set_u32 1))) d s"
      using test_args_reached [OF assms(2) used _ _ rounds(3)] rounds two word by auto
    then have "bn_is_probable_prime rng a rounds st = Some (prime_rounds rng a (snd (bn_sub a (bn_set_u32 1))) d s rounds bn_zero st)"
      using rounds used by (simp add: unfold Let_def)
    then show ?thesis
      using prime_rounds_accept [OF assms(1) d(2), of bn_zero rounds st] find_small_prime(2) [OF ok rounds(3)] rounds(1,2)
      by (metis bn_zero_ok(1) prod.collapse)
  qed
qed

text \<open>
  C25: The primality test ends for every number of up to 66 words, whatever the random source delivers. It
  accepts every prime; what it accepts is two or odd, and has no prime divisor below a thousand but itself.
\<close>

theorem primality_test_complete:
  assumes "rng_ok rng" "roomy a"
  shows "\<exists>b st'. bn_is_probable_prime rng a rounds st = Some (b, st') \<and> (is_prime (bn_val a) \<longrightarrow> b)
    \<and> (b \<longrightarrow> bn_val a = 2 \<or> odd (bn_val a) \<and> 2 \<le> bn_val a)
    \<and> (\<forall>p\<in>set s_small_primes. b \<longrightarrow> unat p dvd bn_val a \<longrightarrow> (\<exists>p\<in>set s_small_primes. bn_val a = unat p))"
  using probable_prime_cases [OF assms] .

theorem primality_test_complete_witness:
  "\<exists>st'. bn_is_probable_prime (\<lambda>s n. (replicate n 7, s + 1)) (bn_set_u32 11) 5 (0 :: nat) = Some (True, st')"
proof -
  have "rng_ok (\<lambda>s n. (replicate n 7, s + (1 :: nat)))"
    by (simp add: rng_ok_def)
  then show ?thesis
    using primality_test_complete [of _ "bn_set_u32 11" 5 "0 :: nat"] roomy_u32 [of 11] prime_11 by fastforce
qed

section \<open>Prime search\<close>

lemma bitlen_roomy: "bn_ok r \<Longrightarrow> bn_bitlen r \<le> 2048 \<Longrightarrow> roomy r"
proof -
  assume r: "bn_ok r" "bn_bitlen r \<le> 2048"
  have "bn_val r < 2 ^ (32 * 64)"
    using bn_bitlen_le_iff [OF r(1), of "32 * 64"] r(2) by simp
  then have "bn_val r < WB ^ 64"
    by (simp only: WB_def power_mult)
  also have "\<dots> \<le> WB ^ 66"
    using WB_ge_2 by (intro power_increasing) simp_all
  finally show ?thesis
    using r(1) by (simp add: roomy_iff)
qed

definition found_ok :: "nat \<Rightarrow> bignum option \<Rightarrow> bool" where
  "found_ok bits res \<longleftrightarrow> (\<forall>p. res = Some p \<longrightarrow> bn_ok p \<and> bn_bitlen p = bits \<and> (bn_val p = 2 \<or> odd (bn_val p)))"

lemma scan_loop_ends:
  assumes "rng_ok rng" "bits \<le> 2048"
  shows "bn_ok r \<Longrightarrow> \<exists>res st'. scan_loop rng bits n r st = Some (res, st') \<and> found_ok bits res"
proof (induction n arbitrary: r st)
  case (Suc n)
  show ?case
  proof (cases "bn_bitlen r = bits")
    case True
    then have roomy: "roomy r"
      using bitlen_roomy Suc.prems assms(2) by simp
    have "bn_val r + 2 < WB ^ BN_MAX_WORDS"
      using roomyD(2) [OF roomy] roomyD(2) [OF roomy_u32 [of 2]] by (intro roomy_sum) simp_all
    then obtain r' where r': "bn_add r (bn_set_u32 2) = Some r'" "bn_ok r'"
      using bn_add_val [OF Suc.prems, of "bn_set_u32 2"] by auto
    obtain b st' where b: "bn_is_probable_prime rng r 5 st = Some (b, st')" "b \<longrightarrow> bn_val r = 2 \<or> odd (bn_val r)"
      using probable_prime_cases [OF assms(1) roomy] by metis
    then show ?thesis
      using True r'(1) Suc.IH [OF r'(2), of st'] Suc.prems by (cases b) (simp_all add: found_ok_def)
  qed (simp add: found_ok_def)
qed (simp add: found_ok_def)

lemma odd_candidate_ok: "bn_ok r \<Longrightarrow> bn_ok (odd_candidate bits r)"
  by (simp add: odd_candidate_def Let_def bn_norm_ok bn_ok_bounds)

lemma gen_loop_ends:
  assumes "rng_ok rng" "bits \<le> 2048"
  shows "\<exists>res st'. gen_loop rng bits n st = Some (res, st') \<and> found_ok bits res"
proof (induction n arbitrary: st)
  case (Suc n)
  obtain rnd st1 where rnd: "bn_rand_bits rng bits st = (rnd, st1)"
    by fastforce
  show ?case
  proof (cases rnd)
    case None
    then show ?thesis
      using rnd by (simp add: found_ok_def)
  next
    case (Some r)
    then have "bn_ok (odd_candidate bits r)"
      using bn_rand_bits_ok [OF assms(1)] rnd odd_candidate_ok by blast
    then obtain res st2 where "scan_loop rng bits 4096 (odd_candidate bits r) st1 = Some (res, st2)" "found_ok bits res"
      using scan_loop_ends [OF assms] by blast
    then show ?thesis
      using rnd Some Suc.IH [of st2] by (cases res) (simp_all del: scan_loop.simps)
  qed
qed (simp add: found_ok_def)

lemma bn_gen_prime_ends:
  "rng_ok rng \<Longrightarrow> bits \<le> 2048 \<Longrightarrow> \<exists>res st'. bn_gen_prime rng bits st = Some (res, st') \<and> found_ok bits res"
  using gen_loop_ends by (simp add: bn_gen_prime_def del: gen_loop.simps)

section \<open>Keys\<close>

text \<open>The equations of a key made from \<open>p\<close>, \<open>q\<close> and \<open>e\<close>; they do not need that the two are prime.\<close>

definition key_equations :: "rsa_key \<Rightarrow> bool" where
  "key_equations key \<longleftrightarrow>
     (let p = bn_val (rk_p key); q = bn_val (rk_q key); x = bn_val (rk_e key) * bn_val (rk_d key) in
      list_all bn_ok [rk_n key, rk_e key, rk_d key, rk_p key, rk_q key, rk_dp key, rk_dq key, rk_qinv key]
      \<and> p \<noteq> q \<and> bn_val (rk_n key) = p * q \<and> coprime p q
      \<and> x mod lcm (p - 1) (q - 1) = 1 mod lcm (p - 1) (q - 1)
      \<and> bn_val (rk_dp key) = bn_val (rk_d key) mod (p - 1) \<and> bn_val (rk_dq key) = bn_val (rk_d key) mod (q - 1)
      \<and> bn_val (rk_qinv key) < p \<and> q * bn_val (rk_qinv key) mod p = 1 mod p
      \<and> rk_has_private key \<and> rk_has_crt key)"

lemma and_then_simps [simp]:
  "and_then None f = None" "and_then (Some None) f = Some None" "and_then (Some (Some y)) f = f y"
  by (simp_all add: and_then_def)

text \<open>A number of at most 1024 bits.\<close>

definition half_ok :: "bignum \<Rightarrow> bool" where
  "half_ok a \<longleftrightarrow> bn_ok a \<and> bn_val a < WB ^ 32 \<and> 3 \<le> bn_val a"

lemma WB_32_32: "x < WB ^ 32 \<Longrightarrow> y < WB ^ 32 \<Longrightarrow> x * y < WB ^ 64"
proof -
  assume "x < WB ^ 32" "y < WB ^ 32"
  then have "x * y < WB ^ 32 * WB ^ 32"
    by (intro mult_strict_mono) simp_all
  then show ?thesis
    by (simp flip: power_add)
qed

lemma roomy_32: "bn_ok a \<Longrightarrow> bn_val a < WB ^ 32 \<Longrightarrow> roomy a" and roomy_64: "bn_ok a \<Longrightarrow> bn_val a < WB ^ 64 \<Longrightarrow> roomy a"
proof -
  have "WB ^ 32 \<le> WB ^ 66" "WB ^ 64 \<le> WB ^ 66"
    using WB_ge_2 by (intro power_increasing; simp)+
  then show "bn_ok a \<Longrightarrow> bn_val a < WB ^ 32 \<Longrightarrow> roomy a" "bn_ok a \<Longrightarrow> bn_val a < WB ^ 64 \<Longrightarrow> roomy a"
    unfolding roomy_iff by (simp_all add: order_less_le_trans)
qed

lemma modinv_cases:
  assumes "bn_ok a" "bn_ok m" "bn_val m < WB ^ 64" "0 < bn_val m"
  obtains "bn_modinv a m = Some None"
    | r where "bn_modinv a m = Some (Some r)" "bn_ok r" "bn_val r < bn_val m" "bn_val a * bn_val r mod bn_val m = 1 mod bn_val m"
      "coprime (bn_val a) (bn_val m)"
proof -
  have "2 * bn_used m \<le> BN_MAX_WORDS"
    using bn_used_le [OF assms(2), of 64] assms(3) by (simp add: BN_MAX_WORDS_def)
  then show thesis
    using bn_modinv_val [OF assms(1,2) _ assms(4)] that by (auto split: if_splits)
qed

lemma derive_key_ok:
  assumes "half_ok (rk_p key)" "half_ok (rk_q key)" "bn_ok (rk_e key)"
  shows "\<exists>res. derive_key bits key = Some res \<and> (\<forall>key'. res = Some key' \<longrightarrow>
    key_equations key' \<and> bn_bitlen (rk_n key') = bits \<and> rk_p key' = rk_p key \<and> rk_q key' = rk_q key \<and> rk_e key' = rk_e key)"
proof -
  let ?P = "bn_val (rk_p key)" and ?Q = "bn_val (rk_q key)" and ?one = "bn_set_u32 1"
  let ?p1 = "snd (bn_sub (rk_p key) ?one)" and ?q1 = "snd (bn_sub (rk_q key) ?one)"
  have pq: "bn_ok (rk_p key)" "?P < WB ^ 32" "3 \<le> ?P" "bn_ok (rk_q key)" "?Q < WB ^ 32" "3 \<le> ?Q"
    using assms(1,2) by (simp_all add: half_ok_def)
  have p1: "bn_ok ?p1" "bn_val ?p1 = ?P - 1" and q1: "bn_ok ?q1" "bn_val ?q1 = ?Q - 1"
    using bn_sub_small [of "rk_p key" 1] bn_sub_small [of "rk_q key" 1] pq by simp_all
  have lt1: "?P - 1 < WB ^ 32" "?Q - 1 < WB ^ 32"
    using pq(2,5) by linarith+
  have room: "roomy (rk_p key)" "roomy (rk_q key)" "roomy ?p1" "roomy ?q1"
    using roomy_32 pq p1 q1 lt1 by simp_all
  obtain n where n: "bn_mul (rk_p key) (rk_q key) = Some n" "bn_ok n" "bn_val n = ?P * ?Q"
    using bn_mul_val [OF pq(1,4) roomyD(4) [OF room(1,2)]] by blast
  obtain g where g: "bn_gcd ?p1 ?q1 = Some (Some g)" "bn_ok g" "bn_val g = gcd (?P - 1) (?Q - 1)"
    using gcd_loop_val [OF p1(1) q1(1) roomyD(3) [OF room(4)]] p1(2) q1(2) by (auto simp: bn_gcd_def)
  obtain tmp where tmp: "bn_mul ?p1 ?q1 = Some tmp" "bn_ok tmp" "bn_val tmp = (?P - 1) * (?Q - 1)"
    using bn_mul_val [OF p1(1) q1(1) roomyD(4) [OF room(3,4)]] p1(2) q1(2) by auto
  have gpos: "0 < bn_val g" "bn_val g \<le> ?P - 1"
    using g(3) pq(3,6) by (simp_all add: gcd_le1_nat)
  then have groom: "roomy g"
    using g(2) lt1(1) by (intro roomy_32) linarith+
  obtain lam rem where lam: "bn_divmod tmp g = Some (lam, rem)" "bn_ok lam" "bn_val lam = lcm (?P - 1) (?Q - 1)"
    using bn_divmod_val [OF tmp(2) g(2) gpos(1) roomyD(3) [OF groom]] tmp(3) g(3) by (auto simp: lcm_nat_def)
  have lamb: "0 < bn_val lam" "bn_val lam < WB ^ 64"
  proof -
    show "0 < bn_val lam"
      using lam(3) pq(3,6) by (simp add: lcm_pos_nat)
    have "bn_val lam \<le> (?P - 1) * (?Q - 1)"
      unfolding lam(3) lcm_nat_def by (rule div_le_dividend)
    then show "bn_val lam < WB ^ 64"
      using WB_32_32 [OF lt1] by linarith
  qed
  obtain g2 where g2: "bn_gcd (rk_e key) lam = Some (Some g2)" "bn_ok g2"
    using gcd_loop_val [OF assms(3) lam(2) roomyD(3) [OF roomy_64 [OF lam(2) lamb(2)]]] by (auto simp: bn_gcd_def)
  have rem: "\<exists>r. bn_mod x ?p1 = Some r \<and> bn_ok r \<and> bn_val r = bn_val x mod (?P - 1)"
      "\<exists>r. bn_mod x ?q1 = Some r \<and> bn_ok r \<and> bn_val r = bn_val x mod (?Q - 1)" if "bn_ok x" for x
    using bn_mod_val [OF that p1(1) _ roomyD(3) [OF room(3)]] bn_mod_val [OF that q1(1) _ roomyD(3) [OF room(4)]] p1(2) q1(2) pq(3,6)
    by simp_all
  note steps = derive_key_def Let_def n(1) g(1) tmp(1) lam(1) g2(1)
  show ?thesis
  proof (cases rule: modinv_cases [OF assms(3) lam(2) lamb(2,1)])
    case 1
    then show ?thesis
      by (simp add: steps)
  next
    case (2 d)
    obtain dp dq where dp: "bn_mod d ?p1 = Some dp" "bn_ok dp" "bn_val dp = bn_val d mod (?P - 1)"
      and dq: "bn_mod d ?q1 = Some dq" "bn_ok dq" "bn_val dq = bn_val d mod (?Q - 1)"
      using rem [OF 2(2)] by blast
    have P64: "?P < WB ^ 64" "0 < ?P"
      using pq(2,3) order_less_le_trans [OF pq(2) power_increasing [of 32 64 WB]] WB_ge_2 by simp_all
    show ?thesis
    proof (cases rule: modinv_cases [OF pq(4,1) P64])
      case 1
      then show ?thesis
        using 2(1) by (simp add: steps dp(1) dq(1))
    next
      case (2 qinv)
      then show ?thesis
        using \<open>bn_modinv (rk_e key) lam = Some (Some d)\<close> \<open>bn_ok d\<close> \<open>bn_val (rk_e key) * bn_val d mod bn_val lam = 1 mod bn_val lam\<close>
        by (auto simp: steps key_equations_def dp dq n pq(1,4) assms(3) lam(3) bn_cmp_iff(3) coprime_commute)
    qed
  qed
qed

lemma found_half:
  assumes "found_ok bits (Some p)" "256 \<le> bits" "bits \<le> 1024"
  shows "half_ok p"
proof -
  have p: "bn_ok p" "bn_bitlen p = bits"
    using assms(1) by (simp_all add: found_ok_def)
  have "bn_val p < 2 ^ (32 * 32)"
    using bn_bitlen_le_iff [OF p(1), of "32 * 32"] p(2) assms(3) by simp
  then have "bn_val p < WB ^ 32"
    by (simp only: WB_def power_mult)
  moreover have "\<not> bn_val p < 2 ^ 2"
    using bn_bitlen_le_iff [OF p(1), of 2] p(2) assms(2) by simp
  ultimately show ?thesis
    using p(1) by (simp add: half_ok_def)
qed

lemma key_loop_ends:
  assumes "rng_ok rng" "512 \<le> bits" "bits \<le> 2048" "bn_ok (rk_e key)"
  shows "\<exists>res st'. key_loop rng bits n key st = Some (res, st') \<and> (\<forall>key'. res = Some key' \<longrightarrow>
    key_equations key' \<and> half_ok (rk_p key') \<and> half_ok (rk_q key') \<and> bn_bitlen (rk_n key') = bits \<and> rk_e key' = rk_e key)"
proof (induction n arbitrary: st)
  case (Suc n)
  have half: "256 \<le> bits div 2" "bits div 2 \<le> 1024" "256 \<le> bits - bits div 2" "bits - bits div 2 \<le> 1024"
    using div_le_mono [OF assms(2), of 2] div_le_mono [OF assms(3), of 2] div_mult_mod_eq [of bits 2] mod_less_divisor [of 2 bits] assms(3)
    by simp_all
  obtain p st1 where p: "bn_gen_prime rng (bits div 2) st = Some (p, st1)" "found_ok (bits div 2) p"
    using bn_gen_prime_ends [OF assms(1), of "bits div 2" st] half(2) by auto
  obtain q st2 where q: "bn_gen_prime rng (bits - bits div 2) st1 = Some (q, st2)" "found_ok (bits - bits div 2) q"
    using bn_gen_prime_ends [OF assms(1), of "bits - bits div 2" st1] half(4) by auto
  show ?case
  proof (cases "\<exists>p' q'. p = Some p' \<and> q = Some q'")
    case True
    then obtain p' q' where pq: "p = Some p'" "q = Some q'"
      by blast
    have "half_ok p'" "half_ok q'"
      using found_half p(2) q(2) pq half by simp_all
    then obtain res where "derive_key bits (key\<lparr>rk_p := p', rk_q := q'\<rparr>) = Some res"
        "\<forall>key'. res = Some key' \<longrightarrow> key_equations key' \<and> bn_bitlen (rk_n key') = bits
           \<and> rk_p key' = p' \<and> rk_q key' = q' \<and> rk_e key' = rk_e key"
      using derive_key_ok [of "key\<lparr>rk_p := p', rk_q := q'\<rparr>" bits] assms(4) by auto
    then show ?thesis
      using Suc.IH [of st2] p(1) q(1) pq \<open>half_ok p'\<close> \<open>half_ok q'\<close> by (cases res) simp_all
  next
    case False
    then show ?thesis
      using p(1) q(1) by (cases p; cases q) simp_all
  qed
qed simp

lemma odd_prime: "is_prime r \<Longrightarrow> 3 \<le> r \<Longrightarrow> odd r"
proof
  assume "is_prime r" "3 \<le> r" "even r"
  then have "(2 :: nat) = 1 \<or> 2 = r"
    unfolding is_prime_def by blast
  then show False
    using \<open>3 \<le> r\<close> by simp
qed

lemma key_equations_primes:
  assumes "key_equations key" "is_prime (bn_val (rk_p key))" "is_prime (bn_val (rk_q key))"
    and "half_ok (rk_p key)" "half_ok (rk_q key)"
  shows "rsa_key_ok key"
proof -
  let ?p = "bn_val (rk_p key)" and ?q = "bn_val (rk_q key)" and ?x = "bn_val (rk_e key) * bn_val (rk_d key)"
  have e: "bn_ok (rk_n key)" "bn_ok (rk_e key)" "bn_ok (rk_d key)" "bn_ok (rk_p key)" "bn_ok (rk_q key)"
      "bn_ok (rk_dp key)" "bn_ok (rk_dq key)" "bn_ok (rk_qinv key)" "?p \<noteq> ?q" "bn_val (rk_n key) = ?p * ?q"
      "bn_val (rk_dp key) = bn_val (rk_d key) mod (?p - 1)" "bn_val (rk_dq key) = bn_val (rk_d key) mod (?q - 1)"
      "bn_val (rk_qinv key) < ?p"
    and lam: "?x mod lcm (?p - 1) (?q - 1) = 1 mod lcm (?p - 1) (?q - 1)"
    and inv: "?q * bn_val (rk_qinv key) mod ?p = 1 mod ?p"
    using assms(1) unfolding key_equations_def Let_def list.pred_inject by blast+
  have pq: "3 \<le> ?p" "3 \<le> ?q" "?p < WB ^ 32" "?q < WB ^ 32"
    using assms(4,5) by (simp_all add: half_ok_def)
  have odd: "odd ?p" "odd ?q"
    using odd_prime assms(2,3) pq(1,2) by blast+
  have mod: "?x mod k = 1" if "k dvd lcm (?p - 1) (?q - 1)" "1 < k" for k
  proof -
    have "?x mod k = ?x mod lcm (?p - 1) (?q - 1) mod k" "1 mod k = 1 mod lcm (?p - 1) (?q - 1) mod k"
      by (simp_all only: mod_mod_cancel [OF that(1)])
    then show ?thesis
      unfolding lam using that(2) by (simp only: mod_less)
  qed
  have p1: "1 < ?p - 1" "1 < ?q - 1"
    using pq(1,2) by simp_all
  have x: "?x mod (?p - 1) = 1" "?x mod (?q - 1) = 1"
    using mod [OF dvd_lcm1 p1(1)] mod [OF dvd_lcm2 p1(2)] .
  have "bn_used (rk_n key) \<le> 64"
    using bn_used_le [OF e(1), of 64] e(10) WB_32_32 [OF pq(3,4)] by simp
  moreover have "?q * bn_val (rk_qinv key) mod ?p = 1"
    unfolding inv using pq(1) by simp
  ultimately show ?thesis
    unfolding rsa_key_ok_def Let_def using e assms(2,3) odd x by blast
qed



end
