(* ===== verification/BigNumType.thy ===== *)
theory BigNumType
  imports RsaKeys
begin

text \<open>
  Well-formedness of the big numbers: every operation answers a number in normal form, with all its words and
  the exact count of those in use, also when a result is cut to the capacity, a difference is negative or a
  division runs out of room.
\<close>

lemma bn_add_type:
  assumes "bn_ok a" "bn_ok b" "bn_add a b = Some r"
  shows "bn_ok r"
proof -
  let ?n = "max (bn_used a) (bn_used b)"
  obtain ws c where ws: "add_words 0 (bn_words a ?n) (bn_words b ?n) = (ws, c)"
    by force
  then have "length ws = ?n"
    using add_words_val [of "bn_words a ?n" "bn_words b ?n" 0 ws c] by simp
  moreover have "?n \<le> BN_MAX_WORDS"
    using bn_ok_bounds(3) assms(1,2) by simp
  ultimately show ?thesis
    using assms(3) ws by (auto simp: bn_add_def Let_def bn_fill_ok split: if_splits)
qed

lemma bn_sub_type:
  assumes "bn_ok a"
  shows "bn_ok (snd (bn_sub a b))"
proof -
  obtain ws c where ws: "sub_words 0 (bn_words a (bn_used a)) (bn_words b (bn_used a)) = (ws, c)"
    by force
  then have "length ws = bn_used a"
    using sub_words_val [of "bn_words a (bn_used a)" "bn_words b (bn_used a)" 0 ws c] by simp
  then show ?thesis
    using ws bn_ok_bounds(3) [OF assms] by (simp add: bn_sub_def bn_fill_ok)
qed

lemma bn_shl1_type:
  assumes "bn_ok a"
  shows "bn_ok (bn_shl1 a)" "even (bn_val (bn_shl1 a))"
proof -
  have "bn_ok (bn_shl1 a) \<and> even (bn_val (bn_shl1 a))"
  proof (cases "bn_used a < BN_MAX_WORDS")
    case True
    have "2 * bn_val a < WB * WB ^ bn_used a"
      using bn_ok_bounds(1) [OF assms] mult_le_mono1 [OF WB_ge_2, of "WB ^ bn_used a"] by linarith
    also have "\<dots> \<le> WB ^ BN_MAX_WORDS"
      using True WB_ge_2 power_increasing [of "Suc (bn_used a)" BN_MAX_WORDS WB] by simp
    finally show ?thesis
      using bn_shl1_val [OF assms] by simp
  next
    case False
    then have full: "bn_used a = BN_MAX_WORDS" "take (bn_used a) (bn_w a) = bn_w a"
      using bn_ok_bounds(3,4) [OF assms] by simp_all
    obtain zs c where zs: "shl_words 0 (bn_w a) = (zs, c)"
      by force
    then have v: "length zs = BN_MAX_WORDS" "limbs zs + WB ^ BN_MAX_WORDS * unat c = 2 * limbs (bn_w a)"
      using shl_words_val [OF _ zs] bn_ok_bounds(4) [OF assms] by simp_all
    have "even (WB ^ BN_MAX_WORDS)"
      by (simp add: WB_def BN_MAX_WORDS_def)
    then have "even (limbs zs)"
      using arg_cong [OF v(2), of even] by simp
    then show ?thesis
      using full zs v(1) bn_ok_bounds(4) [OF assms] by (simp add: bn_shl1_def bn_norm_ok) (simp add: bn_val_def)
  qed
  then show "bn_ok (bn_shl1 a)" "even (bn_val (bn_shl1 a))"
    by simp_all
qed

lemma bn_mul_type: "bn_ok a \<Longrightarrow> bn_ok b \<Longrightarrow> bn_mul a b = Some r \<Longrightarrow> bn_ok r"
  using bn_mul_val [of a b] by (auto simp: bn_mul_def split: if_splits)

lemma div_loop_type:
  "length (bn_w R) = BN_MAX_WORDS \<Longrightarrow> bn_ok R \<Longrightarrow> length (bn_w Q) = BN_MAX_WORDS
    \<Longrightarrow> bn_ok (fst (div_loop a b n R Q)) \<and> length (bn_w (snd (div_loop a b n R Q))) = BN_MAX_WORDS"
proof (induction a b n R Q rule: div_loop.induct)
  case (2 a b i R Q)
  have R: "bn_ok (if bn_test_bit a i then set_bit0 (bn_shl1 R) else bn_shl1 R)" (is "bn_ok ?R")
    using set_bit0_val(1) bn_shl1_type [OF "2.prems"(2)] by simp
  have "length (bn_w (set_quotient_bit Q i)) = BN_MAX_WORDS"
    using "2.prems"(3) by (simp add: set_quotient_bit_def Let_def)
  then show ?case
    using 2 R bn_sub_type [OF R, of b] bn_ok_bounds(4) by (simp add: Let_def)
qed simp

lemma bn_divmod_type:
  assumes "bn_ok a" "bn_divmod a b = Some (q, r)"
  shows "bn_ok q" "bn_ok r"
proof -
  obtain R Q where loop: "div_loop a b (bn_bitlen a) bn_zero bn_zero = (R, Q)"
    by force
  then have "length (bn_w R) = BN_MAX_WORDS" "length (bn_w Q) = BN_MAX_WORDS"
    using div_loop_type [of bn_zero bn_zero a b "bn_bitlen a"] bn_zero_ok(1) bn_ok_bounds(4) by simp_all
  then show "bn_ok q" "bn_ok r"
    using assms loop by (auto simp: bn_divmod_def bn_norm_ok bn_zero_ok split: if_splits)
qed

lemma bn_mod_type: "bn_ok a \<Longrightarrow> bn_mod a m = Some r \<Longrightarrow> bn_ok r"
  by (auto simp: bn_mod_def dest: bn_divmod_type(2))

lemma bn_mulmod_type: "bn_ok a \<Longrightarrow> bn_ok b \<Longrightarrow> bn_mulmod a b m = Some r \<Longrightarrow> bn_ok r"
  by (auto simp: bn_mulmod_def bind_eq_Some_conv dest: bn_mul_type bn_mod_type)

lemma bn_montmul_type: "bn_ok (bn_montmul a b m n0inv k)"
proof -
  let ?t = "fold (mont_turn (bn_words a k) (bn_words m k) n0inv k) (bn_words b k) (replicate (k + 2) 0)"
  let ?ws = "take (min (k + 1) BN_MAX_WORDS) ?t"
  have "length ?ws \<le> BN_MAX_WORDS"
    by simp
  then have "bn_ok (bn_norm \<lparr>bn_w = ?ws @ replicate (BN_MAX_WORDS - length ?ws) 0, bn_used = k + 1\<rparr>)"
    by (intro bn_norm_ok) (simp del: length_take)
  then show ?thesis
    unfolding bn_montmul_def Let_def using bn_sub_type by simp
qed

lemma bn_modexp_type: "bn_modexp base ex m = Some r \<Longrightarrow> bn_ok r"
  by (auto simp: bn_modexp_def Let_def bn_montmul_type bn_zero_ok split: if_splits)

lemma gcd_loop_type:
  assumes "gcd_loop x y = Some res"
  shows "bn_ok x \<longrightarrow> bn_ok y \<longrightarrow> pred_option bn_ok res"
proof -
  let ?P = "\<lambda>x y res. bn_ok x \<longrightarrow> bn_ok y \<longrightarrow> pred_option bn_ok res"
  have "(case (x, y) of (x, y) \<Rightarrow> ?P x y) res"
  proof (rule gcd_loop.raw_induct [of ?P])
    fix loop x y res
    assume "\<And>x y res. loop x y = Some res \<Longrightarrow> ?P x y res"
      "(if bn_is_zero y then Some (Some x) else case bn_mod x y of None \<Rightarrow> Some None | Some t \<Rightarrow> loop y t) = Some res"
    then show "?P x y res"
      using bn_mod_type [of x y] by (auto split: if_splits option.splits)
  qed (simp add: assms)
  then show ?thesis
    by simp
qed

lemma next_coeff_type:
  assumes "bn_ok m" "bn_ok q" "bn_ok t0" "bn_ok t1" "next_coeff m q t0 t1 = Some t"
  shows "bn_ok t"
proof -
  obtain qt where "bn_mulmod q t1 m = Some qt"
    using assms(5) by (auto simp: next_coeff_def bind_eq_Some_conv)
  then show ?thesis
    using assms bn_sub_type [of t0 qt] bn_sub_type [of _ qt] bn_add_type [of t0 m]
    by (auto simp: next_coeff_def bn_zero_ok split: if_splits option.splits)
qed

lemma inv_loop_type:
  assumes "inv_loop m r0 r1 t0 t1 = Some res"
  shows "list_all bn_ok [m, r0, r1, t0, t1] \<longrightarrow> pred_option (\<lambda>(r, t). bn_ok t) res"
proof -
  let ?P = "\<lambda>m r0 r1 t0 t1 res. list_all bn_ok [m, r0, r1, t0, t1] \<longrightarrow> pred_option (\<lambda>(r, t). bn_ok t) res"
  show "?P m r0 r1 t0 t1 res"
  proof (rule inv_loop.raw_induct [of ?P])
    fix loop m r0 r1 t0 t1 res
    assume ih: "\<And>m r0 r1 t0 t1 res. loop m r0 r1 t0 t1 = Some res \<Longrightarrow> ?P m r0 r1 t0 t1 res"
      and step: "(if bn_is_zero r1 then Some (Some (r0, t0))
        else case bn_divmod r0 r1 of None \<Rightarrow> Some None
          | Some qr \<Rightarrow> (case next_coeff m (fst qr) t0 t1 of None \<Rightarrow> Some None | Some t \<Rightarrow> loop m r1 (snd qr) t1 t)) = Some res"
    show "?P m r0 r1 t0 t1 res"
    proof
      assume ok: "list_all bn_ok [m, r0, r1, t0, t1]"
      consider "bn_is_zero r1" | "res = None"
        | q r t where "bn_divmod r0 r1 = Some (q, r)" "next_coeff m q t0 t1 = Some t" "loop m r1 r t1 t = Some res"
        using step by (auto split: if_splits option.splits)
      then show "pred_option (\<lambda>(r, t). bn_ok t) res"
      proof cases
        case 1
        then show ?thesis
          using step ok by auto
      next
        case 2
        then show ?thesis
          by simp
      next
        case (3 q r t)
        have "list_all bn_ok [m, r1, r, t1, t]"
          using ok bn_divmod_type [OF _ 3(1)] next_coeff_type [OF _ _ _ _ 3(2)] by simp
        then show ?thesis
          using ih [OF 3(3)] by blast
      qed
    qed
  qed (rule assms)
qed

lemma bn_modinv_type:
  assumes "bn_ok a" "bn_ok m" "bn_modinv a m = Some (Some r)"
  shows "bn_ok r"
proof -
  obtain r1 r0 where "bn_mod a m = Some r1" "inv_loop m m r1 bn_zero (bn_set_u32 1) = Some (Some (r0, r))"
    using assms(3) by (auto simp: bn_modinv_def split: option.splits if_splits)
  then show ?thesis
    using inv_loop_type [of m m r1 bn_zero "bn_set_u32 1"] bn_mod_type [OF assms(1)] assms(2) bn_zero_ok(1) by simp
qed

lemma pred_optionI: "(\<And>x. y = Some x \<Longrightarrow> P x) \<Longrightarrow> pred_option P y"
  by (cases y) simp_all

lemma bytes_loop_length: "bytes_loop pos bs ws = Some ws' \<Longrightarrow> length ws' = length ws"
  by (induction pos bs ws rule: bytes_loop.induct) (auto simp: Let_def split: if_splits)

lemma bn_from_bytes_type: "bn_from_bytes buf = Some r \<Longrightarrow> bn_ok r"
  using bytes_loop_length [of 0 "rev buf" "bn_w bn_zero"] bn_ok_bounds(4) [OF bn_zero_ok(1)]
  by (auto simp: bn_from_bytes_def bn_norm_ok)



end
