(* ===== verification/TmpFs.thy ===== *)
theory TmpFs
  imports StrOps
begin

text \<open>
  The RAM file system mounted at \<^verbatim>\<open>/tmp\<close>
  (\<^verbatim>\<open>src/src/interface/pdi/impl/modules/storage/TmpFs.cpp\<close>). Its state is the vector of
  nodes; every operation takes the nodes and returns the new ones with the value the method returns,
  \<open>Inl\<close> for an error code. A path is a C string, \<open>None\<close> the null pointer; a content buffer is the
  characters it holds, at least as many as the size passed with it. What the operations read of the
  session and of the clock is a \<open>fs_caller\<close>. Allocation succeeds, and bytes are little-endian as on
  every supported port.
\<close>

section \<open>Nodes\<close>

datatype file_type = FILE_TYPE_REG | FILE_TYPE_DIR | FILE_TYPE_LINK

record tmpfs_node =
  m_path :: string
  m_data :: string
  m_type :: file_type
  m_perms :: u16
  m_uid :: u16
  m_gid :: u16
  m_ctime :: u32
  m_mtime :: u32

record file_info =
  fi_name :: string
  fi_type :: file_type
  fi_size :: int
  fi_perms :: u16
  fi_uid :: u16
  fi_gid :: u16
  fi_ctime :: u32
  fi_mtime :: u32

record fs_caller =
  caller_uid :: u16
  caller_gid :: u16
  caller_umask :: u16
  caller_epoch :: u32

type_synonym fs_result = "pdi_err + int"

definition TMPFS_MAX_BYTES :: u32 where "TMPFS_MAX_BYTES = 4096"

definition TMPFS_MAX_NODES :: nat where "TMPFS_MAX_NODES = 24"

definition TMPFS_MAX_PATH :: nat where "TMPFS_MAX_PATH = 63"

definition FILE_PERM_DEFAULT_FILE :: u16 where "FILE_PERM_DEFAULT_FILE = 0x1A4"

definition FILE_PERM_DEFAULT_DIR :: u16 where "FILE_PERM_DEFAULT_DIR = 0x1ED"

definition PATH_SEPARATOR_CHAR :: char where "PATH_SEPARATOR_CHAR = CHR 0x2F"

abbreviation slash :: char where "slash \<equiv> PATH_SEPARATOR_CHAR"

section \<open>Paths\<close>

definition normalize :: "string option \<Rightarrow> string" where
  "normalize path =
     (case path of None \<Rightarrow> []
      | Some p \<Rightarrow> rev (dropWhile (\<lambda>c. c = slash) (rev (dropWhile (\<lambda>c. c = slash) p))))"

fun findNode :: "tmpfs_node list \<Rightarrow> string \<Rightarrow> nat option" where
  "findNode [] norm = None"
| "findNode (n # ns) norm = (if m_path n = norm then Some 0 else map_option Suc (findNode ns norm))"

definition parentOf :: "string \<Rightarrow> string" where
  "parentOf norm = rev (tl (dropWhile (\<lambda>c. c \<noteq> slash) (rev norm)))"

definition parentExists :: "tmpfs_node list \<Rightarrow> string \<Rightarrow> bool" where
  "parentExists ns norm =
     (let parent = parentOf norm
      in if parent = [] then True
         else case findNode ns parent of None \<Rightarrow> False | Some i \<Rightarrow> m_type (ns ! i) = FILE_TYPE_DIR)"

definition usedBytes :: "tmpfs_node list \<Rightarrow> u32" where
  "usedBytes ns = fold (\<lambda>n total. total + of_nat (length (m_data n))) ns 0"

definition tmp_basename :: "string option \<Rightarrow> string" where
  "tmp_basename path = (case path of None \<Rightarrow> [] | Some p \<Rightarrow> rev (takeWhile (\<lambda>c. c \<noteq> slash) (rev p)))"

text \<open>The test of a descendant: longer than the prefix and starting with it.\<close>

definition under :: "string \<Rightarrow> string \<Rightarrow> bool" where
  "under prefix p \<longleftrightarrow> length prefix < length p \<and> starts prefix p"

section \<open>Writing\<close>

definition stampNew :: "fs_caller \<Rightarrow> tmpfs_node \<Rightarrow> u16 \<Rightarrow> tmpfs_node" where
  "stampNew cx n defperms =
     n\<lparr>m_uid := caller_uid cx, m_gid := caller_gid cx, m_perms := defperms AND NOT (caller_umask cx),
       m_ctime := caller_epoch cx, m_mtime := caller_epoch cx\<rparr>"

definition new_node :: "string \<Rightarrow> string \<Rightarrow> file_type \<Rightarrow> tmpfs_node" where
  "new_node norm data ty =
     \<lparr>m_path = norm, m_data = data, m_type = ty, m_perms = 0, m_uid = 0, m_gid = 0, m_ctime = 0, m_mtime = 0\<rparr>"

definition supplied :: "string option \<Rightarrow> u32 \<Rightarrow> string" where
  "supplied content sz = (case content of Some c \<Rightarrow> if sz > 0 then take (unat sz) c else [] | None \<Rightarrow> [])"

definition putContent ::
  "fs_caller \<Rightarrow> tmpfs_node list \<Rightarrow> string \<Rightarrow> string option \<Rightarrow> u32 \<Rightarrow> bool \<Rightarrow> tmpfs_node list \<times> fs_result" where
  "putContent cx ns norm content sz app =
     (if norm = [] \<or> length norm > TMPFS_MAX_PATH then (ns, Inl STORAGE_ERROR_BAD_PATH)
      else case findNode ns norm of
        None \<Rightarrow>
          if \<not> parentExists ns norm then (ns, Inl STORAGE_ERROR_NO_PARENT)
          else if length ns \<ge> TMPFS_MAX_NODES then (ns, Inl STORAGE_ERROR_NODE_LIMIT)
          else if usedBytes ns + sz > TMPFS_MAX_BYTES then (ns, Inl PDI_ERR_NO_SPACE)
          else let n = stampNew cx (new_node norm [] FILE_TYPE_REG) FILE_PERM_DEFAULT_FILE
               in (ns @ [n\<lparr>m_data := m_data n @ supplied content sz\<rparr>], Inr (sint sz))
      | Some idx \<Rightarrow>
          if m_type (ns ! idx) = FILE_TYPE_DIR then (ns, Inl STORAGE_ERROR_NOT_A_FILE)
          else let node = ns ! idx;
                   oldlen = of_nat (length (m_data node));
                   newused = (if app then usedBytes ns + sz else usedBytes ns - oldlen + sz)
               in if newused > TMPFS_MAX_BYTES then (ns, Inl PDI_ERR_NO_SPACE)
                  else let kept = (if app then m_data node else [])
                       in (ns[idx := node\<lparr>m_data := kept @ supplied content sz, m_mtime := caller_epoch cx\<rparr>],
                           Inr (sint sz)))"

definition tmp_createFile ::
  "fs_caller \<Rightarrow> tmpfs_node list \<Rightarrow> string option \<Rightarrow> string option \<Rightarrow> int \<Rightarrow> tmpfs_node list \<times> fs_result" where
  "tmp_createFile cx ns path content sz =
     (let norm = normalize path
      in if norm = [] then (ns, Inl STORAGE_ERROR_BAD_PATH)
         else if findNode ns norm \<noteq> None then (ns, Inl PDI_ERR_EXISTS)
         else let len = (if sz < 0 then (case content of Some c \<Rightarrow> of_nat (length (takeWhile (\<lambda>x. x \<noteq> CHR 0x00) c)) | None \<Rightarrow> 0)
                         else word_of_int sz)
              in putContent cx ns norm content len False)"

definition tmp_writeFile ::
  "fs_caller \<Rightarrow> tmpfs_node list \<Rightarrow> string option \<Rightarrow> string option \<Rightarrow> u32 \<Rightarrow> bool \<Rightarrow> tmpfs_node list \<times> fs_result" where
  "tmp_writeFile cx ns path content sz app = putContent cx ns (normalize path) content sz app"

text \<open>
  The writes of \<open>editFile\<close>, at an index that wraps at 32 bits; \<open>None\<close> is a write past the end of
  the string, which C++ leaves undefined.
\<close>

fun edit_loop :: "string \<Rightarrow> u32 \<Rightarrow> string \<Rightarrow> string option" where
  "edit_loop data at [] = Some data"
| "edit_loop data at (c # cs) = (if unat at < length data then edit_loop (data[unat at := c]) (at + 1) cs else None)"

definition tmp_editFile ::
  "fs_caller \<Rightarrow> tmpfs_node list \<Rightarrow> string option \<Rightarrow> u64 \<Rightarrow> string option \<Rightarrow> u32 \<Rightarrow> (tmpfs_node list \<times> fs_result) option" where
  "tmp_editFile cx ns path offset content sz =
     (case content of
        None \<Rightarrow> Some (ns, Inl PDI_ERR_NULL_PTR)
      | Some c \<Rightarrow>
          case findNode ns (normalize path) of
            None \<Rightarrow> Some (ns, Inl STORAGE_ERROR_NOT_A_FILE)
          | Some idx \<Rightarrow>
              if m_type (ns ! idx) \<noteq> FILE_TYPE_REG then Some (ns, Inl STORAGE_ERROR_NOT_A_FILE)
              else let node = ns ! idx;
                       oldlen = of_nat (length (m_data node));
                       end_at = ucast offset + sz
                   in if end_at > oldlen \<and> usedBytes ns - oldlen + end_at > TMPFS_MAX_BYTES
                      then Some (ns, Inl PDI_ERR_NO_SPACE)
                      else let data = (if end_at > oldlen
                                       then m_data node @ replicate (unat end_at - length (m_data node)) (CHR 0x00)
                                       else m_data node)
                           in map_option (\<lambda>d. (ns[idx := node\<lparr>m_data := d, m_mtime := caller_epoch cx\<rparr>], Inr (sint sz)))
                                (edit_loop data (ucast offset) (take (unat sz) c)))"

section \<open>Reading\<close>

text \<open>
  The loop that hands the content to the callback chunk by chunk; the callback is a function on the
  state of its closure that tells whether to go on.
\<close>

function deliver :: "('s \<Rightarrow> string \<Rightarrow> bool \<times> 's) \<Rightarrow> nat \<Rightarrow> string \<Rightarrow> nat \<Rightarrow> 's \<Rightarrow> nat \<times> 's" where
  "deliver readback chunk rest got st =
     (if rest = [] \<or> chunk = 0 then (got, st)
      else let (go, st') = readback st (take chunk rest)
           in if go then deliver readback chunk (drop chunk rest) (got + length (take chunk rest)) st' else (got, st'))"
  by pat_completeness auto
termination
  by (relation "measure (\<lambda>(f, c, r, g, s). length r)") auto

declare deliver.simps [simp del]

definition tmp_readFile ::
  "tmpfs_node list \<Rightarrow> string option \<Rightarrow> u64 \<Rightarrow> ('s \<Rightarrow> string \<Rightarrow> bool \<times> 's) option \<Rightarrow> u64 \<Rightarrow> string option \<Rightarrow> 's
     \<Rightarrow> fs_result \<times> bool \<times> 's" where
  "tmp_readFile ns path sz readbackfn offset untilmatch st =
     (case (path, readbackfn) of
        (Some p, Some readback) \<Rightarrow>
          (case findNode ns (normalize path) of
             None \<Rightarrow> (Inl STORAGE_ERROR_NOT_A_FILE, False, st)
           | Some idx \<Rightarrow>
               if m_type (ns ! idx) \<noteq> FILE_TYPE_REG then (Inl STORAGE_ERROR_NOT_A_FILE, False, st)
               else let data = m_data (ns ! idx)
                    in if unat offset \<ge> length data then (Inr 0, False, st)
                       else let rest = drop (unat offset) data;
                                at = (case untilmatch of Some u \<Rightarrow> if u \<noteq> [] then strstr_span (Some rest) (Some u) 0 else -1
                                      | None \<Rightarrow> -1);
                                total = (if at \<ge> 0 then nat at else length rest)
                            in if total = 0 then (Inr 0, at \<ge> 0, st)
                               else let chunk = (if sz > 0 \<and> unat sz < total then unat sz else total);
                                        (got, st') = deliver readback chunk (take total rest) 0 st
                                    in (Inr (int got), at \<ge> 0, st'))
      | _ \<Rightarrow> (Inl PDI_ERR_INVALID_ARG, False, st))"

section \<open>Directories, renaming and copying\<close>

definition tmp_createDirectory :: "fs_caller \<Rightarrow> tmpfs_node list \<Rightarrow> string option \<Rightarrow> tmpfs_node list \<times> fs_result" where
  "tmp_createDirectory cx ns path =
     (let norm = normalize path
      in if norm = [] \<or> length norm > TMPFS_MAX_PATH then (ns, Inl STORAGE_ERROR_BAD_PATH)
         else if findNode ns norm \<noteq> None then (ns, Inl PDI_ERR_EXISTS)
         else if \<not> parentExists ns norm then (ns, Inl STORAGE_ERROR_NO_PARENT)
         else if length ns \<ge> TMPFS_MAX_NODES then (ns, Inl STORAGE_ERROR_NODE_LIMIT)
         else (ns @ [stampNew cx (new_node norm [] FILE_TYPE_DIR) FILE_PERM_DEFAULT_DIR], Inr 0))"

definition tmp_deleteFile :: "tmpfs_node list \<Rightarrow> string option \<Rightarrow> tmpfs_node list \<times> fs_result" where
  "tmp_deleteFile ns path =
     (case findNode ns (normalize path) of
        None \<Rightarrow> (ns, Inl STORAGE_ERROR_NOT_A_FILE)
      | Some idx \<Rightarrow>
          if m_type (ns ! idx) \<noteq> FILE_TYPE_REG then (ns, Inl STORAGE_ERROR_NOT_A_FILE)
          else (take idx ns @ drop (Suc idx) ns, Inr 0))"

definition tmp_deleteDirectory :: "tmpfs_node list \<Rightarrow> string option \<Rightarrow> tmpfs_node list \<times> fs_result" where
  "tmp_deleteDirectory ns path =
     (let norm = normalize path
      in if norm = [] then (ns, Inl STORAGE_ERROR_BAD_PATH)
         else case findNode ns norm of
           None \<Rightarrow> (ns, Inl STORAGE_ERROR_NOT_A_DIRECTORY)
         | Some idx \<Rightarrow>
             if m_type (ns ! idx) \<noteq> FILE_TYPE_DIR then (ns, Inl STORAGE_ERROR_NOT_A_DIRECTORY)
             else (filter (\<lambda>n. \<not> (m_path n = norm \<or> under (norm @ [slash]) (m_path n))) ns, Inr 0))"

definition tmp_rename :: "tmpfs_node list \<Rightarrow> string option \<Rightarrow> string option \<Rightarrow> tmpfs_node list \<times> fs_result" where
  "tmp_rename ns oldPath newPath =
     (let oldn = normalize oldPath; newn = normalize newPath
      in if oldn = [] \<or> newn = [] then (ns, Inl STORAGE_ERROR_BAD_PATH)
         else case findNode ns oldn of
           None \<Rightarrow> (ns, Inl PDI_ERR_NOT_FOUND)
         | Some oidx \<Rightarrow>
             if findNode ns newn \<noteq> None then (ns, Inl PDI_ERR_EXISTS)
             else if \<not> parentExists ns newn then (ns, Inl STORAGE_ERROR_NO_PARENT)
             else if length newn > TMPFS_MAX_PATH then (ns, Inl STORAGE_ERROR_NAME_TOO_LONG)
             else let moved = ns[oidx := (ns ! oidx)\<lparr>m_path := newn\<rparr>];
                      oldprefix = oldn @ [slash]; newprefix = newn @ [slash]
                  in (if m_type (ns ! oidx) = FILE_TYPE_DIR
                      then map (\<lambda>n. if under oldprefix (m_path n)
                                    then n\<lparr>m_path := newprefix @ drop (length oldprefix) (m_path n)\<rparr> else n) moved
                      else moved, Inr 0))"

definition tmp_moveFile :: "tmpfs_node list \<Rightarrow> string option \<Rightarrow> string option \<Rightarrow> tmpfs_node list \<times> fs_result" where
  "tmp_moveFile ns oldPath newPath = tmp_rename ns oldPath newPath"

definition tmp_copyFile ::
  "fs_caller \<Rightarrow> tmpfs_node list \<Rightarrow> string option \<Rightarrow> string option \<Rightarrow> tmpfs_node list \<times> fs_result" where
  "tmp_copyFile cx ns sourcePath destPath =
     (let dst = normalize destPath
      in case findNode ns (normalize sourcePath) of
           None \<Rightarrow> (ns, Inl STORAGE_ERROR_NOT_A_FILE)
         | Some sidx \<Rightarrow>
             if m_type (ns ! sidx) \<noteq> FILE_TYPE_REG then (ns, Inl STORAGE_ERROR_NOT_A_FILE)
             else if dst = [] then (ns, Inl STORAGE_ERROR_BAD_PATH)
             else if findNode ns dst \<noteq> None then (ns, Inl PDI_ERR_EXISTS)
             else if \<not> parentExists ns dst then (ns, Inl STORAGE_ERROR_NO_PARENT)
             else if length dst > TMPFS_MAX_PATH then (ns, Inl STORAGE_ERROR_NAME_TOO_LONG)
             else if length ns \<ge> TMPFS_MAX_NODES then (ns, Inl STORAGE_ERROR_NODE_LIMIT)
             else if usedBytes ns + of_nat (length (m_data (ns ! sidx))) > TMPFS_MAX_BYTES then (ns, Inl PDI_ERR_NO_SPACE)
             else (ns @ [stampNew cx (new_node dst (m_data (ns ! sidx)) FILE_TYPE_REG) FILE_PERM_DEFAULT_FILE], Inr 0))"

definition tmp_touch :: "fs_caller \<Rightarrow> tmpfs_node list \<Rightarrow> string option \<Rightarrow> tmpfs_node list \<times> fs_result" where
  "tmp_touch cx ns path =
     (case findNode ns (normalize path) of
        Some idx \<Rightarrow> (ns[idx := (ns ! idx)\<lparr>m_mtime := caller_epoch cx\<rparr>], Inr 0)
      | None \<Rightarrow> tmp_createFile cx ns path None 0)"

section \<open>Queries\<close>

definition tmp_getFileSize :: "tmpfs_node list \<Rightarrow> string option \<Rightarrow> fs_result" where
  "tmp_getFileSize ns path =
     (case findNode ns (normalize path) of
        None \<Rightarrow> Inl STORAGE_ERROR_NOT_A_FILE
      | Some idx \<Rightarrow> if m_type (ns ! idx) \<noteq> FILE_TYPE_REG then Inl STORAGE_ERROR_NOT_A_FILE
                    else Inr (int (length (m_data (ns ! idx)))))"

definition tmp_isFileExist :: "tmpfs_node list \<Rightarrow> string option \<Rightarrow> bool" where
  "tmp_isFileExist ns path =
     (case findNode ns (normalize path) of None \<Rightarrow> False | Some idx \<Rightarrow> m_type (ns ! idx) = FILE_TYPE_REG)"

definition tmp_isDirExist :: "tmpfs_node list \<Rightarrow> string option \<Rightarrow> bool" where
  "tmp_isDirExist ns path =
     (if normalize path = [] then True
      else case findNode ns (normalize path) of None \<Rightarrow> False | Some idx \<Rightarrow> m_type (ns ! idx) = FILE_TYPE_DIR)"

definition node_info :: "string \<Rightarrow> tmpfs_node \<Rightarrow> file_info" where
  "node_info nm n =
     \<lparr>fi_name = nm, fi_type = m_type n, fi_size = (if m_type n = FILE_TYPE_REG then int (length (m_data n)) else 0),
      fi_perms = m_perms n, fi_uid = m_uid n, fi_gid = m_gid n, fi_ctime = m_ctime n, fi_mtime = m_mtime n\<rparr>"

definition tmp_getDirFileList ::
  "tmpfs_node list \<Rightarrow> string option \<Rightarrow> file_info list \<Rightarrow> file_info list \<times> fs_result" where
  "tmp_getDirFileList ns path items =
     (if \<not> tmp_isDirExist ns path then (items, Inl STORAGE_ERROR_NOT_A_DIRECTORY)
      else let items' = items @ map (\<lambda>n. node_info (tmp_basename (Some (m_path n))) n)
                                 (filter (\<lambda>n. parentOf (m_path n) = normalize path) ns)
           in (items', Inr (int (length items'))))"

definition tmp_getTotalSize :: u64 where
  "tmp_getTotalSize = ucast TMPFS_MAX_BYTES"

definition tmp_getUsedSize :: "tmpfs_node list \<Rightarrow> u64" where
  "tmp_getUsedSize ns = ucast (usedBytes ns)"

definition tmp_getFreeSize :: "tmpfs_node list \<Rightarrow> u64" where
  "tmp_getFreeSize ns =
     (let used = ucast (usedBytes ns) in if used \<ge> ucast TMPFS_MAX_BYTES then 0 else ucast TMPFS_MAX_BYTES - used)"

section \<open>Attributes\<close>

definition FILE_ATTR_CTIME :: u8 where "FILE_ATTR_CTIME = 1"
definition FILE_ATTR_MTIME :: u8 where "FILE_ATTR_MTIME = 2"
definition FILE_ATTR_PERMS :: u8 where "FILE_ATTR_PERMS = 3"
definition FILE_ATTR_UID :: u8 where "FILE_ATTR_UID = 4"
definition FILE_ATTR_GID :: u8 where "FILE_ATTR_GID = 5"

definition put16 :: "u16 \<Rightarrow> bytes" where
  "put16 w = [ucast w, ucast (drop_bit 8 w)]"

definition put32 :: "u32 \<Rightarrow> bytes" where
  "put32 w = [ucast w, ucast (drop_bit 8 w), ucast (drop_bit 16 w), ucast (drop_bit 24 w)]"

definition get16 :: "bytes \<Rightarrow> u16" where
  "get16 b = ucast (b ! 0) OR push_bit 8 (ucast (b ! 1))"

definition get32 :: "bytes \<Rightarrow> u32" where
  "get32 b = ucast (b ! 0) OR push_bit 8 (ucast (b ! 1)) OR push_bit 16 (ucast (b ! 2)) OR push_bit 24 (ucast (b ! 3))"

text \<open>The bytes left in the buffer, whose number is what the method returns.\<close>

definition tmp_getFileAttr :: "tmpfs_node list \<Rightarrow> string option \<Rightarrow> u8 \<Rightarrow> bool \<Rightarrow> u32 \<Rightarrow> pdi_err + bytes" where
  "tmp_getFileAttr ns path type buffer sz =
     (if \<not> buffer \<or> sz = 0 then Inl PDI_ERR_INVALID_ARG
      else let norm = normalize path;
               node = (if norm = [] then Some ((new_node [] [] FILE_TYPE_DIR)\<lparr>m_perms := 0x1FF\<rparr>)
                       else map_option (\<lambda>i. ns ! i) (findNode ns norm))
           in case node of
                None \<Rightarrow> Inl PDI_ERR_NOT_FOUND
              | Some n \<Rightarrow>
                  if type = FILE_ATTR_PERMS \<and> sz \<ge> 2 then Inr (put16 (m_perms n))
                  else if type = FILE_ATTR_UID \<and> sz \<ge> 2 then Inr (put16 (m_uid n))
                  else if type = FILE_ATTR_GID \<and> sz \<ge> 2 then Inr (put16 (m_gid n))
                  else if type = FILE_ATTR_CTIME \<and> sz \<ge> 4 then Inr (put32 (m_ctime n))
                  else if type = FILE_ATTR_MTIME \<and> sz \<ge> 4 then Inr (put32 (m_mtime n))
                  else Inl STORAGE_ERROR_ATTR_NOT_FOUND)"

definition tmp_setFileAttr ::
  "tmpfs_node list \<Rightarrow> string option \<Rightarrow> u8 \<Rightarrow> bytes option \<Rightarrow> u32 \<Rightarrow> tmpfs_node list \<times> fs_result" where
  "tmp_setFileAttr ns path type buffer sz =
     (case buffer of
        None \<Rightarrow> (ns, Inl PDI_ERR_INVALID_ARG)
      | Some b \<Rightarrow>
          if sz = 0 then (ns, Inl PDI_ERR_INVALID_ARG)
          else case findNode ns (normalize path) of
            None \<Rightarrow> (ns, Inl PDI_ERR_NOT_FOUND)
          | Some idx \<Rightarrow>
              let node = ns ! idx
              in if type = FILE_ATTR_PERMS \<and> sz \<ge> 2 then (ns[idx := node\<lparr>m_perms := get16 b\<rparr>], Inr (sint sz))
                 else if type = FILE_ATTR_UID \<and> sz \<ge> 2 then (ns[idx := node\<lparr>m_uid := get16 b\<rparr>], Inr (sint sz))
                 else if type = FILE_ATTR_GID \<and> sz \<ge> 2 then (ns[idx := node\<lparr>m_gid := get16 b\<rparr>], Inr (sint sz))
                 else if type = FILE_ATTR_CTIME \<and> sz \<ge> 4 then (ns[idx := node\<lparr>m_ctime := get32 b\<rparr>], Inr (sint sz))
                 else if type = FILE_ATTR_MTIME \<and> sz \<ge> 4 then (ns[idx := node\<lparr>m_mtime := get32 b\<rparr>], Inr (sint sz))
                 else (ns, Inl STORAGE_ERROR_ATTR_NOT_FOUND))"

definition tmp_getFileMeta :: "tmpfs_node list \<Rightarrow> string option \<Rightarrow> file_info \<Rightarrow> pdi_err + file_info" where
  "tmp_getFileMeta ns path out =
     (if normalize path = []
      then Inr (node_info (fi_name out) ((new_node [] [] FILE_TYPE_DIR)\<lparr>m_perms := 0x1FF\<rparr>))
      else case findNode ns (normalize path) of
        None \<Rightarrow> Inl PDI_ERR_NOT_FOUND
      | Some i \<Rightarrow> Inr (node_info (fi_name out) (ns ! i)))"

definition tmp_setFilePermissions :: "tmpfs_node list \<Rightarrow> string option \<Rightarrow> u16 \<Rightarrow> tmpfs_node list \<times> fs_result" where
  "tmp_setFilePermissions ns path perms =
     (case findNode ns (normalize path) of
        None \<Rightarrow> (ns, Inl PDI_ERR_NOT_FOUND)
      | Some idx \<Rightarrow> (ns[idx := (ns ! idx)\<lparr>m_perms := perms\<rparr>], Inr 0))"

definition tmp_setFileOwner :: "tmpfs_node list \<Rightarrow> string option \<Rightarrow> u16 \<Rightarrow> u16 \<Rightarrow> tmpfs_node list \<times> fs_result" where
  "tmp_setFileOwner ns path uid gid =
     (case findNode ns (normalize path) of
        None \<Rightarrow> (ns, Inl PDI_ERR_NOT_FOUND)
      | Some idx \<Rightarrow> (ns[idx := (ns ! idx)\<lparr>m_uid := uid, m_gid := gid\<rparr>], Inr 0))"

end
