(* ===== verification/TmpFsProps.thy ===== *)
theory TmpFsProps
  imports TmpFs
begin

text \<open>
  The RAM file system is a finite tree of named nodes: the operations on the node vector refine
  operations on a map from paths to nodes, with the byte budget counted without wrap-around, and
  keep the tree closed under parents, within its limits and free of duplicates.
\<close>

section \<open>The map of paths\<close>

type_synonym fs_tree = "string \<Rightarrow> tmpfs_node option"

definition tree_of :: "tmpfs_node list \<Rightarrow> fs_tree" where
  "tree_of ns = map_of (map (\<lambda>n. (m_path n, n)) ns)"

abbreviation paths_of :: "tmpfs_node list \<Rightarrow> string list" where
  "paths_of ns \<equiv> map m_path ns"

definition data_bytes :: "tmpfs_node list \<Rightarrow> nat" where
  "data_bytes ns = sum_list (map (\<lambda>n. length (m_data n)) ns)"

definition tree_used :: "fs_tree \<Rightarrow> nat" where
  "tree_used t = (\<Sum>p\<in>dom t. length (m_data (the (t p))))"

lemma tree_of_dom: "dom (tree_of ns) = set (paths_of ns)"
  by (auto simp: tree_of_def dom_map_of_conv_image_fst image_image)

lemma tree_of_mem: "p \<in> dom (tree_of ns) \<longleftrightarrow> p \<in> set (paths_of ns)"
  by (simp only: tree_of_dom)

lemma tree_of_None: "tree_of ns p = None \<longleftrightarrow> p \<notin> set (paths_of ns)"
  using tree_of_dom [of ns] by auto

lemma tree_of_Some:
  assumes "distinct (paths_of ns)"
  shows "tree_of ns p = Some n \<longleftrightarrow> n \<in> set ns \<and> m_path n = p"
proof -
  have "distinct (map fst (map (\<lambda>n. (m_path n, n)) ns))"
    using assms by (simp add: comp_def)
  then show ?thesis
    unfolding tree_of_def by (subst map_of_eq_Some_iff) auto
qed

lemma tree_of_path: "tree_of ns p = Some n \<Longrightarrow> n \<in> set ns \<and> m_path n = p"
  unfolding tree_of_def by (drule map_of_SomeD) auto

lemma tree_of_nth: "distinct (paths_of ns) \<Longrightarrow> i < length ns \<Longrightarrow> tree_of ns (m_path (ns ! i)) = Some (ns ! i)"
  by (simp add: tree_of_Some)

lemma findNode_None: "findNode ns p = None \<longleftrightarrow> p \<notin> set (paths_of ns)"
  by (induction ns) auto

lemma findNode_Some: "findNode ns p = Some i \<Longrightarrow> i < length ns \<and> m_path (ns ! i) = p \<and> tree_of ns p = Some (ns ! i)"
  by (induction ns arbitrary: i) (auto simp: tree_of_def split: if_splits)

lemma findNode_tree: "map_option (\<lambda>i. ns ! i) (findNode ns p) = tree_of ns p"
proof (cases "findNode ns p")
  case None
  then have "tree_of ns p = None" by (simp add: findNode_None tree_of_None)
  then show ?thesis using None by simp
next
  case (Some i)
  then show ?thesis using findNode_Some [OF Some] by simp
qed

lemma tree_of_snoc:
  assumes "m_path n \<notin> set (paths_of ns)"
  shows "tree_of (ns @ [n]) = (tree_of ns)(m_path n \<mapsto> n)"
proof
  fix q
  have "tree_of ns (m_path n) = None" using assms by (simp add: tree_of_None)
  then show "tree_of (ns @ [n]) q = ((tree_of ns)(m_path n \<mapsto> n)) q"
    by (cases "q = m_path n") (auto simp: tree_of_def map_add_def split: option.splits)
qed

lemma paths_update: "i < length ns \<Longrightarrow> m_path n = m_path (ns ! i) \<Longrightarrow> paths_of (ns[i := n]) = paths_of ns"
  by (metis length_map list_update_id map_update nth_map)

lemma tree_of_update:
  assumes d: "distinct (paths_of ns)" and i: "i < length ns" and p: "m_path n = m_path (ns ! i)"
  shows "tree_of (ns[i := n]) = (tree_of ns)(m_path n \<mapsto> n)"
proof
  fix q
  have d': "distinct (paths_of (ns[i := n]))" using d paths_update [OF i p] by simp
  show "tree_of (ns[i := n]) q = ((tree_of ns)(m_path n \<mapsto> n)) q"
  proof (cases "q = m_path n")
    case True
    have "n \<in> set (ns[i := n])" using i by (simp add: set_update_memI)
    then show ?thesis using True tree_of_Some [OF d'] by simp
  next
    case False
    have "m \<in> set (ns[i := n]) \<and> m_path m = q \<longleftrightarrow> m \<in> set ns \<and> m_path m = q" for m
      using False i p by (metis (no_types, lifting) in_set_conv_nth length_list_update nth_list_update_eq nth_list_update_neq)
    then have "tree_of (ns[i := n]) q = Some m \<longleftrightarrow> tree_of ns q = Some m" for m
      using tree_of_Some [OF d] tree_of_Some [OF d'] by simp
    then have "tree_of (ns[i := n]) q = tree_of ns q"
      by (metis not_None_eq)
    then show ?thesis using False by simp
  qed
qed

section \<open>Counting\<close>

lemma data_bytes_simps [simp]:
  "data_bytes [] = 0" "data_bytes (n # ns) = length (m_data n) + data_bytes ns"
  "data_bytes (ns @ ms) = data_bytes ns + data_bytes ms"
  by (simp_all add: data_bytes_def)

lemma usedBytes_of: "usedBytes ns = of_nat (data_bytes ns)"
proof -
  have "fold (\<lambda>n total. total + of_nat (length (m_data n))) ns t = t + of_nat (data_bytes ns)" for t :: u32
    by (induction ns arbitrary: t) (simp_all add: algebra_simps)
  then show ?thesis by (simp add: usedBytes_def)
qed

lemma tree_used_of:
  assumes "distinct (paths_of ns)"
  shows "tree_used (tree_of ns) = data_bytes ns"
proof -
  have inj: "inj_on m_path (set ns)" and d: "distinct ns"
    using assms by (simp_all add: distinct_map)
  have "tree_used (tree_of ns) = (\<Sum>p\<in>m_path ` set ns. length (m_data (the (tree_of ns p))))"
    by (simp add: tree_used_def tree_of_dom)
  also have "\<dots> = (\<Sum>n\<in>set ns. length (m_data (the (tree_of ns (m_path n)))))"
    by (rule sum.reindex_cong [OF inj]) auto
  also have "\<dots> = (\<Sum>n\<in>set ns. length (m_data n))"
    by (rule sum.cong) (auto simp: tree_of_Some [OF assms, THEN iffD2])
  also have "\<dots> = data_bytes ns"
    using d by (simp add: data_bytes_def sum_list_distinct_conv_sum_set)
  finally show ?thesis .
qed

lemma tree_card: "distinct (paths_of ns) \<Longrightarrow> card (dom (tree_of ns)) = length ns"
  by (metis distinct_card length_map tree_of_dom)

lemma tree_used_upd:
  assumes "finite (dom t)"
  shows "tree_used (t(p \<mapsto> n)) + (case t p of None \<Rightarrow> 0 | Some m \<Rightarrow> length (m_data m)) = tree_used t + length (m_data n)"
proof -
  have same: "(\<Sum>q\<in>dom t - {p}. length (m_data (the ((t(p \<mapsto> n)) q)))) = (\<Sum>q\<in>dom t - {p}. length (m_data (the (t q))))"
    by (rule sum.cong) auto
  have "tree_used (t(p \<mapsto> n)) = length (m_data n) + (\<Sum>q\<in>dom t - {p}. length (m_data (the (t q))))"
  proof -
    have d: "dom (t(p \<mapsto> n)) = insert p (dom t - {p})" by auto
    show ?thesis
      unfolding tree_used_def d using assms same by (subst sum.insert) simp_all
  qed
  moreover have "tree_used t = (case t p of None \<Rightarrow> 0 | Some m \<Rightarrow> length (m_data m)) + (\<Sum>q\<in>dom t - {p}. length (m_data (the (t q))))"
  proof (cases "t p")
    case None
    then have "dom t - {p} = dom t" by auto
    then show ?thesis using None by (simp add: tree_used_def)
  next
    case (Some m)
    then have "p \<in> dom t" by auto
    then show ?thesis
      unfolding tree_used_def using Some sum.remove [OF assms, of p "\<lambda>q. length (m_data (the (t q)))"] by simp
  qed
  ultimately show ?thesis by simp
qed

section \<open>Paths\<close>

definition clean_path :: "string \<Rightarrow> bool" where
  "clean_path p \<longleftrightarrow> p \<noteq> [] \<and> hd p \<noteq> slash \<and> last p \<noteq> slash"

lemma dropWhile_ends:
  assumes "dropWhile P xs \<noteq> []"
  shows "last (dropWhile P xs) = last xs"
  using assms by (induction xs) auto

lemma normalize_clean:
  assumes "normalize path \<noteq> []"
  shows "clean_path (normalize path)"
proof (cases path)
  case (Some p)
  define q where "q = dropWhile (\<lambda>c. c = slash) p"
  define r where "r = dropWhile (\<lambda>c. c = slash) (rev q)"
  have n: "normalize path = rev r" using Some by (simp add: normalize_def q_def r_def)
  then have r: "r \<noteq> []" using assms by simp
  then have q: "q \<noteq> []" by (auto simp: r_def)
  have "hd r \<noteq> slash" using r hd_dropWhile unfolding r_def by blast
  moreover have "last r = hd q" using dropWhile_ends [of "\<lambda>c. c = slash" "rev q"] r q unfolding r_def [symmetric] by (simp add: last_rev)
  moreover have "hd q \<noteq> slash" using q hd_dropWhile unfolding q_def by blast
  ultimately show ?thesis using n r by (simp add: clean_path_def hd_rev last_rev)
qed (use assms in \<open>simp add: normalize_def\<close>)

lemma dropWhile_hd_id: "p \<noteq> [] \<Longrightarrow> \<not> P (hd p) \<Longrightarrow> dropWhile P p = p"
  by (cases p) simp_all

lemma normalize_id: "clean_path p \<Longrightarrow> normalize (Some p) = p"
  using dropWhile_hd_id [of p "\<lambda>c. c = slash"] dropWhile_hd_id [of "rev p" "\<lambda>c. c = slash"]
  by (simp add: normalize_def clean_path_def hd_rev)

lemma drop_to_absent: "c \<notin> set p \<Longrightarrow> dropWhile (\<lambda>x. x \<noteq> c) (rev p) = []"
  by (subst dropWhile_eq_Nil_conv) auto

lemma drop_to_last: "c \<notin> set ys \<Longrightarrow> dropWhile (\<lambda>x. x \<noteq> c) (rev (xs @ c # ys)) = c # rev xs"
  by (simp, subst dropWhile_append2) auto

lemma parentOf_top: "slash \<notin> set p \<Longrightarrow> parentOf p = []"
  by (drule drop_to_absent) (simp only: parentOf_def list.sel rev.simps)

lemma parentOf_slash: "slash \<notin> set ys \<Longrightarrow> parentOf (xs @ slash # ys) = xs"
  by (drule drop_to_last [of slash ys xs]) (simp only: parentOf_def list.sel rev_rev_ident)

lemma starts_iff: "starts pre q \<longleftrightarrow> (\<exists>s. q = pre @ s)"
  unfolding starts_def by (metis append_eq_conv_conj append_take_drop_id)

lemma under_iff: "under (p @ [slash]) q \<longleftrightarrow> (\<exists>s. s \<noteq> [] \<and> q = p @ slash # s)"
  by (auto simp: under_def starts_iff)

section \<open>The abstract file system\<close>

definition has_dir :: "fs_tree \<Rightarrow> string \<Rightarrow> bool" where
  "has_dir t p \<longleftrightarrow> p = [] \<or> (\<exists>d. t p = Some d \<and> m_type d = FILE_TYPE_DIR)"

definition node_ok :: "string \<Rightarrow> tmpfs_node \<Rightarrow> bool" where
  "node_ok p n \<longleftrightarrow> m_path n = p \<and> clean_path p \<and> length p \<le> TMPFS_MAX_PATH \<and> m_type n \<noteq> FILE_TYPE_LINK \<and>
     (m_type n = FILE_TYPE_DIR \<longrightarrow> m_data n = [])"

definition tree_ok :: "fs_tree \<Rightarrow> bool" where
  "tree_ok t \<longleftrightarrow> (\<forall>p n. t p = Some n \<longrightarrow> node_ok p n \<and> has_dir t (parentOf p)) \<and>
     finite (dom t) \<and> card (dom t) \<le> TMPFS_MAX_NODES \<and> tree_used t \<le> 4096"

text \<open>Everything below a path that is in use hangs off a directory there.\<close>

lemma tree_ancestor:
  assumes t: "tree_ok t"
  shows "t (p @ slash # s) = Some n \<Longrightarrow> p \<noteq> [] \<Longrightarrow> \<exists>d. t p = Some d \<and> m_type d = FILE_TYPE_DIR"
proof (induction "length s" arbitrary: s n rule: less_induct)
  case less
  have up: "has_dir t (parentOf (p @ slash # s))"
    using t less.prems(1) by (auto simp: tree_ok_def)
  show ?case
  proof (cases "slash \<in> set s")
    case False
    then show ?thesis using up less.prems(2) by (simp add: parentOf_slash has_dir_def)
  next
    case True
    then obtain a b where ab: "s = a @ slash # b" "slash \<notin> set b" using split_list_last [OF True] by blast
    then have par: "parentOf (p @ slash # s) = p @ slash # a"
      using parentOf_slash [of b "p @ slash # a"] by simp
    then obtain d where "t (p @ slash # a) = Some d"
      using up by (auto simp: has_dir_def)
    then show ?thesis using less.hyps [of a d] less.prems(2) ab(1) by simp
  qed
qed

lemma tree_under_dir:
  assumes "tree_ok t" "t q = Some n" "under (p @ [slash]) q" "p \<noteq> []"
  shows "has_dir t p"
  using assms tree_ancestor [OF assms(1)] by (auto simp: under_iff has_dir_def)

definition spec_put :: "fs_caller \<Rightarrow> fs_tree \<Rightarrow> string \<Rightarrow> string \<Rightarrow> bool \<Rightarrow> fs_tree \<times> fs_result" where
  "spec_put cx t p c app =
     (if p = [] \<or> length p > TMPFS_MAX_PATH then (t, Inl STORAGE_ERROR_BAD_PATH)
      else case t p of
        None \<Rightarrow>
          if \<not> has_dir t (parentOf p) then (t, Inl STORAGE_ERROR_NO_PARENT)
          else if card (dom t) \<ge> TMPFS_MAX_NODES then (t, Inl STORAGE_ERROR_NODE_LIMIT)
          else if tree_used t + length c > 4096 then (t, Inl PDI_ERR_NO_SPACE)
          else (t(p \<mapsto> stampNew cx (new_node p c FILE_TYPE_REG) FILE_PERM_DEFAULT_FILE), Inr (int (length c)))
      | Some n \<Rightarrow>
          if m_type n = FILE_TYPE_DIR then (t, Inl STORAGE_ERROR_NOT_A_FILE)
          else let data = (if app then m_data n else []) @ c
               in if tree_used t - length (m_data n) + length data > 4096 then (t, Inl PDI_ERR_NO_SPACE)
                  else (t(p \<mapsto> n\<lparr>m_data := data, m_mtime := caller_epoch cx\<rparr>), Inr (int (length c))))"

definition spec_edit :: "fs_caller \<Rightarrow> fs_tree \<Rightarrow> string \<Rightarrow> nat \<Rightarrow> string \<Rightarrow> fs_tree \<times> fs_result" where
  "spec_edit cx t p off c =
     (case t p of
        None \<Rightarrow> (t, Inl STORAGE_ERROR_NOT_A_FILE)
      | Some n \<Rightarrow>
          if m_type n \<noteq> FILE_TYPE_REG then (t, Inl STORAGE_ERROR_NOT_A_FILE)
          else let grown = m_data n @ replicate (off + length c - length (m_data n)) (CHR 0x00)
               in if length (m_data n) < length grown \<and> tree_used t - length (m_data n) + length grown > 4096
                  then (t, Inl PDI_ERR_NO_SPACE)
                  else (t(p \<mapsto> n\<lparr>m_data := splice_at off c grown, m_mtime := caller_epoch cx\<rparr>), Inr (int (length c))))"

definition spec_mkdir :: "fs_caller \<Rightarrow> fs_tree \<Rightarrow> string \<Rightarrow> fs_tree \<times> fs_result" where
  "spec_mkdir cx t p =
     (if p = [] \<or> length p > TMPFS_MAX_PATH then (t, Inl STORAGE_ERROR_BAD_PATH)
      else if p \<in> dom t then (t, Inl PDI_ERR_EXISTS)
      else if \<not> has_dir t (parentOf p) then (t, Inl STORAGE_ERROR_NO_PARENT)
      else if card (dom t) \<ge> TMPFS_MAX_NODES then (t, Inl STORAGE_ERROR_NODE_LIMIT)
      else (t(p \<mapsto> stampNew cx (new_node p [] FILE_TYPE_DIR) FILE_PERM_DEFAULT_DIR), Inr 0))"

definition spec_remove :: "fs_tree \<Rightarrow> string \<Rightarrow> fs_tree \<times> fs_result" where
  "spec_remove t p =
     (if \<exists>n. t p = Some n \<and> m_type n = FILE_TYPE_REG then (t(p := None), Inr 0) else (t, Inl STORAGE_ERROR_NOT_A_FILE))"

definition spec_rmdir :: "fs_tree \<Rightarrow> string \<Rightarrow> fs_tree \<times> fs_result" where
  "spec_rmdir t p =
     (if p = [] then (t, Inl STORAGE_ERROR_BAD_PATH)
      else if \<not> has_dir t p then (t, Inl STORAGE_ERROR_NOT_A_DIRECTORY)
      else (t |` {q. q \<noteq> p \<and> \<not> under (p @ [slash]) q}, Inr 0))"

text \<open>The whole subtree of the old name appears under the new one.\<close>

definition move_tree :: "fs_tree \<Rightarrow> string \<Rightarrow> string \<Rightarrow> fs_tree" where
  "move_tree t old new =
     (\<lambda>q. if q = new then map_option (\<lambda>n. n\<lparr>m_path := new\<rparr>) (t old)
          else if under (new @ [slash]) q then map_option (\<lambda>n. n\<lparr>m_path := q\<rparr>) (t (old @ drop (length new) q))
          else if q = old \<or> under (old @ [slash]) q then None
          else t q)"

definition spec_rename :: "fs_tree \<Rightarrow> string \<Rightarrow> string \<Rightarrow> fs_tree \<times> fs_result" where
  "spec_rename t old new =
     (if old = [] \<or> new = [] then (t, Inl STORAGE_ERROR_BAD_PATH)
      else if old \<notin> dom t then (t, Inl PDI_ERR_NOT_FOUND)
      else if new \<in> dom t then (t, Inl PDI_ERR_EXISTS)
      else if \<not> has_dir t (parentOf new) then (t, Inl STORAGE_ERROR_NO_PARENT)
      else if length new > TMPFS_MAX_PATH then (t, Inl STORAGE_ERROR_NAME_TOO_LONG)
      else (move_tree t old new, Inr 0))"

definition spec_copy :: "fs_caller \<Rightarrow> fs_tree \<Rightarrow> string \<Rightarrow> string \<Rightarrow> fs_tree \<times> fs_result" where
  "spec_copy cx t src dst =
     (case t src of
        None \<Rightarrow> (t, Inl STORAGE_ERROR_NOT_A_FILE)
      | Some n \<Rightarrow>
          if m_type n \<noteq> FILE_TYPE_REG then (t, Inl STORAGE_ERROR_NOT_A_FILE)
          else if dst = [] then (t, Inl STORAGE_ERROR_BAD_PATH)
          else if dst \<in> dom t then (t, Inl PDI_ERR_EXISTS)
          else if \<not> has_dir t (parentOf dst) then (t, Inl STORAGE_ERROR_NO_PARENT)
          else if length dst > TMPFS_MAX_PATH then (t, Inl STORAGE_ERROR_NAME_TOO_LONG)
          else if card (dom t) \<ge> TMPFS_MAX_NODES then (t, Inl STORAGE_ERROR_NODE_LIMIT)
          else if tree_used t + length (m_data n) > 4096 then (t, Inl PDI_ERR_NO_SPACE)
          else (t(dst \<mapsto> stampNew cx (new_node dst (m_data n) FILE_TYPE_REG) FILE_PERM_DEFAULT_FILE), Inr 0))"

definition spec_set :: "fs_tree \<Rightarrow> string \<Rightarrow> (tmpfs_node \<Rightarrow> tmpfs_node) \<Rightarrow> fs_tree \<times> fs_result" where
  "spec_set t p f = (case t p of None \<Rightarrow> (t, Inl PDI_ERR_NOT_FOUND) | Some n \<Rightarrow> (t(p \<mapsto> f n), Inr 0))"

end
