(* ===== verification/TmpFsRefine.thy ===== *)
theory TmpFsRefine
  imports TmpFsProps
begin

text \<open>
  Each operation of the RAM file system refines its counterpart on the map of paths, and the map
  stays a well-formed tree. The two meet in the theorem on every sequence of operations.
\<close>

section \<open>The words the operations count in\<close>

lemma max_bytes_less [simp]: "n < 2 ^ 32 \<Longrightarrow> TMPFS_MAX_BYTES < of_nat n \<longleftrightarrow> 4096 < n"
  by (simp add: TMPFS_MAX_BYTES_def word_less_nat_alt unat_of_nat)

lemma sint_of_nat_small: "n < 2 ^ 31 \<Longrightarrow> sint (of_nat n :: u32) = int n"
  by (transfer fixing: n) (simp add: signed_take_bit_int_eq_self)

lemma supplied_all: "length c < 2 ^ 32 \<Longrightarrow> supplied (Some c) (of_nat (length c)) = c"
  by (auto simp: supplied_def word_less_nat_alt unat_of_nat)

lemma of_nat_swap: "o' \<le> b \<Longrightarrow> (of_nat b - of_nat o' + of_nat l :: u32) = of_nat (b - o' + l)"
  by (simp add: of_nat_diff)

section \<open>Refinement\<close>

definition tmpfs_inv :: "tmpfs_node list \<Rightarrow> bool" where
  "tmpfs_inv ns \<longleftrightarrow> distinct (paths_of ns) \<and> tree_ok (tree_of ns)"

definition refines :: "tmpfs_node list \<times> fs_result \<Rightarrow> fs_tree \<times> fs_result \<Rightarrow> bool" where
  "refines out sp \<longleftrightarrow> distinct (paths_of (fst out)) \<and> tree_of (fst out) = fst sp \<and> snd out = snd sp"

lemma refinesI: "distinct (paths_of ns) \<Longrightarrow> tree_of ns = t \<Longrightarrow> r = r' \<Longrightarrow> refines (ns, r) (t, r')"
  by (simp add: refines_def)

lemma tmpfs_invD:
  assumes "tmpfs_inv ns"
  shows "distinct (paths_of ns)" "tree_ok (tree_of ns)" "data_bytes ns \<le> 4096" "tree_used (tree_of ns) = data_bytes ns"
    "card (dom (tree_of ns)) = length ns"
  using assms tree_used_of [of ns] tree_card [of ns] by (auto simp: tmpfs_inv_def tree_ok_def)

lemma parentExists_tree: "parentExists ns p \<longleftrightarrow> has_dir (tree_of ns) (parentOf p)"
proof (cases "findNode ns (parentOf p)")
  case None
  then have "tree_of ns (parentOf p) = None" by (simp add: findNode_None tree_of_None)
  then show ?thesis using None by (simp add: parentExists_def has_dir_def)
next
  case (Some i)
  then show ?thesis using findNode_Some [OF Some] by (auto simp: parentExists_def has_dir_def)
qed

lemma data_bytes_nth: "i < length ns \<Longrightarrow> length (m_data (ns ! i)) \<le> data_bytes ns"
  by (simp add: data_bytes_def member_le_sum_list)

lemma refines_snoc:
  assumes "tmpfs_inv ns" "m_path n \<notin> set (paths_of ns)" "p = m_path n"
  shows "refines (ns @ [n], r) ((tree_of ns)(p \<mapsto> n), r)"
  using assms tree_of_snoc [of n ns] by (auto intro!: refinesI simp: tmpfs_invD)

lemma refines_update:
  assumes "tmpfs_inv ns" "findNode ns p = Some i" "m_path n = p"
  shows "refines (ns[i := n], r) ((tree_of ns)(p \<mapsto> n), r)"
  using findNode_Some [OF assms(2)] assms paths_update [of i ns n] tree_of_update [of ns i n]
  by (auto intro!: refinesI simp: tmpfs_invD)

lemma refines_same: "tmpfs_inv ns \<Longrightarrow> refines (ns, r) (tree_of ns, r)"
  by (simp add: refines_def tmpfs_invD)

lemma used_add:
  assumes "tmpfs_inv ns" "l < 2 ^ 31"
  shows "TMPFS_MAX_BYTES < usedBytes ns + of_nat l \<longleftrightarrow> 4096 < data_bytes ns + l"
proof -
  have "data_bytes ns + l < 2 ^ 32" using assms(2) tmpfs_invD(3) [OF assms(1)] by simp
  then show ?thesis by (simp only: usedBytes_of of_nat_add [symmetric] max_bytes_less)
qed

lemma used_swap:
  assumes "tmpfs_inv ns" "l < 2 ^ 31" "i < length ns"
  shows "TMPFS_MAX_BYTES < usedBytes ns - of_nat (length (m_data (ns ! i))) + of_nat l \<longleftrightarrow>
         4096 < data_bytes ns - length (m_data (ns ! i)) + l"
proof -
  have "data_bytes ns - length (m_data (ns ! i)) + l < 2 ^ 32" using assms(2) tmpfs_invD(3) [OF assms(1)] by simp
  then show ?thesis by (simp only: usedBytes_of of_nat_swap [OF data_bytes_nth [OF assms(3)]] max_bytes_less)
qed

lemma putContent_refines:
  assumes inv: "tmpfs_inv ns" and c: "length c < 2 ^ 31"
  shows "refines (putContent cx ns p (Some c) (of_nat (length c)) app) (spec_put cx (tree_of ns) p c app)"
proof (cases "findNode ns p")
  case None
  let ?n = "stampNew cx (new_node p [] FILE_TYPE_REG) FILE_PERM_DEFAULT_FILE"
  have n: "?n\<lparr>m_data := m_data ?n @ c\<rparr> = stampNew cx (new_node p c FILE_TYPE_REG) FILE_PERM_DEFAULT_FILE"
    "m_path (stampNew cx (new_node p c FILE_TYPE_REG) FILE_PERM_DEFAULT_FILE) = p"
    by (simp_all add: stampNew_def new_node_def)
  have p: "p \<notin> set (paths_of ns)" and t: "tree_of ns p = None" using None by (auto simp: findNode_None tree_of_None)
  show ?thesis
    using c p refines_same [OF inv] refines_snoc [OF inv, of "stampNew cx (new_node p c FILE_TYPE_REG) FILE_PERM_DEFAULT_FILE" p]
    by (simp add: putContent_def spec_put_def None t n parentExists_tree used_add [OF inv] tmpfs_invD [OF inv]
        sint_of_nat_small supplied_all)
next
  case (Some i)
  let ?m = "ns ! i"
  have i: "i < length ns" "m_path ?m = p" "tree_of ns p = Some ?m" using findNode_Some [OF Some] by auto
  have u: "TMPFS_MAX_BYTES < (if app then usedBytes ns + of_nat (length c) else usedBytes ns - of_nat (length (m_data ?m)) + of_nat (length c))
    \<longleftrightarrow> 4096 < data_bytes ns - length (m_data ?m) + length ((if app then m_data ?m else []) @ c)"
    using used_add [OF inv c] used_swap [OF inv c i(1)] data_bytes_nth [OF i(1)] by (simp split: if_splits)
  show ?thesis
    using c refines_same [OF inv] refines_update [OF inv Some] i(2)
    by (simp add: putContent_def spec_put_def Some i(3) u tmpfs_invD(4) [OF inv] sint_of_nat_small supplied_all Let_def
        del: length_append)
qed

definition spec_create :: "fs_caller \<Rightarrow> fs_tree \<Rightarrow> string \<Rightarrow> string \<Rightarrow> fs_tree \<times> fs_result" where
  "spec_create cx t p c =
     (if p = [] then (t, Inl STORAGE_ERROR_BAD_PATH)
      else if p \<in> dom t then (t, Inl PDI_ERR_EXISTS) else spec_put cx t p c False)"

lemma createFile_refines:
  assumes "tmpfs_inv ns" "length c < 2 ^ 31"
  shows "refines (tmp_createFile cx ns path (Some c) (int (length c))) (spec_create cx (tree_of ns) (normalize path) c)"
  using putContent_refines [OF assms, of cx "normalize path" False] refines_same [OF assms(1)]
  by (auto simp: tmp_createFile_def spec_create_def tree_of_mem findNode_None)

section \<open>Editing in place\<close>

lemma splice_at_Cons:
  assumes "a < length xs"
  shows "splice_at (Suc a) cs (xs[a := c]) = splice_at a (c # cs) xs"
  using assms by (simp add: splice_at_def take_Suc_conv_app_nth)

lemma edit_loop_splice:
  assumes "unat at + length cs \<le> length data" "length data < 2 ^ 32"
  shows "edit_loop data at cs = Some (splice_at (unat at) cs data)"
  using assms
proof (induction cs arbitrary: data at)
  case Nil
  then show ?case by simp
next
  case (Cons c cs)
  then have "unat (at + 1) = Suc (unat at)"
    by (simp add: unat_word_ariths)
  then show ?case using Cons splice_at_Cons [of "unat at" data cs c] by simp
qed

lemma editFile_refines:
  assumes inv: "tmpfs_inv ns" and c: "unat off + length c < 2 ^ 31"
  shows "\<exists>out. tmp_editFile cx ns path off (Some c) (of_nat (length c)) = Some out \<and>
           refines out (spec_edit cx (tree_of ns) (normalize path) (unat off) c)"
proof (cases "findNode ns (normalize path)")
  case None
  then have "tree_of ns (normalize path) = None" by (simp add: findNode_None tree_of_None)
  then show ?thesis using None refines_same [OF inv] by (simp add: tmp_editFile_def spec_edit_def)
next
  case (Some i)
  let ?d = "m_data (ns ! i)" and ?at = "ucast off :: u32" and ?e = "unat off + length c"
  let ?g = "?d @ replicate (?e - length ?d) (CHR 0x00)"
  have i: "i < length ns" "m_path (ns ! i) = normalize path" "tree_of ns (normalize path) = Some (ns ! i)"
    using findNode_Some [OF Some] by auto
  have d: "length ?d \<le> 4096" using data_bytes_nth [OF i(1)] tmpfs_invD(3) [OF inv] by simp
  have at': "unat ?at = unat off" "?at + of_nat (length c) = of_nat ?e"
    using c by (simp_all add: unsigned_ucast_eq take_bit_nat_eq_self)
  have lt: "of_nat (length ?d) < (of_nat ?e :: u32) \<longleftrightarrow> length ?d < ?e"
    using c d by (simp add: word_less_nat_alt unat_of_nat del: of_nat_add)
  have e: "unat (of_nat ?e :: u32) = ?e" using c by (simp add: unat_of_nat del: of_nat_add)
  have grow: "(if length ?d < ?e then ?d @ replicate (?e - length ?d) (CHR 0x00) else ?d) = ?g" by simp
  have loop: "edit_loop ?g ?at c = Some (splice_at (unat off) c ?g)"
    using edit_loop_splice [of ?at c ?g] c d at'(1) by simp
  have loop': "edit_loop ?d ?at c = Some (splice_at (unat off) c ?d)" if "\<not> length ?d < ?e"
    using loop that by simp
  have full: "TMPFS_MAX_BYTES < usedBytes ns - of_nat (length ?d) + of_nat ?e \<longleftrightarrow> 4096 < data_bytes ns - length ?d + ?e"
    using used_swap [OF inv c i(1)] .
  have "length ?d < ?e \<Longrightarrow> length ?g = ?e" by simp
  then have room: "length ?d < length ?g \<and> 4096 < data_bytes ns - length ?d + length ?g \<longleftrightarrow>
      length ?d < ?e \<and> 4096 < data_bytes ns - length ?d + ?e"
    by (cases "length ?d < ?e") simp_all
  have sz: "sint (of_nat (length c) :: u32) = int (length c)" "take (unat (of_nat (length c) :: u32)) c = c"
    using c by (simp_all add: sint_of_nat_small unat_of_nat)
  show ?thesis
    using refines_same [OF inv] refines_update [OF inv Some] i(2)
    by (simp add: tmp_editFile_def spec_edit_def Some i(3) Let_def at'(2) lt e full room grow loop loop' sz tmpfs_invD(4) [OF inv]
        del: of_nat_add length_append)
qed

section \<open>Directories, copies, attributes\<close>

lemma createDirectory_refines:
  assumes "tmpfs_inv ns"
  shows "refines (tmp_createDirectory cx ns path) (spec_mkdir cx (tree_of ns) (normalize path))"
proof -
  let ?n = "stampNew cx (new_node (normalize path) [] FILE_TYPE_DIR) FILE_PERM_DEFAULT_DIR"
  have "m_path ?n = normalize path" by (simp add: stampNew_def new_node_def)
  then show ?thesis
    using refines_same [OF assms] refines_snoc [OF assms, of ?n "normalize path"]
    by (simp add: tmp_createDirectory_def spec_mkdir_def tree_of_mem findNode_None parentExists_tree tmpfs_invD [OF assms] Let_def)
qed

lemma tree_of_filter:
  assumes "distinct (paths_of ns)"
  shows "tree_of (filter (\<lambda>n. P (m_path n)) ns) = tree_of ns |` {q. P q}"
proof
  fix q
  have d: "distinct (paths_of (filter (\<lambda>n. P (m_path n)) ns))"
    using assms by (simp add: distinct_map_filter)
  have "tree_of (filter (\<lambda>n. P (m_path n)) ns) q = Some n \<longleftrightarrow> (tree_of ns |` {q. P q}) q = Some n" for n
    using tree_of_Some [OF d] tree_of_Some [OF assms] by (auto simp: restrict_map_def)
  then show "tree_of (filter (\<lambda>n. P (m_path n)) ns) q = (tree_of ns |` {q. P q}) q"
    by (metis not_None_eq)
qed

lemma refines_filter:
  "tmpfs_inv ns \<Longrightarrow> refines (filter (\<lambda>n. P (m_path n)) ns, r) (tree_of ns |` {q. P q}, r)"
  by (auto intro!: refinesI simp: tree_of_filter tmpfs_invD distinct_map_filter)

lemma erase_filter:
  assumes d: "distinct (paths_of ns)" and i: "i < length ns"
  shows "take i ns @ drop (Suc i) ns = filter (\<lambda>n. m_path n \<noteq> m_path (ns ! i)) ns"
proof -
  let ?P = "\<lambda>n. m_path n \<noteq> m_path (ns ! i)"
  have ns: "ns = take i ns @ ns ! i # drop (Suc i) ns" using i by (rule id_take_nth_drop)
  have "distinct (paths_of (take i ns @ ns ! i # drop (Suc i) ns))" using d ns by simp
  then have "m_path (ns ! i) \<notin> m_path ` set (take i ns)" "m_path (ns ! i) \<notin> m_path ` set (drop (Suc i) ns)"
    by simp_all
  then have "filter ?P (take i ns) = take i ns" "filter ?P (drop (Suc i) ns) = drop (Suc i) ns"
    by (auto simp: filter_id_conv image_iff)
  then have "filter ?P (take i ns @ ns ! i # drop (Suc i) ns) = take i ns @ drop (Suc i) ns"
    by simp
  then show ?thesis using ns by simp
qed

lemma deleteFile_refines:
  assumes inv: "tmpfs_inv ns"
  shows "refines (tmp_deleteFile ns path) (spec_remove (tree_of ns) (normalize path))"
proof (cases "findNode ns (normalize path)")
  case None
  then have "tree_of ns (normalize path) = None" by (simp add: findNode_None tree_of_None)
  then show ?thesis using None refines_same [OF inv] by (simp add: tmp_deleteFile_def spec_remove_def)
next
  case (Some i)
  have i: "i < length ns" "m_path (ns ! i) = normalize path" "tree_of ns (normalize path) = Some (ns ! i)"
    using findNode_Some [OF Some] by auto
  have cut: "(tree_of ns)(normalize path := None) = tree_of ns |` {q. q \<noteq> normalize path}"
    by (auto simp: restrict_map_def)
  show ?thesis
    using refines_same [OF inv] refines_filter [OF inv, of "\<lambda>q. q \<noteq> normalize path"]
    by (simp add: tmp_deleteFile_def spec_remove_def Some i(2,3) cut erase_filter [OF tmpfs_invD(1) [OF inv] i(1)])
qed

lemma deleteDirectory_refines:
  assumes inv: "tmpfs_inv ns"
  shows "refines (tmp_deleteDirectory ns path) (spec_rmdir (tree_of ns) (normalize path))"
proof (cases "findNode ns (normalize path)")
  case None
  then have "tree_of ns (normalize path) = None" by (simp add: findNode_None tree_of_None)
  then show ?thesis using None refines_same [OF inv] by (simp add: tmp_deleteDirectory_def spec_rmdir_def has_dir_def)
next
  case (Some i)
  then show ?thesis
    using findNode_Some [OF Some] refines_same [OF inv]
      refines_filter [OF inv, of "\<lambda>q. \<not> (q = normalize path \<or> under (normalize path @ [slash]) q)"]
    by (simp add: tmp_deleteDirectory_def spec_rmdir_def has_dir_def Let_def)
qed

lemma copyFile_refines:
  assumes inv: "tmpfs_inv ns"
  shows "refines (tmp_copyFile cx ns src dst) (spec_copy cx (tree_of ns) (normalize src) (normalize dst))"
proof (cases "findNode ns (normalize src)")
  case None
  then have "tree_of ns (normalize src) = None" by (simp add: findNode_None tree_of_None)
  then show ?thesis using None refines_same [OF inv] by (simp add: tmp_copyFile_def spec_copy_def)
next
  case (Some i)
  let ?n = "stampNew cx (new_node (normalize dst) (m_data (ns ! i)) FILE_TYPE_REG) FILE_PERM_DEFAULT_FILE"
  have i: "i < length ns" "tree_of ns (normalize src) = Some (ns ! i)" using findNode_Some [OF Some] by auto
  have "length (m_data (ns ! i)) < 2 ^ 31"
    using data_bytes_nth [OF i(1)] tmpfs_invD(3) [OF inv] by simp
  note room = used_add [OF inv this]
  have "m_path ?n = normalize dst" by (simp add: stampNew_def new_node_def)
  then show ?thesis
    using refines_same [OF inv] refines_snoc [OF inv, of ?n "normalize dst"]
    by (simp add: tmp_copyFile_def spec_copy_def Some i(2) tree_of_mem findNode_None parentExists_tree room
        tmpfs_invD(4,5) [OF inv] Let_def)
qed

lemma update_refines:
  assumes inv: "tmpfs_inv ns" and f: "\<And>n. m_path (f n) = m_path n"
  shows "refines (case findNode ns p of None \<Rightarrow> (ns, Inl PDI_ERR_NOT_FOUND) | Some i \<Rightarrow> (ns[i := f (ns ! i)], Inr 0))
           (spec_set (tree_of ns) p f)"
proof (cases "findNode ns p")
  case None
  then have "tree_of ns p = None" by (simp add: findNode_None tree_of_None)
  then show ?thesis using None refines_same [OF inv] by (simp add: spec_set_def)
next
  case (Some i)
  then show ?thesis
    using findNode_Some [OF Some] refines_update [OF inv Some, of "f (ns ! i)"] f by (simp add: spec_set_def)
qed

lemma setFilePermissions_refines:
  "tmpfs_inv ns \<Longrightarrow> refines (tmp_setFilePermissions ns path w) (spec_set (tree_of ns) (normalize path) (m_perms_update (\<lambda>_. w)))"
  unfolding tmp_setFilePermissions_def by (rule update_refines) simp_all

lemma setFileOwner_refines:
  "tmpfs_inv ns \<Longrightarrow> refines (tmp_setFileOwner ns path u g)
     (spec_set (tree_of ns) (normalize path) (\<lambda>n. n\<lparr>m_uid := u, m_gid := g\<rparr>))"
  unfolding tmp_setFileOwner_def by (rule update_refines) simp_all

text \<open>What setting an attribute changes of a node, if the type is known and the size is enough.\<close>

definition attr_update :: "u8 \<Rightarrow> bytes \<Rightarrow> u32 \<Rightarrow> (tmpfs_node \<Rightarrow> tmpfs_node) option" where
  "attr_update type b sz =
     (if type = FILE_ATTR_PERMS \<and> sz \<ge> 2 then Some (m_perms_update (\<lambda>_. get16 b))
      else if type = FILE_ATTR_UID \<and> sz \<ge> 2 then Some (m_uid_update (\<lambda>_. get16 b))
      else if type = FILE_ATTR_GID \<and> sz \<ge> 2 then Some (m_gid_update (\<lambda>_. get16 b))
      else if type = FILE_ATTR_CTIME \<and> sz \<ge> 4 then Some (m_ctime_update (\<lambda>_. get32 b))
      else if type = FILE_ATTR_MTIME \<and> sz \<ge> 4 then Some (m_mtime_update (\<lambda>_. get32 b))
      else None)"

definition spec_attr :: "fs_tree \<Rightarrow> string \<Rightarrow> u8 \<Rightarrow> bytes \<Rightarrow> u32 \<Rightarrow> fs_tree \<times> fs_result" where
  "spec_attr t p type b sz =
     (if sz = 0 then (t, Inl PDI_ERR_INVALID_ARG)
      else case (t p, attr_update type b sz) of
        (None, _) \<Rightarrow> (t, Inl PDI_ERR_NOT_FOUND)
      | (Some n, Some f) \<Rightarrow> (t(p \<mapsto> f n), Inr (sint sz))
      | (Some n, None) \<Rightarrow> (t, Inl STORAGE_ERROR_ATTR_NOT_FOUND))"

lemma setFileAttr_refines:
  assumes inv: "tmpfs_inv ns"
  shows "refines (tmp_setFileAttr ns path type (Some b) sz) (spec_attr (tree_of ns) (normalize path) type b sz)"
proof (cases "findNode ns (normalize path)")
  case None
  then have "tree_of ns (normalize path) = None" by (simp add: findNode_None tree_of_None)
  then show ?thesis using None refines_same [OF inv] by (simp add: tmp_setFileAttr_def spec_attr_def)
next
  case (Some i)
  then show ?thesis
    using findNode_Some [OF Some] refines_same [OF inv] refines_update [OF inv Some]
    by (simp add: tmp_setFileAttr_def spec_attr_def attr_update_def Let_def FILE_ATTR_PERMS_def FILE_ATTR_UID_def
        FILE_ATTR_GID_def FILE_ATTR_CTIME_def FILE_ATTR_MTIME_def)
qed

definition spec_touch :: "fs_caller \<Rightarrow> fs_tree \<Rightarrow> string \<Rightarrow> fs_tree \<times> fs_result" where
  "spec_touch cx t p =
     (if p \<in> dom t then spec_set t p (m_mtime_update (\<lambda>_. caller_epoch cx)) else spec_create cx t p [])"

lemma touch_refines:
  assumes inv: "tmpfs_inv ns"
  shows "refines (tmp_touch cx ns path) (spec_touch cx (tree_of ns) (normalize path))"
proof (cases "findNode ns (normalize path)")
  case None
  have "putContent cx ns p None 0 False = putContent cx ns p (Some []) (of_nat (length [])) False" for p
    by (simp add: putContent_def supplied_def Let_def split: option.split)
  then have "tmp_createFile cx ns path None 0 = tmp_createFile cx ns path (Some []) (int (length []))"
    by (simp add: tmp_createFile_def Let_def)
  moreover have "normalize path \<notin> dom (tree_of ns)"
    using None by (simp only: findNode_None tree_of_mem) simp
  ultimately show ?thesis
    using None createFile_refines [OF inv, of "[]" cx path] by (simp add: tmp_touch_def spec_touch_def)
next
  case (Some i)
  then have "normalize path \<in> dom (tree_of ns)" using findNode_Some by blast
  then show ?thesis
    using Some update_refines [OF inv, of "m_mtime_update (\<lambda>_. caller_epoch cx)" "normalize path"]
    by (simp add: tmp_touch_def spec_touch_def)
qed

section \<open>Renaming\<close>

definition new_name :: "string \<Rightarrow> string \<Rightarrow> string \<Rightarrow> string" where
  "new_name old new p = (if p = old then new else if under (old @ [slash]) p then new @ drop (length old) p else p)"

abbreviation relabel :: "(string \<Rightarrow> string) \<Rightarrow> tmpfs_node \<Rightarrow> tmpfs_node" where
  "relabel f n \<equiv> n\<lparr>m_path := f (m_path n)\<rparr>"

lemma relabel_same [simp]: "m_path n = q \<Longrightarrow> n\<lparr>m_path := q\<rparr> = n"
  by auto

text \<open>Nothing of the tree lies at or below a name that is free.\<close>

lemma nothing_below:
  assumes "tree_ok t" "new \<notin> dom t" "new \<noteq> []" "p \<in> dom t"
  shows "p \<noteq> new" "s \<noteq> [] \<Longrightarrow> p \<noteq> new @ slash # s"
proof -
  show "p \<noteq> new" using assms by blast
  show "p \<noteq> new @ slash # s" if "s \<noteq> []"
  proof
    assume "p = new @ slash # s"
    then obtain n where "t (new @ slash # s) = Some n" using assms(4) by blast
    then show False using tree_ancestor [OF assms(1), of new s n] assms(2,3) by blast
  qed
qed

lemma new_name_cases:
  obtains "p = old" "new_name old new p = new"
  | s where "s \<noteq> []" "p = old @ slash # s" "new_name old new p = new @ slash # s"
  | "p \<noteq> old" "\<not> under (old @ [slash]) p" "new_name old new p = p"
proof (cases "p = old")
  case False
  note ne = False
  show thesis
  proof (cases "under (old @ [slash]) p")
    case True
    then obtain s where "s \<noteq> []" "p = old @ slash # s" by (auto simp: under_iff)
    then show thesis using that(2) True ne by (simp add: new_name_def)
  qed (use ne that(3) in \<open>simp add: new_name_def\<close>)
qed (use that(1) in \<open>simp add: new_name_def\<close>)

lemma new_name_inj:
  assumes "tree_ok t" "new \<notin> dom t" "new \<noteq> []"
  shows "inj_on (new_name old new) (dom t)"
proof (rule inj_onI)
  fix p q
  assume dom: "p \<in> dom t" "q \<in> dom t" and eq: "new_name old new p = new_name old new q"
  note out = nothing_below [OF assms dom(1)] nothing_below [OF assms dom(2)]
  show "p = q"
  proof (rule new_name_cases [of p old new])
    assume p: "p = old" "new_name old new p = new"
    show ?thesis
      by (rule new_name_cases [of q old new]) (use p eq out(3) in auto)
  next
    fix s
    assume s: "s \<noteq> []" "p = old @ slash # s" "new_name old new p = new @ slash # s"
    show ?thesis
      by (rule new_name_cases [of q old new]) (use s eq out(4) [OF s(1)] in auto)
  next
    assume p: "new_name old new p = p"
    show ?thesis
      by (rule new_name_cases [of q old new]) (use p eq out(1,2) in metis)+
  qed
qed

lemma move_tree_iff:
  assumes "tree_ok t" "new \<notin> dom t" "new \<noteq> []"
  shows "move_tree t old new q = Some m \<longleftrightarrow> (\<exists>p n. t p = Some n \<and> new_name old new p = q \<and> m = n\<lparr>m_path := q\<rparr>)"
proof -
  have path: "m_path n = p" if "t p = Some n" for p n
    using that assms(1) by (auto simp: tree_ok_def node_ok_def)
  have out: "p \<noteq> new" "r \<noteq> [] \<Longrightarrow> p \<noteq> new @ slash # r" if "t p = Some n" for p n r
    using nothing_below [OF assms] that by blast+
  consider "q = new" | s where "q = new @ slash # s" "s \<noteq> []" | "q \<noteq> new" "\<not> under (new @ [slash]) q"
    by (auto simp: under_iff)
  then show ?thesis
  proof cases
    case 1
    have "new_name old new p = new \<longleftrightarrow> p = old" if "t p = Some n" for p n
      by (rule new_name_cases [of p old new]) (use out [OF that] in auto)
    then show ?thesis using 1 by (auto simp: move_tree_def)
  next
    case 2
    have "new_name old new p = q \<longleftrightarrow> p = old @ slash # s" if "t p = Some n" for p n
      by (rule new_name_cases [of p old new]) (use out(2) [OF that] 2 in \<open>auto simp: under_iff\<close>)
    moreover have "under (new @ [slash]) q" "q \<noteq> new" "drop (length new) q = slash # s"
      using 2 by (auto simp: under_iff)
    ultimately show ?thesis by (auto simp: move_tree_def)
  next
    case 3
    have k: "new_name old new p = q \<longleftrightarrow> p = q \<and> p \<noteq> old \<and> \<not> under (old @ [slash]) p" if "t p = Some n" for p n
      by (rule new_name_cases [of p old new]) (use 3 in \<open>auto simp: under_iff\<close>)
    have "(\<exists>p n. t p = Some n \<and> new_name old new p = q \<and> m = n\<lparr>m_path := q\<rparr>) \<longleftrightarrow>
        q \<noteq> old \<and> \<not> under (old @ [slash]) q \<and> (\<exists>n. t q = Some n \<and> m = n\<lparr>m_path := q\<rparr>)"
      using k by metis
    also have "\<dots> \<longleftrightarrow> q \<noteq> old \<and> \<not> under (old @ [slash]) q \<and> t q = Some m"
      using path by (metis relabel_same)
    finally show ?thesis using 3 by (simp add: move_tree_def)
  qed
qed

lemma tree_of_relabel:
  assumes inv: "tmpfs_inv ns" and new: "new \<notin> dom (tree_of ns)" "new \<noteq> []"
  shows "distinct (paths_of (map (relabel (new_name old new)) ns))"
    "tree_of (map (relabel (new_name old new)) ns) = move_tree (tree_of ns) old new"
proof -
  let ?ms = "map (relabel (new_name old new)) ns"
  have "paths_of ?ms = map (new_name old new) (paths_of ns)" by simp
  then show d: "distinct (paths_of ?ms)"
    using new_name_inj [OF tmpfs_invD(2) [OF inv] new, of old] tmpfs_invD(1) [OF inv] tree_of_dom [of ns]
    by (simp only: distinct_map)
  show "tree_of ?ms = move_tree (tree_of ns) old new"
  proof
    fix q
    have "tree_of ?ms q = Some m \<longleftrightarrow> move_tree (tree_of ns) old new q = Some m" for m
      unfolding tree_of_Some [OF d] move_tree_iff [OF tmpfs_invD(2) [OF inv] new]
      using tree_of_Some [OF tmpfs_invD(1) [OF inv]] by auto
    then show "tree_of ?ms q = move_tree (tree_of ns) old new q"
      by (metis not_None_eq)
  qed
qed

lemma rename_list:
  assumes inv: "tmpfs_inv ns" and i: "findNode ns old = Some i" and old: "old \<noteq> []" and out: "\<not> under (old @ [slash]) new"
  defines "moved \<equiv> ns[i := (ns ! i)\<lparr>m_path := new\<rparr>]"
  shows "(if m_type (ns ! i) = FILE_TYPE_DIR
      then map (\<lambda>n. if under (old @ [slash]) (m_path n)
                    then n\<lparr>m_path := (new @ [slash]) @ drop (length (old @ [slash])) (m_path n)\<rparr> else n) moved
      else moved) = map (relabel (new_name old new)) ns" (is "?l = ?r")
proof (rule nth_equalityI)
  show "length ?l = length ?r" by (simp add: moved_def)
  fix j
  assume "j < length ?l"
  then have j: "j < length ns" by (simp add: moved_def split: if_splits)
  have d: "distinct (paths_of ns)" and t: "tree_ok (tree_of ns)" using tmpfs_invD [OF inv] by auto
  have old_i: "i < length ns" "m_path (ns ! i) = old" "tree_of ns old = Some (ns ! i)" using findNode_Some [OF i] by auto
  show "?l ! j = ?r ! j"
  proof (cases "j = i")
    case True
    then show ?thesis using old_i out by (simp add: moved_def new_name_def)
  next
    case False
    then have ne: "m_path (ns ! j) \<noteq> old" using d j old_i by (metis length_map nth_eq_iff_index_eq nth_map)
    have dir: "m_type (ns ! i) = FILE_TYPE_DIR" if "under (old @ [slash]) (m_path (ns ! j))"
      using tree_under_dir [OF t tree_of_nth [OF d j] that old] old old_i by (simp add: has_dir_def)
    have cut: "new @ slash # drop (Suc (length old)) (m_path (ns ! j)) = new @ drop (length old) (m_path (ns ! j))"
      if "under (old @ [slash]) (m_path (ns ! j))" using that by (auto simp: under_iff)
    show ?thesis using False j ne dir cut by (auto simp: moved_def new_name_def)
  qed
qed

lemma rename_refines:
  assumes inv: "tmpfs_inv ns" and out: "\<not> under (normalize old @ [slash]) (normalize new)"
  shows "refines (tmp_rename ns old new) (spec_rename (tree_of ns) (normalize old) (normalize new))"
proof (cases "findNode ns (normalize old)")
  case None
  then have "normalize old \<notin> dom (tree_of ns)" by (simp only: findNode_None tree_of_mem) simp
  then show ?thesis using None refines_same [OF inv] by (simp add: tmp_rename_def spec_rename_def)
next
  case (Some i)
  then have "normalize old \<in> dom (tree_of ns)" using findNode_Some by blast
  moreover have "refines (map (relabel (new_name (normalize old) (normalize new))) ns, Inr 0)
      (move_tree (tree_of ns) (normalize old) (normalize new), Inr 0)"
    if "normalize new \<notin> dom (tree_of ns)" "normalize new \<noteq> []"
    using tree_of_relabel [OF inv that] by (auto intro!: refinesI)
  moreover have "findNode ns (normalize new) \<noteq> None \<longleftrightarrow> normalize new \<in> dom (tree_of ns)"
    by (simp only: findNode_None tree_of_mem) simp
  ultimately show ?thesis
    using refines_same [OF inv] rename_list [OF inv Some _ out]
    by (simp add: tmp_rename_def spec_rename_def Some parentExists_tree Let_def del: map_map)
qed

end
