(* ===== verification/TmpFsInv.thy ===== *)
theory TmpFsInv
  imports TmpFsRefine
begin

text \<open>
  The operations on the map of paths keep it a well-formed tree within the limits of the file system;
  with the refinement this gives the invariant of the node vector over every sequence of calls. The
  one call that breaks it, renaming a directory to a name below itself, is shown to.
\<close>

section \<open>Updating a tree\<close>

lemma has_dir_mono: "has_dir t p \<Longrightarrow> (\<And>d. t p = Some d \<Longrightarrow> m_type d = FILE_TYPE_DIR \<Longrightarrow> has_dir t' p) \<Longrightarrow> has_dir t' p"
  by (auto simp: has_dir_def)

lemma tree_ok_new:
  assumes "tree_ok t" "t p = None" "node_ok p n" "has_dir t (parentOf p)" "card (dom t) < TMPFS_MAX_NODES"
    "tree_used t + length (m_data n) \<le> 4096"
  shows "tree_ok (t(p \<mapsto> n))"
proof -
  have fin: "finite (dom t)" using assms(1) by (simp add: tree_ok_def)
  have "has_dir (t(p \<mapsto> n)) q" if "has_dir t q" for q
    using that assms(2) by (auto simp: has_dir_def)
  moreover have "card (dom (t(p \<mapsto> n))) = Suc (card (dom t))"
    using fin assms(2) by (simp add: domIff)
  moreover have "tree_used (t(p \<mapsto> n)) = tree_used t + length (m_data n)"
    using tree_used_upd [OF fin, of p n] assms(2) by simp
  ultimately show ?thesis
    using assms by (auto simp: tree_ok_def)
qed

lemma tree_ok_same:
  assumes "tree_ok t" "t p = Some m" "node_ok p n" "m_type n = m_type m"
    "tree_used t - length (m_data m) + length (m_data n) \<le> 4096"
  shows "tree_ok (t(p \<mapsto> n))"
proof -
  have fin: "finite (dom t)" using assms(1) by (simp add: tree_ok_def)
  have "has_dir (t(p \<mapsto> n)) q" if "has_dir t q" for q
    using that assms(2,4) by (auto simp: has_dir_def)
  moreover have "has_dir t (parentOf p)" using assms(1,2) by (auto simp: tree_ok_def)
  moreover have "dom (t(p \<mapsto> n)) = dom t" using assms(2) by auto
  moreover have "tree_used (t(p \<mapsto> n)) \<le> 4096"
    using tree_used_upd [OF fin, of p n] assms(2,5) by simp
  ultimately show ?thesis
    using assms(1,3) by (auto simp: tree_ok_def)
qed

lemma tree_ok_restrict:
  assumes t: "tree_ok t" and up: "\<And>q n. t q = Some n \<Longrightarrow> q \<in> S \<Longrightarrow> parentOf q = [] \<or> parentOf q \<in> S"
  shows "tree_ok (t |` S)"
proof -
  have fin: "finite (dom t)" using t by (simp add: tree_ok_def)
  have dom: "dom (t |` S) = dom t \<inter> S" by (auto simp: restrict_map_def split: if_splits)
  have "tree_used (t |` S) = (\<Sum>p\<in>dom t \<inter> S. length (m_data (the (t p))))"
    unfolding tree_used_def dom by (rule sum.cong) (auto simp: restrict_map_def)
  also have "\<dots> \<le> tree_used t"
    unfolding tree_used_def using fin by (intro sum_mono2) auto
  finally have "tree_used (t |` S) \<le> tree_used t" .
  moreover have "card (dom (t |` S)) \<le> card (dom t)" using fin by (simp add: dom card_mono)
  moreover have "node_ok q n \<and> has_dir (t |` S) (parentOf q)" if "(t |` S) q = Some n" for q n
    using that t up [of q n] by (auto simp: tree_ok_def restrict_map_def has_dir_def split: if_splits)
  ultimately show ?thesis
    using t fin by (auto simp: tree_ok_def dom)
qed

lemma parentOf_child:
  assumes "parentOf q = r" "r \<noteq> []"
  obtains x where "q = r @ slash # x" "slash \<notin> set x"
proof (cases "slash \<in> set q")
  case False
  then show thesis using assms parentOf_top by simp
next
  case True
  then obtain a b where "q = a @ slash # b" "slash \<notin> set b" using split_list_last [OF True] by blast
  then show thesis using that assms parentOf_slash by simp
qed

lemma clean_child:
  assumes "clean_path (r @ slash # x)"
  shows "x \<noteq> []"
  using assms by (auto simp: clean_path_def)

text \<open>A path outside a subtree has its parent outside as well.\<close>

lemma parent_outside:
  assumes "clean_path q" "\<not> under (p @ [slash]) q" "parentOf q \<noteq> []"
  shows "parentOf q \<noteq> p" "\<not> under (p @ [slash]) (parentOf q)"
proof -
  obtain x where x: "q = parentOf q @ slash # x" using parentOf_child [OF _ assms(3)] by metis
  then have "x \<noteq> []" using assms(1) clean_child by metis
  then show "parentOf q \<noteq> p" using x assms(2) by (auto simp: under_iff)
  show "\<not> under (p @ [slash]) (parentOf q)"
  proof
    assume "under (p @ [slash]) (parentOf q)"
    then obtain s where "parentOf q = p @ slash # s" by (auto simp: under_iff)
    then have "q = p @ slash # s @ slash # x" using x by simp
    then show False using assms(2) by (auto simp: under_iff)
  qed
qed

text \<open>Cutting a subtree off, or a file, leaves no node without its parent.\<close>

lemma tree_ok_cut:
  assumes t: "tree_ok t"
  shows "tree_ok (t |` {q. q \<noteq> p \<and> \<not> under (p @ [slash]) q})"
proof (rule tree_ok_restrict [OF t])
  fix q n
  assume "t q = Some n" "q \<in> {q. q \<noteq> p \<and> \<not> under (p @ [slash]) q}"
  then show "parentOf q = [] \<or> parentOf q \<in> {q. q \<noteq> p \<and> \<not> under (p @ [slash]) q}"
    using t parent_outside [of q p] by (auto simp: tree_ok_def node_ok_def)
qed

lemma tree_ok_remove:
  assumes t: "tree_ok t" and p: "t p = Some n" "m_type n = FILE_TYPE_REG"
  shows "tree_ok (t(p := None))"
proof -
  have "p \<noteq> []" using t p by (auto simp: tree_ok_def node_ok_def clean_path_def)
  then have "\<not> under (p @ [slash]) q" if "t q = Some m" for q m
    using tree_under_dir [OF t that, of p] p by (auto simp: has_dir_def)
  then have "t(p := None) = t |` {q. q \<noteq> p \<and> \<not> under (p @ [slash]) q}"
    by (auto simp: restrict_map_def fun_eq_iff) (metis not_None_eq)
  then show ?thesis using tree_ok_cut [OF t] by simp
qed

section \<open>Moving a subtree\<close>

lemma parent_new_name:
  assumes t: "tree_ok t" and p: "t p = Some n" "p \<noteq> old" and old: "old \<noteq> []"
  shows "parentOf (new_name old new p) = new_name old new (parentOf p)"
proof -
  have top: "new_name old new [] = []" using old by (simp add: new_name_def under_def)
  have clean: "clean_path p" and up: "has_dir t (parentOf p)" using t p by (auto simp: tree_ok_def node_ok_def)
  show ?thesis
  proof (rule new_name_cases [of p old new])
    assume "p = old"
    then show ?thesis using p(2) by simp
  next
    fix s
    assume s: "s \<noteq> []" "p = old @ slash # s" "new_name old new p = new @ slash # s"
    show ?thesis
    proof (cases "slash \<in> set s")
      case False
      then show ?thesis using s by (simp add: parentOf_slash new_name_def)
    next
      case True
      then obtain a b where ab: "s = a @ slash # b" "slash \<notin> set b" using split_list_last [OF True] by blast
      then have par: "parentOf p = old @ slash # a" "parentOf (new_name old new p) = new @ slash # a"
        using s parentOf_slash [of b "old @ slash # a"] parentOf_slash [of b "new @ slash # a"] by simp_all
      then obtain d where "t (old @ slash # a) = Some d" using up by (auto simp: has_dir_def)
      then have "clean_path (old @ slash # a)" using t by (auto simp: tree_ok_def node_ok_def)
      then have "under (old @ [slash]) (old @ slash # a)" using clean_child by (auto simp: under_iff)
      then show ?thesis using par by (simp add: new_name_def)
    qed
  next
    assume "\<not> under (old @ [slash]) p" and q: "new_name old new p = p"
    then show ?thesis
      using parent_outside [OF clean, of old] top by (cases "parentOf p = []") (simp_all add: new_name_def)
  qed
qed

lemma move_tree_shape:
  assumes t: "tree_ok t" and new: "new \<notin> dom t" "clean_path new" "length new \<le> TMPFS_MAX_PATH" "has_dir t (parentOf new)"
    and old: "old \<in> dom t" "\<not> under (old @ [slash]) new"
    and fits: "\<And>q. q \<in> dom t \<Longrightarrow> under (old @ [slash]) q \<Longrightarrow> length new + length q \<le> TMPFS_MAX_PATH + length old"
    and q: "move_tree t old new q = Some m"
  shows "node_ok q m \<and> has_dir (move_tree t old new) (parentOf q)"
proof -
  have ne: "new \<noteq> []" "old \<noteq> []"
    using new(2) old(1) t by (auto simp: tree_ok_def node_ok_def clean_path_def)
  note iff = move_tree_iff [OF t new(1) ne(1), of old]
  have dirs: "has_dir (move_tree t old new) (new_name old new r)" if r: "has_dir t r" for r
  proof (cases "r = []")
    case True
    then show ?thesis using ne(2) by (simp add: has_dir_def new_name_def under_def)
  next
    case False
    then obtain d where "t r = Some d" "m_type d = FILE_TYPE_DIR" using r by (auto simp: has_dir_def)
    then have "move_tree t old new (new_name old new r) = Some (d\<lparr>m_path := new_name old new r\<rparr>)" using iff by blast
    then show ?thesis using \<open>m_type d = FILE_TYPE_DIR\<close> by (simp add: has_dir_def)
  qed
  have keep: "new_name old new (parentOf new) = parentOf new"
    using parent_outside [OF new(2) old(2)] ne(2) by (cases "parentOf new = []") (auto simp: new_name_def under_def)
  obtain p n where p: "t p = Some n" "new_name old new p = q" "m = n\<lparr>m_path := q\<rparr>"
    using q iff by blast
  have n: "node_ok p n" "has_dir t (parentOf p)" using t p(1) by (auto simp: tree_ok_def)
  have path: "clean_path q \<and> length q \<le> TMPFS_MAX_PATH"
  proof (rule new_name_cases [of p old new])
    fix s
    assume s: "s \<noteq> []" "p = old @ slash # s" "new_name old new p = new @ slash # s"
    then have "under (old @ [slash]) p" by (auto simp: under_iff)
    then have "length new + length p \<le> TMPFS_MAX_PATH + length old" using fits p(1) by blast
    moreover have "q = new @ slash # s" using s(3) p(2) by simp
    ultimately show ?thesis using s(1,2) n(1) new(2) by (auto simp: node_ok_def clean_path_def)
  qed (use p n new in \<open>auto simp: node_ok_def\<close>)
  have "has_dir (move_tree t old new) (parentOf q)"
  proof (cases "p = old")
    case True
    then have "q = new" using p(2) by (simp add: new_name_def)
    then show ?thesis using dirs [OF new(4)] keep by simp
  next
    case False
    then show ?thesis using parent_new_name [OF t p(1) False ne(2), of new] dirs [OF n(2)] p(2) by simp
  qed
  then show ?thesis using n(1) p(3) path by (simp add: node_ok_def)
qed

section \<open>Every operation keeps the tree\<close>

lemma spec_put_ok:
  assumes t: "tree_ok t" and p: "p = [] \<or> clean_path p"
  shows "tree_ok (fst (spec_put cx t p c app))"
proof (cases "t p")
  case None
  let ?n = "stampNew cx (new_node p c FILE_TYPE_REG) FILE_PERM_DEFAULT_FILE"
  have "tree_ok (t(p \<mapsto> ?n))" if "p \<noteq> []" "\<not> TMPFS_MAX_PATH < length p" "has_dir t (parentOf p)"
    "\<not> TMPFS_MAX_NODES \<le> card (dom t)" "\<not> 4096 < tree_used t + length c"
    by (rule tree_ok_new [OF t None]) (use that p in \<open>auto simp: node_ok_def stampNew_def new_node_def\<close>)
  then show ?thesis using None t by (simp add: spec_put_def)
next
  case (Some n)
  let ?d = "(if app then m_data n else []) @ c"
  have "tree_ok (t(p \<mapsto> n\<lparr>m_data := ?d, m_mtime := caller_epoch cx\<rparr>))"
    if "m_type n \<noteq> FILE_TYPE_DIR" "\<not> 4096 < tree_used t - length (m_data n) + length ?d"
    by (rule tree_ok_same [OF t Some]) (use that t Some in \<open>auto simp: node_ok_def tree_ok_def\<close>)
  then show ?thesis using Some t by (simp add: spec_put_def Let_def del: length_append)
qed

lemma spec_create_ok: "tree_ok t \<Longrightarrow> p = [] \<or> clean_path p \<Longrightarrow> tree_ok (fst (spec_create cx t p c))"
  using spec_put_ok [of t p cx c False] by (simp add: spec_create_def)

lemma tree_used_ge:
  assumes "tree_ok t" "t p = Some n"
  shows "length (m_data n) \<le> tree_used t"
  using assms member_le_sum [of p "dom t" "\<lambda>q. length (m_data (the (t q)))"] by (auto simp: tree_used_def tree_ok_def)

lemma spec_edit_ok:
  assumes t: "tree_ok t"
  shows "tree_ok (fst (spec_edit cx t p off c))"
proof (cases "t p")
  case (Some n)
  let ?g = "m_data n @ replicate (off + length c - length (m_data n)) (CHR 0x00)"
  have len: "length (splice_at off c ?g) = length ?g" by simp
  have used: "length (m_data n) \<le> tree_used t" "tree_used t \<le> 4096" using tree_used_ge [OF t Some] t by (simp_all add: tree_ok_def)
  have "tree_ok (t(p \<mapsto> n\<lparr>m_data := splice_at off c ?g, m_mtime := caller_epoch cx\<rparr>))"
    if "m_type n = FILE_TYPE_REG" "\<not> (length (m_data n) < length ?g \<and> 4096 < tree_used t - length (m_data n) + length ?g)"
  proof (rule tree_ok_same [OF t Some])
    have "tree_used t - length (m_data n) + length ?g \<le> 4096"
      using that(2) used by (cases "length (m_data n) < length ?g") auto
    then show "tree_used t - length (m_data n) + length (m_data (n\<lparr>m_data := splice_at off c ?g, m_mtime := caller_epoch cx\<rparr>)) \<le> 4096"
      using len by simp
  qed (use that t Some in \<open>auto simp: node_ok_def tree_ok_def\<close>)
  then show ?thesis using Some t by (simp add: spec_edit_def Let_def del: length_append)
qed (simp add: spec_edit_def t)

lemma spec_mkdir_ok: "tree_ok t \<Longrightarrow> p = [] \<or> clean_path p \<Longrightarrow> tree_ok (fst (spec_mkdir cx t p))"
  using tree_ok_new [of t p "stampNew cx (new_node p [] FILE_TYPE_DIR) FILE_PERM_DEFAULT_DIR"]
  by (auto simp: spec_mkdir_def tree_ok_def [of t] node_ok_def stampNew_def new_node_def domIff)

lemma spec_remove_ok: "tree_ok t \<Longrightarrow> tree_ok (fst (spec_remove t p))"
  using tree_ok_remove [of t p] by (auto simp: spec_remove_def)

lemma spec_rmdir_ok: "tree_ok t \<Longrightarrow> tree_ok (fst (spec_rmdir t p))"
  using tree_ok_cut [of t p] by (simp add: spec_rmdir_def)

lemma spec_copy_ok:
  assumes t: "tree_ok t" and p: "dst = [] \<or> clean_path dst"
  shows "tree_ok (fst (spec_copy cx t src dst))"
proof (cases "t src")
  case (Some n)
  have "tree_ok (t(dst \<mapsto> stampNew cx (new_node dst (m_data n) FILE_TYPE_REG) FILE_PERM_DEFAULT_FILE))"
    if "dst \<noteq> []" "dst \<notin> dom t" "has_dir t (parentOf dst)" "\<not> TMPFS_MAX_PATH < length dst"
      "\<not> TMPFS_MAX_NODES \<le> card (dom t)" "\<not> 4096 < tree_used t + length (m_data n)"
    by (rule tree_ok_new [OF t]) (use that p in \<open>auto simp: node_ok_def stampNew_def new_node_def\<close>)
  then show ?thesis using Some t by (simp add: spec_copy_def)
qed (simp add: spec_copy_def t)

lemma spec_set_ok:
  assumes t: "tree_ok t" and f: "\<And>n. m_path (f n) = m_path n \<and> m_data (f n) = m_data n \<and> m_type (f n) = m_type n"
  shows "tree_ok (fst (spec_set t p f))"
proof (cases "t p")
  case (Some n)
  have used: "tree_used t - length (m_data n) + length (m_data n) \<le> 4096"
    using tree_used_ge [OF t Some] t by (simp add: tree_ok_def)
  have "tree_ok (t(p \<mapsto> f n))"
    by (rule tree_ok_same [OF t Some]) (use f t Some used in \<open>auto simp: node_ok_def tree_ok_def\<close>)
  then show ?thesis using Some by (simp add: spec_set_def)
qed (simp add: spec_set_def t)

lemma attr_update_keeps:
  "attr_update type b sz = Some f \<Longrightarrow> m_path (f n) = m_path n \<and> m_data (f n) = m_data n \<and> m_type (f n) = m_type n"
  by (auto simp: attr_update_def split: if_splits)

lemma spec_attr_ok:
  assumes t: "tree_ok t"
  shows "tree_ok (fst (spec_attr t p type b sz))"
proof (cases "attr_update type b sz")
  case (Some f)
  have "tree_ok (fst (spec_set t p f))" using t attr_update_keeps [OF Some] by (rule spec_set_ok)
  then show ?thesis using t Some by (simp add: spec_attr_def spec_set_def split: option.splits)
qed (simp add: spec_attr_def t split: option.split)

section \<open>Sequences of calls\<close>

datatype fs_op =
    OpCreateFile "string option" string
  | OpWriteFile "string option" string bool
  | OpEditFile "string option" u64 string
  | OpCreateDirectory "string option"
  | OpDeleteFile "string option"
  | OpDeleteDirectory "string option"
  | OpRename "string option" "string option"
  | OpCopyFile "string option" "string option"
  | OpTouch "string option"
  | OpSetFilePermissions "string option" u16
  | OpSetFileOwner "string option" u16 u16
  | OpSetFileAttr "string option" u8 bytes

text \<open>A call as its callers make it, with the size of the buffer passed along.\<close>

fun tmp_step :: "fs_caller \<Rightarrow> tmpfs_node list \<Rightarrow> fs_op \<Rightarrow> (tmpfs_node list \<times> fs_result) option" where
  "tmp_step cx ns (OpCreateFile p c) = Some (tmp_createFile cx ns p (Some c) (int (length c)))"
| "tmp_step cx ns (OpWriteFile p c app) = Some (tmp_writeFile cx ns p (Some c) (of_nat (length c)) app)"
| "tmp_step cx ns (OpEditFile p off c) = tmp_editFile cx ns p off (Some c) (of_nat (length c))"
| "tmp_step cx ns (OpCreateDirectory p) = Some (tmp_createDirectory cx ns p)"
| "tmp_step cx ns (OpDeleteFile p) = Some (tmp_deleteFile ns p)"
| "tmp_step cx ns (OpDeleteDirectory p) = Some (tmp_deleteDirectory ns p)"
| "tmp_step cx ns (OpRename p q) = Some (tmp_rename ns p q)"
| "tmp_step cx ns (OpCopyFile p q) = Some (tmp_copyFile cx ns p q)"
| "tmp_step cx ns (OpTouch p) = Some (tmp_touch cx ns p)"
| "tmp_step cx ns (OpSetFilePermissions p w) = Some (tmp_setFilePermissions ns p w)"
| "tmp_step cx ns (OpSetFileOwner p u g) = Some (tmp_setFileOwner ns p u g)"
| "tmp_step cx ns (OpSetFileAttr p ty b) = Some (tmp_setFileAttr ns p ty (Some b) (of_nat (length b)))"

fun spec_step :: "fs_caller \<Rightarrow> fs_tree \<Rightarrow> fs_op \<Rightarrow> fs_tree \<times> fs_result" where
  "spec_step cx t (OpCreateFile p c) = spec_create cx t (normalize p) c"
| "spec_step cx t (OpWriteFile p c app) = spec_put cx t (normalize p) c app"
| "spec_step cx t (OpEditFile p off c) = spec_edit cx t (normalize p) (unat off) c"
| "spec_step cx t (OpCreateDirectory p) = spec_mkdir cx t (normalize p)"
| "spec_step cx t (OpDeleteFile p) = spec_remove t (normalize p)"
| "spec_step cx t (OpDeleteDirectory p) = spec_rmdir t (normalize p)"
| "spec_step cx t (OpRename p q) = spec_rename t (normalize p) (normalize q)"
| "spec_step cx t (OpCopyFile p q) = spec_copy cx t (normalize p) (normalize q)"
| "spec_step cx t (OpTouch p) = spec_touch cx t (normalize p)"
| "spec_step cx t (OpSetFilePermissions p w) = spec_set t (normalize p) (m_perms_update (\<lambda>_. w))"
| "spec_step cx t (OpSetFileOwner p u g) = spec_set t (normalize p) (\<lambda>n. n\<lparr>m_uid := u, m_gid := g\<rparr>)"
| "spec_step cx t (OpSetFileAttr p ty b) = spec_attr t (normalize p) ty b (of_nat (length b))"

text \<open>
  What a caller owes: buffers below \<open>2 ^ 31\<close> bytes, no write past that offset, and a rename that
  neither moves a directory below itself nor makes a path in it too long.
\<close>

fun op_ok :: "fs_tree \<Rightarrow> fs_op \<Rightarrow> bool" where
  "op_ok t (OpCreateFile p c) \<longleftrightarrow> length c < 2 ^ 31"
| "op_ok t (OpWriteFile p c app) \<longleftrightarrow> length c < 2 ^ 31"
| "op_ok t (OpEditFile p off c) \<longleftrightarrow> unat off + length c < 2 ^ 31"
| "op_ok t (OpRename p q) \<longleftrightarrow> \<not> under (normalize p @ [slash]) (normalize q) \<and>
     (\<forall>r. t r \<noteq> None \<longrightarrow> under (normalize p @ [slash]) r \<longrightarrow>
       length (normalize q) + length r \<le> TMPFS_MAX_PATH + length (normalize p))"
| "op_ok t _ \<longleftrightarrow> True"

lemma normalize_or: "normalize p = [] \<or> clean_path (normalize p)"
  using normalize_clean by blast

lemma refinesD:
  assumes "refines out sp"
  shows "distinct (paths_of (fst out)) \<and> (tree_of (fst out), snd out) = sp"
  using assms by (cases sp) (simp add: refines_def)

lemma refines_inv:
  assumes "refines out sp" "tree_ok (fst sp)"
  shows "tmpfs_inv (fst out) \<and> (tree_of (fst out), snd out) = sp"
  using assms by (cases sp) (simp add: refines_def tmpfs_inv_def)

lemma rename_inv:
  assumes inv: "tmpfs_inv ns" and ok: "op_ok (tree_of ns) (OpRename p q)"
  shows "tmpfs_inv (fst (tmp_rename ns p q)) \<and>
    (tree_of (fst (tmp_rename ns p q)), snd (tmp_rename ns p q)) = spec_rename (tree_of ns) (normalize p) (normalize q)"
proof -
  let ?t = "tree_of ns" and ?old = "normalize p" and ?new = "normalize q"
  have t: "tree_ok ?t" by (rule tmpfs_invD [OF inv])
  have ref: "refines (tmp_rename ns p q) (spec_rename ?t ?old ?new)"
    using rename_refines [OF inv] ok by simp
  have "tree_ok (fst (spec_rename ?t ?old ?new))"
  proof (cases "snd (spec_rename ?t ?old ?new) = Inr 0")
    case False
    then have "fst (spec_rename ?t ?old ?new) = ?t" by (auto simp: spec_rename_def split: if_splits)
    then show ?thesis using t by simp
  next
    case True
    then have c: "?old \<in> dom ?t" "?new \<notin> dom ?t" "?new \<noteq> []" "has_dir ?t (parentOf ?new)" "length ?new \<le> TMPFS_MAX_PATH"
      "fst (spec_rename ?t ?old ?new) = move_tree ?t ?old ?new"
      by (auto simp: spec_rename_def split: if_splits)
    let ?ms = "map (relabel (new_name ?old ?new)) ns"
    have ms: "tree_of ?ms = move_tree ?t ?old ?new" "distinct (paths_of ?ms)"
      using tree_of_relabel [OF inv c(2,3)] by auto
    have "data_bytes ?ms = data_bytes ns" by (simp add: data_bytes_def comp_def)
    then have counts: "tree_used (move_tree ?t ?old ?new) \<le> 4096" "card (dom (move_tree ?t ?old ?new)) \<le> TMPFS_MAX_NODES"
      "finite (dom (move_tree ?t ?old ?new))"
      using tree_used_of [OF ms(2)] tree_card [OF ms(2)] tmpfs_invD [OF inv] t tree_of_dom [of ?ms] ms(1)
      by (simp_all add: tree_ok_def)
    have "node_ok r m \<and> has_dir (move_tree ?t ?old ?new) (parentOf r)" if "move_tree ?t ?old ?new r = Some m" for r m
      by (rule move_tree_shape [OF t c(2) _ c(5,4,1) _ _ that]) (use ok normalize_clean [OF c(3)] in \<open>auto simp: domIff\<close>)
    then show ?thesis using counts c(6) by (simp add: tree_ok_def)
  qed
  then show ?thesis by (rule refines_inv [OF ref])
qed

lemma tmpfs_step:
  assumes inv: "tmpfs_inv ns" and ok: "op_ok (tree_of ns) call"
  shows "\<exists>ns' r. tmp_step cx ns call = Some (ns', r) \<and> tmpfs_inv ns' \<and> spec_step cx (tree_of ns) call = (tree_of ns', r)"
proof -
  note t = tmpfs_invD(2) [OF inv] and n = normalize_or
  have done': "\<exists>ns' r. Some out = Some (ns', r) \<and> tmpfs_inv ns' \<and> sp = (tree_of ns', r)"
    if "tmpfs_inv (fst out) \<and> (tree_of (fst out), snd out) = sp" for out sp
    using that by (cases out) auto
  show ?thesis
  proof (cases call)
    case (OpCreateFile p c)
    then show ?thesis
      using done' [OF refines_inv [OF createFile_refines [OF inv] spec_create_ok [OF t n]]] ok by simp
  next
    case (OpWriteFile p c app)
    then show ?thesis
      using done' [OF refines_inv [OF putContent_refines [OF inv] spec_put_ok [OF t n]]] ok by (simp add: tmp_writeFile_def)
  next
    case (OpEditFile p off c)
    then obtain out where "tmp_editFile cx ns p off (Some c) (of_nat (length c)) = Some out"
      "refines out (spec_edit cx (tree_of ns) (normalize p) (unat off) c)"
      using editFile_refines [OF inv, of off c cx p] ok by auto
    then show ?thesis using OpEditFile done' [OF refines_inv [OF _ spec_edit_ok [OF t]]] by simp
  next
    case (OpRename p q)
    then show ?thesis using done' [OF rename_inv [OF inv]] ok by simp
  next
    case (OpTouch p)
    have "tree_ok (fst (spec_touch cx (tree_of ns) (normalize p)))"
      using spec_create_ok [OF t n] spec_set_ok [OF t] by (simp add: spec_touch_def)
    then show ?thesis using OpTouch done' [OF refines_inv [OF touch_refines [OF inv]]] by simp
  next
    case (OpSetFilePermissions p w)
    then show ?thesis using done' [OF refines_inv [OF setFilePermissions_refines [OF inv] spec_set_ok [OF t]]] by simp
  next
    case (OpSetFileOwner p u g)
    then show ?thesis using done' [OF refines_inv [OF setFileOwner_refines [OF inv] spec_set_ok [OF t]]] by simp
  qed (use done' [OF refines_inv [OF createDirectory_refines [OF inv] spec_mkdir_ok [OF t n]]]
      done' [OF refines_inv [OF deleteFile_refines [OF inv] spec_remove_ok [OF t]]]
      done' [OF refines_inv [OF deleteDirectory_refines [OF inv] spec_rmdir_ok [OF t]]]
      done' [OF refines_inv [OF setFileAttr_refines [OF inv] spec_attr_ok [OF t]]]
      done' [OF refines_inv [OF copyFile_refines [OF inv] spec_copy_ok [OF t n]]] in simp_all)
qed

fun tmp_run :: "(fs_caller \<times> fs_op) list \<Rightarrow> tmpfs_node list \<Rightarrow> (tmpfs_node list \<times> fs_result list) option" where
  "tmp_run [] ns = Some (ns, [])"
| "tmp_run ((cx, call) # calls) ns =
     (case tmp_step cx ns call of
        None \<Rightarrow> None
      | Some (ns', r) \<Rightarrow> map_option (\<lambda>(ns'', rs). (ns'', r # rs)) (tmp_run calls ns'))"

fun spec_run :: "(fs_caller \<times> fs_op) list \<Rightarrow> fs_tree \<Rightarrow> fs_tree \<times> fs_result list" where
  "spec_run [] t = (t, [])"
| "spec_run ((cx, call) # calls) t =
     (let (t', r) = spec_step cx t call; (t'', rs) = spec_run calls t' in (t'', r # rs))"

fun calls_ok :: "(fs_caller \<times> fs_op) list \<Rightarrow> fs_tree \<Rightarrow> bool" where
  "calls_ok [] t \<longleftrightarrow> True"
| "calls_ok ((cx, call) # calls) t \<longleftrightarrow> op_ok t call \<and> calls_ok calls (fst (spec_step cx t call))"

lemma tmp_run_refines:
  "tmpfs_inv ns \<Longrightarrow> calls_ok calls (tree_of ns) \<Longrightarrow>
   \<exists>ns' rs. tmp_run calls ns = Some (ns', rs) \<and> tmpfs_inv ns' \<and> spec_run calls (tree_of ns) = (tree_of ns', rs)"
proof (induction calls arbitrary: ns)
  case (Cons a calls)
  obtain cx call where a: "a = (cx, call)" by (cases a)
  then have "op_ok (tree_of ns) call" using Cons.prems(2) by simp
  then obtain ns' r where s: "tmp_step cx ns call = Some (ns', r)" "tmpfs_inv ns'" "spec_step cx (tree_of ns) call = (tree_of ns', r)"
    using tmpfs_step [OF Cons.prems(1)] by blast
  then have "calls_ok calls (tree_of ns')" using Cons.prems(2) a by simp
  then show ?case using Cons.IH [OF s(2)] s a by auto
qed simp

lemma tmpfs_empty: "tmpfs_inv []" "tree_of [] = Map.empty"
  by (simp_all add: tmpfs_inv_def tree_ok_def tree_used_def tree_of_def)

text \<open>
  C8: The RAM file system behaves as a tree of paths. From the empty file system, every sequence of
  calls that owes nothing (buffers below \<open>2 ^ 31\<close> bytes, no rename of a directory below itself or to
  paths that are too long) runs without a write out of bounds, returns call by call what the same
  operations return on a finite map from paths to nodes whose byte budget never wraps, ends with
  the nodes of that map, and keeps them a well-formed tree: distinct clean paths, every parent a
  directory, at most 24 nodes and 4096 bytes.
\<close>

theorem tmpfs_refines_tree:
  assumes "calls_ok calls Map.empty"
  shows "\<exists>ns rs. tmp_run calls [] = Some (ns, rs) \<and> tmpfs_inv ns \<and> spec_run calls Map.empty = (tree_of ns, rs)"
  using tmp_run_refines [OF tmpfs_empty(1), of calls] assms by (simp add: tmpfs_empty(2))

definition sample_caller :: fs_caller where
  "sample_caller = \<lparr>caller_uid = 1000, caller_gid = 1000, caller_umask = 0x12, caller_epoch = 7\<rparr>"

definition sample_calls :: "(fs_caller \<times> fs_op) list" where
  "sample_calls =
     map (Pair sample_caller)
       [OpCreateDirectory (Some ''a''), OpWriteFile (Some ''a/f'') ''hi'' False, OpRename (Some ''/a'') (Some ''b/'')]"

theorem tmpfs_refines_tree_witness:
  "calls_ok sample_calls Map.empty \<and> (\<exists>ns rs. tmp_run sample_calls [] = Some (ns, rs) \<and> tmpfs_inv ns \<and>
     spec_run sample_calls Map.empty = (tree_of ns, rs))"
proof -
  have "calls_ok sample_calls Map.empty"
    by (auto simp: sample_calls_def normalize_def PATH_SEPARATOR_CHAR_def under_def starts_def spec_mkdir_def spec_put_def
        parentOf_def has_dir_def TMPFS_MAX_PATH_def TMPFS_MAX_NODES_def tree_used_def stampNew_def new_node_def split: if_splits)
  then show ?thesis using tmpfs_refines_tree [of sample_calls] by simp
qed

section \<open>Reading back\<close>

definition collect :: "string \<Rightarrow> string \<Rightarrow> bool \<times> string" where
  "collect st part = (True, st @ part)"

lemma deliver_collect:
  "0 < chunk \<Longrightarrow> deliver collect chunk rest got st = (got + length rest, st @ rest)"
proof (induction collect chunk rest got st rule: deliver.induct)
  case (1 chunk rest got st)
  show ?case
  proof (cases "rest = []")
    case False
    have "deliver collect chunk (drop chunk rest) (got + length (take chunk rest)) (st @ take chunk rest)
        = (got + length (take chunk rest) + length (drop chunk rest), (st @ take chunk rest) @ drop chunk rest)"
      using 1 False by (simp add: collect_def)
    moreover have "length (take chunk rest) + length (drop chunk rest) = length rest"
      by (metis append_take_drop_id length_append)
    ultimately show ?thesis
      using False 1(2) by (subst deliver.simps) (simp add: collect_def)
  qed (simp add: deliver.simps)
qed

lemma readFile_tree:
  assumes "tree_of ns (normalize q) = tree_of ms (normalize q)"
  shows "tmp_readFile ns q sz f off u st = tmp_readFile ms q sz f off u st"
proof -
  have "map_option (\<lambda>i. ns ! i) (findNode ns (normalize q)) = map_option (\<lambda>i. ms ! i) (findNode ms (normalize q))"
    using assms by (simp add: findNode_tree)
  then show ?thesis
    by (cases "findNode ns (normalize q)"; cases "findNode ms (normalize q)")
      (auto simp: tmp_readFile_def split: option.split)
qed

lemma readFile_all:
  assumes "tree_of ns (normalize (Some p)) = Some n" "m_type n = FILE_TYPE_REG"
  shows "tmp_readFile ns (Some p) sz (Some collect) 0 None [] = (Inr (int (length (m_data n))), False, m_data n)"
proof (cases "findNode ns (normalize (Some p))")
  case None
  then have "tree_of ns (normalize (Some p)) = None" by (simp add: findNode_None tree_of_None)
  then show ?thesis using assms(1) by simp
next
  case (Some i)
  then have "ns ! i = n" using findNode_Some [OF Some] assms(1) by simp
  then show ?thesis
    using Some assms(2) by (auto simp: tmp_readFile_def Let_def word_less_nat_alt deliver_collect)
qed

lemma spec_put_done:
  assumes "spec_put cx t p c False = (t', Inr k)"
  obtains n where "t' = t(p \<mapsto> n)" "m_data n = c" "k = int (length c)"
    "t p = None \<and> m_type n = FILE_TYPE_REG \<or> (\<exists>m. t p = Some m \<and> m_type m \<noteq> FILE_TYPE_DIR \<and> m_type n = m_type m)"
  using assms by (auto simp: spec_put_def stampNew_def new_node_def split: if_splits option.splits)

text \<open>
  C28: A file reads back as it was written. When a write that is not an append returns without an
  error, it returns the number of bytes given, reading the path hands exactly those bytes to the
  callback whatever chunk size is asked for, and every other path reads as before.
\<close>

theorem tmp_write_read:
  assumes "tmpfs_inv ns" "length c < 2 ^ 31"
    and "tmp_writeFile cx ns (Some p) (Some c) (of_nat (length c)) False = (ns', Inr k)"
  shows "k = int (length c) \<and>
    tmp_readFile ns' (Some p) chunk (Some collect) 0 None [] = (Inr k, False, c) \<and>
    (normalize q \<noteq> normalize (Some p) \<longrightarrow> tmp_readFile ns' q chunk f off u st = tmp_readFile ns q chunk f off u st)"
proof -
  have "spec_put cx (tree_of ns) (normalize (Some p)) c False = (tree_of ns', Inr k)"
    using refinesD [OF putContent_refines [OF assms(1,2), of cx "normalize (Some p)" False]] assms(3)
    by (simp add: tmp_writeFile_def)
  then obtain n where n: "tree_of ns' = (tree_of ns)(normalize (Some p) \<mapsto> n)" "m_data n = c" "k = int (length c)"
    "tree_of ns (normalize (Some p)) = None \<and> m_type n = FILE_TYPE_REG \<or>
     (\<exists>m. tree_of ns (normalize (Some p)) = Some m \<and> m_type m \<noteq> FILE_TYPE_DIR \<and> m_type n = m_type m)"
    using spec_put_done by blast
  have "m_type n = FILE_TYPE_REG"
  proof -
    have "m_type m \<noteq> FILE_TYPE_LINK" if "tree_of ns (normalize (Some p)) = Some m" for m
      using tmpfs_invD(2) [OF assms(1)] that by (auto simp: tree_ok_def node_ok_def)
    then show ?thesis using n(4) by (metis file_type.exhaust)
  qed
  then have "tmp_readFile ns' (Some p) chunk (Some collect) 0 None [] = (Inr k, False, c)"
    using n readFile_all [of ns' p n chunk] by simp
  moreover have "tmp_readFile ns' q chunk f off u st = tmp_readFile ns q chunk f off u st" if "normalize q \<noteq> normalize (Some p)"
    using that n(1) by (intro readFile_tree) simp
  ultimately show ?thesis using n(3) by blast
qed

lemmas tmpfs_eval = normalize_def PATH_SEPARATOR_CHAR_def under_def starts_def parentOf_def parentExists_def usedBytes_def
  TMPFS_MAX_PATH_def TMPFS_MAX_NODES_def TMPFS_MAX_BYTES_def stampNew_def new_node_def

theorem tmp_write_read_witness:
  "let out = tmp_writeFile sample_caller [] (Some ''/f'') (Some ''abc'') (of_nat (length ''abc'')) False
   in snd out = Inr 3 \<and> tmp_readFile (fst out) (Some ''/f'') 2 (Some collect) 0 None [] = (Inr 3, False, ''abc'')"
proof -
  let ?out = "tmp_writeFile sample_caller [] (Some ''/f'') (Some ''abc'') (of_nat (length ''abc'')) False"
  have "\<exists>ns' k. ?out = (ns', Inr k)"
    by (simp add: tmp_writeFile_def putContent_def supplied_def tmpfs_eval Let_def word_less_nat_alt)
  then obtain ns' k where out: "?out = (ns', Inr k)" by blast
  show ?thesis
    using tmp_write_read [OF tmpfs_empty(1) _ out, of 2 None "Some collect" 0 None "[]"] out by auto
qed

section \<open>Where the code leaves the tree\<close>

text \<open>
  Renaming a directory to a name below itself succeeds: the node is given the new name, and the loop
  over the descendants then finds that name below the old one and moves it again. Its parent is gone.
\<close>

lemma rename_below_itself:
  defines "d \<equiv> new_node ''a'' [] FILE_TYPE_DIR"
  shows "tmp_rename [d] (Some ''a'') (Some ''a/b'') = ([d\<lparr>m_path := ''a/b/b''\<rparr>], Inr 0)"
    and "tmp_isDirExist [d\<lparr>m_path := ''a/b/b''\<rparr>] (Some ''a/b'') = False"
  by (simp_all add: d_def tmp_rename_def tmp_isDirExist_def tmpfs_eval)

text \<open>
  An edit near the end of the 32-bit range wraps: the end of the write falls below the length of the
  file, so the string is not grown, and the first byte is stored past its end.
\<close>

lemma edit_out_of_bounds:
  "tmp_editFile cx [new_node ''f'' ''x'' FILE_TYPE_REG] (Some ''f'') 0xFFFFFFFF (Some ''y'') 1 = None"
proof -
  have "(4294967296 :: u32) = 0" by code_simp
  then show ?thesis by (simp add: tmp_editFile_def tmpfs_eval Let_def)
qed

end
