(* ===== verification/Vfs.thy ===== *)
theory Vfs
  imports TmpFs
begin

text \<open>
  The dispatcher every file system call of the framework goes through
  (\<^verbatim>\<open>src/src/interface/pdi/impl/modules/storage/VfsDispatcher.cpp\<close>), built with the
  authentication service. It owns a table of mounts, finds the backend of a path by the longest
  mounted prefix, checks the permissions of the session and forwards the call.

  A backend is an object behind the interface \<^verbatim>\<open>iFileSystemInterface\<close>: here a number, its state
  of type \<open>'b\<close> kept in \<open>backends\<close>, and its methods a record \<open>fs_ops\<close> of functions on that state,
  which every operation takes as the argument \<open>ops\<close>. The methods read the session and the clock on
  their own, so the record is the one of the session on whose behalf the call is made. A read callback
  works on a state of type \<open>'c\<close>.
\<close>

section \<open>Backends and mounts\<close>

type_synonym fhandle = "32 word"

record ('b, 'c) fs_ops =
  be_init :: "'b \<Rightarrow> 'b \<times> int"
  be_createFile :: "string option \<Rightarrow> string option \<Rightarrow> int \<Rightarrow> 'b \<Rightarrow> 'b \<times> fs_result"
  be_editFile :: "string option \<Rightarrow> u64 \<Rightarrow> string option \<Rightarrow> u32 \<Rightarrow> 'b \<Rightarrow> ('b \<times> fs_result) option"
  be_writeFile :: "string option \<Rightarrow> string option \<Rightarrow> u32 \<Rightarrow> bool \<Rightarrow> 'b \<Rightarrow> 'b \<times> fs_result"
  be_readFile :: "string option \<Rightarrow> u64 \<Rightarrow> ('c \<Rightarrow> string \<Rightarrow> bool \<times> 'c) option \<Rightarrow> u64 \<Rightarrow> string option \<Rightarrow> 'c \<Rightarrow> 'b
    \<Rightarrow> 'b \<times> fs_result \<times> bool \<times> 'c"
  be_getOffsetFromLineNumber :: "string option \<Rightarrow> int \<Rightarrow> 'b \<Rightarrow> fs_result"
  be_getLineNumberFromOffset :: "string option \<Rightarrow> int \<Rightarrow> 'b \<Rightarrow> fs_result"
  be_findInFile :: "string option \<Rightarrow> string option \<Rightarrow> int \<Rightarrow> int \<Rightarrow> int \<Rightarrow> 'b \<Rightarrow> u32 list \<times> fs_result"
  be_getLineNumbersInFile :: "string option \<Rightarrow> int \<Rightarrow> int \<Rightarrow> 'b \<Rightarrow> u32 list \<times> fs_result"
  be_readLineInFile :: "string option \<Rightarrow> int \<Rightarrow> string option \<Rightarrow> 'b \<Rightarrow> string \<times> fs_result"
  be_createDirectory :: "string option \<Rightarrow> 'b \<Rightarrow> 'b \<times> fs_result"
  be_deleteDirectory :: "string option \<Rightarrow> 'b \<Rightarrow> 'b \<times> fs_result"
  be_deleteFile :: "string option \<Rightarrow> 'b \<Rightarrow> 'b \<times> fs_result"
  be_rename :: "string option \<Rightarrow> string option \<Rightarrow> 'b \<Rightarrow> 'b \<times> fs_result"
  be_copyFile :: "string option \<Rightarrow> string option \<Rightarrow> 'b \<Rightarrow> 'b \<times> fs_result"
  be_moveFile :: "string option \<Rightarrow> string option \<Rightarrow> 'b \<Rightarrow> 'b \<times> fs_result"
  be_getFileSize :: "string option \<Rightarrow> 'b \<Rightarrow> fs_result"
  be_getDirFileList :: "string option \<Rightarrow> file_info list \<Rightarrow> 'b \<Rightarrow> file_info list \<times> fs_result"
  be_isFileExist :: "string option \<Rightarrow> 'b \<Rightarrow> bool"
  be_isDirExist :: "string option \<Rightarrow> 'b \<Rightarrow> bool"
  be_isDirectory :: "string option \<Rightarrow> 'b \<Rightarrow> bool"
  be_setFileAttr :: "string option \<Rightarrow> u8 \<Rightarrow> bytes option \<Rightarrow> u32 \<Rightarrow> 'b \<Rightarrow> 'b \<times> fs_result"
  be_getFileAttr :: "string option \<Rightarrow> u8 \<Rightarrow> bool \<Rightarrow> u32 \<Rightarrow> 'b \<Rightarrow> pdi_err + bytes"
  be_removeFileAttr :: "string option \<Rightarrow> u8 \<Rightarrow> 'b \<Rightarrow> 'b \<times> fs_result"
  be_getFileMeta :: "string option \<Rightarrow> file_info \<Rightarrow> 'b \<Rightarrow> pdi_err + file_info"
  be_setFilePermissions :: "string option \<Rightarrow> u16 \<Rightarrow> 'b \<Rightarrow> 'b \<times> fs_result"
  be_setFileOwner :: "string option \<Rightarrow> u16 \<Rightarrow> u16 \<Rightarrow> 'b \<Rightarrow> 'b \<times> fs_result"
  be_touch :: "string option \<Rightarrow> 'b \<Rightarrow> 'b \<times> fs_result"
  be_openFile :: "string option \<Rightarrow> u8 \<Rightarrow> 'b \<Rightarrow> 'b \<times> fhandle"
  be_readFileHandle :: "fhandle \<Rightarrow> u32 \<Rightarrow> 'b \<Rightarrow> 'b \<times> string \<times> fs_result"
  be_writeFileHandle :: "fhandle \<Rightarrow> string \<Rightarrow> u32 \<Rightarrow> 'b \<Rightarrow> 'b \<times> fs_result"
  be_seekFile :: "fhandle \<Rightarrow> int \<Rightarrow> u8 \<Rightarrow> 'b \<Rightarrow> 'b \<times> fs_result"
  be_syncFile :: "fhandle \<Rightarrow> 'b \<Rightarrow> 'b \<times> fs_result"
  be_closeFile :: "fhandle \<Rightarrow> 'b \<Rightarrow> 'b \<times> fs_result"
  be_getTotalSize :: "'b \<Rightarrow> u64"
  be_getUsedSize :: "'b \<Rightarrow> u64"
  be_getFreeSize :: "'b \<Rightarrow> u64"
  be_getPWD :: "'b \<Rightarrow> string"
  be_setPWD :: "string option \<Rightarrow> 'b \<Rightarrow> 'b \<times> bool"
  be_getLastPWD :: "'b \<Rightarrow> string"
  be_changeDirectory :: "string option \<Rightarrow> 'b \<Rightarrow> 'b \<times> bool"
  be_setHomeDirectory :: "string \<Rightarrow> 'b \<Rightarrow> 'b \<times> bool"

datatype vfs_type =
    VFS_TYPE_UNKNOWN | VFS_TYPE_LITTLEFS | VFS_TYPE_SPIFFS | VFS_TYPE_SD | VFS_TYPE_TMPFS | VFS_TYPE_PROCFS
  | VFS_TYPE_SYSFS | VFS_TYPE_DEVFS

record vfs_mount =
  mt_prefix :: string
  mt_name :: string
  mt_backend :: nat
  mt_type :: vfs_type

record 'b vfs =
  m_mounts :: "vfs_mount list"
  m_priv_depth :: u8
  backends :: "nat \<Rightarrow> 'b"

definition VFS_MAX_MOUNTS :: nat where "VFS_MAX_MOUNTS = 5"

definition VFS_MOUNT_PREFIX_MAX :: nat where "VFS_MOUNT_PREFIX_MAX = 15"

definition VFS_MOUNT_NAME_MAX :: nat where "VFS_MOUNT_NAME_MAX = 11"

definition vfs_mount_at ::
  "'b vfs \<Rightarrow> string option \<Rightarrow> nat option \<Rightarrow> string option \<Rightarrow> vfs_type \<Rightarrow> 'b vfs \<times> pdi_err" where
  "vfs_mount_at v prefix backend name type =
     (case (prefix, backend) of
        (Some p, Some b) \<Rightarrow>
          if length (m_mounts v) \<ge> VFS_MAX_MOUNTS then (v, PDI_ERR_NO_SPACE)
          else if length p = 0 \<or> length p > VFS_MOUNT_PREFIX_MAX then (v, PDI_ERR_INVALID_ARG)
          else if p \<in> set (map mt_prefix (m_mounts v)) then (v, PDI_ERR_EXISTS)
          else let m = \<lparr>mt_prefix = p, mt_name = (case name of Some n \<Rightarrow> take VFS_MOUNT_NAME_MAX n | None \<Rightarrow> []),
                        mt_backend = b, mt_type = type\<rparr>
               in (v\<lparr>m_mounts := m_mounts v @ [m]\<rparr>, PDI_OK)
      | _ \<Rightarrow> (v, PDI_ERR_INVALID_ARG))"

section \<open>Finding the backend of a path\<close>

abbreviation root_path :: string where "root_path \<equiv> [slash]"

text \<open>One turn of the loop over the mounts: the best mount so far and its length.\<close>

definition consider_mount :: "string \<Rightarrow> vfs_mount \<Rightarrow> vfs_mount option \<times> nat \<Rightarrow> vfs_mount option \<times> nat" where
  "consider_mount path m best =
     (let plen = length (mt_prefix m)
      in if plen = 0 then best
         else if mt_prefix m = root_path then (if snd best = 0 then (Some m, 1) else best)
         else if take plen path \<noteq> mt_prefix m then best
         else if plen < length path \<and> path ! plen \<noteq> slash then best
         else if plen > snd best then (Some m, plen) else best)"

definition best_mount :: "vfs_mount list \<Rightarrow> string \<Rightarrow> vfs_mount option \<times> nat" where
  "best_mount ms path = fold (consider_mount path) ms (None, 0)"

definition rootBackend :: "vfs_mount list \<Rightarrow> nat option" where
  "rootBackend ms = map_option mt_backend (List.find (\<lambda>m. mt_prefix m = root_path) ms)"

text \<open>The backend of a path and the path it is given, \<open>None\<close> when nothing is mounted there.\<close>

definition resolve :: "vfs_mount list \<Rightarrow> string option \<Rightarrow> (nat \<times> string option) option" where
  "resolve ms path =
     (case path of
        None \<Rightarrow> map_option (\<lambda>b. (b, None)) (rootBackend ms)
      | Some p \<Rightarrow>
          (case best_mount ms p of
             (None, _) \<Rightarrow> None
           | (Some m, len) \<Rightarrow>
               let rel = (if mt_prefix m = root_path then p
                          else if drop len p = [] then root_path else drop len p)
               in Some (mt_backend m, Some rel)))"

definition findMountForPath :: "vfs_mount list \<Rightarrow> string option \<Rightarrow> vfs_mount option" where
  "findMountForPath ms path = (case path of None \<Rightarrow> None | Some p \<Rightarrow> fst (best_mount ms p))"

text \<open>The macro \<^verbatim>\<open>VFS_ROUTE_PATH\<close>: a call forwarded to the backend of a path.\<close>

definition route :: "'b vfs \<Rightarrow> string option \<Rightarrow> 'r \<Rightarrow> (nat \<Rightarrow> string option \<Rightarrow> 'b \<Rightarrow> 'b \<times> 'r) \<Rightarrow> 'b vfs \<times> 'r" where
  "route v path fail call =
     (case resolve (m_mounts v) path of
        None \<Rightarrow> (v, fail)
      | Some (b, rel) \<Rightarrow> let (s, r) = call b rel (backends v b) in (v\<lparr>backends := (backends v)(b := s)\<rparr>, r))"

text \<open>The same for a method that only reads.\<close>

definition query :: "'b vfs \<Rightarrow> string option \<Rightarrow> 'r \<Rightarrow> (nat \<Rightarrow> string option \<Rightarrow> 'b \<Rightarrow> 'r) \<Rightarrow> 'r" where
  "query v path fail call =
     (case resolve (m_mounts v) path of None \<Rightarrow> fail | Some (b, rel) \<Rightarrow> call b rel (backends v b))"

fun init_mounts :: "(nat \<Rightarrow> ('b, 'c) fs_ops) \<Rightarrow> vfs_mount list \<Rightarrow> int \<Rightarrow> (nat \<Rightarrow> 'b) \<Rightarrow> (nat \<Rightarrow> 'b) \<times> int" where
  "init_mounts ops [] rc bs = (bs, rc)"
| "init_mounts ops (m # ms) rc bs =
     (let (s, r) = be_init (ops (mt_backend m)) (bs (mt_backend m))
      in init_mounts ops ms (if r \<noteq> 0 \<and> rc = 0 then r else rc) (bs(mt_backend m := s)))"

definition vfs_init :: "(nat \<Rightarrow> ('b, 'c) fs_ops) \<Rightarrow> 'b vfs \<Rightarrow> 'b vfs \<times> int" where
  "vfs_init ops v = (let (bs, rc) = init_mounts ops (m_mounts v) 0 (backends v) in (v\<lparr>backends := bs\<rparr>, rc))"

section \<open>Permissions\<close>

definition VFS_ACCESS_R :: u8 where "VFS_ACCESS_R = 4"
definition VFS_ACCESS_W :: u8 where "VFS_ACCESS_W = 2"

definition beginPrivileged :: "'b vfs \<Rightarrow> 'b vfs" where
  "beginPrivileged v = v\<lparr>m_priv_depth := m_priv_depth v + 1\<rparr>"

definition endPrivileged :: "'b vfs \<Rightarrow> 'b vfs" where
  "endPrivileged v = (if m_priv_depth v > 0 then v\<lparr>m_priv_depth := m_priv_depth v - 1\<rparr> else v)"

definition isPrivileged :: "'b vfs \<Rightarrow> bool" where
  "isPrivileged v \<longleftrightarrow> m_priv_depth v > 0"

definition no_info :: file_info where
  "no_info = \<lparr>fi_name = [], fi_type = FILE_TYPE_REG, fi_size = 0, fi_perms = 0, fi_uid = 0, fi_gid = 0, fi_ctime = 0, fi_mtime = 0\<rparr>"

definition vfs_getFileMeta ::
  "(nat \<Rightarrow> ('b, 'c) fs_ops) \<Rightarrow> 'b vfs \<Rightarrow> string option \<Rightarrow> file_info \<Rightarrow> pdi_err + file_info" where
  "vfs_getFileMeta ops v path out =
     query v path (Inl STORAGE_ERROR_NOT_MOUNTED) (\<lambda>b rel. be_getFileMeta (ops b) rel out)"

definition checkRoot :: "fs_caller \<Rightarrow> 'b vfs \<Rightarrow> bool" where
  "checkRoot cx v = (if isPrivileged v then True else caller_uid cx = 0)"

text \<open>The three permission bits of a mode that apply to the caller.\<close>

definition mode_bits :: "fs_caller \<Rightarrow> file_info \<Rightarrow> u8" where
  "mode_bits cx meta =
     (if fi_uid meta = caller_uid cx then ucast (drop_bit 6 (fi_perms meta) AND 7)
      else if fi_gid meta = caller_gid cx then ucast (drop_bit 3 (fi_perms meta) AND 7)
      else ucast (fi_perms meta AND 7))"

definition checkAccess ::
  "(nat \<Rightarrow> ('b, 'c) fs_ops) \<Rightarrow> fs_caller \<Rightarrow> 'b vfs \<Rightarrow> string option \<Rightarrow> u8 \<Rightarrow> bool" where
  "checkAccess ops cx v path need =
     (if isPrivileged v then True
      else if caller_uid cx = 0 then True
      else case vfs_getFileMeta ops v path no_info of
             Inl _ \<Rightarrow> True
           | Inr meta \<Rightarrow> mode_bits cx meta AND need = need)"

definition checkOwnerOrRoot ::
  "(nat \<Rightarrow> ('b, 'c) fs_ops) \<Rightarrow> fs_caller \<Rightarrow> 'b vfs \<Rightarrow> string option \<Rightarrow> bool" where
  "checkOwnerOrRoot ops cx v path =
     (if isPrivileged v then True
      else if caller_uid cx = 0 then True
      else case vfs_getFileMeta ops v path no_info of
             Inl _ \<Rightarrow> True
           | Inr meta \<Rightarrow> fi_uid meta = caller_uid cx)"

section \<open>Calls on a path\<close>

definition vfs_createFile ::
  "(nat \<Rightarrow> ('b, 'c) fs_ops) \<Rightarrow> 'b vfs \<Rightarrow> string option \<Rightarrow> string option \<Rightarrow> int \<Rightarrow> 'b vfs \<times> fs_result" where
  "vfs_createFile ops v path content sz =
     route v path (Inl STORAGE_ERROR_NOT_MOUNTED) (\<lambda>b rel. be_createFile (ops b) rel content sz)"

definition vfs_editFile ::
  "(nat \<Rightarrow> ('b, 'c) fs_ops) \<Rightarrow> fs_caller \<Rightarrow> 'b vfs \<Rightarrow> string option \<Rightarrow> u64 \<Rightarrow> string option \<Rightarrow> u32
     \<Rightarrow> ('b vfs \<times> fs_result) option" where
  "vfs_editFile ops cx v path offset content sz =
     (if \<not> checkAccess ops cx v path VFS_ACCESS_W then Some (v, Inl PDI_ERR_PERM)
      else case resolve (m_mounts v) path of
             None \<Rightarrow> Some (v, Inl STORAGE_ERROR_NOT_MOUNTED)
           | Some (b, rel) \<Rightarrow>
               map_option (\<lambda>(s, r). (v\<lparr>backends := (backends v)(b := s)\<rparr>, r))
                 (be_editFile (ops b) rel offset content sz (backends v b)))"

definition vfs_writeFile ::
  "(nat \<Rightarrow> ('b, 'c) fs_ops) \<Rightarrow> fs_caller \<Rightarrow> 'b vfs \<Rightarrow> string option \<Rightarrow> string option \<Rightarrow> u32 \<Rightarrow> bool \<Rightarrow> 'b vfs \<times> fs_result" where
  "vfs_writeFile ops cx v path content sz app =
     (if \<not> checkAccess ops cx v path VFS_ACCESS_W then (v, Inl PDI_ERR_PERM)
      else route v path (Inl STORAGE_ERROR_NOT_MOUNTED) (\<lambda>b rel. be_writeFile (ops b) rel content sz app))"

definition vfs_readFile ::
  "(nat \<Rightarrow> ('b, 'c) fs_ops) \<Rightarrow> fs_caller \<Rightarrow> 'b vfs \<Rightarrow> string option \<Rightarrow> u64 \<Rightarrow> ('c \<Rightarrow> string \<Rightarrow> bool \<times> 'c) option \<Rightarrow> u64
     \<Rightarrow> string option \<Rightarrow> 'c \<Rightarrow> 'b vfs \<times> fs_result \<times> bool \<times> 'c" where
  "vfs_readFile ops cx v path sz readbackfn offset untilmatch st =
     (if \<not> checkAccess ops cx v path VFS_ACCESS_R then (v, Inl PDI_ERR_PERM, False, st)
      else route v path (Inl STORAGE_ERROR_NOT_MOUNTED, False, st)
             (\<lambda>b rel. be_readFile (ops b) rel sz readbackfn offset untilmatch st))"

definition vfs_getOffsetFromLineNumber ::
  "(nat \<Rightarrow> ('b, 'c) fs_ops) \<Rightarrow> fs_caller \<Rightarrow> 'b vfs \<Rightarrow> string option \<Rightarrow> int \<Rightarrow> fs_result" where
  "vfs_getOffsetFromLineNumber ops cx v path n =
     (if \<not> checkAccess ops cx v path VFS_ACCESS_R then Inl PDI_ERR_PERM
      else query v path (Inl STORAGE_ERROR_NOT_MOUNTED) (\<lambda>b rel. be_getOffsetFromLineNumber (ops b) rel n))"

definition vfs_getLineNumberFromOffset ::
  "(nat \<Rightarrow> ('b, 'c) fs_ops) \<Rightarrow> fs_caller \<Rightarrow> 'b vfs \<Rightarrow> string option \<Rightarrow> int \<Rightarrow> fs_result" where
  "vfs_getLineNumberFromOffset ops cx v path off =
     (if \<not> checkAccess ops cx v path VFS_ACCESS_R then Inl PDI_ERR_PERM
      else query v path (Inl STORAGE_ERROR_NOT_MOUNTED) (\<lambda>b rel. be_getLineNumberFromOffset (ops b) rel off))"

definition vfs_findInFile ::
  "(nat \<Rightarrow> ('b, 'c) fs_ops) \<Rightarrow> fs_caller \<Rightarrow> 'b vfs \<Rightarrow> string option \<Rightarrow> string option \<Rightarrow> int \<Rightarrow> int \<Rightarrow> int \<Rightarrow> u32 list \<times> fs_result" where
  "vfs_findInFile ops cx v path findStr maxindices everynth off =
     (if \<not> checkAccess ops cx v path VFS_ACCESS_R then ([], Inl PDI_ERR_PERM)
      else query v path ([], Inl STORAGE_ERROR_NOT_MOUNTED) (\<lambda>b rel. be_findInFile (ops b) rel findStr maxindices everynth off))"

definition vfs_getLineNumbersInFile ::
  "(nat \<Rightarrow> ('b, 'c) fs_ops) \<Rightarrow> fs_caller \<Rightarrow> 'b vfs \<Rightarrow> string option \<Rightarrow> int \<Rightarrow> int \<Rightarrow> u32 list \<times> fs_result" where
  "vfs_getLineNumbersInFile ops cx v path maxlines off =
     (if \<not> checkAccess ops cx v path VFS_ACCESS_R then ([], Inl PDI_ERR_PERM)
      else query v path ([], Inl STORAGE_ERROR_NOT_MOUNTED) (\<lambda>b rel. be_getLineNumbersInFile (ops b) rel maxlines off))"

definition vfs_readLineInFile ::
  "(nat \<Rightarrow> ('b, 'c) fs_ops) \<Rightarrow> fs_caller \<Rightarrow> 'b vfs \<Rightarrow> string option \<Rightarrow> int \<Rightarrow> string option \<Rightarrow> string \<times> fs_result" where
  "vfs_readLineInFile ops cx v path n pattern =
     (if \<not> checkAccess ops cx v path VFS_ACCESS_R then ([], Inl PDI_ERR_PERM)
      else query v path ([], Inl STORAGE_ERROR_NOT_MOUNTED) (\<lambda>b rel. be_readLineInFile (ops b) rel n pattern))"

definition vfs_createDirectory :: "(nat \<Rightarrow> ('b, 'c) fs_ops) \<Rightarrow> 'b vfs \<Rightarrow> string option \<Rightarrow> 'b vfs \<times> fs_result" where
  "vfs_createDirectory ops v path =
     route v path (Inl STORAGE_ERROR_NOT_MOUNTED) (\<lambda>b rel. be_createDirectory (ops b) rel)"

definition vfs_deleteDirectory ::
  "(nat \<Rightarrow> ('b, 'c) fs_ops) \<Rightarrow> fs_caller \<Rightarrow> 'b vfs \<Rightarrow> string option \<Rightarrow> 'b vfs \<times> fs_result" where
  "vfs_deleteDirectory ops cx v path =
     (if \<not> checkAccess ops cx v path VFS_ACCESS_W then (v, Inl PDI_ERR_PERM)
      else route v path (Inl STORAGE_ERROR_NOT_MOUNTED) (\<lambda>b rel. be_deleteDirectory (ops b) rel))"

definition vfs_deleteFile ::
  "(nat \<Rightarrow> ('b, 'c) fs_ops) \<Rightarrow> fs_caller \<Rightarrow> 'b vfs \<Rightarrow> string option \<Rightarrow> 'b vfs \<times> fs_result" where
  "vfs_deleteFile ops cx v path =
     (if \<not> checkAccess ops cx v path VFS_ACCESS_W then (v, Inl PDI_ERR_PERM)
      else route v path (Inl STORAGE_ERROR_NOT_MOUNTED) (\<lambda>b rel. be_deleteFile (ops b) rel))"

definition vfs_getFileSize :: "(nat \<Rightarrow> ('b, 'c) fs_ops) \<Rightarrow> 'b vfs \<Rightarrow> string option \<Rightarrow> fs_result" where
  "vfs_getFileSize ops v path = query v path (Inl STORAGE_ERROR_NOT_MOUNTED) (\<lambda>b rel. be_getFileSize (ops b) rel)"

definition vfs_getDirFileList ::
  "(nat \<Rightarrow> ('b, 'c) fs_ops) \<Rightarrow> fs_caller \<Rightarrow> 'b vfs \<Rightarrow> string option \<Rightarrow> file_info list \<Rightarrow> file_info list \<times> fs_result" where
  "vfs_getDirFileList ops cx v path items =
     (if \<not> checkAccess ops cx v path VFS_ACCESS_R then (items, Inl PDI_ERR_PERM)
      else query v path (items, Inl STORAGE_ERROR_NOT_MOUNTED) (\<lambda>b rel. be_getDirFileList (ops b) rel items))"

definition vfs_isFileExist :: "(nat \<Rightarrow> ('b, 'c) fs_ops) \<Rightarrow> 'b vfs \<Rightarrow> string option \<Rightarrow> bool" where
  "vfs_isFileExist ops v path = query v path False (\<lambda>b rel. be_isFileExist (ops b) rel)"

definition vfs_isDirExist :: "(nat \<Rightarrow> ('b, 'c) fs_ops) \<Rightarrow> 'b vfs \<Rightarrow> string option \<Rightarrow> bool" where
  "vfs_isDirExist ops v path = query v path False (\<lambda>b rel. be_isDirExist (ops b) rel)"

definition vfs_isDirectory :: "(nat \<Rightarrow> ('b, 'c) fs_ops) \<Rightarrow> 'b vfs \<Rightarrow> string option \<Rightarrow> bool" where
  "vfs_isDirectory ops v path = query v path False (\<lambda>b rel. be_isDirectory (ops b) rel)"

definition vfs_setFileAttr ::
  "(nat \<Rightarrow> ('b, 'c) fs_ops) \<Rightarrow> fs_caller \<Rightarrow> 'b vfs \<Rightarrow> string option \<Rightarrow> u8 \<Rightarrow> bytes option \<Rightarrow> u32 \<Rightarrow> 'b vfs \<times> fs_result" where
  "vfs_setFileAttr ops cx v path type buffer sz =
     (if \<not> checkOwnerOrRoot ops cx v path then (v, Inl PDI_ERR_PERM)
      else route v path (Inl STORAGE_ERROR_NOT_MOUNTED) (\<lambda>b rel. be_setFileAttr (ops b) rel type buffer sz))"

definition vfs_getFileAttr ::
  "(nat \<Rightarrow> ('b, 'c) fs_ops) \<Rightarrow> 'b vfs \<Rightarrow> string option \<Rightarrow> u8 \<Rightarrow> bool \<Rightarrow> u32 \<Rightarrow> pdi_err + bytes" where
  "vfs_getFileAttr ops v path type buffer sz =
     query v path (Inl STORAGE_ERROR_NOT_MOUNTED) (\<lambda>b rel. be_getFileAttr (ops b) rel type buffer sz)"

definition vfs_removeFileAttr ::
  "(nat \<Rightarrow> ('b, 'c) fs_ops) \<Rightarrow> fs_caller \<Rightarrow> 'b vfs \<Rightarrow> string option \<Rightarrow> u8 \<Rightarrow> 'b vfs \<times> fs_result" where
  "vfs_removeFileAttr ops cx v path type =
     (if \<not> checkOwnerOrRoot ops cx v path then (v, Inl PDI_ERR_PERM)
      else route v path (Inl STORAGE_ERROR_NOT_MOUNTED) (\<lambda>b rel. be_removeFileAttr (ops b) rel type))"

definition vfs_setFilePermissions ::
  "(nat \<Rightarrow> ('b, 'c) fs_ops) \<Rightarrow> fs_caller \<Rightarrow> 'b vfs \<Rightarrow> string option \<Rightarrow> u16 \<Rightarrow> 'b vfs \<times> fs_result" where
  "vfs_setFilePermissions ops cx v path perms =
     (if \<not> checkOwnerOrRoot ops cx v path then (v, Inl PDI_ERR_PERM)
      else route v path (Inl STORAGE_ERROR_NOT_MOUNTED) (\<lambda>b rel. be_setFilePermissions (ops b) rel perms))"

definition vfs_setFileOwner ::
  "(nat \<Rightarrow> ('b, 'c) fs_ops) \<Rightarrow> fs_caller \<Rightarrow> 'b vfs \<Rightarrow> string option \<Rightarrow> u16 \<Rightarrow> u16 \<Rightarrow> 'b vfs \<times> fs_result" where
  "vfs_setFileOwner ops cx v path uid gid =
     (if \<not> checkRoot cx v then (v, Inl PDI_ERR_PERM)
      else route v path (Inl STORAGE_ERROR_NOT_MOUNTED) (\<lambda>b rel. be_setFileOwner (ops b) rel uid gid))"

definition vfs_touch :: "(nat \<Rightarrow> ('b, 'c) fs_ops) \<Rightarrow> fs_caller \<Rightarrow> 'b vfs \<Rightarrow> string option \<Rightarrow> 'b vfs \<times> fs_result" where
  "vfs_touch ops cx v path =
     (if \<not> checkAccess ops cx v path VFS_ACCESS_W then (v, Inl PDI_ERR_PERM)
      else route v path (Inl STORAGE_ERROR_NOT_MOUNTED) (\<lambda>b rel. be_touch (ops b) rel))"

section \<open>Handles\<close>

text \<open>A handle is negative for an error; the mount it belongs to, plus one, stands in its top byte.\<close>

definition VFS_HANDLE_BACKEND_MASK :: fhandle where "VFS_HANDLE_BACKEND_MASK = 0x00FFFFFF"
definition VFS_HANDLE_MOUNT_MAX :: fhandle where "VFS_HANDLE_MOUNT_MAX = 0x7F"
definition VFS_HANDLE_MOUNT_SHIFT :: nat where "VFS_HANDLE_MOUNT_SHIFT = 24"

definition FILE_OPEN_READ :: u8 where "FILE_OPEN_READ = 0x01"
definition FILE_OPEN_WRITE :: u8 where "FILE_OPEN_WRITE = 0x02"
definition FILE_OPEN_CREATE :: u8 where "FILE_OPEN_CREATE = 0x04"
definition FILE_OPEN_TRUNCATE :: u8 where "FILE_OPEN_TRUNCATE = 0x08"
definition FILE_OPEN_APPEND :: u8 where "FILE_OPEN_APPEND = 0x10"

definition err_handle :: "pdi_err \<Rightarrow> fhandle" where
  "err_handle e = word_of_int (pdi_err_code e)"

definition resolveHandle :: "vfs_mount list \<Rightarrow> fhandle \<Rightarrow> (nat \<times> fhandle) option" where
  "resolveHandle ms handle =
     (if sint handle < 0 then None
      else let mount_id = unat (drop_bit VFS_HANDLE_MOUNT_SHIFT handle AND VFS_HANDLE_MOUNT_MAX)
           in if mount_id = 0 \<or> mount_id > length ms then None
              else Some (mt_backend (ms ! (mount_id - 1)), handle AND VFS_HANDLE_BACKEND_MASK))"

fun mount_id_of :: "vfs_mount list \<Rightarrow> nat \<Rightarrow> nat \<Rightarrow> nat" where
  "mount_id_of [] b i = 0"
| "mount_id_of (m # ms) b i = (if mt_backend m = b then i + 1 else mount_id_of ms b (i + 1))"

definition vfs_openFile ::
  "(nat \<Rightarrow> ('b, 'c) fs_ops) \<Rightarrow> fs_caller \<Rightarrow> 'b vfs \<Rightarrow> string option \<Rightarrow> u8 \<Rightarrow> 'b vfs \<times> fhandle" where
  "vfs_openFile ops cx v path flags =
     (if path = None \<or> path = Some [] then (v, err_handle STORAGE_ERROR_BAD_PATH)
      else let need = (if flags AND FILE_OPEN_READ \<noteq> 0 then VFS_ACCESS_R else 0) OR
                      (if flags AND (FILE_OPEN_WRITE OR FILE_OPEN_CREATE OR FILE_OPEN_TRUNCATE OR FILE_OPEN_APPEND) \<noteq> 0
                       then VFS_ACCESS_W else 0)
           in if need \<noteq> 0 \<and> \<not> checkAccess ops cx v path need then (v, err_handle PDI_ERR_PERM)
              else case resolve (m_mounts v) path of
                     None \<Rightarrow> (v, err_handle STORAGE_ERROR_NOT_MOUNTED)
                   | Some (b, rel) \<Rightarrow>
                       let mount_id = mount_id_of (m_mounts v) b 0
                       in if mount_id = 0 then (v, err_handle STORAGE_ERROR_NOT_MOUNTED)
                          else let (s, handle) = be_openFile (ops b) rel flags (backends v b)
                               in if sint handle < 0 then (v\<lparr>backends := (backends v)(b := s)\<rparr>, handle)
                                  else if sint handle > sint VFS_HANDLE_BACKEND_MASK
                                  then (v\<lparr>backends := (backends v)(b := fst (be_closeFile (ops b) handle s))\<rparr>,
                                        err_handle PDI_ERR_RANGE)
                                  else (v\<lparr>backends := (backends v)(b := s)\<rparr>,
                                        push_bit VFS_HANDLE_MOUNT_SHIFT (of_nat mount_id) OR handle))"

definition on_handle :: "'b vfs \<Rightarrow> fhandle \<Rightarrow> 'r \<Rightarrow> (nat \<Rightarrow> fhandle \<Rightarrow> 'b \<Rightarrow> 'b \<times> 'r) \<Rightarrow> 'b vfs \<times> 'r" where
  "on_handle v handle fail call =
     (case resolveHandle (m_mounts v) handle of
        None \<Rightarrow> (v, fail)
      | Some (b, bh) \<Rightarrow> let (s, r) = call b bh (backends v b) in (v\<lparr>backends := (backends v)(b := s)\<rparr>, r))"

definition vfs_readFileHandle ::
  "(nat \<Rightarrow> ('b, 'c) fs_ops) \<Rightarrow> 'b vfs \<Rightarrow> fhandle \<Rightarrow> u32 \<Rightarrow> 'b vfs \<times> string \<times> fs_result" where
  "vfs_readFileHandle ops v handle sz =
     on_handle v handle ([], Inl PDI_ERR_INVALID_ARG) (\<lambda>b bh. be_readFileHandle (ops b) bh sz)"

definition vfs_writeFileHandle ::
  "(nat \<Rightarrow> ('b, 'c) fs_ops) \<Rightarrow> 'b vfs \<Rightarrow> fhandle \<Rightarrow> string \<Rightarrow> u32 \<Rightarrow> 'b vfs \<times> fs_result" where
  "vfs_writeFileHandle ops v handle content sz =
     on_handle v handle (Inl PDI_ERR_INVALID_ARG) (\<lambda>b bh. be_writeFileHandle (ops b) bh content sz)"

definition vfs_seekFile ::
  "(nat \<Rightarrow> ('b, 'c) fs_ops) \<Rightarrow> 'b vfs \<Rightarrow> fhandle \<Rightarrow> int \<Rightarrow> u8 \<Rightarrow> 'b vfs \<times> fs_result" where
  "vfs_seekFile ops v handle offset whence =
     on_handle v handle (Inl PDI_ERR_INVALID_ARG) (\<lambda>b bh. be_seekFile (ops b) bh offset whence)"

definition vfs_syncFile :: "(nat \<Rightarrow> ('b, 'c) fs_ops) \<Rightarrow> 'b vfs \<Rightarrow> fhandle \<Rightarrow> 'b vfs \<times> fs_result" where
  "vfs_syncFile ops v handle = on_handle v handle (Inl PDI_ERR_INVALID_ARG) (\<lambda>b bh. be_syncFile (ops b) bh)"

definition vfs_closeFile :: "(nat \<Rightarrow> ('b, 'c) fs_ops) \<Rightarrow> 'b vfs \<Rightarrow> fhandle \<Rightarrow> 'b vfs \<times> fs_result" where
  "vfs_closeFile ops v handle = on_handle v handle (Inl PDI_ERR_INVALID_ARG) (\<lambda>b bh. be_closeFile (ops b) bh)"

section \<open>Across mounts\<close>

text \<open>
  The callback of \<open>crossCopy\<close>: its state is the destination, whether no chunk came yet, and whether
  every write went through.
\<close>

definition copy_chunk ::
  "('b, 'c) fs_ops \<Rightarrow> string option \<Rightarrow> 'b \<times> bool \<times> bool \<Rightarrow> string \<Rightarrow> bool \<times> 'b \<times> bool \<times> bool" where
  "copy_chunk dops drel st data =
     (let (d, fst', ok) = st; (d', w) = be_writeFile dops drel (Some data) (of_nat (length data)) (\<not> fst') d
      in case w of Inl _ \<Rightarrow> (False, d', False, False) | Inr _ \<Rightarrow> (True, d', False, ok))"

definition vfs_crossCopy ::
  "(nat \<Rightarrow> ('b, 'b \<times> bool \<times> bool) fs_ops) \<Rightarrow> 'b vfs \<Rightarrow> nat \<Rightarrow> string option \<Rightarrow> nat \<Rightarrow> string option \<Rightarrow> 'b vfs \<times> fs_result" where
  "vfs_crossCopy ops v sb srel db drel =
     (if \<not> be_isFileExist (ops sb) srel (backends v sb) \<or> be_isDirectory (ops sb) srel (backends v sb)
      then (v, Inl STORAGE_ERROR_NOT_A_FILE)
      else if be_isFileExist (ops db) drel (backends v db) \<or> be_isDirExist (ops db) drel (backends v db)
      then (v, Inl PDI_ERR_EXISTS)
      else let (s, rc, _, d, fst', ok) =
                 be_readFile (ops sb) srel 128 (Some (copy_chunk (ops db) drel)) 0 None (backends v db, True, True) (backends v sb)
           in if (case rc of Inl _ \<Rightarrow> True | Inr _ \<Rightarrow> False) \<or> \<not> ok
              then (v\<lparr>backends := (backends v)(sb := s, db := fst (be_deleteFile (ops db) drel d))\<rparr>, Inl STORAGE_ERROR_BACKEND)
              else if fst'
              then let (d', r) = be_createFile (ops db) drel (Some []) 0 d
                   in (v\<lparr>backends := (backends v)(sb := s, db := d')\<rparr>,
                       case r of Inl _ \<Rightarrow> Inl STORAGE_ERROR_BACKEND | Inr _ \<Rightarrow> Inr 0)
              else (v\<lparr>backends := (backends v)(sb := s, db := d)\<rparr>, Inr 0))"

text \<open>Renaming or moving within a mount is the backend's; across mounts it copies and deletes the source.\<close>

definition move_across ::
  "(nat \<Rightarrow> ('b, 'b \<times> bool \<times> bool) fs_ops) \<Rightarrow> (nat \<Rightarrow> string option \<Rightarrow> string option \<Rightarrow> 'b \<Rightarrow> 'b \<times> fs_result)
     \<Rightarrow> 'b vfs \<Rightarrow> string option \<Rightarrow> string option \<Rightarrow> 'b vfs \<times> fs_result" where
  "move_across ops within v oldPath newPath =
     (case (resolve (m_mounts v) oldPath, resolve (m_mounts v) newPath) of
        (Some (ob, orel), Some (nb, nrel)) \<Rightarrow>
          if ob = nb then let (s, r) = within ob orel nrel (backends v ob) in (v\<lparr>backends := (backends v)(ob := s)\<rparr>, r)
          else (case vfs_crossCopy ops v ob orel nb nrel of
                  (v', Inl e) \<Rightarrow> (v', Inl e)
                | (v', Inr _) \<Rightarrow>
                    let (s, r) = be_deleteFile (ops ob) orel (backends v' ob)
                    in (v'\<lparr>backends := (backends v')(ob := s)\<rparr>, r))
      | _ \<Rightarrow> (v, Inl STORAGE_ERROR_NOT_MOUNTED))"

definition vfs_rename ::
  "(nat \<Rightarrow> ('b, 'b \<times> bool \<times> bool) fs_ops) \<Rightarrow> fs_caller \<Rightarrow> 'b vfs \<Rightarrow> string option \<Rightarrow> string option \<Rightarrow> 'b vfs \<times> fs_result" where
  "vfs_rename ops cx v oldPath newPath =
     (if \<not> checkAccess ops cx v newPath VFS_ACCESS_W then (v, Inl PDI_ERR_PERM)
      else move_across ops (\<lambda>b. be_rename (ops b)) v oldPath newPath)"

definition vfs_copyFile ::
  "(nat \<Rightarrow> ('b, 'b \<times> bool \<times> bool) fs_ops) \<Rightarrow> fs_caller \<Rightarrow> 'b vfs \<Rightarrow> string option \<Rightarrow> string option \<Rightarrow> 'b vfs \<times> fs_result" where
  "vfs_copyFile ops cx v sourcePath destPath =
     (if \<not> checkAccess ops cx v sourcePath VFS_ACCESS_R then (v, Inl PDI_ERR_PERM)
      else if \<not> checkAccess ops cx v destPath VFS_ACCESS_W then (v, Inl PDI_ERR_PERM)
      else case (resolve (m_mounts v) sourcePath, resolve (m_mounts v) destPath) of
             (Some (sb, srel), Some (db, drel)) \<Rightarrow>
               if sb = db
               then let (s, r) = be_copyFile (ops sb) srel drel (backends v sb) in (v\<lparr>backends := (backends v)(sb := s)\<rparr>, r)
               else vfs_crossCopy ops v sb srel db drel
           | _ \<Rightarrow> (v, Inl STORAGE_ERROR_NOT_MOUNTED))"

definition vfs_moveFile ::
  "(nat \<Rightarrow> ('b, 'b \<times> bool \<times> bool) fs_ops) \<Rightarrow> fs_caller \<Rightarrow> 'b vfs \<Rightarrow> string option \<Rightarrow> string option \<Rightarrow> 'b vfs \<times> fs_result" where
  "vfs_moveFile ops cx v oldPath newPath =
     (if \<not> checkAccess ops cx v newPath VFS_ACCESS_W then (v, Inl PDI_ERR_PERM)
      else move_across ops (\<lambda>b. be_moveFile (ops b)) v oldPath newPath)"

section \<open>Calls that go to the root mount\<close>

definition on_root :: "'b vfs \<Rightarrow> 'r \<Rightarrow> (nat \<Rightarrow> 'b \<Rightarrow> 'r) \<Rightarrow> 'r" where
  "on_root v none call = (case rootBackend (m_mounts v) of None \<Rightarrow> none | Some r \<Rightarrow> call r (backends v r))"

definition at_root :: "'b vfs \<Rightarrow> (nat \<Rightarrow> 'b \<Rightarrow> 'b \<times> bool) \<Rightarrow> 'b vfs \<times> bool" where
  "at_root v call =
     (case rootBackend (m_mounts v) of
        None \<Rightarrow> (v, False)
      | Some r \<Rightarrow> let (s, ok) = call r (backends v r) in (v\<lparr>backends := (backends v)(r := s)\<rparr>, ok))"

definition vfs_getTotalSize :: "(nat \<Rightarrow> ('b, 'c) fs_ops) \<Rightarrow> 'b vfs \<Rightarrow> u64" where
  "vfs_getTotalSize ops v = on_root v 0 (\<lambda>b. be_getTotalSize (ops b))"

definition vfs_getUsedSize :: "(nat \<Rightarrow> ('b, 'c) fs_ops) \<Rightarrow> 'b vfs \<Rightarrow> u64" where
  "vfs_getUsedSize ops v = on_root v 0 (\<lambda>b. be_getUsedSize (ops b))"

definition vfs_getFreeSize :: "(nat \<Rightarrow> ('b, 'c) fs_ops) \<Rightarrow> 'b vfs \<Rightarrow> u64" where
  "vfs_getFreeSize ops v = on_root v 0 (\<lambda>b. be_getFreeSize (ops b))"

definition vfs_getPWD :: "(nat \<Rightarrow> ('b, 'c) fs_ops) \<Rightarrow> 'b vfs \<Rightarrow> string" where
  "vfs_getPWD ops v = on_root v [] (\<lambda>b. be_getPWD (ops b))"

definition vfs_setPWD :: "(nat \<Rightarrow> ('b, 'c) fs_ops) \<Rightarrow> 'b vfs \<Rightarrow> string option \<Rightarrow> 'b vfs \<times> bool" where
  "vfs_setPWD ops v path = at_root v (\<lambda>b. be_setPWD (ops b) path)"

definition vfs_getLastPWD :: "(nat \<Rightarrow> ('b, 'c) fs_ops) \<Rightarrow> 'b vfs \<Rightarrow> string" where
  "vfs_getLastPWD ops v = on_root v [] (\<lambda>b. be_getLastPWD (ops b))"

definition vfs_changeDirectory :: "(nat \<Rightarrow> ('b, 'c) fs_ops) \<Rightarrow> 'b vfs \<Rightarrow> string option \<Rightarrow> 'b vfs \<times> bool" where
  "vfs_changeDirectory ops v path = at_root v (\<lambda>b. be_changeDirectory (ops b) path)"

definition vfs_setHomeDirectory :: "(nat \<Rightarrow> ('b, 'c) fs_ops) \<Rightarrow> 'b vfs \<Rightarrow> string \<Rightarrow> 'b vfs \<times> bool" where
  "vfs_setHomeDirectory ops v homedir = at_root v (\<lambda>b. be_setHomeDirectory (ops b) homedir)"

section \<open>The RAM file system as a backend\<close>

text \<open>
  The methods of \<^verbatim>\<open>TmpFs\<close> in the form of the interface, those it leaves to the interface's
  defaults or answers with a constant included.
\<close>

definition not_supported :: "'b \<Rightarrow> 'b \<times> fs_result" where
  "not_supported s = (s, Inl PDI_ERR_NOT_SUPPORTED)"

definition tmp_ops :: "fs_caller \<Rightarrow> (tmpfs_node list, 'c) fs_ops" where
  "tmp_ops cx =
     \<lparr>be_init = (\<lambda>ns. (ns, 0)),
      be_createFile = (\<lambda>p c sz ns. tmp_createFile cx ns p c sz),
      be_editFile = (\<lambda>p off c sz ns. tmp_editFile cx ns p off c sz),
      be_writeFile = (\<lambda>p c sz app ns. tmp_writeFile cx ns p c sz app),
      be_readFile = (\<lambda>p sz f off u st ns. (ns, tmp_readFile ns p sz f off u st)),
      be_getOffsetFromLineNumber = (\<lambda>p n ns. Inl PDI_ERR_NOT_SUPPORTED),
      be_getLineNumberFromOffset = (\<lambda>p n ns. Inl PDI_ERR_NOT_SUPPORTED),
      be_findInFile = (\<lambda>p f m e off ns. ([], Inl PDI_ERR_NOT_SUPPORTED)),
      be_getLineNumbersInFile = (\<lambda>p m off ns. ([], Inl PDI_ERR_NOT_SUPPORTED)),
      be_readLineInFile = (\<lambda>p n pat ns. ([], Inl PDI_ERR_NOT_SUPPORTED)),
      be_createDirectory = (\<lambda>p ns. tmp_createDirectory cx ns p),
      be_deleteDirectory = (\<lambda>p ns. tmp_deleteDirectory ns p),
      be_deleteFile = (\<lambda>p ns. tmp_deleteFile ns p),
      be_rename = (\<lambda>p q ns. tmp_rename ns p q),
      be_copyFile = (\<lambda>p q ns. tmp_copyFile cx ns p q),
      be_moveFile = (\<lambda>p q ns. tmp_moveFile ns p q),
      be_getFileSize = (\<lambda>p ns. tmp_getFileSize ns p),
      be_getDirFileList = (\<lambda>p items ns. tmp_getDirFileList ns p items),
      be_isFileExist = (\<lambda>p ns. tmp_isFileExist ns p),
      be_isDirExist = (\<lambda>p ns. tmp_isDirExist ns p),
      be_isDirectory = (\<lambda>p ns. tmp_isDirExist ns p),
      be_setFileAttr = (\<lambda>p ty b sz ns. tmp_setFileAttr ns p ty b sz),
      be_getFileAttr = (\<lambda>p ty b sz ns. tmp_getFileAttr ns p ty b sz),
      be_removeFileAttr = (\<lambda>p ty. not_supported),
      be_getFileMeta = (\<lambda>p out ns. tmp_getFileMeta ns p out),
      be_setFilePermissions = (\<lambda>p w ns. tmp_setFilePermissions ns p w),
      be_setFileOwner = (\<lambda>p u g ns. tmp_setFileOwner ns p u g),
      be_touch = (\<lambda>p ns. tmp_touch cx ns p),
      be_openFile = (\<lambda>p flags ns. (ns, err_handle PDI_ERR_NOT_SUPPORTED)),
      be_readFileHandle = (\<lambda>h sz ns. (ns, [], Inl PDI_ERR_NOT_SUPPORTED)),
      be_writeFileHandle = (\<lambda>h c sz. not_supported),
      be_seekFile = (\<lambda>h off wh. not_supported),
      be_syncFile = (\<lambda>h. not_supported),
      be_closeFile = (\<lambda>h. not_supported),
      be_getTotalSize = (\<lambda>ns. tmp_getTotalSize),
      be_getUsedSize = tmp_getUsedSize,
      be_getFreeSize = tmp_getFreeSize,
      be_getPWD = (\<lambda>ns. ''/tmp''),
      be_setPWD = (\<lambda>p ns. (ns, False)),
      be_getLastPWD = (\<lambda>ns. ''/tmp''),
      be_changeDirectory = (\<lambda>p ns. (ns, False)),
      be_setHomeDirectory = (\<lambda>h ns. (ns, False))\<rparr>"

end
