(* ===== verification/VfsProps.thy ===== *)
theory VfsProps
  imports Vfs TmpFsInv
begin

text \<open>
  The dispatcher finds the mount with the longest prefix of a path, and hands a handle back to the backend
  that opened it.
\<close>

section \<open>The longest prefix\<close>

definition covers :: "vfs_mount \<Rightarrow> string \<Rightarrow> bool" where
  "covers m path \<longleftrightarrow> mt_prefix m = root_path \<or>
     (mt_prefix m \<noteq> [] \<and> (\<exists>rest. path = mt_prefix m @ rest \<and> (rest = [] \<or> hd rest = slash)))"

lemma covers_step:
  "consider_mount path m best =
     (if covers m path \<and> (mt_prefix m = root_path \<longrightarrow> snd best = 0) \<and> length (mt_prefix m) > snd best
      then (Some m, length (mt_prefix m)) else best)"
proof -
  have "(\<exists>rest. path = p @ rest \<and> (rest = [] \<or> hd rest = slash)) \<longleftrightarrow>
      take (length p) path = p \<and> \<not> (length p < length path \<and> path ! length p \<noteq> slash)" for p
  proof
    assume a: "take (length p) path = p \<and> \<not> (length p < length path \<and> path ! length p \<noteq> slash)"
    then have "path = p @ drop (length p) path" by (metis append_take_drop_id)
    moreover have "drop (length p) path = [] \<or> hd (drop (length p) path) = slash"
      using a by (cases "length p < length path") (simp_all add: hd_drop_conv_nth)
    ultimately show "\<exists>rest. path = p @ rest \<and> (rest = [] \<or> hd rest = slash)" by blast
  qed (auto simp: nth_append hd_conv_nth)
  then show ?thesis
    by (auto simp: consider_mount_def covers_def Let_def)
qed

lemma best_mount_inv:
  "case best_mount ms path of
     (None, len) \<Rightarrow> len = 0 \<and> (\<forall>m\<in>set ms. \<not> covers m path)
   | (Some m, len) \<Rightarrow> m \<in> set ms \<and> covers m path \<and> len = length (mt_prefix m) \<and>
       (\<forall>m'\<in>set ms. covers m' path \<longrightarrow> length (mt_prefix m') \<le> len)"
proof (induction ms rule: rev_induct)
  case (snoc m ms)
  obtain b len where b: "best_mount ms path = (b, len)" by (cases "best_mount ms path")
  have pos: "0 < length (mt_prefix k)" if "covers k path" for k
    using that by (auto simp: covers_def)
  have "best_mount (ms @ [m]) path = consider_mount path m (b, len)"
    using b by (simp add: best_mount_def)
  then show ?case
    using snoc b pos [of m] by (cases b) (auto simp: covers_step Suc_le_eq)
qed (simp add: best_mount_def)

text \<open>
  C31: A path goes to the mount with the longest prefix that ends where a component of the path ends.
  When no mounted prefix does, the call fails; the backend is given the path from the end of the
  prefix on, the root path when nothing is left, and the path itself from the root mount.
\<close>

theorem resolve_longest:
  "case resolve ms (Some path) of
     None \<Rightarrow> \<forall>m\<in>set ms. \<not> covers m path
   | Some (b, rel) \<Rightarrow>
       \<exists>m\<in>set ms. covers m path \<and> b = mt_backend m \<and>
         (\<forall>m'\<in>set ms. covers m' path \<longrightarrow> length (mt_prefix m') \<le> length (mt_prefix m)) \<and>
         rel = Some (if mt_prefix m = root_path then path
                     else if path = mt_prefix m then root_path else drop (length (mt_prefix m)) path)"
proof (cases "best_mount ms path")
  case (Pair best len)
  show ?thesis
  proof (cases best)
    case None
    then show ?thesis using best_mount_inv [of ms path] Pair by (simp add: resolve_def)
  next
    case (Some m)
    then have m: "m \<in> set ms" "covers m path" "len = length (mt_prefix m)"
      "\<forall>m'\<in>set ms. covers m' path \<longrightarrow> length (mt_prefix m') \<le> length (mt_prefix m)"
      using best_mount_inv [of ms path] Pair by auto
    have "drop len path = [] \<longleftrightarrow> path = mt_prefix m" if "mt_prefix m \<noteq> root_path"
      using that m(2,3) by (auto simp: covers_def)
    then have "resolve ms (Some path) = Some (mt_backend m, Some (if mt_prefix m = root_path then path
        else if path = mt_prefix m then root_path else drop (length (mt_prefix m)) path))"
      using Pair Some m(3) by (simp add: resolve_def Let_def)
    then show ?thesis using m(1,2,4) by auto
  qed
qed

definition sample_mounts :: "vfs_mount list" where
  "sample_mounts =
     [\<lparr>mt_prefix = ''/'', mt_name = ''rootfs'', mt_backend = 0, mt_type = VFS_TYPE_LITTLEFS\<rparr>,
      \<lparr>mt_prefix = ''/tmp'', mt_name = ''tmpfs'', mt_backend = 1, mt_type = VFS_TYPE_TMPFS\<rparr>]"

lemmas mount_eval = sample_mounts_def resolve_def best_mount_def consider_mount_def PATH_SEPARATOR_CHAR_def Let_def

theorem resolve_longest_witness:
  "resolve sample_mounts (Some ''/tmp/x'') = Some (1, Some ''/x'') \<and>
   resolve sample_mounts (Some ''/tmpx'') = Some (0, Some ''/tmpx'') \<and>
   (\<exists>m\<in>set sample_mounts. covers m ''/tmp/x'' \<and> 1 = mt_backend m \<and>
      (\<forall>m'\<in>set sample_mounts. covers m' ''/tmp/x'' \<longrightarrow> length (mt_prefix m') \<le> length (mt_prefix m)))"
proof -
  have r: "resolve sample_mounts (Some ''/tmp/x'') = Some (1, Some ''/x'')"
    "resolve sample_mounts (Some ''/tmpx'') = Some (0, Some ''/tmpx'')"
    by (simp_all add: mount_eval)
  then show ?thesis using resolve_longest [of sample_mounts "''/tmp/x''"] by auto
qed

section \<open>Handles\<close>

lemma mount_id_found:
  "b \<in> set (map mt_backend ms) \<Longrightarrow>
   \<exists>k. mount_id_of ms b i = i + k + 1 \<and> k < length ms \<and> mt_backend (ms ! k) = b"
proof (induction ms arbitrary: i)
  case (Cons m ms)
  show ?case
  proof (cases "mt_backend m = b")
    case False
    then obtain k where "mount_id_of ms b (i + 1) = i + 1 + k + 1" "k < length ms" "mt_backend (ms ! k) = b"
      using Cons by (metis Cons.IH list.set_intros(1) list.simps(9) set_ConsD)
    then show ?thesis using False by (intro exI [of _ "Suc k"]) simp
  qed (auto intro: exI [of _ 0])
qed simp

lemma resolve_mounted:
  assumes "resolve ms path = Some (b, rel)"
  shows "b \<in> set (map mt_backend ms)"
proof (cases path)
  case None
  then show ?thesis using assms by (auto simp: resolve_def rootBackend_def find_Some_iff)
next
  case (Some p)
  then show ?thesis
    using assms best_mount_inv [of ms p] by (auto simp: resolve_def Let_def split: option.splits prod.splits)
qed

lemma handle_parts:
  fixes h :: fhandle
  assumes h: "0 \<le> sint h" "sint h \<le> sint VFS_HANDLE_BACKEND_MASK" and k: "k < 0x7F"
  defines "w \<equiv> push_bit VFS_HANDLE_MOUNT_SHIFT (of_nat k) OR h"
  shows "w AND VFS_HANDLE_BACKEND_MASK = h" "drop_bit VFS_HANDLE_MOUNT_SHIFT w AND VFS_HANDLE_MOUNT_MAX = of_nat k"
    "0 \<le> sint w"
proof -
  have m: "VFS_HANDLE_BACKEND_MASK = mask 24" "VFS_HANDLE_MOUNT_MAX = (mask 7 :: fhandle)"
    by (simp_all add: VFS_HANDLE_BACKEND_MASK_def VFS_HANDLE_MOUNT_MAX_def mask_eq_exp_minus_1)
  have "sint VFS_HANDLE_BACKEND_MASK = 0xFFFFFF" by (simp add: VFS_HANDLE_BACKEND_MASK_def)
  then have "take_bit 32 (sint h) = sint h" using h by (intro take_bit_int_eq_self) simp_all
  then have "uint h = sint h" by (simp add: uint_sint)
  then have "take_bit 24 (uint h) = uint h" using h \<open>sint VFS_HANDLE_BACKEND_MASK = 0xFFFFFF\<close>
    by (intro take_bit_int_eq_self) simp_all
  then have h24: "take_bit 24 h = h" by (intro word_uint_eqI) (simp add: unsigned_take_bit_eq)
  let ?x = "of_nat k :: fhandle"
  have "take_bit 7 (uint ?x) = uint ?x" using k by (intro take_bit_int_eq_self) (simp_all add: uint_nat unat_of_nat)
  then have x7: "take_bit 7 ?x = ?x" by (intro word_uint_eqI) (simp add: unsigned_take_bit_eq)
  have hb: "n < 24" if "bit h n" for n using h24 that by (metis bit_take_bit_iff)
  have xb: "n < 7 \<and> n < 8" if "bit ?x n" for n
  proof -
    have "n < 7" using x7 that by (metis bit_take_bit_iff)
    then show ?thesis by simp
  qed
  show "w AND VFS_HANDLE_BACKEND_MASK = h"
    by (rule bit_word_eqI) (use hb in \<open>auto simp: w_def m VFS_HANDLE_MOUNT_SHIFT_def bit_simps\<close>)
  show "drop_bit VFS_HANDLE_MOUNT_SHIFT w AND VFS_HANDLE_MOUNT_MAX = ?x"
    by (rule bit_word_eqI) (use hb xb in \<open>auto simp: w_def m VFS_HANDLE_MOUNT_SHIFT_def bit_simps\<close>)
  have "\<not> bit w 31" using hb [of 31] xb [of 7] by (auto simp: w_def VFS_HANDLE_MOUNT_SHIFT_def bit_simps)
  then show "0 \<le> sint w" using bit_last_iff [of w] by simp
qed

lemma err_handle_neg [simp]: "0 \<le> sint (err_handle e) \<longleftrightarrow> e = PDI_OK"
  by (cases e) (simp_all add: err_handle_def pdi_err_simps)

lemma open_done:
  assumes "vfs_openFile ops cx v path flags = (v', h)" "0 \<le> sint h"
  obtains b rel s bh where "resolve (m_mounts v) path = Some (b, rel)" "be_openFile (ops b) rel flags (backends v b) = (s, bh)"
    "0 \<le> sint bh" "sint bh \<le> sint VFS_HANDLE_BACKEND_MASK" "v' = v\<lparr>backends := (backends v)(b := s)\<rparr>"
    "h = push_bit VFS_HANDLE_MOUNT_SHIFT (of_nat (mount_id_of (m_mounts v) b 0)) OR bh"
proof (cases "resolve (m_mounts v) path")
  case None
  then show thesis using assms by (auto simp: vfs_openFile_def Let_def split: if_splits)
next
  case (Some br)
  obtain b rel where br: "br = (b, rel)" by (cases br)
  obtain s bh where "be_openFile (ops b) rel flags (backends v b) = (s, bh)" by fastforce
  then show thesis
    using that [OF Some [unfolded br]] assms Some br by (auto simp: vfs_openFile_def Let_def not_less split: if_splits)
qed

text \<open>
  C35: A handle leads back to where it came from. Whenever opening a file gives a handle that is not
  an error, the backend of the path opened it, and the handle resolves to that backend with the
  handle the backend gave, so reads, writes, seeks, syncs and the close go to the open file.
\<close>

theorem open_handle_resolves:
  assumes "length (m_mounts v) \<le> VFS_MAX_MOUNTS" and "vfs_openFile ops cx v path flags = (v', h)" and "0 \<le> sint h"
  shows "\<exists>b rel s bh. resolve (m_mounts v) path = Some (b, rel) \<and> be_openFile (ops b) rel flags (backends v b) = (s, bh) \<and>
           backends v' b = s \<and> resolveHandle (m_mounts v') h = Some (b, bh)"
proof -
  obtain b rel s bh where r: "resolve (m_mounts v) path = Some (b, rel)"
    and o: "be_openFile (ops b) rel flags (backends v b) = (s, bh)"
    and got: "0 \<le> sint bh" "sint bh \<le> sint VFS_HANDLE_BACKEND_MASK" "v' = v\<lparr>backends := (backends v)(b := s)\<rparr>"
      "h = push_bit VFS_HANDLE_MOUNT_SHIFT (of_nat (mount_id_of (m_mounts v) b 0)) OR bh"
    using open_done [OF assms(2,3)] by metis
  obtain k where k: "mount_id_of (m_mounts v) b 0 = k + 1" "k < length (m_mounts v)" "mt_backend (m_mounts v ! k) = b"
    using mount_id_found [OF resolve_mounted [OF r], of 0] by auto
  have small: "k + 1 < 0x7F" using k(2) assms(1) by (simp add: VFS_MAX_MOUNTS_def)
  note parts = handle_parts [OF got(1,2) small, folded k(1), folded got(4)]
  have "unat (of_nat (k + 1) :: fhandle) = k + 1" using small by (simp only: unat_of_nat) simp
  then have "resolveHandle (m_mounts v') h = Some (b, bh)"
    using parts k got(3) by (simp add: resolveHandle_def Let_def del: of_nat_add of_nat_Suc)
  then show ?thesis using r o got(3) by auto
qed

definition sample_vfs :: "tmpfs_node list vfs" where
  "sample_vfs = \<lparr>m_mounts = sample_mounts, m_priv_depth = 0, backends = (\<lambda>_. [])\<rparr>"

definition handle_ops :: "nat \<Rightarrow> (tmpfs_node list, unit) fs_ops" where
  "handle_ops b = (tmp_ops sample_caller)\<lparr>be_openFile := (\<lambda>p flags ns. (ns, 3))\<rparr>"

theorem open_handle_resolves_witness:
  "snd (vfs_openFile handle_ops sample_caller sample_vfs (Some ''/tmp/x'') 0) = 0x2000003 \<and>
   resolveHandle sample_mounts 0x2000003 = Some (1, 3)"
proof -
  have r: "resolve sample_mounts (Some ''/tmp/x'') = Some (1, Some ''/x'')"
    by (simp add: mount_eval)
  let ?o = "vfs_openFile handle_ops sample_caller sample_vfs (Some ''/tmp/x'') 0"
  have o: "?o = (sample_vfs\<lparr>backends := (backends sample_vfs)(1 := [])\<rparr>, 0x2000003)"
    using r by (simp add: vfs_openFile_def sample_vfs_def handle_ops_def sample_mounts_def Let_def VFS_HANDLE_MOUNT_SHIFT_def
        VFS_HANDLE_BACKEND_MASK_def)
  have "length (m_mounts sample_vfs) \<le> VFS_MAX_MOUNTS"
    by (simp add: sample_vfs_def sample_mounts_def VFS_MAX_MOUNTS_def)
  from open_handle_resolves [OF this o] show ?thesis
    using o r by (auto simp: sample_vfs_def handle_ops_def)
qed

end
