(* ===== verification/VfsGuard.thy ===== *)
theory VfsGuard
  imports VfsProps
begin

text \<open>
  The dispatcher over RAM file systems, call by call: what each call may change, and that a file is
  safe from a session without write permission on it.
\<close>

section \<open>Calls through the dispatcher\<close>

abbreviation tops :: "fs_caller \<Rightarrow> nat \<Rightarrow> (tmpfs_node list, tmpfs_node list \<times> bool \<times> bool) fs_ops" where
  "tops cx \<equiv> (\<lambda>_. tmp_ops cx)"

fun vfs_step :: "fs_caller \<Rightarrow> tmpfs_node list vfs \<Rightarrow> fs_op \<Rightarrow> (tmpfs_node list vfs \<times> fs_result) option" where
  "vfs_step cx v (OpCreateFile p c) = Some (vfs_createFile (tops cx) v p (Some c) (int (length c)))"
| "vfs_step cx v (OpWriteFile p c app) = Some (vfs_writeFile (tops cx) cx v p (Some c) (of_nat (length c)) app)"
| "vfs_step cx v (OpEditFile p off c) = vfs_editFile (tops cx) cx v p off (Some c) (of_nat (length c))"
| "vfs_step cx v (OpCreateDirectory p) = Some (vfs_createDirectory (tops cx) v p)"
| "vfs_step cx v (OpDeleteFile p) = Some (vfs_deleteFile (tops cx) cx v p)"
| "vfs_step cx v (OpDeleteDirectory p) = Some (vfs_deleteDirectory (tops cx) cx v p)"
| "vfs_step cx v (OpRename p q) = Some (vfs_rename (tops cx) cx v p q)"
| "vfs_step cx v (OpCopyFile p q) = Some (vfs_copyFile (tops cx) cx v p q)"
| "vfs_step cx v (OpTouch p) = Some (vfs_touch (tops cx) cx v p)"
| "vfs_step cx v (OpSetFilePermissions p w) = Some (vfs_setFilePermissions (tops cx) cx v p w)"
| "vfs_step cx v (OpSetFileOwner p u g) = Some (vfs_setFileOwner (tops cx) cx v p u g)"
| "vfs_step cx v (OpSetFileAttr p ty b) = Some (vfs_setFileAttr (tops cx) cx v p ty (Some b) (of_nat (length b)))"

lemma tmp_ops_simps [simp]:
  "be_readFile (tmp_ops cx) p sz f off u st ns = (ns, tmp_readFile ns p sz f off u st)"
  "be_writeFile (tmp_ops cx) p c w app ns = tmp_writeFile cx ns p c w app"
  "be_createFile (tmp_ops cx) p c i ns = tmp_createFile cx ns p c i"
  "be_deleteFile (tmp_ops cx) p ns = tmp_deleteFile ns p"
  "be_copyFile (tmp_ops cx) p q ns = tmp_copyFile cx ns p q"
  "be_isFileExist (tmp_ops cx) p ns = tmp_isFileExist ns p"
  "be_isDirExist (tmp_ops cx) p ns = tmp_isDirExist ns p"
  "be_isDirectory (tmp_ops cx) p ns = tmp_isDirExist ns p"
  "be_getFileMeta (tmp_ops cx) p out ns = tmp_getFileMeta ns p out"
  "be_moveFile (tmp_ops cx) p q ns = tmp_moveFile ns p q"
  by (simp_all add: tmp_ops_def)

definition put_backend :: "'b vfs \<Rightarrow> nat \<Rightarrow> 'b \<Rightarrow> 'b vfs" where
  "put_backend v b s = v\<lparr>backends := (backends v)(b := s)\<rparr>"

lemma put_backend_simps [simp]:
  "m_mounts (put_backend v b s) = m_mounts v" "m_priv_depth (put_backend v b s) = m_priv_depth v"
  "backends (put_backend v b s) = (backends v)(b := s)"
  by (simp_all add: put_backend_def)

text \<open>The path a call works on, and the same call with that path replaced by the backend's.\<close>

fun target :: "fs_op \<Rightarrow> string option" where
  "target (OpCreateFile p c) = p"
| "target (OpWriteFile p c app) = p"
| "target (OpEditFile p off c) = p"
| "target (OpCreateDirectory p) = p"
| "target (OpDeleteFile p) = p"
| "target (OpDeleteDirectory p) = p"
| "target (OpRename p q) = q"
| "target (OpCopyFile p q) = q"
| "target (OpTouch p) = p"
| "target (OpSetFilePermissions p w) = p"
| "target (OpSetFileOwner p u g) = p"
| "target (OpSetFileAttr p ty b) = p"

fun retarget :: "string option \<Rightarrow> fs_op \<Rightarrow> fs_op" where
  "retarget r (OpCreateFile p c) = OpCreateFile r c"
| "retarget r (OpWriteFile p c app) = OpWriteFile r c app"
| "retarget r (OpEditFile p off c) = OpEditFile r off c"
| "retarget r (OpCreateDirectory p) = OpCreateDirectory r"
| "retarget r (OpDeleteFile p) = OpDeleteFile r"
| "retarget r (OpDeleteDirectory p) = OpDeleteDirectory r"
| "retarget r (OpRename p q) = OpRename p r"
| "retarget r (OpCopyFile p q) = OpCopyFile p r"
| "retarget r (OpTouch p) = OpTouch r"
| "retarget r (OpSetFilePermissions p w) = OpSetFilePermissions r w"
| "retarget r (OpSetFileOwner p u g) = OpSetFileOwner r u g"
| "retarget r (OpSetFileAttr p ty b) = OpSetFileAttr r ty b"

fun one_path :: "fs_op \<Rightarrow> bool" where
  "one_path (OpRename p q) \<longleftrightarrow> False"
| "one_path (OpCopyFile p q) \<longleftrightarrow> False"
| "one_path _ \<longleftrightarrow> True"

text \<open>The check the dispatcher makes before it forwards a call.\<close>

fun allowed :: "fs_caller \<Rightarrow> tmpfs_node list vfs \<Rightarrow> fs_op \<Rightarrow> bool" where
  "allowed cx v (OpCreateFile p c) \<longleftrightarrow> True"
| "allowed cx v (OpCreateDirectory p) \<longleftrightarrow> True"
| "allowed cx v (OpSetFileOwner p u g) \<longleftrightarrow> checkRoot cx v"
| "allowed cx v (OpSetFilePermissions p w) \<longleftrightarrow> checkOwnerOrRoot (tops cx) cx v p"
| "allowed cx v (OpSetFileAttr p ty b) \<longleftrightarrow> checkOwnerOrRoot (tops cx) cx v p"
| "allowed cx v (OpCopyFile p q) \<longleftrightarrow> checkAccess (tops cx) cx v p VFS_ACCESS_R \<and> checkAccess (tops cx) cx v q VFS_ACCESS_W"
| "allowed cx v call \<longleftrightarrow> checkAccess (tops cx) cx v (target call) VFS_ACCESS_W"

lemma route_put:
  "route v path fail call =
     (case resolve (m_mounts v) path of
        None \<Rightarrow> (v, fail)
      | Some (b, rel) \<Rightarrow> (put_backend v b (fst (call b rel (backends v b))), snd (call b rel (backends v b))))"
  by (simp add: route_def put_backend_def split: option.split prod.split)

text \<open>A call on one path is refused, finds no mount, or is the backend's call on the backend's path.\<close>

lemma vfs_step_one_path:
  assumes "one_path call"
  shows "vfs_step cx v call =
     (if \<not> allowed cx v call then Some (v, Inl PDI_ERR_PERM)
      else case resolve (m_mounts v) (target call) of
             None \<Rightarrow> Some (v, Inl STORAGE_ERROR_NOT_MOUNTED)
           | Some (b, rel) \<Rightarrow>
               map_option (\<lambda>(s, r). (put_backend v b s, r)) (tmp_step cx (backends v b) (retarget rel call)))"
  using assms
  by (cases call) (auto simp: vfs_createFile_def vfs_writeFile_def vfs_editFile_def vfs_createDirectory_def vfs_deleteFile_def
      vfs_deleteDirectory_def vfs_touch_def vfs_setFilePermissions_def vfs_setFileOwner_def vfs_setFileAttr_def route_put
      tmp_ops_def put_backend_def split: option.split prod.split)

section \<open>What a call on a RAM file system changes\<close>

fun keeps_others :: "fs_op \<Rightarrow> bool" where
  "keeps_others (OpRename p q) \<longleftrightarrow> False"
| "keeps_others (OpDeleteDirectory p) \<longleftrightarrow> False"
| "keeps_others _ \<longleftrightarrow> True"

lemma spec_frame:
  assumes "keeps_others call" "q \<noteq> normalize (target call)"
  shows "fst (spec_step cx t call) q = t q"
  using assms
  by (cases call) (auto simp: spec_create_def spec_put_def spec_edit_def spec_mkdir_def spec_remove_def spec_copy_def
      spec_touch_def spec_set_def spec_attr_def Let_def split: option.splits if_splits)

lemma tmp_step_frame:
  assumes "tmpfs_inv ns" "op_ok (tree_of ns) call"
  obtains ns' r where "tmp_step cx ns call = Some (ns', r)" "tmpfs_inv ns'"
    "\<And>q. keeps_others call \<Longrightarrow> q \<noteq> normalize (target call) \<Longrightarrow> tree_of ns' q = tree_of ns q"
proof -
  obtain ns' r where s: "tmp_step cx ns call = Some (ns', r)" "tmpfs_inv ns'" "spec_step cx (tree_of ns) call = (tree_of ns', r)"
    using tmpfs_step [OF assms] by blast
  then show thesis
    using that [OF s(1,2)] spec_frame [of call _ cx "tree_of ns"] by (metis fst_conv)
qed

text \<open>Creating at a path that is taken changes nothing.\<close>

lemma create_taken:
  assumes "tmpfs_inv ns" "normalize rel \<in> dom (tree_of ns)"
  shows "tmp_createFile cx ns rel c sz = (ns, Inl PDI_ERR_EXISTS)" "tmp_createDirectory cx ns rel = (ns, Inl PDI_ERR_EXISTS)"
    "\<exists>e. tmp_copyFile cx ns src rel = (ns, Inl e)"
proof -
  have ne: "normalize rel \<noteq> []" "length (normalize rel) \<le> TMPFS_MAX_PATH"
    using assms tmpfs_invD(2) [OF assms(1)] by (auto simp: tree_ok_def node_ok_def clean_path_def)
  have f: "findNode ns (normalize rel) \<noteq> None"
    using assms(2) by (simp only: tree_of_mem findNode_None) simp
  show "tmp_createFile cx ns rel c sz = (ns, Inl PDI_ERR_EXISTS)" "tmp_createDirectory cx ns rel = (ns, Inl PDI_ERR_EXISTS)"
    using ne f by (simp_all add: tmp_createFile_def tmp_createDirectory_def Let_def)
  show "\<exists>e. tmp_copyFile cx ns src rel = (ns, Inl e)"
    using ne f by (auto simp: tmp_copyFile_def Let_def split: option.split)
qed

section \<open>Copying across mounts\<close>

lemma deliver_inv:
  assumes "\<And>st part. I st \<Longrightarrow> length part \<le> bound \<Longrightarrow> I (snd (f st part))"
  shows "I st \<Longrightarrow> length rest \<le> bound \<Longrightarrow> I (snd (deliver f chunk rest got st))"
proof (induction rest arbitrary: got st rule: length_induct)
  case (1 rest)
  obtain go st' where f: "f st (take chunk rest) = (go, st')" by fastforce
  have "I st'" using assms [OF 1(2), of "take chunk rest"] 1(3) f by simp
  then have "I (snd (deliver f chunk (drop chunk rest) (got + length (take chunk rest)) st'))" if "rest \<noteq> []" "chunk \<noteq> 0"
    using 1 that by simp
  then show ?case using 1(2) \<open>I st'\<close> f by (subst deliver.simps) simp
qed

lemma readFile_inv:
  assumes "\<And>st part. I st \<Longrightarrow> length part \<le> 4096 \<Longrightarrow> I (snd (f st part))" "tmpfs_inv ns" "I st"
  shows "I (snd (snd (tmp_readFile ns p sz (Some f) off u st)))"
proof (cases "findNode ns (normalize p)")
  case None
  then show ?thesis using assms(3) by (auto simp: tmp_readFile_def split: option.split)
next
  case (Some i)
  have "length (m_data (ns ! i)) \<le> 4096"
    using data_bytes_nth findNode_Some [OF Some] tmpfs_invD(3) [OF assms(2)] by (meson le_trans)
  then have "I (snd (deliver f chunk (take n (drop k (m_data (ns ! i)))) 0 st))" for chunk n k
    using deliver_inv [of I 4096 f st "take n (drop k (m_data (ns ! i)))" chunk 0] assms(1,3) by fastforce
  moreover have "take n xs = take n (drop 0 xs)" "drop k (m_data (ns ! i)) = take (length (m_data (ns ! i))) (drop k (m_data (ns ! i)))"
    for n k and xs :: string by simp_all
  ultimately show ?thesis
    using Some assms(3)
    by (cases p) (auto simp: tmp_readFile_def Let_def case_prod_beta simp del: take_all split: option.split)
qed

text \<open>A predicate on the destination that every write at the path keeps holds after the copy.\<close>

lemma crossCopy_keeps:
  fixes v :: "tmpfs_node list vfs"
  assumes inv: "\<And>b. tmpfs_inv (backends v b)" and ne: "sb \<noteq> db" and frame: "q \<noteq> normalize drel"
    and out: "vfs_crossCopy (tops cx) v sb srel db drel = (v', r)"
  shows "\<exists>d. v' = put_backend v db d \<and> tmpfs_inv d \<and> tree_of d q = tree_of (backends v db) q"
proof -
  define I where "I = (\<lambda>(d :: tmpfs_node list, f :: bool, ok :: bool). tmpfs_inv d \<and> tree_of d q = tree_of (backends v db) q)"
  have step: "I (snd (copy_chunk (tops cx db) drel st part))" if a: "I st" "length part \<le> 4096" for st part
  proof -
    obtain d f ok where st: "st = (d, f, ok)" by (cases st)
    have "tmpfs_inv d" using a(1) st by (simp add: I_def)
    moreover have "op_ok (tree_of d) (OpWriteFile drel part (\<not> f))" using a(2) by simp
    ultimately obtain d' w where "tmp_writeFile cx d drel (Some part) (of_nat (length part)) (\<not> f) = (d', w)" "tmpfs_inv d'"
      "tree_of d' q = tree_of d q"
      using tmp_step_frame [of d "OpWriteFile drel part (\<not> f)" cx thesis] frame by auto
    then show ?thesis using a(1) st by (simp add: copy_chunk_def I_def split: sum.split)
  qed
  let ?st = "(backends v db, True, True)"
  obtain rc m d f ok where read: "tmp_readFile (backends v sb) srel 128 (Some (copy_chunk (tops cx db) drel)) 0 None ?st = (rc, m, d, f, ok)"
    by (metis prod_cases3)
  have "I ?st" using inv by (simp add: I_def)
  then have d: "tmpfs_inv d" "tree_of d q = tree_of (backends v db) q"
    using readFile_inv [of I "copy_chunk (tops cx db) drel", OF step inv, of ?st sb srel 128 0 None] read by (simp_all add: I_def)
  obtain e re where del: "tmp_deleteFile d drel = (e, re)" "tmpfs_inv e" "tree_of e q = tree_of d q"
    using tmp_step_frame [OF d(1), of "OpDeleteFile drel" cx thesis] frame by auto
  obtain g rg where new: "tmp_createFile cx d drel (Some []) 0 = (g, rg)" "tmpfs_inv g" "tree_of g q = tree_of d q"
    using tmp_step_frame [OF d(1), of "OpCreateFile drel []" cx thesis] frame by auto
  have "v' = put_backend v db (backends v db) \<or> v' = put_backend v db d \<or> v' = put_backend v db e \<or> v' = put_backend v db g"
    using out read del(1) new(1) by (auto simp: vfs_crossCopy_def put_backend_def split: if_splits sum.splits)
  then show ?thesis using del(2,3) new(2,3) d inv by metis
qed

lemma crossCopy_taken:
  fixes v :: "tmpfs_node list vfs"
  assumes inv: "\<And>b. tmpfs_inv (backends v b)" and q: "normalize drel \<in> dom (tree_of (backends v db))"
  shows "fst (vfs_crossCopy (tops cx) v sb srel db drel) = v"
proof -
  let ?ns = "backends v db"
  obtain n where n: "tree_of ?ns (normalize drel) = Some n" using q by blast
  then have "m_type n \<noteq> FILE_TYPE_LINK" using tmpfs_invD(2) [OF inv] by (auto simp: tree_ok_def node_ok_def)
  then have "m_type n = FILE_TYPE_REG \<or> m_type n = FILE_TYPE_DIR" by (metis file_type.exhaust)
  moreover have "map_option (\<lambda>i. ?ns ! i) (findNode ?ns (normalize drel)) = Some n" using n findNode_tree by metis
  ultimately have "tmp_isFileExist ?ns drel \<or> tmp_isDirExist ?ns drel"
    by (auto simp: tmp_isFileExist_def tmp_isDirExist_def)
  then show ?thesis by (auto simp: vfs_crossCopy_def)
qed

section \<open>Protection\<close>

text \<open>
  A node of a backend that the session may not write: it is neither root nor in a privileged scope,
  does not own the node, and the mode gives its class no write bit.
\<close>

definition unwritable :: "fs_caller \<Rightarrow> tmpfs_node list vfs \<Rightarrow> tmpfs_node \<Rightarrow> bool" where
  "unwritable cx v n \<longleftrightarrow> \<not> isPrivileged v \<and> caller_uid cx \<noteq> 0 \<and> m_uid n \<noteq> caller_uid cx \<and>
     mode_bits cx (node_info [] n) AND VFS_ACCESS_W \<noteq> VFS_ACCESS_W"

lemma meta_at:
  assumes "resolve (m_mounts v) path = Some (b, rel)" "tree_of (backends v b) (normalize rel) = Some n" "normalize rel \<noteq> []"
  shows "vfs_getFileMeta (tops cx) v path no_info = Inr (node_info [] n)"
proof -
  have "map_option (\<lambda>i. backends v b ! i) (findNode (backends v b) (normalize rel)) = Some n" using assms(2) findNode_tree by metis
  then show ?thesis
    using assms(1,3) by (auto simp: vfs_getFileMeta_def query_def tmp_getFileMeta_def no_info_def)
qed

lemma unwritable_refused:
  assumes n: "unwritable cx v n" and path: "resolve (m_mounts v) (target call) = Some (b, rel)"
    "tree_of (backends v b) (normalize rel) = Some n" "normalize rel \<noteq> []"
    and call: "\<And>p c. call \<noteq> OpCreateFile p c" "\<And>p. call \<noteq> OpCreateDirectory p"
  shows "\<not> allowed cx v call"
proof -
  note m = meta_at [OF path, of cx]
  have "\<not> checkAccess (tops cx) cx v (target call) VFS_ACCESS_W" "\<not> checkOwnerOrRoot (tops cx) cx v (target call)" "\<not> checkRoot cx v"
    using n m by (simp_all add: checkAccess_def checkOwnerOrRoot_def checkRoot_def unwritable_def node_info_def)
  then show ?thesis using call by (cases call) auto
qed

definition safe_step :: "tmpfs_node list vfs \<Rightarrow> tmpfs_node list vfs \<Rightarrow> nat \<Rightarrow> string \<Rightarrow> bool" where
  "safe_step v v' b q \<longleftrightarrow> m_mounts v' = m_mounts v \<and> m_priv_depth v' = m_priv_depth v \<and>
     (\<forall>b. tmpfs_inv (backends v' b)) \<and> tree_of (backends v' b) q = tree_of (backends v b) q"

lemma safe_put:
  assumes "\<And>b. tmpfs_inv (backends v b)" "tmpfs_inv s" "b' = b \<Longrightarrow> tree_of s q = tree_of (backends v b) q"
  shows "safe_step v (put_backend v b' s) b q"
  using assms by (simp add: safe_step_def)

lemma retarget_simps [simp]:
  "target (retarget rel call) = rel" "keeps_others (retarget rel call) = keeps_others call"
  "keeps_others call \<Longrightarrow> op_ok t (retarget rel call) = op_ok Map.empty call"
  by (cases call; simp)+

lemma one_path_protects:
  assumes inv: "\<And>b. tmpfs_inv (backends v b)" and call: "keeps_others call" "op_ok Map.empty call" "one_path call"
    and n: "unwritable cx v n" "tree_of (backends v b) q = Some n" and out: "vfs_step cx v call = Some (v', r)"
  shows "safe_step v v' b q"
proof (cases "v' = v")
  case True
  then show ?thesis using inv by (simp add: safe_step_def)
next
  case False
  then obtain b' rel s where ok: "allowed cx v call" and b': "resolve (m_mounts v) (target call) = Some (b', rel)"
    and s: "tmp_step cx (backends v b') (retarget rel call) = Some (s, r)" "v' = put_backend v b' s"
    using out vfs_step_one_path [OF call(3)] by (auto split: if_splits option.splits)
  have s': "tmpfs_inv s" "q \<noteq> normalize rel \<Longrightarrow> tree_of s q = tree_of (backends v b') q" for q
    using tmp_step_frame [OF inv, of b' "retarget rel call" cx] call(1,2) s(1) by force+
  have same: "s = backends v b" if eq: "b' = b" "normalize rel = q"
  proof -
    have "q \<noteq> []" using n(2) tmpfs_invD(2) [OF inv] by (auto simp: tree_ok_def node_ok_def clean_path_def)
    then have "(\<exists>p c. call = OpCreateFile p c) \<or> (\<exists>p. call = OpCreateDirectory p)"
      using unwritable_refused [OF n(1) b'] n(2) eq ok by auto
    moreover have taken: "normalize rel \<in> dom (tree_of (backends v b))" using n(2) eq by auto
    ultimately show ?thesis using create_taken(1,2) [OF inv taken] s(1) eq(1) by auto
  qed
  show ?thesis unfolding s(2)
  proof (rule safe_put [OF inv s'(1)])
    assume "b' = b"
    then show "tree_of s q = tree_of (backends v b) q" using s'(2) [of q] same by (cases "normalize rel = q") auto
  qed
qed

lemma copy_protects:
  assumes inv: "\<And>b. tmpfs_inv (backends v b)" and n: "tree_of (backends v b) q = Some n"
    and out: "vfs_step cx v (OpCopyFile src dst) = Some (v', r)"
  shows "safe_step v v' b q"
proof (cases "v' = v")
  case True
  then show ?thesis using inv by (simp add: safe_step_def)
next
  case False
  then obtain sb srel db drel where "resolve (m_mounts v) src = Some (sb, srel)" "resolve (m_mounts v) dst = Some (db, drel)"
    and out': "v' = (if sb = db then put_backend v sb (fst (tmp_copyFile cx (backends v sb) srel drel))
                 else fst (vfs_crossCopy (tops cx) v sb srel db drel))"
    using out by (auto simp: vfs_copyFile_def put_backend_def split: if_splits option.splits prod.splits)
  show ?thesis
  proof (cases "sb = db")
    case True
    let ?s = "fst (tmp_copyFile cx (backends v sb) srel drel)"
    have s: "tmpfs_inv ?s" "q \<noteq> normalize drel \<Longrightarrow> tree_of ?s q = tree_of (backends v sb) q" for q
      using tmp_step_frame [OF inv, of sb "OpCopyFile srel drel" cx] by force+
    have "tree_of ?s q = tree_of (backends v b) q" if "sb = b"
    proof (cases "q = normalize drel")
      case True
      then have "normalize drel \<in> dom (tree_of (backends v sb))" using n that by auto
      then show ?thesis using create_taken(3) [OF inv, of drel sb cx srel] that by auto
    qed (use s(2) that in simp)
    then show ?thesis using safe_put [OF inv s(1)] out' True by simp
  next
    case False
    note ne = this
    have keep: "\<exists>d. v' = put_backend v db d \<and> tmpfs_inv d \<and> tree_of d p = tree_of (backends v db) p" if "p \<noteq> normalize drel" for p
      using crossCopy_keeps [OF inv ne that, of cx srel v'] out' ne by (metis prod.collapse)
    show ?thesis
    proof (cases "b = db \<and> q = normalize drel")
      case True
      then have "normalize drel \<in> dom (tree_of (backends v db))" using n by auto
      then have "v' = v" using crossCopy_taken [OF inv] out' ne by simp
      then show ?thesis using \<open>v' \<noteq> v\<close> by simp
    next
      case False
      define p where "p = (if b = db then q else normalize drel @ [slash])"
      have "p \<noteq> normalize drel" using False by (auto simp: p_def)
      then obtain d where "v' = put_backend v db d" "tmpfs_inv d" "tree_of d p = tree_of (backends v db) p" using keep by blast
      then show ?thesis using safe_put [OF inv, of d db b q] by (cases "db = b") (simp_all add: p_def)
    qed
  qed
qed

text \<open>One call keeps every unwritable node, whatever path it is made on.\<close>

lemma vfs_step_protects:
  assumes inv: "\<And>b. tmpfs_inv (backends v b)" and call: "keeps_others call" "op_ok Map.empty call"
    and n: "unwritable cx v n" "tree_of (backends v b) q = Some n" and out: "vfs_step cx v call = Some (v', r)"
  shows "safe_step v v' b q"
proof (cases "one_path call")
  case True
  then show ?thesis using one_path_protects [OF inv call True n out] by simp
next
  case False
  then obtain src dst where "call = OpCopyFile src dst" using call(1) by (cases call) auto
  then show ?thesis using copy_protects [OF inv n(2)] out by simp
qed

lemma vfs_step_total:
  assumes inv: "\<And>b. tmpfs_inv (backends v b)" and call: "keeps_others call" "op_ok Map.empty call"
  shows "\<exists>v' r. vfs_step cx v call = Some (v', r)"
proof (cases "one_path call")
  case True
  have "\<exists>s r. tmp_step cx (backends v b) (retarget rel call) = Some (s, r)" for b rel
    using tmpfs_step [OF inv, of b "retarget rel call" cx] call by auto
  then show ?thesis
    unfolding vfs_step_one_path [OF True] by (fastforce split: option.split prod.split)
next
  case False
  then show ?thesis using call(1) by (cases call) (auto simp: prod.exhaust)
qed

fun vfs_run :: "(fs_caller \<times> fs_op) list \<Rightarrow> tmpfs_node list vfs \<Rightarrow> (tmpfs_node list vfs \<times> fs_result list) option" where
  "vfs_run [] v = Some (v, [])"
| "vfs_run ((cx, call) # calls) v =
     (case vfs_step cx v call of
        None \<Rightarrow> None
      | Some (v', r) \<Rightarrow> map_option (\<lambda>(v'', rs). (v'', r # rs)) (vfs_run calls v'))"

lemma unwritable_cong: "m_priv_depth v' = m_priv_depth v \<Longrightarrow> unwritable cx v' n = unwritable cx v n"
  by (simp add: unwritable_def isPrivileged_def)


definition secret_node :: tmpfs_node where
  "secret_node = (new_node ''secret'' ''pw'' FILE_TYPE_REG)\<lparr>m_perms := 0x180\<rparr>"

definition secret_vfs :: "tmpfs_node list vfs" where
  "secret_vfs = \<lparr>m_mounts = sample_mounts, m_priv_depth = 0, backends = (\<lambda>b. if b = 0 then [secret_node] else [])\<rparr>"

lemma secret_inv: "tmpfs_inv (backends secret_vfs b)" "tree_of (backends secret_vfs 0) ''secret'' = Some secret_node"
proof -
  have "tree_of [secret_node] = [''secret'' \<mapsto> secret_node]"
    by (simp add: tree_of_def secret_node_def new_node_def)
  moreover have "parentOf ''secret'' = []" by (simp add: parentOf_def PATH_SEPARATOR_CHAR_def)
  ultimately have "tmpfs_inv [secret_node]" "tree_of [secret_node] ''secret'' = Some secret_node"
    by (auto simp: tmpfs_inv_def tree_ok_def node_ok_def clean_path_def has_dir_def tree_used_def secret_node_def new_node_def
        TMPFS_MAX_PATH_def TMPFS_MAX_NODES_def PATH_SEPARATOR_CHAR_def split: if_splits)
  then show "tmpfs_inv (backends secret_vfs b)" "tree_of (backends secret_vfs 0) ''secret'' = Some secret_node"
    using tmpfs_empty(1) by (simp_all add: secret_vfs_def)
qed

lemma secret_unwritable: "unwritable sample_caller secret_vfs secret_node"
  by (simp add: unwritable_def isPrivileged_def secret_vfs_def sample_caller_def secret_node_def new_node_def mode_bits_def
      node_info_def VFS_ACCESS_W_def)

definition attack_calls :: "(fs_caller \<times> fs_op) list" where
  "attack_calls = map (Pair sample_caller)
     [OpWriteFile (Some ''/secret'') ''x'' True, OpCreateFile (Some ''//secret'') ''x'', OpDeleteFile (Some ''/secret/'')]"


section \<open>What the checks leave open\<close>

text \<open>
  Renaming and moving check the destination only. A session that may not read a file is refused
  when it reads it, and moves it onto another mount without a question, where the copy is its own.
\<close>

lemma secret_unreadable:
  "fst (snd (vfs_readFile (tops sample_caller) sample_caller secret_vfs (Some ''/secret'') 0 (Some f) 0 None st)) = Inl PDI_ERR_PERM"
  "snd (vfs_copyFile (tops sample_caller) sample_caller secret_vfs (Some ''/secret'') (Some ''/tmp/x'')) = Inl PDI_ERR_PERM"
proof -
  have r: "resolve (m_mounts secret_vfs) (Some ''/secret'') = Some (0, Some ''/secret'')"
    by (simp add: secret_vfs_def mount_eval)
  have "normalize (Some ''/secret'') = ''secret''" by (simp add: tmpfs_eval)
  then have "\<not> checkAccess (tops sample_caller) sample_caller secret_vfs (Some ''/secret'') VFS_ACCESS_R"
    using meta_at [OF r, of secret_node sample_caller] secret_inv(2)
    by (simp add: checkAccess_def isPrivileged_def secret_vfs_def sample_caller_def secret_node_def new_node_def mode_bits_def
        node_info_def VFS_ACCESS_R_def)
  then show "fst (snd (vfs_readFile (tops sample_caller) sample_caller secret_vfs (Some ''/secret'') 0 (Some f) 0 None st)) = Inl PDI_ERR_PERM"
    "snd (vfs_copyFile (tops sample_caller) sample_caller secret_vfs (Some ''/secret'') (Some ''/tmp/x'')) = Inl PDI_ERR_PERM"
    by (simp_all add: vfs_readFile_def vfs_copyFile_def)
qed

abbreviation copied_node :: tmpfs_node where
  "copied_node \<equiv> stampNew sample_caller (new_node ''x'' ''pw'' FILE_TYPE_REG) FILE_PERM_DEFAULT_FILE"

lemma secret_copied:
  "vfs_crossCopy (tops sample_caller) secret_vfs 0 (Some ''/secret'') 1 (Some ''/x'') = (put_backend secret_vfs 1 [copied_node], Inr 0)"
proof -
  have n: "normalize (Some ''/secret'') = ''secret''" "normalize (Some ''/x'') = ''x''" "parentOf ''x'' = []"
    by (simp_all add: tmpfs_eval)
  have w: "tmp_writeFile sample_caller [] (Some ''/x'') (Some ''pw'') 2 False = ([copied_node], Inr 2)"
    by (simp add: tmp_writeFile_def n putContent_def parentExists_def supplied_def usedBytes_def TMPFS_MAX_PATH_def
        TMPFS_MAX_NODES_def TMPFS_MAX_BYTES_def stampNew_def new_node_def word_less_nat_alt)
  show ?thesis
    by (simp add: vfs_crossCopy_def secret_vfs_def put_backend_def tmp_isFileExist_def tmp_isDirExist_def tmp_readFile_def n
        secret_node_def new_node_def Let_def deliver.simps copy_chunk_def w [unfolded new_node_def])
      (auto simp: fun_eq_iff secret_node_def new_node_def)
qed

lemma move_discloses:
  defines "out \<equiv> vfs_moveFile (tops sample_caller) sample_caller secret_vfs (Some ''/secret'') (Some ''/tmp/x'')"
  shows "snd out = Inr 0" "map (\<lambda>n. (m_path n, m_data n, m_uid n)) (backends (fst out) 1) = [(''x'', ''pw'', 1000)]"
proof -
  have r: "resolve sample_mounts (Some ''/secret'') = Some (0, Some ''/secret'')"
    "resolve sample_mounts (Some ''/tmp/x'') = Some (1, Some ''/x'')"
    by (simp_all add: mount_eval)
  have n: "normalize (Some ''/secret'') = ''secret''" "normalize (Some ''/x'') = ''x''" by (simp_all add: tmpfs_eval)
  have free: "checkAccess (tops sample_caller) sample_caller secret_vfs (Some ''/tmp/x'') VFS_ACCESS_W"
    using r(2) n(2) by (simp add: checkAccess_def secret_vfs_def vfs_getFileMeta_def query_def tmp_getFileMeta_def)
  have "out = (put_backend (put_backend secret_vfs 1 [copied_node]) 0 [], Inr 0)"
    using free r secret_copied n
    by (simp add: out_def vfs_moveFile_def move_across_def tmp_deleteFile_def secret_vfs_def put_backend_def secret_node_def
        new_node_def)
  then show "snd out = Inr 0" "map (\<lambda>n. (m_path n, m_data n, m_uid n)) (backends (fst out) 1) = [(''x'', ''pw'', 1000)]"
    by (simp_all add: stampNew_def new_node_def sample_caller_def)
qed

end
