(* ===== verification/VfsCopy.thy ===== *)
theory VfsCopy
  imports VfsGuard
begin

text \<open>
  Copying a file from one mount to another. What the copy needs of the two backends is the locale
  \<open>file_backend\<close>, the laws of reading, writing, creating and deleting a file; the copy is proved
  against it, and the RAM file system is shown to be such a backend.
\<close>

section \<open>The contract of a backend\<close>

text \<open>Handing the parts of a file to a callback until it declines one.\<close>

fun feed :: "('c \<Rightarrow> string \<Rightarrow> bool \<times> 'c) \<Rightarrow> string list \<Rightarrow> 'c \<Rightarrow> 'c" where
  "feed f [] st = st"
| "feed f (x # xs) st = (let (go, st') = f st x in if go then feed f xs st' else st')"

locale file_backend =
  fixes ops :: "('b, 'b \<times> bool \<times> bool) fs_ops"
    and inv :: "'b \<Rightarrow> bool"
    and content :: "'b \<Rightarrow> string option \<Rightarrow> string option"
  assumes exists_law: "inv s \<Longrightarrow> be_isFileExist ops p s \<longleftrightarrow> content s p \<noteq> None"
    and read_law: "inv s \<Longrightarrow> content s p = Some d \<Longrightarrow>
      \<exists>parts. concat parts = d \<and> (\<forall>x\<in>set parts. x \<noteq> [] \<and> length x \<le> 128) \<and>
        (\<forall>f st. \<exists>k m. be_readFile ops p 128 (Some f) 0 None st s = (s, Inr k, m, feed f parts st))"
    and write_law: "inv s \<Longrightarrow> length c \<le> 128 \<Longrightarrow> be_writeFile ops p (Some c) (of_nat (length c)) app s = (s', Inr k) \<Longrightarrow>
      inv s' \<and> content s' p = Some ((if app then (case content s p of None \<Rightarrow> [] | Some d \<Rightarrow> d) else []) @ c)"
    and write_fails: "inv s \<Longrightarrow> length c \<le> 128 \<Longrightarrow> be_writeFile ops p (Some c) (of_nat (length c)) app s = (s', Inl e) \<Longrightarrow> s' = s"
    and create_law: "inv s \<Longrightarrow> be_createFile ops p (Some []) 0 s = (s', Inr k) \<Longrightarrow> inv s' \<and> content s' p = Some []"
    and create_fails: "inv s \<Longrightarrow> be_createFile ops p (Some []) 0 s = (s', Inl e) \<Longrightarrow> s' = s"
    and delete_law: "inv s \<Longrightarrow> be_deleteFile ops p s = (s', r) \<Longrightarrow> inv s' \<and> content s' p = None"
begin

text \<open>What the callback of the copy has written after some of the parts.\<close>

definition written :: "string option \<Rightarrow> string list \<Rightarrow> 'b \<times> bool \<times> bool \<Rightarrow> bool" where
  "written p xs st \<longleftrightarrow> (case st of (d, first, ok) \<Rightarrow>
     inv d \<and> (ok \<longrightarrow> (first \<longleftrightarrow> xs = []) \<and> content d p = (if xs = [] then None else Some (concat xs))))"

lemma copy_feed:
  assumes "written p xs st" "snd (snd st)" "\<forall>x\<in>set ys. x \<noteq> [] \<and> length x \<le> 128"
  shows "written p (xs @ ys) (feed (copy_chunk ops p) ys st)"
  using assms
proof (induction ys arbitrary: xs st)
  case (Cons y ys)
  obtain d first where st: "st = (d, first, True)" using Cons.prems(2) by (cases st) auto
  have d: "inv d" "first \<longleftrightarrow> xs = []" "content d p = (if xs = [] then None else Some (concat xs))"
    using Cons.prems(1) st by (simp_all add: written_def)
  have y: "length y \<le> 128" using Cons.prems(3) by simp
  obtain d' w where w: "be_writeFile ops p (Some y) (of_nat (length y)) (\<not> first) d = (d', w)" by fastforce
  show ?case
  proof (cases w)
    case (Inl e)
    then have "d' = d" using write_fails [OF d(1) y] w by simp
    then show ?thesis using st w Inl d(1) by (simp add: copy_chunk_def written_def)
  next
    case (Inr k)
    then have "inv d' \<and> content d' p = Some (concat (xs @ [y]))"
      using write_law [OF d(1) y] w d(2,3) by (cases xs) simp_all
    then have "written p (xs @ [y]) (d', False, True)" by (simp add: written_def)
    then show ?thesis using Cons.IH [of "xs @ [y]" "(d', False, True)"] Cons.prems(3) st w Inr by (simp add: copy_chunk_def)
  qed
qed simp

end

text \<open>A copy between two backends that keep the contract.\<close>

locale copy_pair = src: file_backend sops sinv scontent + dst: file_backend dops dinv dcontent
  for sops :: "('b, 'b \<times> bool \<times> bool) fs_ops" and sinv scontent and dops :: "('b, 'b \<times> bool \<times> bool) fs_ops" and dinv dcontent
begin

text \<open>The state the read of the source leaves: the destination holds the file once every write went through.\<close>

lemma copy_fed:
  assumes "sinv s" "dinv d" "scontent s srel = Some c" "dcontent d drel = None"
  obtains k m d' first ok where
    "be_readFile sops srel 128 (Some (copy_chunk dops drel)) 0 None (d, True, True) s = (s, Inr k, m, d', first, ok)" "dinv d'"
    "ok \<Longrightarrow> (first \<longleftrightarrow> c = []) \<and> dcontent d' drel = (if c = [] then None else Some c)"
proof -
  obtain parts k m where parts: "concat parts = c" "\<forall>x\<in>set parts. x \<noteq> [] \<and> length x \<le> 128"
    and read: "be_readFile sops srel 128 (Some (copy_chunk dops drel)) 0 None (d, True, True) s =
      (s, Inr k, m, feed (copy_chunk dops drel) parts (d, True, True))"
    using src.read_law [OF assms(1,3)] by metis
  have empty: "parts = [] \<longleftrightarrow> c = []" using parts by (cases parts) auto
  have "dst.written drel [] (d, True, True)" using assms(2,4) by (simp add: dst.written_def)
  then have "dst.written drel parts (feed (copy_chunk dops drel) parts (d, True, True))"
    using dst.copy_feed [of drel "[]"] parts(2) by force
  then show thesis
    using that read empty parts(1)
    by (cases "feed (copy_chunk dops drel) parts (d, True, True)") (auto simp: dst.written_def)
qed

lemma crossCopy_exact:
  assumes ops: "ops sb = sops" "ops db = dops" and ne: "sb \<noteq> db" and inv: "sinv (backends v sb)" "dinv (backends v db)"
    and out: "vfs_crossCopy ops v sb srel db drel = (v', r)"
  shows "\<exists>d. v' = put_backend v db d \<and> dinv d \<and>
    (case r of Inl _ \<Rightarrow> dcontent d drel = dcontent (backends v db) drel
     | Inr _ \<Rightarrow> scontent (backends v sb) srel \<noteq> None \<and> dcontent d drel = scontent (backends v sb) srel)"
proof (cases "v' = v \<and> isl r")
  case True
  then show ?thesis using inv(2) by (intro exI [of _ "backends v db"]) (auto simp: put_backend_def isl_def)
next
  case False
  let ?s = "backends v sb" and ?d = "backends v db"
  have cond: "be_isFileExist sops srel ?s" "\<not> be_isFileExist dops drel ?d" "\<not> be_isDirectory sops srel ?s" "\<not> be_isDirExist dops drel ?d"
    using False out ops by (auto simp: vfs_crossCopy_def split: if_splits)
  obtain c where c: "scontent ?s srel = Some c" using cond(1) src.exists_law [OF inv(1)] by auto
  have none: "dcontent ?d drel = None" using cond(2) dst.exists_law [OF inv(2)] by auto
  obtain k m d first ok where
    read: "be_readFile sops srel 128 (Some (copy_chunk dops drel)) 0 None (?d, True, True) ?s = (?s, Inr k, m, d, first, ok)"
    and d: "dinv d" "ok \<Longrightarrow> (first \<longleftrightarrow> c = []) \<and> dcontent d drel = (if c = [] then None else Some c)"
    using copy_fed [OF inv c none] by metis
  obtain e re where del: "be_deleteFile dops drel d = (e, re)" by fastforce
  obtain g rg where new: "be_createFile dops drel (Some []) 0 d = (g, rg)" by fastforce
  have put: "(backends v)(sb := ?s, db := x) = (backends v)(db := x)" for x using ne by auto
  note eval = out [unfolded vfs_crossCopy_def ops Let_def] read del new cond put
  consider "\<not> ok" | "ok" "c \<noteq> []" | x where "ok" "c = []" "rg = Inl x" | x where "ok" "c = []" "rg = Inr x"
    by (cases ok; cases "c = []"; cases rg) auto
  then show ?thesis
  proof cases
    case 1
    then have "v' = put_backend v db e" "r = Inl STORAGE_ERROR_BACKEND" using eval by (simp_all add: put_backend_def)
    then show ?thesis using dst.delete_law [OF d(1) del] none by auto
  next
    case 2
    then have "v' = put_backend v db d" "r = Inr 0" using eval d(2) by (simp_all add: put_backend_def)
    then show ?thesis using d 2 c by auto
  next
    case 3
    then have "v' = put_backend v db g" "r = Inl STORAGE_ERROR_BACKEND" "g = d"
      using eval d(2) dst.create_fails [OF d(1)] by (simp_all add: put_backend_def)
    then show ?thesis using d 3 none by auto
  next
    case 4
    then have "v' = put_backend v db g" "r = Inr 0" using eval d(2) by (simp_all add: put_backend_def)
    then show ?thesis using dst.create_law [OF d(1)] new 4 c by auto
  qed
qed

end

section \<open>The RAM file system keeps the contract\<close>

definition file_at :: "tmpfs_node list \<Rightarrow> string option \<Rightarrow> string option" where
  "file_at ns p =
     (case tree_of ns (normalize p) of
        None \<Rightarrow> None
      | Some n \<Rightarrow> if m_type n = FILE_TYPE_REG then Some (m_data n) else None)"

text \<open>The parts in which a read hands a file over.\<close>

function parts_of :: "nat \<Rightarrow> string \<Rightarrow> string list" where
  "parts_of chunk rest = (if rest = [] \<or> chunk = 0 then [] else take chunk rest # parts_of chunk (drop chunk rest))"
  by pat_completeness auto
termination
  by (relation "measure (\<lambda>(c, r). length r)") auto

declare parts_of.simps [simp del]

lemma parts_of_Nil [simp]: "parts_of chunk [] = []"
  by (simp add: parts_of.simps)

lemma parts_of_props:
  "0 < chunk \<Longrightarrow> concat (parts_of chunk rest) = rest \<and> (\<forall>x\<in>set (parts_of chunk rest). x \<noteq> [] \<and> length x \<le> chunk)"
proof (induction chunk rest rule: parts_of.induct)
  case (1 chunk rest)
  then show ?case by (cases "rest = []") (simp_all add: parts_of.simps [of chunk rest])
qed

lemma deliver_feed: "snd (deliver f chunk rest got st) = feed f (parts_of chunk rest) st"
proof (induction f chunk rest got st rule: deliver.induct)
  case (1 f chunk rest got st)
  then show ?case
    by (subst deliver.simps, subst parts_of.simps) (auto split: prod.split)
qed

lemma file_at_Some:
  assumes "tmpfs_inv ns" "file_at ns p = Some d"
  obtains n i where "tree_of ns (normalize p) = Some n" "m_type n = FILE_TYPE_REG" "m_data n = d"
    "findNode ns (normalize p) = Some i" "ns ! i = n" "p \<noteq> None"
proof -
  obtain n where n: "tree_of ns (normalize p) = Some n" "m_type n = FILE_TYPE_REG" "m_data n = d"
    using assms(2) by (auto simp: file_at_def split: option.splits if_splits)
  then obtain i where i: "findNode ns (normalize p) = Some i" "ns ! i = n" using findNode_tree [of ns "normalize p"] by auto
  have "normalize p \<noteq> []" using tmpfs_invD(2) [OF assms(1)] n(1) by (auto simp: tree_ok_def node_ok_def clean_path_def)
  then have "p \<noteq> None" by (cases p) (simp_all add: normalize_def)
  then show thesis using that n i by blast
qed

lemma tmp_read_parts:
  assumes "tmpfs_inv ns" "file_at ns p = Some d"
  shows "\<exists>parts. concat parts = d \<and> (\<forall>x\<in>set parts. x \<noteq> [] \<and> length x \<le> 128) \<and>
    (\<forall>f st. \<exists>k m. tmp_readFile ns p 128 (Some f) 0 None st = (Inr k, m, feed f parts st))"
proof -
  obtain n i where n: "m_type n = FILE_TYPE_REG" "m_data n = d" "findNode ns (normalize p) = Some i" "ns ! i = n" "p \<noteq> None"
    using file_at_Some [OF assms] by metis
  define chunk where "chunk = (if 128 < length d then 128 else length d)"
  have "\<exists>k m. tmp_readFile ns p 128 (Some f) 0 None st = (Inr k, m, feed f (parts_of chunk d) st)" for f :: "'s \<Rightarrow> string \<Rightarrow> bool \<times> 's" and st
    using n deliver_feed [of f chunk d 0 st]
    by (auto simp: tmp_readFile_def Let_def chunk_def split: prod.split)
  moreover have "concat (parts_of chunk d) = d \<and> (\<forall>x\<in>set (parts_of chunk d). x \<noteq> [] \<and> length x \<le> 128)"
    using parts_of_props [of chunk d] by (cases "d = []") (force simp: chunk_def split: if_splits)+
  ultimately show ?thesis by blast
qed

lemma spec_put_file:
  assumes "tree_ok t" "spec_put cx t p c app = (t', Inr k)"
  shows "\<exists>n. t' p = Some n \<and> m_type n = FILE_TYPE_REG \<and>
    m_data n = (if app then (case t p of None \<Rightarrow> [] | Some m \<Rightarrow> m_data m) else []) @ c \<and>
    (\<forall>m. t p = Some m \<longrightarrow> m_type m = FILE_TYPE_REG)"
proof -
  have "m_type m \<noteq> FILE_TYPE_LINK" if "t p = Some m" for m
    using assms(1) that by (auto simp: tree_ok_def node_ok_def)
  then have "m_type m = FILE_TYPE_REG" if "t p = Some m" "m_type m \<noteq> FILE_TYPE_DIR" for m
    using that by (metis file_type.exhaust)
  then show ?thesis
    using assms(2) by (auto simp: spec_put_def stampNew_def new_node_def Let_def split: if_splits option.splits)
qed

lemma tmp_write_law:
  assumes "tmpfs_inv s" "length c \<le> 128" "tmp_writeFile cx s p (Some c) (of_nat (length c)) app = (s', Inr k)"
  shows "tmpfs_inv s' \<and> file_at s' p = Some ((if app then (case file_at s p of None \<Rightarrow> [] | Some d \<Rightarrow> d) else []) @ c)"
proof -
  have "length c < 2 ^ 31" using assms(2) by simp
  then have s: "tmpfs_inv s'" "spec_put cx (tree_of s) (normalize p) c app = (tree_of s', Inr k)"
    using tmpfs_step [OF assms(1), of "OpWriteFile p c app" cx] assms(3) by auto
  show ?thesis
    using spec_put_file [OF tmpfs_invD(2) [OF assms(1)] s(2)] s(1) by (auto simp: file_at_def split: option.split)
qed

lemma tmp_create_law:
  assumes "tmpfs_inv s" "tmp_createFile cx s p (Some []) 0 = (s', Inr k)"
  shows "tmpfs_inv s' \<and> file_at s' p = Some []"
proof -
  have s: "tmpfs_inv s'" "spec_create cx (tree_of s) (normalize p) [] = (tree_of s', Inr k)"
    using tmpfs_step [OF assms(1), of "OpCreateFile p []" cx] assms(2) by auto
  then have "spec_put cx (tree_of s) (normalize p) [] False = (tree_of s', Inr k)"
    by (simp add: spec_create_def split: if_splits)
  then show ?thesis
    using spec_put_file [OF tmpfs_invD(2) [OF assms(1)]] s(1) by (fastforce simp: file_at_def)
qed

lemma tmp_delete_law:
  assumes "tmpfs_inv s" "tmp_deleteFile s p = (s', r)"
  shows "tmpfs_inv s' \<and> file_at s' p = None"
proof -
  have s: "tmpfs_inv s'" "spec_remove (tree_of s) (normalize p) = (tree_of s', r)"
    using tmpfs_step [OF assms(1), of "OpDeleteFile p"] assms(2) by auto
  then have "tree_of s' = fst (spec_remove (tree_of s) (normalize p))" by simp
  then show ?thesis using s(1) by (auto simp: file_at_def spec_remove_def split: option.split)
qed

lemma tmp_exists_law: "tmp_isFileExist s p \<longleftrightarrow> file_at s p \<noteq> None"
proof -
  have "tmp_isFileExist s p \<longleftrightarrow> (case tree_of s (normalize p) of None \<Rightarrow> False | Some n \<Rightarrow> m_type n = FILE_TYPE_REG)"
    unfolding findNode_tree [symmetric] by (simp add: tmp_isFileExist_def split: option.split)
  then show ?thesis by (simp add: file_at_def split: option.split)
qed

lemma tmp_fails: "putContent cx s p c w app = (s', Inl e) \<Longrightarrow> s' = s"
  by (auto simp: putContent_def Let_def split: if_splits option.splits)

interpretation ram: file_backend "tmp_ops cx" tmpfs_inv file_at for cx
proof (unfold_locales, goal_cases)
  case (1 s p)
  then show ?case by (simp add: tmp_exists_law)
next
  case (2 s p d)
  then show ?case
    using tmp_read_parts [of s p d, where 'a = "tmpfs_node list \<times> bool \<times> bool"] by (simp del: split_paired_All)
next
  case (3 s c p app s' k)
  then show ?case using tmp_write_law [of s c cx p app s' k] by simp
next
  case (4 s c p app s' e)
  then show ?case using tmp_fails by (simp add: tmp_writeFile_def)
next
  case (5 s p s' k)
  then show ?case using tmp_create_law [of s cx p s' k] by simp
next
  case (6 s p s' e)
  then show ?case by (auto simp: tmp_createFile_def Let_def dest: tmp_fails split: if_splits)
next
  case (7 s p s' r)
  then show ?case using tmp_delete_law [of s p s' r] by simp
qed

interpretation ram_copy: copy_pair "tmp_ops cx" tmpfs_inv file_at "tmp_ops cx" tmpfs_inv file_at for cx
  by unfold_locales

text \<open>
  C23: Copying a file across mounts is exact or has no effect on the destination. Between two RAM file systems a copy that
  succeeds leaves at the destination a file with exactly the bytes of the source, of any length,
  however they were cut into chunks; a copy that fails, at whichever chunk, leaves nothing behind at the destination path.
  Every other backend, the source included, is untouched.
\<close>

theorem cross_copy_exact:
  assumes "\<And>b. tmpfs_inv (backends v b)" "sb \<noteq> db" "vfs_crossCopy (tops cx) v sb srel db drel = (v', r)"
  shows "(\<forall>b. b \<noteq> db \<longrightarrow> backends v' b = backends v b) \<and>
    (case r of
       Inl _ \<Rightarrow> file_at (backends v' db) drel = file_at (backends v db) drel
     | Inr _ \<Rightarrow> file_at (backends v sb) srel \<noteq> None \<and> file_at (backends v' db) drel = file_at (backends v sb) srel)"
  using ram_copy.crossCopy_exact [of "tops cx" sb cx db v srel drel v' r] assms by (auto split: sum.splits)

theorem cross_copy_exact_witness:
  "\<exists>v'. vfs_crossCopy (tops sample_caller) secret_vfs 0 (Some ''/secret'') 1 (Some ''/x'') = (v', Inr 0) \<and>
     file_at (backends v' 1) (Some ''/x'') = Some ''pw'' \<and> backends v' 0 = backends secret_vfs 0"
proof -
  have "file_at (backends secret_vfs 0) (Some ''/secret'') = Some ''pw''"
    by (simp add: file_at_def tree_of_def secret_vfs_def secret_node_def tmpfs_eval)
  then show ?thesis using cross_copy_exact [OF secret_inv(1) _ secret_copied] secret_copied by simp
qed

end
