(* ===== verification/ShellParser.thy ===== *)
theory ShellParser
  imports StrOps
begin

text \<open>
  The reader of command lines (\<^verbatim>\<open>src/src/service_provider/cmd/ShellParser.cpp\<close>): a tokenizer
  that knows quotes and escapes, a grammar over its tokens kept as flat tables joined by index ranges,
  and the expansion of \<open>$?\<close> and of variables. The line is its characters; lines are shorter than
  \<open>2 ^ 15\<close>, the range of the indices. The value of a variable is a parameter \<open>env\<close>, a name
  the environment does not carry having the empty value.
\<close>

section \<open>Tokens\<close>

datatype token_type = TOKEN_WORD | TOKEN_PIPE | TOKEN_AND_IF | TOKEN_OR_IF | TOKEN_SEMI | TOKEN_LT | TOKEN_GT | TOKEN_DGT

record token =
  tk_type :: token_type
  tk_start :: nat
  tk_len :: nat

definition isOperatorStart :: "char \<Rightarrow> bool" where
  "isOperatorStart c \<longleftrightarrow> c = CHR ''|'' \<or> c = CHR ''&'' \<or> c = CHR '';'' \<or> c = CHR ''<'' \<or> c = CHR ''>''"

abbreviation backslash :: char where "backslash \<equiv> CHR 0x5C"
abbreviation single_quote :: char where "single_quote \<equiv> CHR 0x27"
abbreviation double_quote :: char where "double_quote \<equiv> CHR 0x22"

text \<open>The index of the quote that closes, or the length of the line.\<close>

function quote_end :: "string \<Rightarrow> char \<Rightarrow> nat \<Rightarrow> nat" where
  "quote_end line quote i =
     (if i < length line \<and> line ! i \<noteq> quote
      then if quote = double_quote \<and> line ! i = backslash \<and> i + 1 < length line then quote_end line quote (i + 2)
           else quote_end line quote (i + 1)
      else i)"
  by pat_completeness auto
termination
  by (relation "measure (\<lambda>(line, q, i). length line - i)") auto

declare quote_end.simps [simp del]

lemma quote_end_ge: "i \<le> quote_end line quote i"
proof (induction line quote i rule: quote_end.induct)
  case (1 line quote i)
  then show ?case by (subst quote_end.simps) force
qed

text \<open>The end of the word that runs on from an index; \<open>None\<close> when a quote is never closed.\<close>

function word_end :: "string \<Rightarrow> nat \<Rightarrow> nat option" where
  "word_end line i =
     (if i < length line
      then let c = line ! i
           in if is_blank c then Some i
              else if c = backslash then word_end line (i + (if i + 1 < length line then 2 else 1))
              else if c = single_quote \<or> c = double_quote
              then let j = quote_end line c (i + 1) in if j \<ge> length line then None else word_end line (j + 1)
              else if c = CHR ''&''
              then if i + 1 < length line \<and> line ! (i + 1) = CHR ''&'' then Some i else word_end line (i + 1)
              else if isOperatorStart c then Some i
              else word_end line (i + 1)
      else Some i)"
  by pat_completeness auto
termination
proof (relation "measure (\<lambda>(line, i). length line - i)", goal_cases)
  case (3 line i c j)
  then show ?case using quote_end_ge [of "i + 1" line c] by simp
qed auto

declare word_end.simps [simp del]

text \<open>The kind and length of the operator at an index, if one is there.\<close>

definition operator_at :: "string \<Rightarrow> nat \<Rightarrow> (token_type \<times> nat) option" where
  "operator_at line i =
     (let c = line ! i; doubled = (i + 1 < length line \<and> line ! (i + 1) = c)
      in if \<not> isOperatorStart c then None
         else if c = CHR ''|'' then Some (if doubled then TOKEN_OR_IF else TOKEN_PIPE, if doubled then 2 else 1)
         else if c = CHR ''&'' then (if doubled then Some (TOKEN_AND_IF, 2) else None)
         else if c = CHR '';'' then Some (TOKEN_SEMI, 1)
         else if c = CHR ''>'' then Some (if doubled then TOKEN_DGT else TOKEN_GT, if doubled then 2 else 1)
         else Some (TOKEN_LT, if doubled then 2 else 1))"

fun skip_blanks :: "nat \<Rightarrow> string \<Rightarrow> nat" where
  "skip_blanks i [] = i"
| "skip_blanks i (c # cs) = (if is_blank c then skip_blanks (i + 1) cs else i)"

lemma skip_blanks_ge: "i \<le> skip_blanks i cs"
  by (induction cs arbitrary: i) (auto dest: order_trans [rotated] intro: Suc_leD)

lemma operator_len: "operator_at line i = Some (ty, n) \<Longrightarrow> 0 < n"
  by (auto simp: operator_at_def Let_def split: if_splits)

lemma word_end_ge: "word_end line i = Some j \<Longrightarrow> i \<le> j"
proof (induction line i arbitrary: j rule: word_end.induct)
  case (1 line i)
  have q: "Suc (quote_end line c (Suc i)) \<le> j \<Longrightarrow> i \<le> j" for c
    using quote_end_ge [of "Suc i" line c] by simp
  show ?case
    using 1 by (subst (asm) (5) word_end.simps) (auto simp: Let_def split: if_splits dest: Suc_leD le_trans q)
qed

text \<open>A word that starts where no operator and no blank is has at least one character.\<close>

lemma word_end_advances:
  assumes "i < length line" "\<not> is_blank (line ! i)" "operator_at line i = None" "word_end line i = Some j"
  shows "i < j"
proof -
  define c where "c = line ! i"
  have op: "isOperatorStart c \<Longrightarrow> c = CHR ''&'' \<and> \<not> (i + 1 < length line \<and> line ! (i + 1) = CHR ''&'')"
    using assms(3) by (simp add: operator_at_def Let_def c_def split: if_splits)
  have amp: "c = CHR ''&'' \<Longrightarrow> isOperatorStart c" by (simp add: isOperatorStart_def)
  have k: "i < j" if "word_end line k = Some j" "i < k" for k using that word_end_ge [of line k j] by simp
  have q: "i < quote_end line c (i + 1) + 1" using quote_end_ge [of "i + 1" line c] by simp
  have w: "word_end line i = Some j" by (rule assms(4))
  consider "c = backslash" | "c = single_quote \<or> c = double_quote" | "c = CHR ''&''"
    | "c \<noteq> backslash" "\<not> (c = single_quote \<or> c = double_quote)" "c \<noteq> CHR ''&''" by blast
  then show ?thesis
  proof cases
    case 1
    then show ?thesis using w assms(1,2) k unfolding c_def by (subst (asm) word_end.simps) (auto simp: Let_def split: if_splits)
  next
    case 2
    then have "c \<noteq> backslash" by auto
    then show ?thesis
      using w assms(1,2) k q 2 unfolding c_def by (subst (asm) word_end.simps) (simp add: Let_def split: if_splits)
  next
    case 3
    then have "word_end line (i + 1) = Some j"
      using w assms(1,2) op amp by (subst (asm) word_end.simps) (simp add: Let_def c_def split: if_splits)
    then show ?thesis using k by simp
  next
    case 4
    then have "word_end line (i + 1) = Some j"
      using w assms(1,2) op by (subst (asm) word_end.simps) (simp add: Let_def c_def split: if_splits)
    then show ?thesis using k by simp
  qed
qed

text \<open>The tokens from an index on, appended to those found before.\<close>

function token_loop :: "string \<Rightarrow> nat \<Rightarrow> token list \<Rightarrow> token list option" where
  "token_loop line i tokens =
     (let i = skip_blanks i (drop i line)
      in if i < length line
         then case operator_at line i of
                Some (ty, n) \<Rightarrow> token_loop line (i + n) (tokens @ [\<lparr>tk_type = ty, tk_start = i, tk_len = n\<rparr>])
              | None \<Rightarrow>
                  case word_end line i of
                    None \<Rightarrow> None
                  | Some j \<Rightarrow>
                      token_loop line j
                        (if j - i > 0 then tokens @ [\<lparr>tk_type = TOKEN_WORD, tk_start = i, tk_len = j - i\<rparr>] else tokens)
         else Some tokens)"
  by pat_completeness auto

lemma skip_blanks_stops:
  "skip_blanks i (drop i line) = k \<Longrightarrow> k < length line \<Longrightarrow> i \<le> k \<and> \<not> is_blank (line ! k)"
proof (induction "drop i line" arbitrary: i)
  case Nil
  then show ?case by simp
next
  case (Cons c cs)
  have d: "drop i line = c # cs" using Cons.hyps(2) by simp
  have l: "i < length line" by (rule ccontr) (use d in simp)
  have c: "i < length line" "line ! i = c" "drop (Suc i) line = cs"
    using l d Cons_nth_drop_Suc [OF l] by simp_all
  show ?case
  proof (cases "is_blank c")
    case True
    then have "skip_blanks (Suc i) (drop (Suc i) line) = k" using Cons.prems(1) d c(3) by simp
    then show ?thesis using Cons.hyps(1) [of "Suc i"] c(3) Cons.prems(2) by simp
  qed (use Cons.prems(1) d c in simp)
qed

termination token_loop
proof (relation "measure (\<lambda>(line, i, ts). length line - i)", goal_cases)
  case (2 line i ts k j)
  then show ?case
    using skip_blanks_stops [of i line k] word_end_advances [of k line j] by auto
next
  case (3 line i ts k p ty n)
  then show ?case
    using skip_blanks_stops [of i line k] operator_len [of line k ty n] by auto
qed simp

declare token_loop.simps [simp del]

definition tokenize :: "string option \<Rightarrow> token list option" where
  "tokenize line =
     (case line of
        None \<Rightarrow> None
      | Some s \<Rightarrow> if s = [] then None
                  else case token_loop s 0 [] of None \<Rightarrow> None | Some ts \<Rightarrow> if ts \<noteq> [] then Some ts else None)"

section \<open>The grammar\<close>

datatype join = JOIN_FIRST | JOIN_ALWAYS | JOIN_ON_SUCCESS | JOIN_ON_FAILURE

datatype redirect_op = REDIRECT_IN | REDIRECT_OUT | REDIRECT_APPEND

record redirect =
  rd_op :: redirect_op
  rd_start :: nat
  rd_len :: nat

record sh_command =
  cm_word_start :: nat
  cm_word_count :: nat
  cm_redirect_start :: nat
  cm_redirect_count :: nat

record pipeline =
  pl_command_start :: nat
  pl_command_count :: nat
  pl_join :: join

record sh_line =
  ln_pipelines :: "pipeline list"
  ln_commands :: "sh_command list"
  ln_redirects :: "redirect list"
  ln_words :: "token list"
  ln_malformed :: bool

definition empty_line :: sh_line where
  "empty_line = \<lparr>ln_pipelines = [], ln_commands = [], ln_redirects = [], ln_words = [], ln_malformed = False\<rparr>"

abbreviation malformed :: "sh_line \<Rightarrow> sh_line" where
  "malformed out \<equiv> out\<lparr>ln_malformed := True\<rparr>"

definition is_redirect :: "token_type \<Rightarrow> bool" where
  "is_redirect ty \<longleftrightarrow> ty = TOKEN_LT \<or> ty = TOKEN_GT \<or> ty = TOKEN_DGT"

definition redirect_op_of :: "token_type \<Rightarrow> redirect_op" where
  "redirect_op_of ty = (if ty = TOKEN_LT then REDIRECT_IN else if ty = TOKEN_DGT then REDIRECT_APPEND else REDIRECT_OUT)"

definition redirects_of :: "sh_line \<Rightarrow> sh_command \<Rightarrow> redirect list" where
  "redirects_of out c = take (cm_redirect_count c) (drop (cm_redirect_start c) (ln_redirects out))"

definition clashes :: "redirect \<Rightarrow> redirect \<Rightarrow> bool" where
  "clashes seen r \<longleftrightarrow> rd_op seen = rd_op r \<or> (rd_op seen \<noteq> REDIRECT_IN \<and> rd_op r \<noteq> REDIRECT_IN)"

text \<open>
  The words and redirections of one command from the tokens left. \<open>Inl\<close> is the line that is
  returned as malformed.
\<close>

fun parse_items :: "token list \<Rightarrow> sh_line \<Rightarrow> sh_command \<Rightarrow> sh_line + (token list \<times> sh_line \<times> sh_command)" where
  "parse_items [] out c = Inr ([], out, c)"
| "parse_items (t # ts) out c =
     (if tk_type t = TOKEN_WORD
      then parse_items ts (out\<lparr>ln_words := ln_words out @ [t]\<rparr>) (c\<lparr>cm_word_count := cm_word_count c + 1\<rparr>)
      else if is_redirect (tk_type t)
      then (case ts of
              [] \<Rightarrow> Inl (malformed out)
            | p # ts' \<Rightarrow>
                if tk_type p \<noteq> TOKEN_WORD then Inl (malformed out)
                else let r = \<lparr>rd_op = redirect_op_of (tk_type t), rd_start = tk_start p, rd_len = tk_len p\<rparr>
                     in if \<exists>seen\<in>set (redirects_of out c). clashes seen r then Inl (malformed out)
                        else parse_items ts' (out\<lparr>ln_redirects := ln_redirects out @ [r]\<rparr>)
                               (c\<lparr>cm_redirect_count := cm_redirect_count c + 1\<rparr>))
      else Inr (t # ts, out, c))"

lemma parse_items_shrinks: "parse_items ts out c = Inr (ts', out', c') \<Longrightarrow> length ts' \<le> length ts"
  by (induction ts out c rule: parse_items.induct) (fastforce simp: Let_def intro: le_SucI split: if_splits list.splits)+

definition new_command :: "sh_line \<Rightarrow> sh_command" where
  "new_command out =
     \<lparr>cm_word_start = length (ln_words out), cm_word_count = 0, cm_redirect_start = length (ln_redirects out), cm_redirect_count = 0\<rparr>"

text \<open>The commands of one pipeline.\<close>

function parse_commands :: "token list \<Rightarrow> sh_line \<Rightarrow> pipeline \<Rightarrow> sh_line + (token list \<times> sh_line \<times> pipeline)" where
  "parse_commands ts out p =
     (case parse_items ts out (new_command out) of
        Inl bad \<Rightarrow> Inl bad
      | Inr (ts', out', c) \<Rightarrow>
          if cm_word_count c = 0 then Inl (malformed out')
          else let out'' = out'\<lparr>ln_commands := ln_commands out' @ [c]\<rparr>;
                   p' = p\<lparr>pl_command_count := pl_command_count p + 1\<rparr>
               in if ts' \<noteq> [] \<and> tk_type (hd ts') = TOKEN_PIPE then parse_commands (tl ts') out'' p'
                  else Inr (ts', out'', p'))"
  by pat_completeness auto
termination
  by (relation "measure (\<lambda>(ts, out, p). length ts)") (auto dest!: parse_items_shrinks simp: neq_Nil_conv)

declare parse_commands.simps [simp del]

lemma parse_commands_shrinks: "parse_commands ts out p = Inr (ts', out', p') \<Longrightarrow> length ts' \<le> length ts"
proof (induction ts out p arbitrary: ts' out' p' rule: parse_commands.induct)
  case (1 ts out p)
  show ?case
  proof (cases "parse_items ts out (new_command out)")
    case (Inl bad)
    then show ?thesis using 1(2) by (subst (asm) parse_commands.simps) simp
  next
    case (Inr x)
    obtain us ou c where x: "x = (us, ou, c)" by (cases x)
    have "length us \<le> length ts" using parse_items_shrinks Inr x by blast
    then show ?thesis
      using 1(1) [OF Inr x [symmetric] refl] 1(2) Inr x parse_commands.simps [of ts out p]
      by (fastforce simp: Let_def split: if_splits)
  qed
qed

definition join_of :: "token_type \<Rightarrow> join option" where
  "join_of ty =
     (if ty = TOKEN_SEMI then Some JOIN_ALWAYS
      else if ty = TOKEN_AND_IF then Some JOIN_ON_SUCCESS
      else if ty = TOKEN_OR_IF then Some JOIN_ON_FAILURE else None)"

text \<open>The pipelines of a line.\<close>

function parse_pipelines :: "token list \<Rightarrow> join \<Rightarrow> sh_line \<Rightarrow> sh_line" where
  "parse_pipelines ts j out =
     (if ts = [] then (if ln_pipelines out = [] then malformed out else out)
      else case parse_commands ts out \<lparr>pl_command_start = length (ln_commands out), pl_command_count = 0, pl_join = j\<rparr> of
             Inl bad \<Rightarrow> bad
           | Inr (ts', out', p) \<Rightarrow>
               let out'' = out'\<lparr>ln_pipelines := ln_pipelines out' @ [p]\<rparr>
               in case ts' of
                    [] \<Rightarrow> out''
                  | t # rest \<Rightarrow>
                      (case join_of (tk_type t) of
                         None \<Rightarrow> malformed out''
                       | Some j' \<Rightarrow>
                           if rest = [] then (if j' \<noteq> JOIN_ALWAYS then malformed out'' else out'')
                           else parse_pipelines rest j' out''))"
  by pat_completeness auto
termination
  by (relation "measure (\<lambda>(ts, j, out). length ts)") (auto dest!: parse_commands_shrinks)

declare parse_pipelines.simps [simp del]

definition parse :: "string option \<Rightarrow> sh_line" where
  "parse line =
     (case tokenize line of None \<Rightarrow> malformed empty_line | Some ts \<Rightarrow> parse_pipelines ts JOIN_FIRST empty_line)"

definition isPlain :: "sh_line \<Rightarrow> bool" where
  "isPlain l \<longleftrightarrow> length (ln_pipelines l) = 1 \<and> length (ln_commands l) = 1 \<and> ln_redirects l = []"

definition shouldRun :: "join \<Rightarrow> pdi_err \<Rightarrow> bool" where
  "shouldRun j previous =
     (if j = JOIN_ON_SUCCESS then previous = PDI_OK
      else if j = JOIN_ON_FAILURE then previous \<noteq> PDI_OK
      else True)"

section \<open>Expansion and the text of a command\<close>

definition expandable :: "string \<Rightarrow> bool" where
  "expandable src \<longleftrightarrow> CHR ''$'' \<in> set src"

text \<open>The number of the last exit, written into a buffer one byte short of the digits of the longest.\<close>

definition exit_text :: "int \<Rightarrow> string" where
  "exit_text lastexit = (case Int32ToString lastexit 11 0 of Some s \<Rightarrow> s | None \<Rightarrow> [])"

definition is_name_char :: "char \<Rightarrow> bool" where
  "is_name_char c \<longleftrightarrow> is_alnum c \<or> c = CHR ''_''"

function expand_loop :: "(string \<Rightarrow> string) \<Rightarrow> int \<Rightarrow> bool \<Rightarrow> bool \<Rightarrow> bool \<Rightarrow> string \<Rightarrow> string" where
  "expand_loop env lastexit unquote insingle indouble [] = []"
| "expand_loop env lastexit unquote insingle indouble (c # cs) =
     (if c = backslash \<and> \<not> insingle \<and> cs \<noteq> []
      then (if unquote then [] else [c]) @ hd cs # expand_loop env lastexit unquote insingle indouble (tl cs)
      else if c = single_quote \<and> \<not> indouble
      then (if unquote then [] else [c]) @ expand_loop env lastexit unquote (\<not> insingle) indouble cs
      else if c = double_quote \<and> \<not> insingle
      then (if unquote then [] else [c]) @ expand_loop env lastexit unquote insingle (\<not> indouble) cs
      else if c = CHR ''$'' \<and> \<not> insingle \<and> cs \<noteq> [] \<and> hd cs = CHR ''?''
      then exit_text lastexit @ expand_loop env lastexit unquote insingle indouble (tl cs)
      else if c = CHR ''$'' \<and> \<not> insingle \<and> cs \<noteq> [] \<and> (is_alpha (hd cs) \<or> hd cs = CHR ''_'')
      then env (takeWhile is_name_char cs) @ expand_loop env lastexit unquote insingle indouble (dropWhile is_name_char cs)
      else c # expand_loop env lastexit unquote insingle indouble cs)"
  by pat_completeness auto
termination
proof (relation "measure (\<lambda>(e, l, u, s, d, cs). length cs)", goal_cases)
  case (6 env lastexit unquote insingle indouble c cs)
  then show ?case by (simp add: le_imp_less_Suc length_dropWhile_le)
qed auto

definition expand :: "(string \<Rightarrow> string) \<Rightarrow> string \<Rightarrow> int \<Rightarrow> bool \<Rightarrow> string" where
  "expand env src lastexit unquote = expand_loop env lastexit unquote False False src"

definition span :: "string \<Rightarrow> nat \<Rightarrow> nat \<Rightarrow> string" where
  "span line start len = take len (drop start line)"

definition words_of :: "sh_line \<Rightarrow> sh_command \<Rightarrow> token list" where
  "words_of l c = take (cm_word_count c) (drop (cm_word_start c) (ln_words l))"

definition commandText :: "(string \<Rightarrow> string) \<Rightarrow> sh_line \<Rightarrow> string option \<Rightarrow> int \<Rightarrow> int \<Rightarrow> string option" where
  "commandText env l line index lastexit =
     (case line of
        None \<Rightarrow> None
      | Some s \<Rightarrow>
          if index < 0 \<or> index \<ge> int (length (ln_commands l)) then None
          else let c = ln_commands l ! nat index
               in if cm_word_count c = 0 then None
                  else let first_at = tk_start (ln_words l ! cm_word_start c);
                           lastword = ln_words l ! (cm_word_start c + cm_word_count c - 1);
                           end_at = tk_start lastword + tk_len lastword;
                           contiguous = (\<forall>r\<in>set (redirects_of l c). \<not> (rd_start r > first_at \<and> rd_start r < end_at));
                           txt = span s first_at (end_at - first_at)
                       in if contiguous \<and> \<not> expandable txt then Some txt
                          else if contiguous then Some (expand env txt lastexit False)
                          else Some (concat (map (\<lambda>(w, t). (if w > 0 then '' '' else []) @ expand env (span s (tk_start t) (tk_len t)) lastexit False)
                                       (enumerate 0 (words_of l c)))))"

definition findRedirect :: "sh_line \<Rightarrow> int \<Rightarrow> redirect_op \<Rightarrow> redirect option" where
  "findRedirect l index ro =
     (if index < 0 \<or> index \<ge> int (length (ln_commands l)) then None
      else List.find (\<lambda>r. rd_op r = ro) (redirects_of l (ln_commands l ! nat index)))"

end
