(* ===== verification/ShellGrammar.thy ===== *)
theory ShellGrammar
  imports ShellParser
begin

text \<open>
  The grammar of command lines as inductive relations over tokens, and that the parser accepts exactly
  the lines the grammar derives, its flat tables holding the derived tree.
\<close>

section \<open>The grammar\<close>

type_synonym cmd_tree = "token list \<times> redirect list"
type_synonym pipe_tree = "join \<times> cmd_tree list"

definition redirect_of :: "token \<Rightarrow> token \<Rightarrow> redirect" where
  "redirect_of t p = \<lparr>rd_op = redirect_op_of (tk_type t), rd_start = tk_start p, rd_len = tk_len p\<rparr>"

text \<open>Words and redirections in any order.\<close>

inductive items :: "token list \<Rightarrow> token list \<Rightarrow> redirect list \<Rightarrow> bool" where
  items_done: "items [] [] []"
| items_word: "tk_type t = TOKEN_WORD \<Longrightarrow> items ts ws rs \<Longrightarrow> items (t # ts) (t # ws) rs"
| items_redirect: "is_redirect (tk_type t) \<Longrightarrow> tk_type p = TOKEN_WORD \<Longrightarrow> items ts ws rs \<Longrightarrow>
    items (t # p # ts) ws (redirect_of t p # rs)"

inductive_cases items_NilE: "items [] ws rs"
inductive_cases items_ConsE: "items (t # ts) ws rs"

text \<open>At most one redirection of the input and one of the output.\<close>

abbreviation no_clash :: "redirect list \<Rightarrow> bool" where
  "no_clash \<equiv> sorted_wrt (\<lambda>a b. \<not> clashes a b)"

inductive command :: "token list \<Rightarrow> cmd_tree \<Rightarrow> bool" where
  command_items: "items ts ws rs \<Longrightarrow> ws \<noteq> [] \<Longrightarrow> no_clash rs \<Longrightarrow> command ts (ws, rs)"

inductive piped :: "token list \<Rightarrow> cmd_tree list \<Rightarrow> bool" where
  piped_one: "command ts c \<Longrightarrow> piped ts [c]"
| piped_more: "command ts c \<Longrightarrow> tk_type t = TOKEN_PIPE \<Longrightarrow> piped us cs \<Longrightarrow> piped (ts @ t # us) (c # cs)"

inductive joined :: "join \<Rightarrow> token list \<Rightarrow> pipe_tree list \<Rightarrow> bool" where
  joined_one: "piped ts cs \<Longrightarrow> joined j ts [(j, cs)]"
| joined_semi: "piped ts cs \<Longrightarrow> tk_type t = TOKEN_SEMI \<Longrightarrow> joined j (ts @ [t]) [(j, cs)]"
| joined_more: "piped ts cs \<Longrightarrow> join_of (tk_type t) = Some j' \<Longrightarrow> joined j' us ps \<Longrightarrow> joined j (ts @ t # us) ((j, cs) # ps)"

section \<open>Building the tables\<close>

definition add_command :: "sh_line \<Rightarrow> cmd_tree \<Rightarrow> sh_line" where
  "add_command out c =
     out\<lparr>ln_words := ln_words out @ fst c, ln_redirects := ln_redirects out @ snd c,
         ln_commands := ln_commands out @ [\<lparr>cm_word_start = length (ln_words out), cm_word_count = length (fst c),
           cm_redirect_start = length (ln_redirects out), cm_redirect_count = length (snd c)\<rparr>]\<rparr>"

definition add_commands :: "sh_line \<Rightarrow> cmd_tree list \<Rightarrow> sh_line" where
  "add_commands out cs = fold (\<lambda>c out. add_command out c) cs out"

definition add_pipeline :: "sh_line \<Rightarrow> pipe_tree \<Rightarrow> sh_line" where
  "add_pipeline out p =
     (let out' = add_commands out (snd p)
      in out'\<lparr>ln_pipelines := ln_pipelines out' @ [\<lparr>pl_command_start = length (ln_commands out),
           pl_command_count = length (snd p), pl_join = fst p\<rparr>]\<rparr>)"

definition add_pipelines :: "sh_line \<Rightarrow> pipe_tree list \<Rightarrow> sh_line" where
  "add_pipelines out ps = fold (\<lambda>p out. add_pipeline out p) ps out"

lemma add_commands_simps [simp]:
  "add_commands out [] = out" "add_commands out (c # cs) = add_commands (add_command out c) cs"
  by (simp_all add: add_commands_def)

lemma add_pipelines_simps [simp]:
  "add_pipelines out [] = out" "add_pipelines out (p # ps) = add_pipelines (add_pipeline out p) ps"
  by (simp_all add: add_pipelines_def)

section \<open>One command\<close>

definition stops :: "token list \<Rightarrow> bool" where
  "stops ts \<longleftrightarrow> ts = [] \<or> (tk_type (hd ts) \<noteq> TOKEN_WORD \<and> \<not> is_redirect (tk_type (hd ts)))"

definition with_items :: "sh_line \<Rightarrow> token list \<Rightarrow> redirect list \<Rightarrow> sh_line" where
  "with_items out ws rs = out\<lparr>ln_words := ln_words out @ ws, ln_redirects := ln_redirects out @ rs\<rparr>"

definition counted :: "sh_command \<Rightarrow> token list \<Rightarrow> redirect list \<Rightarrow> sh_command" where
  "counted c ws rs = c\<lparr>cm_word_count := cm_word_count c + length ws, cm_redirect_count := cm_redirect_count c + length rs\<rparr>"

text \<open>The redirections of the command being read are the last ones of the table.\<close>

definition open_command :: "sh_line \<Rightarrow> sh_command \<Rightarrow> bool" where
  "open_command out c \<longleftrightarrow> cm_redirect_start c + cm_redirect_count c = length (ln_redirects out) \<and> no_clash (redirects_of out c)"

lemma open_redirects: "open_command out c \<Longrightarrow> redirects_of out c = drop (cm_redirect_start c) (ln_redirects out)"
  by (auto simp: open_command_def redirects_of_def)

lemma open_word: "open_command (out\<lparr>ln_words := ws\<rparr>) (c\<lparr>cm_word_count := n\<rparr>) = open_command out c"
  by (simp add: open_command_def redirects_of_def)

lemma open_redirect:
  assumes "open_command out c"
  shows "redirects_of (out\<lparr>ln_redirects := ln_redirects out @ [r]\<rparr>) (c\<lparr>cm_redirect_count := cm_redirect_count c + 1\<rparr>)
      = redirects_of out c @ [r]"
    and "open_command (out\<lparr>ln_redirects := ln_redirects out @ [r]\<rparr>) (c\<lparr>cm_redirect_count := cm_redirect_count c + 1\<rparr>)
      \<longleftrightarrow> (\<forall>seen\<in>set (redirects_of out c). \<not> clashes seen r)"
proof -
  have len: "cm_redirect_start c + cm_redirect_count c = length (ln_redirects out)" using assms by (simp add: open_command_def)
  then have "length (drop (cm_redirect_start c) (ln_redirects out)) = cm_redirect_count c" by simp
  with len show eq: "redirects_of (out\<lparr>ln_redirects := ln_redirects out @ [r]\<rparr>) (c\<lparr>cm_redirect_count := cm_redirect_count c + 1\<rparr>)
      = redirects_of out c @ [r]"
    by (simp add: redirects_of_def)
  show "open_command (out\<lparr>ln_redirects := ln_redirects out @ [r]\<rparr>) (c\<lparr>cm_redirect_count := cm_redirect_count c + 1\<rparr>)
      \<longleftrightarrow> (\<forall>seen\<in>set (redirects_of out c). \<not> clashes seen r)"
    using assms eq by (simp add: open_command_def sorted_wrt_append)
qed

lemma with_items_more:
  "with_items (out\<lparr>ln_words := ln_words out @ [t]\<rparr>) ws rs = with_items out (t # ws) rs"
  "with_items (out\<lparr>ln_redirects := ln_redirects out @ [r]\<rparr>) ws rs = with_items out ws (r # rs)"
  "counted (c\<lparr>cm_word_count := cm_word_count c + 1\<rparr>) ws rs = counted c (t # ws) rs"
  "counted (c\<lparr>cm_redirect_count := cm_redirect_count c + 1\<rparr>) ws rs = counted c ws (r # rs)"
  by (simp_all add: with_items_def counted_def)

lemma parse_items_sound:
  "parse_items ts out c = Inr (rest, out', c') \<Longrightarrow> open_command out c \<Longrightarrow>
   \<exists>us ws rs. ts = us @ rest \<and> items us ws rs \<and> no_clash (redirects_of out c @ rs) \<and> stops rest \<and>
     out' = with_items out ws rs \<and> c' = counted c ws rs"
proof (induction ts out c rule: parse_items.induct)
  case (1 out c)
  then show ?case
    by (auto simp: stops_def with_items_def counted_def open_command_def intro!: exI [of _ "[]"] items_done)
next
  case (2 t ts out c)
  consider "tk_type t = TOKEN_WORD" | "tk_type t \<noteq> TOKEN_WORD" "is_redirect (tk_type t)"
    | "tk_type t \<noteq> TOKEN_WORD" "\<not> is_redirect (tk_type t)" by blast
  then show ?case
  proof cases
    case 1
    let ?o = "out\<lparr>ln_words := ln_words out @ [t]\<rparr>" and ?c = "c\<lparr>cm_word_count := cm_word_count c + 1\<rparr>"
    have same: "redirects_of ?o ?c = redirects_of out c" by (simp add: redirects_of_def)
    obtain us ws rs where "ts = us @ rest" "items us ws rs" "no_clash (redirects_of ?o ?c @ rs)" "stops rest"
      "out' = with_items ?o ws rs" "c' = counted ?c ws rs"
      using "2.IH"(1) [OF 1] "2.prems" 1 open_word by auto
    then show ?thesis
      using 1 same with_items_more(1) [of out t] with_items_more(3) [of c _ _ t]
      by (intro exI [of _ "t # us"] exI [of _ "t # ws"] exI [of _ rs]) (simp add: items_word)
  next
    case 2
    then obtain p ts' where ts: "ts = p # ts'" and p: "tk_type p = TOKEN_WORD"
      and nc: "\<not> (\<exists>seen\<in>set (redirects_of out c). clashes seen (redirect_of t p))"
      using "2.prems"(1) by (auto simp: Let_def redirect_of_def split: if_splits list.splits)
    let ?o = "out\<lparr>ln_redirects := ln_redirects out @ [redirect_of t p]\<rparr>"
    let ?c = "c\<lparr>cm_redirect_count := cm_redirect_count c + 1\<rparr>"
    have "parse_items ts' ?o ?c = Inr (rest, out', c')"
      using "2.prems"(1) 2 ts p nc by (simp add: redirect_of_def)
    moreover have "open_command ?o ?c" using open_redirect(2) [OF "2.prems"(2)] nc by blast
    ultimately obtain us ws rs where "ts' = us @ rest" "items us ws rs" "no_clash (redirects_of ?o ?c @ rs)" "stops rest"
      "out' = with_items ?o ws rs" "c' = counted ?c ws rs"
      using "2.IH"(2) [OF 2 ts _ _ _] p nc by (auto simp: redirect_of_def)
    then show ?thesis
      using 2 ts p open_redirect(1) [OF "2.prems"(2)] with_items_more(2) [of out "redirect_of t p"]
        with_items_more(4) [of c _ _ "redirect_of t p"]
      by (intro exI [of _ "t # p # us"] exI [of _ ws] exI [of _ "redirect_of t p # rs"]) (simp add: items_redirect)
  next
    case 3
    then show ?thesis
      using "2.prems" by (intro exI [of _ "[]"])
        (auto simp: stops_def with_items_def counted_def open_command_def items_done)
  qed
qed

lemma parse_items_complete:
  "items us ws rs \<Longrightarrow> open_command out c \<Longrightarrow> no_clash (redirects_of out c @ rs) \<Longrightarrow> stops rest \<Longrightarrow>
   parse_items (us @ rest) out c = Inr (rest, with_items out ws rs, counted c ws rs)"
proof (induction us ws rs arbitrary: out c rule: items.induct)
  case items_done
  then show ?case by (cases rest) (auto simp: stops_def with_items_def counted_def)
next
  case (items_word t ts ws rs)
  then show ?case
    using items_word.IH [of "out\<lparr>ln_words := ln_words out @ [t]\<rparr>" "c\<lparr>cm_word_count := cm_word_count c + 1\<rparr>"]
      with_items_more(1) [of out t] with_items_more(3) [of c _ _ t]
    by (simp add: redirects_of_def open_command_def)
next
  case (items_redirect t p ts ws rs)
  let ?r = "redirect_of t p"
  have "tk_type t \<noteq> TOKEN_WORD" using items_redirect.hyps(1) by (auto simp: is_redirect_def)
  moreover have "\<not> (\<exists>seen\<in>set (redirects_of out c). clashes seen ?r)"
    using items_redirect.prems(2) by (simp add: sorted_wrt_append)
  ultimately show ?case
    using items_redirect.IH [of "out\<lparr>ln_redirects := ln_redirects out @ [?r]\<rparr>" "c\<lparr>cm_redirect_count := cm_redirect_count c + 1\<rparr>"]
      items_redirect.hyps items_redirect.prems open_redirect [OF items_redirect.prems(1), of ?r]
      with_items_more(2) [of out ?r] with_items_more(4) [of c _ _ ?r]
    by (simp add: redirect_of_def Let_def)
qed

section \<open>Pipelines\<close>

lemma open_new: "open_command out (new_command out)" "redirects_of out (new_command out) = []"
  by (simp_all add: open_command_def new_command_def redirects_of_def)

lemma add_command_eq:
  "(with_items out ws rs)\<lparr>ln_commands := ln_commands (with_items out ws rs) @ [counted (new_command out) ws rs]\<rparr>
   = add_command out (ws, rs)"
  by (simp add: with_items_def counted_def new_command_def add_command_def)

definition ends_pipe :: "token list \<Rightarrow> bool" where
  "ends_pipe ts \<longleftrightarrow> stops ts \<and> (ts \<noteq> [] \<longrightarrow> tk_type (hd ts) \<noteq> TOKEN_PIPE)"

lemma counted_new: "cm_word_count (counted (new_command out) ws rs) = length ws"
  by (simp add: counted_def new_command_def)

text \<open>One turn of the loop over the commands.\<close>

lemma parse_commands_step:
  assumes "command us (ws, rs)" "stops rest"
  shows "parse_commands (us @ rest) out p =
    (if rest \<noteq> [] \<and> tk_type (hd rest) = TOKEN_PIPE
     then parse_commands (tl rest) (add_command out (ws, rs)) (p\<lparr>pl_command_count := pl_command_count p + 1\<rparr>)
     else Inr (rest, add_command out (ws, rs), p\<lparr>pl_command_count := pl_command_count p + 1\<rparr>))"
proof -
  have "items us ws rs" "ws \<noteq> []" "no_clash rs" using assms(1) by (auto elim: command.cases)
  then have "parse_items (us @ rest) out (new_command out) = Inr (rest, with_items out ws rs, counted (new_command out) ws rs)"
    using parse_items_complete [OF _ open_new(1) _ assms(2)] open_new(2) by simp
  then show ?thesis
    using \<open>ws \<noteq> []\<close> by (subst parse_commands.simps) (simp add: Let_def counted_new add_command_eq)
qed

lemma parse_commands_cases:
  assumes "parse_commands ts out p = Inr x"
  obtains us ws rs rest where "ts = us @ rest" "command us (ws, rs)" "stops rest"
proof -
  obtain rest out' c where it: "parse_items ts out (new_command out) = Inr (rest, out', c)" "cm_word_count c \<noteq> 0"
    using assms by (subst (asm) parse_commands.simps) (auto split: sum.splits if_splits)
  obtain us ws rs where u: "ts = us @ rest" "items us ws rs" "no_clash rs" "stops rest" "c = counted (new_command out) ws rs"
    using parse_items_sound [OF it(1) open_new(1)] open_new(2) by auto
  then have "command us (ws, rs)" using it(2) by (intro command_items) (auto simp: counted_new)
  then show thesis using that u(1,4) by blast
qed

lemma parse_commands_sound:
  "parse_commands ts out p = Inr (rest, out', p') \<Longrightarrow>
   \<exists>us cs. ts = us @ rest \<and> piped us cs \<and> ends_pipe rest \<and> out' = add_commands out cs \<and>
     p' = p\<lparr>pl_command_count := pl_command_count p + length cs\<rparr>"
proof (induction "length ts" arbitrary: ts out p rule: less_induct)
  case less
  obtain us ws rs more' where u: "ts = us @ more'" "command us (ws, rs)" "stops more'"
    using parse_commands_cases [OF less.prems] by metis
  note step = parse_commands_step [OF u(2,3), of out p, folded u(1)]
  let ?p = "p\<lparr>pl_command_count := pl_command_count p + 1\<rparr>"
  show ?case
  proof (cases "more' \<noteq> [] \<and> tk_type (hd more') = TOKEN_PIPE")
    case True
    then obtain t vs where more': "more' = t # vs" "tk_type t = TOKEN_PIPE" by (cases more') auto
    have "parse_commands vs (add_command out (ws, rs)) ?p = Inr (rest, out', p')"
      using step less.prems more' by simp
    then obtain ws' cs where "vs = ws' @ rest" "piped ws' cs" "ends_pipe rest" "out' = add_commands (add_command out (ws, rs)) cs"
      "p' = ?p\<lparr>pl_command_count := pl_command_count ?p + length cs\<rparr>"
      using less.hyps [of vs "add_command out (ws, rs)" ?p] u(1) more' by auto
    then show ?thesis
      using u more' piped_more [OF u(2) more'(2)]
      by (intro exI [of _ "us @ t # ws'"] exI [of _ "(ws, rs) # cs"]) simp
  next
    case False
    then show ?thesis
      using step less.prems u piped_one [OF u(2)]
      by (intro exI [of _ us] exI [of _ "[(ws, rs)]"]) (auto simp: ends_pipe_def)
  qed
qed

lemma parse_commands_complete:
  "piped us cs \<Longrightarrow> ends_pipe rest \<Longrightarrow>
   parse_commands (us @ rest) out p = Inr (rest, add_commands out cs, p\<lparr>pl_command_count := pl_command_count p + length cs\<rparr>)"
proof (induction us cs arbitrary: out p rule: piped.induct)
  case (piped_one ts c)
  then show ?case
    using parse_commands_step [of ts "fst c" "snd c" rest out p] by (auto simp: ends_pipe_def)
next
  case (piped_more ts c t us cs)
  have "stops (t # us @ rest)" using piped_more.hyps(2) by (simp add: stops_def is_redirect_def)
  then show ?case
    using parse_commands_step [of ts "fst c" "snd c" "t # us @ rest" out p] piped_more
    by simp
qed

section \<open>Lines\<close>

lemma piped_nonempty: "piped us cs \<Longrightarrow> us \<noteq> []"
  by (induction us cs rule: piped.induct) (auto elim!: command.cases items.cases)

lemma add_commands_malformed [simp]: "ln_malformed (add_commands out cs) = ln_malformed out" "ln_pipelines (add_commands out cs) = ln_pipelines out"
  by (induction cs arbitrary: out) (simp_all add: add_command_def)

lemma add_pipelines_malformed [simp]: "ln_malformed (add_pipelines out ps) = ln_malformed out"
  by (induction ps arbitrary: out) (simp_all add: add_pipeline_def Let_def)

lemma join_of_ends: "join_of (tk_type t) \<noteq> None \<Longrightarrow> ends_pipe (t # us)"
  by (auto simp: join_of_def ends_pipe_def stops_def is_redirect_def split: if_splits)

lemma parse_pipelines_step:
  assumes "piped us cs" "ends_pipe rest"
  shows "parse_pipelines (us @ rest) j out =
    (case rest of
       [] \<Rightarrow> add_pipeline out (j, cs)
     | t # vs \<Rightarrow>
         (case join_of (tk_type t) of
            None \<Rightarrow> malformed (add_pipeline out (j, cs))
          | Some j' \<Rightarrow>
              if vs = [] then (if j' \<noteq> JOIN_ALWAYS then malformed (add_pipeline out (j, cs)) else add_pipeline out (j, cs))
              else parse_pipelines vs j' (add_pipeline out (j, cs))))"
  using piped_nonempty [OF assms(1)] parse_commands_complete [OF assms]
  by (subst parse_pipelines.simps) (simp add: add_pipeline_def Let_def split: list.split option.split)

lemma parse_items_bad: "parse_items ts out c = Inl bad \<Longrightarrow> ln_malformed bad"
  by (induction ts out c rule: parse_items.induct) (auto simp: Let_def split: if_splits list.splits)

lemma parse_commands_bad: "parse_commands ts out p = Inl bad \<Longrightarrow> ln_malformed bad"
proof (induction ts out p rule: parse_commands.induct)
  case (1 ts out p)
  show ?case
  proof (cases "parse_items ts out (new_command out)")
    case (Inl x)
    then show ?thesis using 1(2) parse_items_bad [OF Inl] parse_commands.simps [of ts out p] by simp
  next
    case (Inr x)
    obtain us ou c where x: "x = (us, ou, c)" by (cases x)
    show ?thesis
      using 1(1) [OF Inr x [symmetric] refl] 1(2) Inr x parse_commands.simps [of ts out p]
      by (auto simp: Let_def split: if_splits)
  qed
qed

lemma parse_pipelines_sound:
  "ts \<noteq> [] \<Longrightarrow> \<not> ln_malformed (parse_pipelines ts j out) \<Longrightarrow>
   \<exists>ps. joined j ts ps \<and> parse_pipelines ts j out = add_pipelines out ps"
proof (induction "length ts" arbitrary: ts j out rule: less_induct)
  case less
  let ?p = "\<lparr>pl_command_start = length (ln_commands out), pl_command_count = 0, pl_join = j\<rparr>"
  obtain rest out' p' where "parse_commands ts out ?p = Inr (rest, out', p')"
  proof (cases "parse_commands ts out ?p")
    case (Inl bad)
    then show ?thesis using less.prems parse_commands_bad [OF Inl] parse_pipelines.simps [of ts j out] by simp
  qed (metis prod_cases3)
  then obtain us cs where u: "ts = us @ rest" "piped us cs" "ends_pipe rest" using parse_commands_sound by metis
  note step = parse_pipelines_step [OF u(2,3), of j out, folded u(1)]
  show ?case
  proof (cases rest)
    case Nil
    then show ?thesis using step u joined_one [OF u(2)] by (intro exI [of _ "[(j, cs)]"]) simp
  next
    case (Cons t vs)
    then obtain j' where j': "join_of (tk_type t) = Some j'" using step less.prems by (auto split: option.splits)
    show ?thesis
    proof (cases "vs = []")
      case True
      then have "j' = JOIN_ALWAYS" using step less.prems Cons j' by (simp split: if_splits)
      then have "tk_type t = TOKEN_SEMI" using j' by (simp add: join_of_def split: if_splits)
      then show ?thesis
        using step u Cons True j' \<open>j' = JOIN_ALWAYS\<close> joined_semi [OF u(2)] by (intro exI [of _ "[(j, cs)]"]) simp
    next
      case False
      then have eq: "parse_pipelines ts j out = parse_pipelines vs j' (add_pipeline out (j, cs))" using step Cons j' by simp
      then obtain ps where "joined j' vs ps" "parse_pipelines vs j' (add_pipeline out (j, cs)) = add_pipelines (add_pipeline out (j, cs)) ps"
        using less.hyps [of vs j' "add_pipeline out (j, cs)"] less.prems(2) u(1) Cons False by auto
      then show ?thesis
        using eq u Cons joined_more [OF u(2) j'] by (intro exI [of _ "(j, cs) # ps"]) simp
    qed
  qed
qed

lemma joined_nonempty: "joined j ts ps \<Longrightarrow> ts \<noteq> []"
  by (induction rule: joined.induct) (auto dest: piped_nonempty)

lemma parse_pipelines_complete:
  "joined j ts ps \<Longrightarrow> parse_pipelines ts j out = add_pipelines out ps"
proof (induction j ts ps arbitrary: out rule: joined.induct)
  case (joined_one ts cs j)
  then show ?case using parse_pipelines_step [OF joined_one, of "[]" j out] by (simp add: ends_pipe_def stops_def)
next
  case (joined_semi ts cs t j)
  then have "join_of (tk_type t) = Some JOIN_ALWAYS" by (simp add: join_of_def)
  then show ?case
    using parse_pipelines_step [OF joined_semi(1), of "[t]" j out] join_of_ends [of t "[]"] by simp
next
  case (joined_more ts cs t j' us ps j)
  then show ?case
    using parse_pipelines_step [OF joined_more(1), of "t # us" j out] join_of_ends [of t us] joined_nonempty [OF joined_more(3)] by simp
qed

section \<open>The tables as a tree\<close>

definition command_tree :: "sh_line \<Rightarrow> sh_command \<Rightarrow> cmd_tree" where
  "command_tree l c = (words_of l c, redirects_of l c)"

definition nest :: "sh_line \<Rightarrow> pipe_tree list" where
  "nest l = map (\<lambda>p. (pl_join p, map (command_tree l) (take (pl_command_count p) (drop (pl_command_start p) (ln_commands l)))))
     (ln_pipelines l)"

definition ranges_ok :: "sh_line \<Rightarrow> bool" where
  "ranges_ok l \<longleftrightarrow>
     (\<forall>c\<in>set (ln_commands l). cm_word_start c + cm_word_count c \<le> length (ln_words l) \<and>
        cm_redirect_start c + cm_redirect_count c \<le> length (ln_redirects l)) \<and>
     (\<forall>p\<in>set (ln_pipelines l). pl_command_start p + pl_command_count p \<le> length (ln_commands l))"

lemma add_command_tree:
  assumes "ranges_ok l"
  shows "ranges_ok (add_command l c)"
    "map (command_tree (add_command l c)) (ln_commands (add_command l c)) = map (command_tree l) (ln_commands l) @ [c]"
  using assms by (auto simp: ranges_ok_def add_command_def command_tree_def words_of_def redirects_of_def)

lemma add_commands_tree:
  assumes "ranges_ok l"
  shows "ranges_ok (add_commands l cs)"
    "map (command_tree (add_commands l cs)) (ln_commands (add_commands l cs)) = map (command_tree l) (ln_commands l) @ cs"
    "length (ln_commands (add_commands l cs)) = length (ln_commands l) + length cs"
  using assms
proof (induction cs arbitrary: l)
  case (Cons c cs)
  case 1
  then show ?case using Cons add_command_tree(1) by simp
  case 2
  then show ?case using Cons add_command_tree by simp
  case 3
  then show ?case using Cons add_command_tree(1) [of l c] by (simp add: add_command_def)
qed simp_all

lemma nest_alt:
  "nest l = map (\<lambda>p. (pl_join p, take (pl_command_count p) (drop (pl_command_start p) (map (command_tree l) (ln_commands l)))))
     (ln_pipelines l)"
  by (simp add: nest_def take_map drop_map)

lemma add_pipeline_tree:
  assumes "ranges_ok l"
  shows "ranges_ok (add_pipeline l p)" "nest (add_pipeline l p) = nest l @ [p]"
proof -
  let ?m = "add_commands l (snd p)"
  note m = add_commands_tree [OF assms, of "snd p"]
  have pipes: "ln_pipelines ?m = ln_pipelines l" by simp
  show "ranges_ok (add_pipeline l p)"
    using m(1,3) by (auto simp: add_pipeline_def ranges_ok_def Let_def)
  have tree: "command_tree (?m\<lparr>ln_pipelines := x\<rparr>) = command_tree ?m" for x
    by (auto simp: command_tree_def words_of_def redirects_of_def)
  have "length (map (command_tree l) (ln_commands l)) = length (ln_commands l)" by simp
  then show "nest (add_pipeline l p) = nest l @ [p]"
    using assms m(2) pipes
    by (auto simp: nest_alt add_pipeline_def Let_def tree ranges_ok_def)
qed

lemma add_pipelines_tree: "ranges_ok l \<Longrightarrow> nest (add_pipelines l ps) = nest l @ ps"
  by (induction ps arbitrary: l) (simp_all add: add_pipeline_tree)

lemma nest_empty: "ranges_ok empty_line" "nest empty_line = []"
  by (simp_all add: ranges_ok_def empty_line_def nest_def)


end
