(* ===== verification/ShellTokens.thy ===== *)
theory ShellTokens
  imports ShellGrammar
begin

text \<open>
  The tokenizer loses nothing of a line: its tokens cover the line in order, with only blanks between
  them, each word a run of characters whose quotes and escapes close. A line is refused
  only for a quote that never closes or for being blank. The expander leaves text without a dollar sign
  as it is, which is the shortcut the text of a command takes.
\<close>

section \<open>Words\<close>

text \<open>Reading a word character by character: the state of quoting, or nothing when the word is over.\<close>

datatype quoting = Plain | Escaped | Single | Double | DoubleEscaped

fun read_char :: "quoting \<Rightarrow> char \<Rightarrow> quoting option" where
  "read_char Plain c =
     (if is_blank c then None
      else if c = backslash then Some Escaped
      else if c = single_quote then Some Single
      else if c = double_quote then Some Double
      else if isOperatorStart c \<and> c \<noteq> CHR ''&'' then None
      else Some Plain)"
| "read_char Escaped c = Some Plain"
| "read_char Single c = Some (if c = single_quote then Plain else Single)"
| "read_char Double c = Some (if c = double_quote then Plain else if c = backslash then DoubleEscaped else Double)"
| "read_char DoubleEscaped c = Some Double"

fun read_word :: "quoting \<Rightarrow> string \<Rightarrow> quoting option" where
  "read_word q [] = Some q"
| "read_word q (c # cs) = (case read_char q c of None \<Rightarrow> None | Some q' \<Rightarrow> read_word q' cs)"

definition whole_word :: "string \<Rightarrow> bool" where
  "whole_word s \<longleftrightarrow> read_word Plain s = Some Plain \<or> read_word Plain s = Some Escaped"

lemma span_Cons: "i < j \<Longrightarrow> i < length line \<Longrightarrow> span line i (j - i) = line ! i # span line (i + 1) (j - (i + 1))"
  by (simp add: span_def Cons_nth_drop_Suc [symmetric] take_Cons' )

lemma span_split: "i \<le> k \<Longrightarrow> k \<le> j \<Longrightarrow> span line i (j - i) = span line i (k - i) @ span line k (j - k)"
  using take_add [of "k - i" "j - k" "drop i line"] by (simp add: span_def)

lemma read_word_append: "read_word q (xs @ ys) = (case read_word q xs of None \<Rightarrow> None | Some q' \<Rightarrow> read_word q' ys)"
  by (induction xs arbitrary: q) (auto split: option.split)

lemma quote_end_read:
  assumes "quote_end line c i = k" "k < length line" "c = single_quote \<and> q = Single \<or> c = double_quote \<and> q = Double"
  shows "read_word q (span line i (k - i)) = Some q \<and> line ! k = c"
  using assms
proof (induction line c i rule: quote_end.induct)
  case (1 line c i)
  note step = quote_end.simps [of line c i]
  show ?case
  proof (cases "i < length line \<and> line ! i \<noteq> c")
    case False
    then show ?thesis using 1(3,4) step by (auto simp: span_def split: if_splits)
  next
    case True
    note here = this
    show ?thesis
    proof (cases "c = double_quote \<and> line ! i = backslash \<and> i + 1 < length line")
      case True
      then have k: "quote_end line c (i + 2) = k" using here 1(3) step by simp
      then have "i + 2 \<le> k" using quote_end_ge [of "i + 2" line c] by simp
      then have "span line i (k - i) = [line ! i, line ! (i + 1)] @ span line (i + 2) (k - (i + 2))"
        using here True span_Cons [of i k line] span_Cons [of "i + 1" k line] by simp
      then show ?thesis using 1(1) [OF here True k 1(4,5)] True 1(5) by auto
    next
      case False
      then have k: "quote_end line c (i + 1) = k" using here 1(3) step by auto
      then have "i + 1 \<le> k" using quote_end_ge [of "i + 1" line c] by simp
      moreover have "q = Double \<Longrightarrow> line ! i \<noteq> backslash" using False 1(4,5) calculation by auto
      ultimately show ?thesis
        using 1(2) [OF here False k 1(4,5)] 1(5) here span_Cons [of i k line] by auto
    qed
  qed
qed

lemma word_end_le: "word_end line i = Some j \<Longrightarrow> i \<le> length line \<Longrightarrow> j \<le> length line"
proof (induction line i rule: word_end.induct)
  case (1 line i)
  show ?case
    using 1 word_end.simps [of line i] by (auto simp: Let_def split: if_splits)
qed

lemma word_end_read:
  "word_end line i = Some j \<Longrightarrow> i \<le> length line \<Longrightarrow> whole_word (span line i (j - i))"
proof (induction line i rule: word_end.induct)
  case (1 line i)
  note step = word_end.simps [of line i]
  define c where "c = line ! i"
  have more': "whole_word (span line i (j - i))"
    if "i < k" "k \<le> j" "read_word Plain (span line i (k - i)) = Some Plain" "whole_word (span line k (j - k))" for k
    using that span_split [of i k j line] by (simp add: whole_word_def read_word_append)
  have one: "span line i (i + 1 - i) = [c]" if "i < length line"
    using that span_Cons [of i "i + 1" line] by (simp add: c_def span_def)
  have stop: "whole_word (span line i (j - i))" if "j = i" using that by (simp add: span_def whole_word_def)
  show ?case
  proof (cases "i < length line \<and> \<not> is_blank c")
    case False
    then have "j = i" using step 1(5) by (auto simp: c_def Let_def split: if_splits)
    then show ?thesis by (rule stop)
  next
    case here: True
    consider "c = backslash" | "c = single_quote \<or> c = double_quote" | "c = CHR ''&''"
      | "c \<noteq> backslash" "\<not> (c = single_quote \<or> c = double_quote)" "c \<noteq> CHR ''&''" by blast
    then show ?thesis
    proof cases
      case bs: 1
      show ?thesis
      proof (cases "i + 1 < length line")
        case True
        then have w: "word_end line (i + 2) = Some j" using step 1(5) here bs by (simp add: c_def Let_def)
        moreover have "i + 2 \<le> j" using word_end_ge [OF w] .
        moreover have "span line i (i + 2 - i) = [c, line ! (i + 1)]"
          using True here span_Cons [of i "i + 2" line] span_Cons [of "i + 1" "i + 2" line] by (simp add: c_def span_def)
        ultimately show ?thesis
          using more' [of "i + 2"] 1(1) here bs True by (simp add: c_def)
      next
        case False
        then have "word_end line (i + 1) = Some j" using step 1(5) here bs by (simp add: c_def Let_def)
        then have "j = i + 1" using False here word_end.simps [of line "i + 1"] by auto
        then show ?thesis using one here bs by (simp add: whole_word_def)
      qed
    next
      case q: 2
      define k where "k = quote_end line c (i + 1)"
      have ne: "c \<noteq> backslash" using q by auto
      have w: "k < length line" "word_end line (k + 1) = Some j"
        using step 1(5) here q ne by (auto simp: c_def Let_def k_def split: if_splits)
      have k: "i + 1 \<le> k" using quote_end_ge [of "i + 1" line c] by (simp add: k_def)
      obtain st where st: "c = single_quote \<and> st = Single \<or> c = double_quote \<and> st = Double" using q by blast
      then have "read_word st (span line (i + 1) (k - (i + 1))) = Some st" "line ! k = c"
        using quote_end_read [of line c "i + 1" k st] w(1) by (simp_all add: k_def)
      moreover have "span line i (k + 1 - i) = c # span line (i + 1) (k - (i + 1)) @ [line ! k]"
        using k w(1) here span_Cons [of i "k + 1" line] span_split [of "i + 1" k "k + 1" line] span_Cons [of k "k + 1" line]
        by (simp add: c_def span_def)
      ultimately have "read_word Plain (span line i (k + 1 - i)) = Some Plain"
        using st here by (auto simp: read_word_append)
      moreover have "whole_word (span line (k + 1) (j - (k + 1)))"
        using 1(2) here q ne w by (simp add: c_def k_def)
      ultimately show ?thesis using more' [of "k + 1"] k word_end_ge [OF w(2)] by simp
    next
      case amp: 3
      then have "j = i \<or> word_end line (i + 1) = Some j" using step 1(5) here by (auto simp: c_def Let_def split: if_splits)
      then show ?thesis
      proof
        assume w: "word_end line (i + 1) = Some j"
        have "\<not> (i + 1 < length line \<and> line ! (i + 1) = CHR ''&'')"
        proof
          assume "i + 1 < length line \<and> line ! (i + 1) = CHR ''&''"
          then have "j = i" using step 1(5) here amp by (simp add: c_def Let_def)
          then show False using word_end_ge [OF w] by simp
        qed
        then have "whole_word (span line (i + 1) (j - (i + 1)))"
          using 1(3) here amp w by (simp add: c_def)
        then show ?thesis using more' [of "i + 1"] one here amp word_end_ge [OF w] by simp
      qed (rule stop)
    next
      case plain: 4
      show ?thesis
      proof (cases "isOperatorStart c")
        case True
        then have "j = i" using step 1(5) here plain by (simp add: c_def Let_def)
        then show ?thesis by (rule stop)
      next
        case False
        then have w: "word_end line (i + 1) = Some j" using step 1(5) here plain by (simp add: c_def Let_def)
        then have "whole_word (span line (i + 1) (j - (i + 1)))"
          using 1(4) here plain False by (simp add: c_def)
        then show ?thesis using more' [of "i + 1"] one here plain False word_end_ge [OF w] by simp
      qed
    qed
  qed
qed


text \<open>A word that cannot be read to its end leaves a quote open at the end of the line.\<close>

definition unclosed :: "string \<Rightarrow> bool" where
  "unclosed s \<longleftrightarrow> read_word Plain s \<in> Some ` {Single, Double, DoubleEscaped}"

lemma quote_end_open:
  assumes "length line \<le> quote_end line c i" "c = single_quote \<and> q = Single \<or> c = double_quote \<and> q = Double"
  shows "read_word q (drop i line) \<in> Some ` {Single, Double, DoubleEscaped}"
  using assms
proof (induction line c i rule: quote_end.induct)
  case (1 line c i)
  note step = quote_end.simps [of line c i]
  show ?case
  proof (cases "i < length line")
    case False
    then show ?thesis using 1(4) by auto
  next
    case i: True
    then have here: "i < length line \<and> line ! i \<noteq> c" using 1(3) step by (auto split: if_splits)
    have d: "drop i line = line ! i # drop (i + 1) line" using i by (simp add: Cons_nth_drop_Suc)
    show ?thesis
    proof (cases "c = double_quote \<and> line ! i = backslash \<and> i + 1 < length line")
      case True
      then have "drop (i + 1) line = line ! (i + 1) # drop (i + 2) line" by (simp add: Cons_nth_drop_Suc)
      moreover have "length line \<le> quote_end line c (i + 2)" using 1(3) step here True by simp
      ultimately show ?thesis using 1(1) [OF here True _ 1(4)] d True 1(4) by auto
    next
      case False
      then have "length line \<le> quote_end line c (i + 1)" using 1(3) step here by auto
      then have next_state: "read_word q (drop (i + 1) line) \<in> Some ` {Single, Double, DoubleEscaped}"
        using 1(2) [OF here False _ 1(4)] by blast
      show ?thesis
      proof (cases "c = double_quote \<and> line ! i = backslash")
        case True
        then have "drop (i + 1) line = []" using False by simp
        then show ?thesis using d True 1(4) by auto
      next
        case False
        then have "read_char q (line ! i) = Some q" using here 1(4) by auto
        then show ?thesis using d next_state by simp
      qed
    qed
  qed
qed

lemma unclosed_more:
  assumes "read_word Plain (span line i (k - i)) = Some Plain" "i \<le> k" "unclosed (drop k line)"
  shows "unclosed (drop i line)"
proof -
  have "drop i line = span line i (k - i) @ drop k line"
    using assms(2) append_take_drop_id [of "k - i" "drop i line"] by (simp add: span_def)
  then show ?thesis using assms(1,3) by (simp add: unclosed_def read_word_append)
qed

lemma word_end_open: "word_end line i = None \<Longrightarrow> unclosed (drop i line)"
proof (induction line i rule: word_end.induct)
  case (1 line i)
  note step = word_end.simps [of line i]
  define c where "c = line ! i"
  have here: "i < length line" "\<not> is_blank c" using step 1(5) by (auto simp: c_def Let_def split: if_splits)
  have one: "read_word Plain (span line i (i + 1 - i)) = read_word Plain [c]"
    using here span_Cons [of i "i + 1" line] by (simp add: c_def span_def)
  consider "c = backslash" | "c = single_quote \<or> c = double_quote" | "c = CHR ''&''"
    | "c \<noteq> backslash" "\<not> (c = single_quote \<or> c = double_quote)" "c \<noteq> CHR ''&''" by blast
  then show ?case
  proof cases
    case bs: 1
    show ?thesis
    proof (cases "i + 1 < length line")
      case True
      then have w: "word_end line (i + 2) = None" using step 1(5) here bs by (simp add: c_def Let_def)
      moreover have "span line i (i + 2 - i) = [c, line ! (i + 1)]"
        using True here span_Cons [of i "i + 2" line] span_Cons [of "i + 1" "i + 2" line] by (simp add: c_def span_def)
      ultimately show ?thesis
        using unclosed_more [of line i "i + 2"] 1(1) here bs True by (simp add: c_def)
    next
      case False
      then have "word_end line (i + 1) = None" using step 1(5) here bs by (simp add: c_def Let_def)
      then show ?thesis using False word_end.simps [of line "i + 1"] by simp
    qed
  next
    case q: 2
    define k where "k = quote_end line c (i + 1)"
    have ne: "c \<noteq> backslash" using q by auto
    obtain st where st: "c = single_quote \<and> st = Single \<or> c = double_quote \<and> st = Double" using q by blast
    show ?thesis
    proof (cases "length line \<le> k")
      case True
      then have "read_word st (drop (i + 1) line) \<in> Some ` {Single, Double, DoubleEscaped}"
        using quote_end_open [of line c "i + 1" st] st by (simp add: k_def)
      moreover have "read_word Plain (drop i line) = read_word st (drop (i + 1) line)"
        using here st by (auto simp: c_def Cons_nth_drop_Suc [symmetric])
      ultimately show ?thesis by (simp add: unclosed_def)
    next
      case False
      then have w: "k < length line" "word_end line (k + 1) = None"
        using step 1(5) here q ne by (auto simp: c_def Let_def k_def split: if_splits)
      have k: "i + 1 \<le> k" using quote_end_ge [of "i + 1" line c] by (simp add: k_def)
      have "read_word st (span line (i + 1) (k - (i + 1))) = Some st" "line ! k = c"
        using quote_end_read [of line c "i + 1" k st] w(1) st by (simp_all add: k_def)
      moreover have "span line i (k + 1 - i) = c # span line (i + 1) (k - (i + 1)) @ [line ! k]"
        using k w(1) here span_Cons [of i "k + 1" line] span_split [of "i + 1" k "k + 1" line] span_Cons [of k "k + 1" line]
        by (simp add: c_def span_def)
      ultimately have "read_word Plain (span line i (k + 1 - i)) = Some Plain"
        using st here by (auto simp: read_word_append)
      then show ?thesis using unclosed_more [of line i "k + 1"] 1(2) here q ne w k by (simp add: c_def k_def)
    qed
  next
    case amp: 3
    then have "\<not> (i + 1 < length line \<and> line ! (i + 1) = CHR ''&'')" "word_end line (i + 1) = None"
      using step 1(5) here by (auto simp: c_def Let_def split: if_splits)
    then have "unclosed (drop (i + 1) line)" using 1(3) here amp by (simp add: c_def)
    then show ?thesis using unclosed_more [of line i "i + 1"] one here amp by simp
  next
    case plain: 4
    then have "\<not> isOperatorStart c" "word_end line (i + 1) = None"
      using step 1(5) here by (auto simp: c_def Let_def split: if_splits)
    then show ?thesis
      using unclosed_more [of line i "i + 1"] 1(4) one here plain by (simp add: c_def)
  qed
qed

section \<open>The tokens cover the line\<close>

text \<open>The characters a token of a kind may stand for; two less-than signs in a row read as one.\<close>

definition token_chars :: "token_type \<Rightarrow> string \<Rightarrow> bool" where
  "token_chars ty s =
     (case ty of
        TOKEN_WORD \<Rightarrow> s \<noteq> [] \<and> whole_word s
      | TOKEN_PIPE \<Rightarrow> s = ''|''
      | TOKEN_OR_IF \<Rightarrow> s = ''||''
      | TOKEN_AND_IF \<Rightarrow> s = ''&&''
      | TOKEN_SEMI \<Rightarrow> s = '';''
      | TOKEN_LT \<Rightarrow> s = ''<'' \<or> s = ''<<''
      | TOKEN_GT \<Rightarrow> s = ''>''
      | TOKEN_DGT \<Rightarrow> s = ''>>'')"

text \<open>From one index to another the line is the tokens in order, with blanks between them.\<close>

fun covered :: "string \<Rightarrow> nat \<Rightarrow> token list \<Rightarrow> nat \<Rightarrow> bool" where
  "covered line i [] j \<longleftrightarrow> i \<le> j \<and> j \<le> length line \<and> list_all is_blank (span line i (j - i))"
| "covered line i (t # ts) j \<longleftrightarrow>
     i \<le> tk_start t \<and> list_all is_blank (span line i (tk_start t - i)) \<and>
     tk_start t + tk_len t \<le> length line \<and>
     token_chars (tk_type t) (span line (tk_start t) (tk_len t)) \<and>
     covered line (tk_start t + tk_len t) ts j"

lemma operator_covers:
  assumes "operator_at line i = Some (ty, n)" "i < length line"
  shows "i + n \<le> length line" "token_chars ty (span line i n)"
proof -
  have one: "span line i (Suc 0) = [line ! i]" using assms(2) span_Cons [of i "i + 1" line] by (simp add: span_def)
  have two: "span line i 2 = [line ! i, line ! (i + 1)]" if "i + 1 < length line"
    using that span_Cons [of i "i + 2" line] span_Cons [of "i + 1" "i + 2" line] by (simp add: span_def)
  show "i + n \<le> length line"
    using assms by (auto simp: operator_at_def Let_def split: if_splits)
  consider "line ! i = CHR ''|''" | "line ! i = CHR ''&''" | "line ! i = CHR '';''" | "line ! i = CHR ''<''" | "line ! i = CHR ''>''"
    using assms(1) by (auto simp: operator_at_def Let_def isOperatorStart_def split: if_splits)
  then show "token_chars ty (span line i n)"
    by cases (use assms(1) one two in \<open>auto simp: operator_at_def Let_def isOperatorStart_def token_chars_def split: if_splits\<close>)
qed

lemma skip_blanks_span:
  "i \<le> length line \<Longrightarrow> skip_blanks i (drop i line) = k \<Longrightarrow> i \<le> k \<and> k \<le> length line \<and> list_all is_blank (span line i (k - i))"
proof (induction "drop i line" arbitrary: i)
  case Nil
  then show ?case by (simp add: span_def)
next
  case (Cons c cs)
  have d: "drop i line = c # cs" using Cons.hyps(2) by simp
  have l: "i < length line" by (rule ccontr) (use d in simp)
  have c: "line ! i = c" "drop (i + 1) line = cs"
    using d Cons_nth_drop_Suc [OF l] by simp_all
  show ?case
  proof (cases "is_blank c")
    case True
    then have "skip_blanks (i + 1) (drop (i + 1) line) = k" using Cons.prems(2) Cons.hyps(2) c(2) by (metis skip_blanks.simps(2))
    then have "i + 1 \<le> k \<and> k \<le> length line \<and> list_all is_blank (span line (i + 1) (k - (i + 1)))"
      using Cons.hyps(1) [of "i + 1"] c(2) l by simp
    then show ?thesis using span_Cons [of i k line] c(1) True l by simp
  next
    case False
    then have "k = i" using Cons.prems(2) Cons.hyps(2) by (metis skip_blanks.simps(2))
    then show ?thesis using l by (simp add: span_def)
  qed
qed

lemma covered_blanks:
  assumes "i \<le> k" "k \<le> length line" "list_all is_blank (span line i (k - i))" "covered line k ts j"
  shows "covered line i ts j"
proof (cases ts)
  case Nil
  then show ?thesis using assms span_split [of i k j line] by simp
next
  case (Cons t us)
  then show ?thesis using assms span_split [of i k "tk_start t" line] by auto
qed

text \<open>What a run of the loop from an index may answer: the line is covered to its end, or up to an open quote.\<close>

definition stuck :: "string \<Rightarrow> nat \<Rightarrow> bool" where
  "stuck line k \<longleftrightarrow> k < length line \<and> \<not> is_blank (line ! k) \<and> unclosed (drop k line)"

definition loop_answer :: "string \<Rightarrow> nat \<Rightarrow> token list \<Rightarrow> token list option \<Rightarrow> bool" where
  "loop_answer line i tokens r =
     (case r of
        Some ts \<Rightarrow> \<exists>us. ts = tokens @ us \<and> covered line i us (length line)
      | None \<Rightarrow> \<exists>us k. covered line i us k \<and> stuck line k)"

lemma loop_answer_token:
  assumes "i \<le> tk_start t" "list_all is_blank (span line i (tk_start t - i))" "tk_start t + tk_len t \<le> length line"
    "token_chars (tk_type t) (span line (tk_start t) (tk_len t))"
    "loop_answer line (tk_start t + tk_len t) (tokens @ [t]) r"
  shows "loop_answer line i tokens r"
proof -
  have all: "covered line i (t # us) j" if "covered line (tk_start t + tk_len t) us j" for us j
    using that assms(1-4) by simp
  show ?thesis
  proof (cases r)
    case None
    then obtain us k where "covered line (tk_start t + tk_len t) us k" "stuck line k"
      using assms(5) by (auto simp: loop_answer_def)
    then have "covered line i (t # us) k \<and> stuck line k" using all by blast
    then show ?thesis unfolding loop_answer_def None option.case by blast
  next
    case (Some ts)
    then obtain us where us: "ts = (tokens @ [t]) @ us" "covered line (tk_start t + tk_len t) us (length line)"
      using assms(5) by (auto simp: loop_answer_def)
    then have "ts = tokens @ (t # us) \<and> covered line i (t # us) (length line)" using all [OF us(2)] by simp
    then show ?thesis unfolding loop_answer_def Some option.case by blast
  qed
qed

lemma token_loop_covers: "i \<le> length line \<Longrightarrow> loop_answer line i tokens (token_loop line i tokens)"
proof (induction line i tokens rule: token_loop.induct)
  case (1 line i tokens)
  define k where "k = skip_blanks i (drop i line)"
  have k: "i \<le> k" "k \<le> length line" "list_all is_blank (span line i (k - i))"
    using skip_blanks_span [of i line k] 1(3) by (simp_all add: k_def)
  note step = token_loop.simps [of line i tokens, folded k_def, unfolded Let_def]
  have upto: "covered line i [] k" using k by simp
  show ?case
  proof (cases "k < length line")
    case False
    then have "k = length line" using k(2) by simp
    then show ?thesis using step False upto by (simp add: loop_answer_def)
  next
    case len: True
    have nb: "\<not> is_blank (line ! k)" using skip_blanks_stops [of i line k] len by (simp add: k_def)
    show ?thesis
    proof (cases "operator_at line k")
      case (Some p)
      obtain ty n where p: "p = (ty, n)" by (cases p)
      have op: "operator_at line k = Some (ty, n)" using Some p by simp
      show ?thesis
        using loop_answer_token [of i "\<lparr>tk_type = ty, tk_start = k, tk_len = n\<rparr>" line tokens "token_loop line i tokens"]
          operator_covers [OF op len] step op len k 1(2) [OF k_def len Some p [symmetric]] by simp
    next
      case None
      show ?thesis
      proof (cases "word_end line k")
        case open_end: None
        have "token_loop line i tokens = None" using step len None open_end by simp
        moreover have "stuck line k" using word_end_open [OF open_end] len nb by (simp add: stuck_def)
        ultimately show ?thesis using upto unfolding loop_answer_def by (metis option.simps(4))
      next
        case (Some j)
        have j: "k < j" "j \<le> length line" "whole_word (span line k (j - k))"
          using word_end_advances [OF len nb None Some] word_end_le [OF Some] word_end_read [OF Some] len by simp_all
        have "span line k (j - k) \<noteq> []" using j len by (simp add: span_def)
        then show ?thesis
          using loop_answer_token [of i "\<lparr>tk_type = TOKEN_WORD, tk_start = k, tk_len = j - k\<rparr>" line tokens "token_loop line i tokens"]
            j step len None Some k 1(1) [OF k_def len None Some] by (simp add: token_chars_def)
      qed
    qed
  qed
qed


section \<open>The expander\<close>

text \<open>
  Text without a dollar sign is not changed by the expander, so handing over the span of a command as it
  was typed is the same as expanding it.
\<close>

lemma expand_loop_plain: "\<not> expandable src \<Longrightarrow> expand_loop env lastexit False insingle indouble src = src"
proof (induction env lastexit False insingle indouble src rule: expand_loop.induct)
  case (2 env lastexit insingle indouble c cs)
  have cs: "\<not> expandable cs" "c \<noteq> CHR ''$''" using 2(7) by (auto simp: expandable_def)
  then have tl: "cs \<noteq> [] \<Longrightarrow> \<not> expandable (tl cs)" by (cases cs) (auto simp: expandable_def)
  show ?case
  proof (cases "c = backslash \<and> \<not> insingle \<and> cs \<noteq> []")
    case True
    then show ?thesis using 2(1) tl by simp
  next
    case False
    then show ?thesis using 2 cs by auto
  qed
qed simp

lemma expand_plain: "\<not> expandable src \<Longrightarrow> expand env src lastexit False = src"
  by (simp add: expand_def expand_loop_plain)

end
