(* ===== verification/Spec2Isabelle.thy ===== *)
theory Spec2Isabelle
  imports PdiPrelude Checksum Base64 RingBuf MsgQueue Sha256 Aes DbStore DbKey DbLayout DbLayoutFacts DbRecords DbMount DbRepack DbRefine DbCopy DbProps DbTable TaskSched TaskOrder TaskWeight TaskInv TaskPass RegexMatch Convert ConvertProps Calendar StrOps StrProps Cron Clock CronRun BigNum BigNumFacts BigNumArith BigNumDiv BigNumBytes Montgomery BigEuclid BlockHash Sha512 Sha512Props PrimeFacts Rsa RsaProps RsaKeys BigNumType TmpFs TmpFsProps TmpFsRefine TmpFsInv Vfs VfsProps VfsGuard VfsCopy ShellParser ShellGrammar ShellTokens
begin

text \<open>
  \<^bold>\<open>The PDI framework\<close> is a portable device framework in C++ (ESP8266, ESP32, Arduino Uno and POSIX
  hosts). Its portable part is under \<^verbatim>\<open>src/src\<close>, the ports are under \<^verbatim>\<open>src/devices\<close>. A device
  runs one loop that calls the task scheduler; services register tasks there and listen to events, keep
  their settings in database tables, reach files through one dispatcher of mounted file systems, and take
  commands from a shell. This development models the parts that carry state or computation of their own
  and proves what their callers rely on.

  \<^bold>\<open>Conventions.\<close> A method is a function from the state it works on to the new state and its result.
  A class is a record, an enumeration a datatype, an unsigned integer of w bits a \<open>w word\<close>, a signed
  one an \<open>int\<close> with its range or its wrap-around written out where the code depends on it. A C string is
  the list of its characters, a null pointer \<open>None\<close>. An error code is a value of \<open>pdi_err\<close>. A loop is
  recursion with a termination proof; the loops of Euclid's algorithm and of the primality test, which end
  only for some arguments, are partial functions whose answer \<open>None\<close> is not returning, and are proved to
  return. No loop takes fuel of the model's own. What the code takes from elsewhere (clock, random
  numbers, callbacks, the host's files, the session) is an argument. Allocation is taken to succeed unless
  a theory says otherwise, interrupt locks and log output are left out.

  \<^bold>\<open>Groups of theories and the sources they model\<close> (paths below \<^verbatim>\<open>src/src\<close>).

  \<^item> \<open>PdiPrelude\<close>: integer types and error codes (\<^verbatim>\<open>utility/pdi_types.h\<close>), lemmas on lists, bytes and
    words, and the simp sets the rest shares.

  \<^item> \<open>Checksum\<close>, \<open>Base64\<close> (\<^verbatim>\<open>utility/Checksum.cpp\<close>, \<^verbatim>\<open>utility/Base64.cpp\<close>): the checksum detects every
    error burst of at most 16 bits; decoding undoes encoding and stores no more than three bytes for four
    characters.

  \<^item> \<open>RingBuf\<close>, \<open>MsgQueue\<close> (\<^verbatim>\<open>utility/queue\<close>): the ring buffer behind the locale \<open>byte_fifo\<close>, and on it the
    byte-stuffed message queue, which refines a queue of messages.

  \<^item> \<open>Sha256\<close>, \<open>BlockHash\<close>, \<open>Sha512\<close>, \<open>Sha512Props\<close>, \<open>Aes\<close> (\<^verbatim>\<open>utility/crypto\<close>): the hashes give the
    same digest however a message is cut into updates, and that digest is the one of FIPS 180-4; the keyed
    hash is the one of RFC 2104; AES decryption undoes encryption, also for CTR streams taken in pieces.

  \<^item> \<open>BigNum\<close>, \<open>BigNumFacts\<close>, \<open>BigNumArith\<close>, \<open>BigNumDiv\<close>, \<open>BigNumBytes\<close>, \<open>Montgomery\<close>, \<open>BigEuclid\<close>,
    \<open>BigNumType\<close>, \<open>PrimeFacts\<close>, \<open>Rsa\<close>, \<open>RsaProps\<close>, \<open>RsaKeys\<close> (\<^verbatim>\<open>utility/crypto/asymmetric/rsa\<close>):
    arithmetic on arrays of 32-bit words is arithmetic on the numbers they stand for, Euclid's loops end,
    Montgomery powers are powers; with a valid key whose second prime is not the larger one, a signature
    verifies, and what verifies is that signature up to the modulus; the primality test accepts
    every prime and generated keys satisfy the equations signatures need.

  \<^item> \<open>DbStore\<close>, \<open>DbKey\<close>, \<open>DbLayout\<close> and the theories \<open>Db...\<close> up to \<open>DbTable\<close> (\<^verbatim>\<open>database\<close>,
    \<^verbatim>\<open>utility/Database.cpp\<close>, the EEPROM store of the POSIX port): the byte device is the locale
    \<open>db_store\<close>, with durability \<open>durable_store\<close>; over any such store the layout engine refines a map from
    table ids to records through reads, writes, clears, power cycles and mounts under changed tables; a
    damaged record is refused; copies between tiers (\<open>tier_copy\<close>) carry every readable record; the table
    registry and the compile-time budget fit the store. The locales are interpreted on the EEPROM store.

  \<^item> \<open>TaskSched\<close>, \<open>TaskOrder\<close>, \<open>TaskWeight\<close>, \<open>TaskInv\<close>, \<open>TaskPass\<close> (\<^verbatim>\<open>utility/TaskScheduler.cpp\<close>): the table
    of tasks and every call on it; an invariant all calls keep, callbacks included; the order of a pass
    (locale \<open>exchange_order\<close>); a pass serves the least-served ready task first and no ready task starves.

  \<^item> \<open>Convert\<close>, \<open>ConvertProps\<close>, \<open>Calendar\<close>, \<open>StrOps\<close>, \<open>StrProps\<close>, \<open>RegexMatch\<close>
    (\<^verbatim>\<open>utility/DataTypeConversions.cpp\<close>, \<^verbatim>\<open>utility/StringOperations.cpp\<close>, \<^verbatim>\<open>utility/RegexMatch.cpp\<close>): numbers,
    bytes and addresses read back as written; the broken-down time is that of the Gregorian calendar;
    replacement is leftmost and stays in its buffer; the matcher finds the leftmost match of the language
    of a pattern.

  \<^item> \<open>Clock\<close>, \<open>Cron\<close>, \<open>CronRun\<close> (\<^verbatim>\<open>utility/EventUtil.cpp\<close>, \<^verbatim>\<open>service_provider/time\<close>,
    \<^verbatim>\<open>service_provider/cron\<close>): listeners and the clock that raises events; a cron field matches the values it
    denotes; through the locale \<open>minute_listener\<close>, every minute the clock announces runs the due jobs once.

  \<^item> \<open>TmpFs\<close>, \<open>TmpFsProps\<close>, \<open>TmpFsRefine\<close>, \<open>TmpFsInv\<close> (\<^verbatim>\<open>interface/pdi/impl/modules/storage/TmpFs.cpp\<close>): the
    RAM file system, a vector of nodes that refines a tree of paths over every sequence of calls; what is
    written is read back.

  \<^item> \<open>Vfs\<close>, \<open>VfsProps\<close>, \<open>VfsGuard\<close>, \<open>VfsCopy\<close> (\<^verbatim>\<open>interface/pdi/impl/modules/storage/VfsDispatcher.cpp\<close>): the
    dispatcher over any backends of the interface \<open>fs_ops\<close>: a path goes to the longest mounted prefix, a
    handle back to its backend; over RAM file systems, a file is safe from sessions that may not write it,
    and a copy across mounts (locales \<open>file_backend\<close> and \<open>copy_pair\<close>, interpreted on \<open>TmpFs\<close>) is exact.

  \<^item> \<open>ShellParser\<close>, \<open>ShellGrammar\<close>, \<open>ShellTokens\<close> (\<^verbatim>\<open>service_provider/cmd/ShellParser.cpp\<close>): the tokens
    of a line cover it, and the parser accepts exactly the lines of an inductive grammar, with the tables
    of the tree it derives.

  \<^bold>\<open>Bounds.\<close> The sizes are those of the sources: 132 words for a big number, 4096 bytes and 24 nodes for
  the RAM file system, 5 mounts, 4096 bytes of EEPROM. The searches for primes give up after the source's own
  numbers of tries. Buffers given to the file system are below \<open>2 ^ 31\<close> bytes, a command line
  below \<open>2 ^ 15\<close>, the range of the indices the code keeps.

  \<^bold>\<open>Flaws that are proved\<close> stand beside the theorems they limit: a mount that fails yet stays mounted
  (\<open>DbProps\<close>), the recombination of RSA with the larger second prime (\<open>RsaProps\<close>), a rename below itself and
  an edit past 32 bits (\<open>TmpFsInv\<close>), a move that discloses an unreadable file (\<open>VfsGuard\<close>).

  \<^bold>\<open>Not modelled.\<close> The ports under \<^verbatim>\<open>src/devices\<close> other than the EEPROM array of the POSIX port, and the
  services and transports that drive sockets, radios, serial lines and pins (MQTT, HTTP, SMTP, SSH, Telnet,
  mDNS, syslog, OTA, GPIO, WiFi): their behaviour is in the hardware and network libraries they call. The web
  server and its pages, the commands of the shell and its script runner, sessions, users and the
  environment: these stand behind parameters here (\<open>fs_caller\<close>, the value of a variable). The
  synthetic file systems and the LittleFS wrapper, which format live state or call an external library.
  SHA-1, Ed25519 and Curve25519, the copies of the standard library under \<^verbatim>\<open>utility/pdistl\<close>, the
  functions with variable arguments or floating point, logging and generated resources.
\<close>

end
